(* ===== verification/Prelude.thy ===== *)
theory Prelude
  imports "HOL-Library.Word" "HOL-Library.Monad_Syntax"
begin

text \<open>
  The shared vocabulary of the kernel model: the C integer types as machine words, the kernel log
  as an event list, page arithmetic on addresses, and null-terminated linked lists.

  Conventions used by every theory of the development. A C pointer or \<^verbatim>\<open>size_t\<close> is a \<open>u64\<close> and
  \<^verbatim>\<open>NULL\<close> is \<open>0\<close>. A C function that reads or writes kernel state takes the state record and
  returns the new one. \<open>None\<close> stands for undefined behaviour of the C program (an access outside an
  object, to a freed object, to an unmapped page) or, for loops written with
  \<^theory_text>\<open>partial_function\<close>, for a loop that never returns; an error the code reports by a return
  value (\<^verbatim>\<open>NULL\<close>, \<^verbatim>\<open>0\<close>) is an ordinary value.
\<close>

unbundle bit_operations_syntax

named_theorems page_arith

type_synonym u8 = "8 word"
type_synonym u16 = "16 word"
type_synonym u32 = "32 word"
type_synonym u64 = "64 word"

abbreviation NULL :: u64 where
  "NULL \<equiv> 0"

section \<open>The kernel log\<close>

text \<open>
  \<^verbatim>\<open>utils/log.h\<close>: the levels. A call of \<^verbatim>\<open>log_debug\<close>, \<^verbatim>\<open>log_info\<close>, \<^verbatim>\<open>log_warn\<close> or \<^verbatim>\<open>log_error\<close> is recorded
  by its level and subsystem; the text it prints is the subject of the theory \<open>Kprintf\<close>.
\<close>

datatype log_level = LOG_DEBUG | LOG_INFO | LOG_WARN | LOG_ERROR

record kstate =
  klog :: "(log_level \<times> string) list"

definition log_event :: "log_level \<Rightarrow> string \<Rightarrow> 'a kstate_scheme \<Rightarrow> 'a kstate_scheme" where
  "log_event l subsystem s = s\<lparr>klog := klog s @ [(l, subsystem)]\<rparr>"

abbreviation log_debug :: "string \<Rightarrow> 'a kstate_scheme \<Rightarrow> 'a kstate_scheme" where
  "log_debug \<equiv> log_event LOG_DEBUG"

abbreviation log_info :: "string \<Rightarrow> 'a kstate_scheme \<Rightarrow> 'a kstate_scheme" where
  "log_info \<equiv> log_event LOG_INFO"

abbreviation log_warn :: "string \<Rightarrow> 'a kstate_scheme \<Rightarrow> 'a kstate_scheme" where
  "log_warn \<equiv> log_event LOG_WARN"

abbreviation log_error :: "string \<Rightarrow> 'a kstate_scheme \<Rightarrow> 'a kstate_scheme" where
  "log_error \<equiv> log_event LOG_ERROR"

lemma klog_log_event [simp]: "klog (log_event l n s) = klog s @ [(l, n)]"
  by (simp add: log_event_def)

section \<open>Page arithmetic\<close>

text \<open>
  \<^verbatim>\<open>PAGE_SIZE\<close> of \<^verbatim>\<open>mm/pmm.h\<close>, and the mask \<^verbatim>\<open>& ~0xFFFULL\<close> that \<^verbatim>\<open>mm/vmm.c\<close> and \<^verbatim>\<open>mm/heap.c\<close> use to
  find the page of an address.
\<close>

abbreviation PAGE_SIZE :: u64 where
  "PAGE_SIZE \<equiv> 4096"

definition page_aligned :: "u64 \<Rightarrow> bool" where
  "page_aligned a \<longleftrightarrow> a AND 0xFFF = 0"

definition page_base :: "u64 \<Rightarrow> u64" where
  "page_base a = a AND NOT 0xFFF"

lemma FFF_mask: "(0xFFF :: u64) = mask 12"
  by (simp add: mask_eq_exp_minus_1)

lemma unat_and_FFF: "unat (a AND 0xFFF :: u64) = unat a mod 4096"
proof -
  have "a AND 0xFFF = a mod 4096"
    unfolding FFF_mask by (simp add: take_bit_eq_mask [symmetric] take_bit_eq_mod)
  then show ?thesis by (simp add: unat_mod)
qed

lemma page_aligned_iff: "page_aligned a \<longleftrightarrow> unat a mod 4096 = 0"
  unfolding page_aligned_def by (metis unat_and_FFF unat_eq_zero)

lemma page_split: "page_base a + (a AND 0xFFF) = a"
proof -
  have "(a AND NOT 0xFFF) + (a AND 0xFFF) = (a AND NOT 0xFFF) OR (a AND 0xFFF)"
    by (rule disjunctive_add_eq_or) (simp add: bit_eq_iff bit_simps)
  also have "\<dots> = a"
    by (rule bit_eqI) (auto simp: bit_simps)
  finally show ?thesis by (simp add: page_base_def)
qed

lemma unat_page_base: "unat (page_base a) = unat a - unat a mod 4096"
proof -
  have eq: "page_base a = a - (a AND 0xFFF)"
    using page_split [of a] by (simp add: eq_diff_eq)
  have "a AND 0xFFF \<le> a" by (rule word_and_le2)
  then show ?thesis by (simp add: eq unat_sub unat_and_FFF)
qed

lemma page_aligned_page_base [simp, page_arith]: "page_aligned (page_base a)"
  by (simp add: page_aligned_iff unat_page_base minus_mod_eq_mult_div)

lemma page_base_aligned [simp, page_arith]: "page_aligned a \<Longrightarrow> page_base a = a"
  using page_split [of a] by (simp add: page_aligned_def)

lemma page_aligned_0 [simp]: "page_aligned 0"
  by (simp add: page_aligned_def)

lemma page_aligned_take_bit: "page_aligned a \<longleftrightarrow> take_bit 12 a = 0"
  by (simp add: page_aligned_def FFF_mask take_bit_eq_mask)

lemma unat_u64_less: "unat (a :: u64) < 18446744073709551616"
  using unsigned_less [of a] by (simp add: unsigned_of_nat)

lemma unat_of_nat_u64: "n < 18446744073709551616 \<Longrightarrow> unat (of_nat n :: u64) = n"
  by (simp add: unsigned_of_nat take_bit_nat_eq_self)

lemma unat_u8_less: "unat (i :: u8) < 256"
  using unsigned_less [of i] by simp

lemma unat_succ_u8: "i < n \<Longrightarrow> unat (i + 1 :: u8) = Suc (unat i)"
  using unat_u8_less [of n] by (simp add: word_less_nat_alt unat_word_ariths)

lemma unat_page_offset:
  assumes "page_aligned t" and "x < 4096"
  shows "unat (t + x) = unat t + unat x"
proof -
  have x: "unat x < 4096" using assms(2) by (simp add: word_less_nat_alt)
  obtain q where q: "unat t = 4096 * q"
    using assms(1) by (auto simp: page_aligned_iff)
  have "4096 * q < 4096 * 4503599627370496"
    using unat_u64_less [of t] by (simp add: q)
  then have "q \<le> 4503599627370495" by simp
  then have "unat t + unat x < 2 ^ LENGTH(64)"
    using x by (simp add: q)
  then show ?thesis by (simp add: unat_word_ariths)
qed

lemma page_base_offset [page_arith]:
  assumes "page_aligned t" and "x < 4096"
  shows "page_base (t + x) = t"
proof -
  have x: "unat x < 4096" using assms(2) by (simp add: word_less_nat_alt)
  obtain q where q: "unat t = 4096 * q"
    using assms(1) by (auto simp: page_aligned_iff)
  have "unat (page_base (t + x)) = unat t"
    using x by (simp add: unat_page_base unat_page_offset [OF assms] q)
  then show ?thesis by (simp add: word_unat_eq_iff)
qed

lemma page_aligned_mult [simp, page_arith]: "page_aligned (4096 * k)"
proof -
  have "4096 * k = push_bit 12 k" by (simp add: push_bit_eq_mult)
  then show ?thesis by (simp add: page_aligned_take_bit take_bit_push_bit)
qed

lemma page_aligned_mult2 [simp, page_arith]: "page_aligned (k * 4096)"
  by (metis mult.commute page_aligned_mult)

lemma page_alignedE:
  assumes "page_aligned a"
  obtains k where "a = 4096 * k"
proof
  have "push_bit 12 (drop_bit 12 a) = a"
    using bits_ident [of 12 a] assms by (simp add: page_aligned_take_bit)
  then show "a = 4096 * drop_bit 12 a" by (simp add: push_bit_eq_mult mult.commute)
qed

lemma page_aligned_add [page_arith]: "page_aligned a \<Longrightarrow> page_aligned b \<Longrightarrow> page_aligned (a + b)"
  by (elim page_alignedE) (metis distrib_left page_aligned_mult)

lemma page_aligned_diff [page_arith]: "page_aligned a \<Longrightarrow> page_aligned b \<Longrightarrow> page_aligned (a - b)"
  by (elim page_alignedE) (metis right_diff_distrib page_aligned_mult)

lemma page_offset_inject:
  assumes "page_aligned t" "page_aligned t'" "x < 4096" "x' < 4096"
  shows "t + x = t' + x' \<longleftrightarrow> t = t' \<and> x = x'"
  by (metis add_left_cancel assms page_base_offset)

section \<open>Counted loops\<close>

text \<open>
  The C loop \<^verbatim>\<open>for (size_t k = i; k < n; k++) body\<close> over 64-bit counters. The body may fault.
\<close>

lemma unat_succ_less: "i < n \<Longrightarrow> unat (i + 1 :: u64) = Suc (unat i)"
  using unat_u64_less [of n] by (simp add: word_less_nat_alt unat_word_ariths)

function for_u64 :: "u64 \<Rightarrow> u64 \<Rightarrow> (u64 \<Rightarrow> 's \<Rightarrow> 's option) \<Rightarrow> 's \<Rightarrow> 's option" where
  "for_u64 i n body s =
     (if i < n then do { s' \<leftarrow> body i s; for_u64 (i + 1) n body s' } else Some s)"
  by pat_completeness auto
termination
proof (relation "measure (\<lambda>(i, n, body, s). unat n - unat i)")
  fix i n :: u64 and body :: "u64 \<Rightarrow> 's \<Rightarrow> 's option" and s x :: 's
  assume "i < n"
  then have "unat i < unat (i + 1)" and "unat i < unat n"
    by (simp_all add: unat_succ_less) (simp add: word_less_nat_alt)
  then show "((i + 1, n, body, x), i, n, body, s) \<in> measure (\<lambda>(i, n, body, s). unat n - unat i)"
    by simp
qed simp

declare for_u64.simps [simp del]

lemma for_u64_rule:
  assumes "I i s" and "i \<le> n"
    and step: "\<And>k t. i \<le> k \<Longrightarrow> k < n \<Longrightarrow> I k t \<Longrightarrow> \<exists>t'. body k t = Some t' \<and> I (k + 1) t'"
  shows "\<exists>s'. for_u64 i n body s = Some s' \<and> I n s'"
  using assms
proof (induction i n body s rule: for_u64.induct)
  case (1 i n body s)
  show ?case
  proof (cases "i < n")
    case True
    then obtain t where t: "body i s = Some t" "I (i + 1) t"
      using "1.prems"(1) "1.prems"(3) [of i s] by auto
    have le: "i + 1 \<le> n" and "i + 1 \<le> k \<Longrightarrow> i \<le> k" for k
      using True unat_succ_less [OF True] by (simp_all add: word_less_nat_alt word_le_nat_alt)
    then have "\<exists>s'. for_u64 (i + 1) n body t = Some s' \<and> I n s'"
      using "1.IH" [OF True t le] "1.prems"(3) by blast
    then show ?thesis using True t(1) by (simp add: for_u64.simps [of i])
  next
    case False
    then have "i = n" using "1.prems"(2) by simp
    then show ?thesis using "1.prems"(1) by (simp add: for_u64.simps [of n])
  qed
qed

section \<open>Linked lists\<close>

text \<open>
  The kernel keeps its run queue, directory entries, slabs and free objects in null-terminated
  linked lists. \<open>nx\<close> reads the link of a node and is \<open>None\<close> where there is no node;
  \<open>linked nx p ps\<close> says that following links from \<open>p\<close> visits exactly the nodes \<open>ps\<close> and ends at
  \<open>NULL\<close>, and \<open>lseg nx p ps q\<close> that it visits \<open>ps\<close> and arrives at \<open>q\<close>.
\<close>

fun lseg :: "(u64 \<Rightarrow> u64 option) \<Rightarrow> u64 \<Rightarrow> u64 list \<Rightarrow> u64 \<Rightarrow> bool" where
  "lseg nx p [] q \<longleftrightarrow> p = q"
| "lseg nx p (a # as) q \<longleftrightarrow>
     p = a \<and> a \<noteq> NULL \<and> (case nx a of None \<Rightarrow> False | Some n \<Rightarrow> lseg nx n as q)"

definition linked :: "(u64 \<Rightarrow> u64 option) \<Rightarrow> u64 \<Rightarrow> u64 list \<Rightarrow> bool" where
  "linked nx p as \<longleftrightarrow> lseg nx p as NULL"

lemma linked_Nil [simp]: "linked nx p [] \<longleftrightarrow> p = NULL"
  by (simp add: linked_def)

lemma linked_Cons [simp]:
  "linked nx p (a # as) \<longleftrightarrow> p = a \<and> a \<noteq> NULL \<and> (\<exists>n. nx a = Some n \<and> linked nx n as)"
  by (auto simp: linked_def split: option.splits)

lemma linked_NULL [simp]: "linked nx NULL as \<longleftrightarrow> as = []"
  by (cases as) auto

lemma linked_nonnull:
  "p \<noteq> NULL \<Longrightarrow> linked nx p as \<longleftrightarrow> (\<exists>n bs. as = p # bs \<and> nx p = Some n \<and> linked nx n bs)"
  by (cases as) auto

lemma lseg_append: "lseg nx p (as @ bs) q \<longleftrightarrow> (\<exists>r. lseg nx p as r \<and> lseg nx r bs q)"
  by (induction as arbitrary: p) (auto split: option.splits)

lemma linked_append: "linked nx p (as @ bs) \<longleftrightarrow> (\<exists>r. lseg nx p as r \<and> linked nx r bs)"
  by (simp add: linked_def lseg_append)

lemma lseg_cong: "(\<And>a. a \<in> set as \<Longrightarrow> nx a = nx' a) \<Longrightarrow> lseg nx p as q = lseg nx' p as q"
  by (induction as arbitrary: p) (auto split: option.splits)

lemma linked_cong: "(\<And>a. a \<in> set as \<Longrightarrow> nx a = nx' a) \<Longrightarrow> linked nx p as = linked nx' p as"
  unfolding linked_def by (rule lseg_cong)

lemma linked_fun_upd [simp]: "a \<notin> set as \<Longrightarrow> linked (nx(a := v)) p as = linked nx p as"
  by (rule linked_cong) auto

lemma lseg_fun_upd [simp]: "a \<notin> set as \<Longrightarrow> lseg (nx(a := v)) p as q = lseg nx p as q"
  by (rule lseg_cong) auto

lemma linked_unique: "linked nx p as \<Longrightarrow> linked nx p bs \<Longrightarrow> as = bs"
proof (induction as arbitrary: p bs)
  case Nil
  then show ?case by simp
next
  case (Cons a as)
  from Cons.prems(1) obtain n where n: "p = a" "a \<noteq> NULL" "nx a = Some n" "linked nx n as"
    by auto
  with Cons.prems(2) obtain cs where cs: "bs = a # cs" "linked nx n cs"
    by (auto simp: linked_nonnull)
  with Cons.IH [OF n(4) cs(2)] show ?case by simp
qed

lemma linked_distinct: "linked nx p as \<Longrightarrow> distinct as"
proof (induction as arbitrary: p)
  case Nil
  then show ?case by simp
next
  case (Cons a as)
  from Cons.prems obtain n where n: "a \<noteq> NULL" "nx a = Some n" "linked nx n as"
    by auto
  have "a \<notin> set as"
  proof
    assume "a \<in> set as"
    then obtain xs ys where as: "as = xs @ a # ys"
      by (auto simp: in_set_conv_decomp)
    with n(3) have "linked nx a (a # ys)"
      by (auto simp: linked_append)
    then have "linked nx n ys" using n(2) by auto
    with n(3) have "as = ys" by (rule linked_unique)
    with as show False by simp
  qed
  with Cons.IH [OF n(3)] show ?case by simp
qed

lemma linked_nodes: "linked nx p as \<Longrightarrow> a \<in> set as \<Longrightarrow> a \<noteq> NULL \<and> (\<exists>n. nx a = Some n)"
  by (induction as arbitrary: p) auto

lemma linked_push:
  assumes "linked nx p as" and "a \<noteq> NULL" and "a \<notin> set as"
  shows "linked (nx(a := Some p)) a (a # as)"
  using assms by simp

text \<open>The first element with a property.\<close>

lemma find_split:
  assumes "find P xs = Some x"
  shows "\<exists>bs cs. xs = bs @ x # cs \<and> (\<forall>b \<in> set bs. \<not> P b) \<and> P x"
proof -
  obtain i where i: "i < length xs" "P (xs ! i)" "x = xs ! i" "\<forall>j < i. \<not> P (xs ! j)"
    using assms by (auto simp: find_Some_iff)
  then have "xs = take i xs @ x # drop (Suc i) xs" using id_take_nth_drop by blast
  moreover have "\<forall>b \<in> set (take i xs). \<not> P b" using i by (auto simp: in_set_conv_nth)
  ultimately show ?thesis using i by blast
qed

section \<open>Packed structures\<close>

text \<open>The fields of a packed structure in order, each with its size in bytes.\<close>

type_synonym layout = "(string \<times> nat) list"

definition struct_size :: "layout \<Rightarrow> nat" where
  "struct_size l = sum_list (map snd l)"

definition offset_of :: "layout \<Rightarrow> string \<Rightarrow> u64" where
  "offset_of l f = of_nat (struct_size (takeWhile (\<lambda>(g, _). g \<noteq> f) l))"

lemmas layout_defs = struct_size_def offset_of_def

end
