(* ===== verification/Pmm.thy ===== *)
theory Pmm
  imports Prelude
begin

text \<open>
  \<^verbatim>\<open>mm/pmm.c\<close>: the physical page allocator, a bitmap with one bit per page (set: in use) and a
  count of free pages.
\<close>

section \<open>State and operations\<close>

text \<open>
  The bytes behind the pointer \<^verbatim>\<open>bitmap\<close> are the list \<open>bitmap\<close>; \<open>bitmap_ptr\<close> is the pointer itself.
  An access outside the array is undefined behaviour, \<open>None\<close>.
\<close>

record pmm = kstate +
  bitmap :: "u8 list"
  bitmap_ptr :: u64
  total_pages :: u64
  free_pages :: u64
  bitmap_size :: u64
  hhdm_offset :: u64

definition BITMAP_TEST :: "u64 \<Rightarrow> 'a pmm_scheme \<Rightarrow> bool option" where
  "BITMAP_TEST b s =
     (let k = unat (b div 8) in
      if k < length (bitmap s)
      then Some (bitmap s ! k AND push_bit (unat (b mod 8)) 1 \<noteq> 0) else None)"

definition BITMAP_SET :: "u64 \<Rightarrow> 'a pmm_scheme \<Rightarrow> 'a pmm_scheme option" where
  "BITMAP_SET b s =
     (let k = unat (b div 8) in
      if k < length (bitmap s)
      then Some (s\<lparr>bitmap := (bitmap s)[k := bitmap s ! k OR push_bit (unat (b mod 8)) 1]\<rparr>)
      else None)"

definition BITMAP_CLEAR :: "u64 \<Rightarrow> 'a pmm_scheme \<Rightarrow> 'a pmm_scheme option" where
  "BITMAP_CLEAR b s =
     (let k = unat (b div 8) in
      if k < length (bitmap s)
      then Some (s\<lparr>bitmap := (bitmap s)[k := bitmap s ! k AND NOT (push_bit (unat (b mod 8)) 1)]\<rparr>)
      else None)"

text \<open>
  The memory map the Limine boot loader passes: only the distinction between usable memory and
  every other type matters to \<^verbatim>\<open>pmm_init\<close>.
\<close>

datatype memmap_type = LIMINE_MEMMAP_USABLE | LIMINE_MEMMAP_OTHER

record memmap_entry =
  mm_base :: u64
  mm_length :: u64
  mm_type :: memmap_type

fun highest_loop :: "memmap_entry list \<Rightarrow> u64 \<Rightarrow> u64" where
  "highest_loop [] highest = highest"
| "highest_loop (e # es) highest =
     highest_loop es
       (if mm_type e = LIMINE_MEMMAP_USABLE \<and> mm_base e + mm_length e > highest
        then mm_base e + mm_length e else highest)"

fun place_bitmap :: "memmap_entry list \<Rightarrow> 'a pmm_scheme \<Rightarrow> 'a pmm_scheme" where
  "place_bitmap [] s = s"
| "place_bitmap (e # es) s =
     (if mm_type e = LIMINE_MEMMAP_USABLE \<and> mm_length e \<ge> bitmap_size s
      then s\<lparr>bitmap_ptr := mm_base e + hhdm_offset s\<rparr> else place_bitmap es s)"

definition release_page :: "u64 \<Rightarrow> 'a pmm_scheme \<Rightarrow> 'a pmm_scheme option" where
  "release_page b s =
     do { s \<leftarrow> BITMAP_CLEAR b s; Some (s\<lparr>free_pages := free_pages s + 1\<rparr>) }"

definition reserve_page :: "u64 \<Rightarrow> 'a pmm_scheme \<Rightarrow> 'a pmm_scheme option" where
  "reserve_page b s =
     do { s \<leftarrow> BITMAP_SET b s; Some (s\<lparr>free_pages := free_pages s - 1\<rparr>) }"

fun release_entries :: "memmap_entry list \<Rightarrow> 'a pmm_scheme \<Rightarrow> 'a pmm_scheme option" where
  "release_entries [] s = Some s"
| "release_entries (e # es) s =
     (if mm_type e = LIMINE_MEMMAP_USABLE
      then do { s \<leftarrow> for_u64 0 (mm_length e div PAGE_SIZE)
                        (\<lambda>j. release_page (mm_base e div PAGE_SIZE + j)) s;
                release_entries es s }
      else release_entries es s)"

definition pmm_init :: "memmap_entry list \<Rightarrow> u64 \<Rightarrow> 'a pmm_scheme \<Rightarrow> 'a pmm_scheme option" where
  "pmm_init memmap hhdm s =
     (let s = s\<lparr>hhdm_offset := hhdm\<rparr>;
          highest = highest_loop memmap 0;
          s = s\<lparr>total_pages := highest div PAGE_SIZE\<rparr>;
          s = s\<lparr>bitmap_size := (total_pages s + 7) div 8\<rparr>;
          s = place_bitmap memmap s
      in if bitmap_ptr s = NULL then Some (log_error ''PMM'' s)
         else do {
           let s = s\<lparr>bitmap := replicate (unat (bitmap_size s)) 0xFF\<rparr>;
           s \<leftarrow> release_entries memmap s;
           let bitmap_pages = (bitmap_size s + PAGE_SIZE - 1) div PAGE_SIZE;
           let bitmap_phys = bitmap_ptr s - hhdm_offset s;
           let bitmap_base = bitmap_phys div PAGE_SIZE;
           s \<leftarrow> for_u64 0 bitmap_pages (\<lambda>i. reserve_page (bitmap_base + i)) s;
           Some (log_info ''PMM'' s)
         })"

function pmm_alloc_loop :: "u64 \<Rightarrow> 'a pmm_scheme \<Rightarrow> (u64 \<times> 'a pmm_scheme) option" where
  "pmm_alloc_loop i s =
     (if i < total_pages s
      then do {
        used \<leftarrow> BITMAP_TEST i s;
        if \<not> used
        then do { s \<leftarrow> BITMAP_SET i s;
                  Some (i * PAGE_SIZE, s\<lparr>free_pages := free_pages s - 1\<rparr>) }
        else pmm_alloc_loop (i + 1) s
      }
      else Some (0, log_error ''PMM'' s))"
  by pat_completeness auto
termination
  by (relation "measure (\<lambda>(i, s). unat (total_pages s) - unat i)")
    (auto simp: unat_succ_less word_less_nat_alt)

declare pmm_alloc_loop.simps [simp del]

definition pmm_alloc :: "'a pmm_scheme \<Rightarrow> (u64 \<times> 'a pmm_scheme) option" where
  "pmm_alloc s = pmm_alloc_loop 0 s"

definition pmm_free :: "u64 \<Rightarrow> 'a pmm_scheme \<Rightarrow> 'a pmm_scheme option" where
  "pmm_free ptr s =
     (let page = ptr div PAGE_SIZE in
      do { used \<leftarrow> BITMAP_TEST page s;
           if used then do { s \<leftarrow> BITMAP_CLEAR page s; Some (s\<lparr>free_pages := free_pages s + 1\<rparr>) }
           else Some s })"

definition pmm_free_pages :: "'a pmm_scheme \<Rightarrow> u64" where
  "pmm_free_pages s = free_pages s"

definition pmm_total_pages :: "'a pmm_scheme \<Rightarrow> u64" where
  "pmm_total_pages s = total_pages s"

section \<open>The bitmap as a set of free pages\<close>

definition page_used :: "u8 list \<Rightarrow> nat \<Rightarrow> bool" where
  "page_used bm i \<longleftrightarrow> bit (bm ! (i div 8)) (i mod 8)"

definition free_set :: "'a pmm_scheme \<Rightarrow> nat set" where
  "free_set s = {i. i < unat (total_pages s) \<and> \<not> page_used (bitmap s) i}"

definition pmm_inv :: "'a pmm_scheme \<Rightarrow> bool" where
  "pmm_inv s \<longleftrightarrow>
     unat (total_pages s) \<le> 8 * length (bitmap s) \<and>
     unat (total_pages s) < 2 ^ 52 \<and>
     unat (free_pages s) = card (free_set s)"

lemma finite_free_set [simp]: "finite (free_set s)"
  by (simp add: free_set_def)

lemma and_exp_nonzero: "(x :: u8) AND 2 ^ n \<noteq> 0 \<longleftrightarrow> bit x n"
  by (simp add: bit_iff_and_push_bit_not_eq_0)

lemma BITMAP_TEST_eq:
  assumes "unat b < 8 * length (bitmap s)"
  shows "BITMAP_TEST b s = Some (page_used (bitmap s) (unat b))"
proof -
  have "unat (b div 8) < length (bitmap s)" using assms by (simp add: unat_div)
  then show ?thesis
    by (simp add: BITMAP_TEST_def page_used_def and_exp_nonzero unat_div unat_mod)
qed

lemma page_used_set:
  assumes "i < 8 * length bm"
  shows "page_used (bm[i div 8 := bm ! (i div 8) OR push_bit (i mod 8) 1]) j \<longleftrightarrow>
         j = i \<or> page_used bm j"
proof (cases "j div 8 = i div 8")
  case True
  moreover have "j = i \<longleftrightarrow> j mod 8 = i mod 8" using True by (metis div_mod_decomp)
  moreover have "i div 8 < length bm" using assms by simp
  ultimately show ?thesis by (auto simp: page_used_def bit_simps)
qed (auto simp: page_used_def)

lemma page_used_clear:
  assumes "i < 8 * length bm"
  shows "page_used (bm[i div 8 := bm ! (i div 8) AND NOT (push_bit (i mod 8) 1)]) j \<longleftrightarrow>
         j \<noteq> i \<and> page_used bm j"
proof (cases "j div 8 = i div 8")
  case True
  moreover have "j = i \<longleftrightarrow> j mod 8 = i mod 8" using True by (metis div_mod_decomp)
  moreover have "i div 8 < length bm" using assms by simp
  ultimately show ?thesis by (auto simp: page_used_def bit_simps)
qed (auto simp: page_used_def)

lemma BITMAP_SET_eq:
  assumes "unat b < 8 * length (bitmap s)"
  obtains bm where "BITMAP_SET b s = Some (s\<lparr>bitmap := bm\<rparr>)" and "length bm = length (bitmap s)"
    and "\<And>j. page_used bm j \<longleftrightarrow> j = unat b \<or> page_used (bitmap s) j"
proof
  let ?i = "unat b"
  let ?bm = "(bitmap s)[?i div 8 := bitmap s ! (?i div 8) OR push_bit (?i mod 8) 1]"
  show "BITMAP_SET b s = Some (s\<lparr>bitmap := ?bm\<rparr>)"
    using assms by (simp add: BITMAP_SET_def unat_div unat_mod less_mult_imp_div_less mult.commute Let_def)
  show "page_used ?bm j \<longleftrightarrow> j = ?i \<or> page_used (bitmap s) j" for j
    by (rule page_used_set [OF assms])
qed simp

lemma BITMAP_CLEAR_eq:
  assumes "unat b < 8 * length (bitmap s)"
  obtains bm where "BITMAP_CLEAR b s = Some (s\<lparr>bitmap := bm\<rparr>)" and "length bm = length (bitmap s)"
    and "\<And>j. page_used bm j \<longleftrightarrow> j \<noteq> unat b \<and> page_used (bitmap s) j"
proof
  let ?i = "unat b"
  let ?bm = "(bitmap s)[?i div 8 := bitmap s ! (?i div 8) AND NOT (push_bit (?i mod 8) 1)]"
  show "BITMAP_CLEAR b s = Some (s\<lparr>bitmap := ?bm\<rparr>)"
    using assms by (simp add: BITMAP_CLEAR_def unat_div unat_mod less_mult_imp_div_less mult.commute Let_def)
  show "page_used ?bm j \<longleftrightarrow> j \<noteq> ?i \<and> page_used (bitmap s) j" for j
    by (rule page_used_clear [OF assms])
qed simp

section \<open>Allocation and release\<close>

lemma pmm_alloc_loop_found:
  assumes "unat (total_pages s) \<le> 8 * length (bitmap s)"
    and "\<And>j. j < unat i \<Longrightarrow> page_used (bitmap s) j" and "free_set s \<noteq> {}"
  shows "\<exists>bm. pmm_alloc_loop i s =
           Some (of_nat (Min (free_set s)) * PAGE_SIZE,
                 s\<lparr>bitmap := bm, free_pages := free_pages s - 1\<rparr>) \<and>
         length bm = length (bitmap s) \<and>
         (\<forall>j. page_used bm j \<longleftrightarrow> j = Min (free_set s) \<or> page_used (bitmap s) j)"
  using assms
proof (induction i s rule: pmm_alloc_loop.induct)
  case (1 i s)
  show ?case
  proof (cases "i < total_pages s")
    case False
    then have "free_set s = {}"
      using "1.prems"(2) by (auto simp: free_set_def word_less_nat_alt)
    with "1.prems"(3) show ?thesis by simp
  next
    case lt: True
    then have i: "unat i < 8 * length (bitmap s)"
      using "1.prems"(1) by (simp add: word_less_nat_alt)
    show ?thesis
    proof (cases "page_used (bitmap s) (unat i)")
      case True
      have "page_used (bitmap s) j" if "j < unat (i + 1)" for j
        using that "1.prems"(2) True lt by (auto simp: unat_succ_less less_Suc_eq)
      then show ?thesis
        using "1.IH" [OF lt BITMAP_TEST_eq [OF i]] "1.prems"(1,3) True lt
        by (simp add: pmm_alloc_loop.simps [of i s] BITMAP_TEST_eq [OF i])
    next
      case False
      obtain bm where bm: "BITMAP_SET i s = Some (s\<lparr>bitmap := bm\<rparr>)"
        "length bm = length (bitmap s)"
        "\<And>j. page_used bm j \<longleftrightarrow> j = unat i \<or> page_used (bitmap s) j"
        using BITMAP_SET_eq [OF i] by blast
      have "Min (free_set s) = unat i"
        using False lt "1.prems"(2)
        by (intro Min_eqI) (auto simp: free_set_def word_less_nat_alt intro: leI)
      then show ?thesis
        using lt False bm
        by (intro exI [of _ bm]) (simp add: pmm_alloc_loop.simps [of i s] BITMAP_TEST_eq [OF i])
    qed
  qed
qed

lemma pmm_alloc_loop_full:
  assumes "unat (total_pages s) \<le> 8 * length (bitmap s)" and "free_set s = {}"
  shows "pmm_alloc_loop i s = Some (0, log_error ''PMM'' s)"
  using assms
proof (induction i s rule: pmm_alloc_loop.induct)
  case (1 i s)
  show ?case
  proof (cases "i < total_pages s")
    case False
    then show ?thesis by (simp add: pmm_alloc_loop.simps [of i s])
  next
    case lt: True
    then have i: "unat i < 8 * length (bitmap s)"
      using "1.prems"(1) by (simp add: word_less_nat_alt)
    have "page_used (bitmap s) (unat i)"
      using "1.prems"(2) lt by (auto simp: free_set_def word_less_nat_alt)
    then show ?thesis
      using "1.IH" [OF lt BITMAP_TEST_eq [OF i]] "1.prems" lt
      by (simp add: pmm_alloc_loop.simps [of i s] BITMAP_TEST_eq [OF i])
  qed
qed

text \<open>What the allocator may change of a state that extends its own.\<close>

definition pmm_frame :: "'a pmm_scheme \<Rightarrow> 'a pmm_scheme \<Rightarrow> bool" where
  "pmm_frame s s' \<longleftrightarrow>
     s' = s\<lparr>klog := klog s', bitmap := bitmap s', free_pages := free_pages s'\<rparr>"

lemma pmm_frameE:
  assumes "pmm_frame s s'"
  obtains l bm n where "s' = s\<lparr>klog := l, bitmap := bm, free_pages := n\<rparr>"
  using assms unfolding pmm_frame_def by blast

lemma pmm_frame_refl: "pmm_frame s s"
  by (simp add: pmm_frame_def)

lemma pmm_alloc_loop_frame: "pmm_alloc_loop i s = Some (p, s') \<Longrightarrow> pmm_frame s s'"
proof (induction i s rule: pmm_alloc_loop.induct)
  case (1 i s)
  show ?case
  proof (cases "i < total_pages s")
    case False
    with "1.prems" show ?thesis
      by (auto simp: pmm_alloc_loop.simps [of i s] log_event_def pmm_frame_def)
  next
    case True
    with "1.prems" obtain u where u: "BITMAP_TEST i s = Some u"
      by (auto simp: pmm_alloc_loop.simps [of i s] Option.bind_eq_Some_conv)
    show ?thesis
    proof (cases u)
      case False
      with True u "1.prems" show ?thesis
        by (auto simp: pmm_alloc_loop.simps [of i s] Option.bind_eq_Some_conv BITMAP_SET_def Let_def
            pmm_frame_def split: if_splits)
    next
      case t: True
      with True u "1.prems" have "pmm_alloc_loop (i + 1) s = Some (p, s')"
        by (simp add: pmm_alloc_loop.simps [of i s])
      with "1.IH" [OF True u] t show ?thesis by simp
    qed
  qed
qed

lemma pmm_alloc_frame: "pmm_alloc s = Some (p, s') \<Longrightarrow> pmm_frame s s'"
  unfolding pmm_alloc_def by (rule pmm_alloc_loop_frame)

lemma pmm_free_frame: "pmm_free p s = Some s' \<Longrightarrow> pmm_frame s s'"
  by (auto simp: pmm_free_def Let_def Option.bind_eq_Some_conv BITMAP_CLEAR_def pmm_frame_def
      split: if_splits)

lemma free_set_remove:
  assumes "\<And>j. page_used bm j \<longleftrightarrow> j = i \<or> page_used (bitmap s) j"
  shows "free_set (s\<lparr>bitmap := bm, free_pages := n\<rparr>) = free_set s - {i}"
  using assms by (auto simp: free_set_def)

lemma free_set_insert:
  assumes "\<And>j. page_used bm j \<longleftrightarrow> j \<noteq> i \<and> page_used (bitmap s) j" and "i < unat (total_pages s)"
  shows "free_set (s\<lparr>bitmap := bm, free_pages := n\<rparr>) = insert i (free_set s)"
  using assms by (auto simp: free_set_def)

lemma free_set_log [simp]: "free_set (log_event l n s) = free_set s"
  by (simp add: free_set_def log_event_def)

lemma pmm_inv_log [simp]: "pmm_inv (log_event l n s) = pmm_inv s"
  by (simp add: pmm_inv_def) (simp add: log_event_def)

lemma unat_minus_1: "unat (n :: u64) = k \<Longrightarrow> 0 < k \<Longrightarrow> unat (n - 1) = k - 1"
  by (metis less_one linorder_not_less unat_1 unat_sub word_le_nat_alt not_gr_zero)

lemma card_free_set_le: "card (free_set s) \<le> unat (total_pages s)"
proof -
  have "free_set s \<subseteq> {..<unat (total_pages s)}" by (auto simp: free_set_def)
  then have "card (free_set s) \<le> card {..<unat (total_pages s)}" by (intro card_mono) auto
  then show ?thesis by simp
qed

lemma pmm_alloc_available:
  assumes "pmm_inv s" and "free_set s \<noteq> {}"
  shows "\<exists>s'. pmm_alloc s = Some (of_nat (Min (free_set s)) * PAGE_SIZE, s') \<and>
              free_pages s' = free_pages s - 1 \<and> klog s' = klog s \<and>
              total_pages s' = total_pages s \<and>
              free_set s' = free_set s - {Min (free_set s)} \<and> pmm_inv s'"
proof -
  let ?i = "Min (free_set s)"
  obtain bm where bm: "pmm_alloc s = Some (of_nat ?i * PAGE_SIZE,
                         s\<lparr>bitmap := bm, free_pages := free_pages s - 1\<rparr>)"
    "length bm = length (bitmap s)" "\<And>j. page_used bm j \<longleftrightarrow> j = ?i \<or> page_used (bitmap s) j"
    using pmm_alloc_loop_found [of s 0] assms unfolding pmm_alloc_def pmm_inv_def by auto
  let ?s = "s\<lparr>bitmap := bm, free_pages := free_pages s - 1\<rparr>"
  have fs: "free_set ?s = free_set s - {?i}" by (rule free_set_remove [OF bm(3)])
  have "?i \<in> free_set s" using assms(2) by simp
  then have "card (free_set ?s) = card (free_set s) - 1" and "0 < card (free_set s)"
    by (simp_all add: fs card_gt_0_iff) auto
  then have "pmm_inv ?s"
    using assms(1) bm(2) by (simp add: pmm_inv_def unat_minus_1)
  with bm(1) fs show ?thesis by (intro exI [of _ ?s]) simp
qed

lemma pmm_alloc_exhausted:
  "pmm_inv s \<Longrightarrow> free_set s = {} \<Longrightarrow> pmm_alloc s = Some (0, log_error ''PMM'' s)"
  by (simp add: pmm_alloc_def pmm_inv_def pmm_alloc_loop_full)

lemma pmm_alloc_never_faults: "pmm_inv s \<Longrightarrow> \<exists>p s'. pmm_alloc s = Some (p, s')"
  using pmm_alloc_available [of s] pmm_alloc_exhausted [of s] by auto

lemma pmm_free_used:
  assumes "pmm_inv s" and "unat p div 4096 < unat (total_pages s)"
    and "unat p div 4096 \<notin> free_set s"
  obtains bm where "pmm_free p s = Some (s\<lparr>bitmap := bm, free_pages := free_pages s + 1\<rparr>)"
    and "free_set (s\<lparr>bitmap := bm, free_pages := free_pages s + 1\<rparr>) = insert (unat p div 4096) (free_set s)"
    and "pmm_inv (s\<lparr>bitmap := bm, free_pages := free_pages s + 1\<rparr>)"
proof -
  let ?i = "unat p div 4096"
  have ui: "unat (p div 4096) = ?i" by (simp add: unat_div)
  then have i: "unat (p div 4096) < 8 * length (bitmap s)"
    using assms(1,2) by (simp add: pmm_inv_def)
  obtain bm where bm: "BITMAP_CLEAR (p div 4096) s = Some (s\<lparr>bitmap := bm\<rparr>)"
    "length bm = length (bitmap s)"
    "\<And>j. page_used bm j \<longleftrightarrow> j \<noteq> unat (p div 4096) \<and> page_used (bitmap s) j"
    using BITMAP_CLEAR_eq [OF i] by blast
  let ?s = "s\<lparr>bitmap := bm, free_pages := free_pages s + 1\<rparr>"
  have used: "page_used (bitmap s) ?i" using assms(2,3) by (auto simp: free_set_def)
  have free: "pmm_free p s = Some ?s"
    using used bm(1) ui by (simp add: pmm_free_def BITMAP_TEST_eq [OF i])
  have fs: "free_set ?s = insert ?i (free_set s)"
    using bm(3) ui assms(2) by (intro free_set_insert) auto
  have "unat (free_pages s) < 2 ^ 52"
    using assms(1) card_free_set_le [of s] by (simp add: pmm_inv_def)
  then have "unat (free_pages s + 1) = Suc (unat (free_pages s))"
    by (simp add: unat_word_ariths)
  moreover have "card (free_set ?s) = Suc (card (free_set s))"
    using assms(3) by (simp add: fs)
  ultimately have "pmm_inv ?s"
    using assms(1) bm(2) by (simp add: pmm_inv_def)
  with free fs show thesis by (intro that)
qed

lemma pmm_free_unused:
  assumes "pmm_inv s" and "unat p div 4096 \<in> free_set s"
  shows "pmm_free p s = Some s"
proof -
  have "unat (p div 4096) < 8 * length (bitmap s)"
    using assms by (auto simp: pmm_inv_def free_set_def unat_div)
  then show ?thesis
    using assms(2) by (simp add: pmm_free_def BITMAP_TEST_eq free_set_def unat_div)
qed

section \<open>Initialisation from the memory map\<close>

text \<open>
  The pages of the usable entries, and what the Limine boot protocol promises of its memory map:
  usable entries are page aligned, do not overlap, do not wrap around, and never hold page 0.
\<close>

definition entry_pages :: "memmap_entry \<Rightarrow> nat list" where
  "entry_pages e =
     [unat (mm_base e) div 4096 ..< unat (mm_base e) div 4096 + unat (mm_length e) div 4096]"

definition usable :: "memmap_entry \<Rightarrow> bool" where
  "usable e \<longleftrightarrow> mm_type e = LIMINE_MEMMAP_USABLE"

definition usable_pages :: "memmap_entry list \<Rightarrow> nat list" where
  "usable_pages m = concat (map entry_pages (filter usable m))"

definition entry_ok :: "u64 \<Rightarrow> memmap_entry \<Rightarrow> bool" where
  "entry_ok hhdm e \<longleftrightarrow>
     page_aligned (mm_base e) \<and> page_aligned (mm_length e) \<and> mm_base e \<noteq> 0 \<and>
     unat (mm_base e) + unat (mm_length e) < 2 ^ 64 \<and> unat (mm_base e) + unat hhdm < 2 ^ 64"

definition wf_memmap :: "u64 \<Rightarrow> memmap_entry list \<Rightarrow> bool" where
  "wf_memmap hhdm m \<longleftrightarrow> list_all (entry_ok hhdm) (filter usable m) \<and> distinct (usable_pages m)"

lemma release_page_loop:
  assumes b: "unat b + unat n \<le> 8 * length (bitmap s)" and no_wrap: "unat b + unat n < 2 ^ 64"
  shows "\<exists>bm. for_u64 0 n (\<lambda>j. release_page (b + j)) s =
                Some (s\<lparr>bitmap := bm, free_pages := free_pages s + n\<rparr>) \<and>
              length bm = length (bitmap s) \<and>
              (\<forall>j. page_used bm j \<longleftrightarrow> page_used (bitmap s) j \<and> \<not> (unat b \<le> j \<and> j < unat b + unat n))"
proof -
  let ?I = "\<lambda>k t. \<exists>bm. t = s\<lparr>bitmap := bm, free_pages := free_pages s + k\<rparr> \<and>
              length bm = length (bitmap s) \<and>
              (\<forall>j. page_used bm j \<longleftrightarrow> page_used (bitmap s) j \<and> \<not> (unat b \<le> j \<and> j < unat b + unat k))"
  have "\<exists>t. for_u64 0 n (\<lambda>j. release_page (b + j)) s = Some t \<and> ?I n t"
  proof (rule for_u64_rule)
    show "?I 0 s" by (rule exI [of _ "bitmap s"]) simp
    show "0 \<le> n" by simp
  next
    fix k t
    assume k: "k < n" and I: "?I k t"
    then obtain bm where t: "t = s\<lparr>bitmap := bm, free_pages := free_pages s + k\<rparr>"
      and len: "length bm = length (bitmap s)"
      and used: "\<And>j. page_used bm j \<longleftrightarrow>
                   page_used (bitmap s) j \<and> \<not> (unat b \<le> j \<and> j < unat b + unat k)" by auto
    have ubk: "unat (b + k) = unat b + unat k"
      using no_wrap k by (simp add: unat_word_ariths word_less_nat_alt)
    then have "unat (b + k) < 8 * length (bitmap t)"
      using b k len t by (simp add: word_less_nat_alt)
    from BITMAP_CLEAR_eq [OF this] obtain bm' where bm': "BITMAP_CLEAR (b + k) t = Some (t\<lparr>bitmap := bm'\<rparr>)"
      "length bm' = length (bitmap t)"
      "\<And>j. page_used bm' j \<longleftrightarrow> j \<noteq> unat (b + k) \<and> page_used (bitmap t) j"
      by blast
    have "?I (k + 1) (t\<lparr>bitmap := bm', free_pages := free_pages t + 1\<rparr>)"
      using bm'(2) len ubk
      by (intro exI [of _ bm']) (auto simp: bm'(3) t used unat_succ_less [OF k])
    then show "\<exists>t'. release_page (b + k) t = Some t' \<and> ?I (k + 1) t'"
      using bm'(1) by (simp add: release_page_def)
  qed
  then show ?thesis by auto
qed

lemma reserve_page_loop:
  assumes b: "unat b + unat n \<le> 8 * length (bitmap s)" and no_wrap: "unat b + unat n < 2 ^ 64"
  shows "\<exists>bm. for_u64 0 n (\<lambda>j. reserve_page (b + j)) s =
                Some (s\<lparr>bitmap := bm, free_pages := free_pages s - n\<rparr>) \<and>
              length bm = length (bitmap s) \<and>
              (\<forall>j. page_used bm j \<longleftrightarrow> page_used (bitmap s) j \<or> (unat b \<le> j \<and> j < unat b + unat n))"
proof -
  let ?I = "\<lambda>k t. \<exists>bm. t = s\<lparr>bitmap := bm, free_pages := free_pages s - k\<rparr> \<and>
              length bm = length (bitmap s) \<and>
              (\<forall>j. page_used bm j \<longleftrightarrow> page_used (bitmap s) j \<or> (unat b \<le> j \<and> j < unat b + unat k))"
  have "\<exists>t. for_u64 0 n (\<lambda>j. reserve_page (b + j)) s = Some t \<and> ?I n t"
  proof (rule for_u64_rule)
    show "?I 0 s" by (rule exI [of _ "bitmap s"]) auto
    show "0 \<le> n" by simp
  next
    fix k t
    assume k: "k < n" and I: "?I k t"
    then obtain bm where t: "t = s\<lparr>bitmap := bm, free_pages := free_pages s - k\<rparr>"
      and len: "length bm = length (bitmap s)"
      and used: "\<And>j. page_used bm j \<longleftrightarrow>
                   page_used (bitmap s) j \<or> (unat b \<le> j \<and> j < unat b + unat k)" by auto
    have ubk: "unat (b + k) = unat b + unat k"
      using no_wrap k by (simp add: unat_word_ariths word_less_nat_alt)
    then have "unat (b + k) < 8 * length (bitmap t)"
      using b k len t by (simp add: word_less_nat_alt)
    from BITMAP_SET_eq [OF this] obtain bm' where bm': "BITMAP_SET (b + k) t = Some (t\<lparr>bitmap := bm'\<rparr>)"
      "length bm' = length (bitmap t)"
      "\<And>j. page_used bm' j \<longleftrightarrow> j = unat (b + k) \<or> page_used (bitmap t) j"
      by blast
    have "?I (k + 1) (t\<lparr>bitmap := bm', free_pages := free_pages t - 1\<rparr>)"
      using bm'(2) len ubk
      by (intro exI [of _ bm']) (auto simp: bm'(3) t used unat_succ_less [OF k])
    then show "\<exists>t'. reserve_page (b + k) t = Some t' \<and> ?I (k + 1) t'"
      using bm'(1) by (simp add: reserve_page_def)
  qed
  then show ?thesis by auto
qed

lemma entry_ok_div:
  assumes "entry_ok hhdm e"
  shows "unat (mm_base e + mm_length e) = unat (mm_base e) + unat (mm_length e)"
    and "unat (mm_base e + mm_length e) div 4096 =
         unat (mm_base e) div 4096 + unat (mm_length e) div 4096"
    and "0 < unat (mm_base e) div 4096"
proof -
  show eq: "unat (mm_base e + mm_length e) = unat (mm_base e) + unat (mm_length e)"
    using assms by (simp add: entry_ok_def unat_word_ariths)
  have "4096 dvd unat (mm_base e)" and "unat (mm_base e) \<noteq> 0"
    using assms by (simp_all add: entry_ok_def page_aligned_iff unat_eq_zero dvd_eq_mod_eq_0)
  then obtain q where "unat (mm_base e) = 4096 * q" and "0 < q" by auto
  then show "unat (mm_base e + mm_length e) div 4096 =
         unat (mm_base e) div 4096 + unat (mm_length e) div 4096"
    and "0 < unat (mm_base e) div 4096"
    by (simp_all add: eq)
qed

lemma entry_pages_eq:
  "entry_pages e = [unat (mm_base e div 4096) ..<
                    unat (mm_base e div 4096) + unat (mm_length e div 4096)]"
  by (simp add: entry_pages_def unat_div)

lemma release_entries_spec:
  assumes "list_all (entry_ok hhdm) (filter usable m)"
    and "\<And>e. e \<in> set m \<Longrightarrow> usable e \<Longrightarrow> unat (mm_base e + mm_length e) div 4096 \<le> 8 * length (bitmap s)"
  shows "\<exists>bm. release_entries m s =
                Some (s\<lparr>bitmap := bm,
                        free_pages := free_pages s + of_nat (length (usable_pages m))\<rparr>) \<and>
              length bm = length (bitmap s) \<and>
              (\<forall>j. page_used bm j \<longleftrightarrow> page_used (bitmap s) j \<and> j \<notin> set (usable_pages m))"
  using assms
proof (induction m arbitrary: s)
  case Nil
  show ?case by (rule exI [of _ "bitmap s"]) (simp add: usable_pages_def)
next
  case (Cons e m)
  show ?case
  proof (cases "usable e")
    case False
    then show ?thesis using Cons.IH [of s] Cons.prems by (simp add: usable_pages_def usable_def)
  next
    case True
    let ?b = "mm_base e div 4096" and ?n = "mm_length e div 4096"
    have ok: "entry_ok hhdm e" using Cons.prems(1) True by simp
    have bn: "unat ?b + unat ?n = unat (mm_base e + mm_length e) div 4096"
      using entry_ok_div(2) [OF ok] by (simp add: unat_div)
    have le: "unat ?b + unat ?n \<le> 8 * length (bitmap s)"
      using Cons.prems(2) [of e] True bn by simp
    have "unat ?b + unat ?n < 2 ^ 64"
      using unat_u64_less [of "mm_base e + mm_length e"] bn by simp
    from release_page_loop [OF le this] obtain bm where bm:
      "for_u64 0 ?n (\<lambda>j. release_page (?b + j)) s =
         Some (s\<lparr>bitmap := bm, free_pages := free_pages s + ?n\<rparr>)"
      "length bm = length (bitmap s)"
      "\<And>j. page_used bm j \<longleftrightarrow>
         page_used (bitmap s) j \<and> \<not> (unat ?b \<le> j \<and> j < unat ?b + unat ?n)" by blast
    let ?s = "s\<lparr>bitmap := bm, free_pages := free_pages s + ?n\<rparr>"
    have rel: "release_entries (e # m) s = release_entries m ?s"
      using bm(1) True by (simp add: usable_def)
    have "list_all (entry_ok hhdm) (filter usable m)" using Cons.prems(1) True by simp
    moreover have "unat (mm_base e' + mm_length e') div 4096 \<le> 8 * length (bitmap ?s)"
      if "e' \<in> set m" "usable e'" for e'
      using Cons.prems(2) [of e'] that bm(2) by simp
    ultimately obtain bm' where bm':
      "release_entries m ?s = Some (?s\<lparr>bitmap := bm',
         free_pages := free_pages ?s + of_nat (length (usable_pages m))\<rparr>)"
      "length bm' = length (bitmap ?s)"
      "\<And>j. page_used bm' j \<longleftrightarrow> page_used (bitmap ?s) j \<and> j \<notin> set (usable_pages m)"
      using Cons.IH [of ?s] by blast
    have "set (usable_pages (e # m)) = {unat ?b..<unat ?b + unat ?n} \<union> set (usable_pages m)"
      and "(of_nat (length (usable_pages (e # m))) :: u64) = ?n + of_nat (length (usable_pages m))"
      using True by (simp_all add: usable_pages_def entry_pages_eq)
    then show ?thesis using rel bm bm' by (intro exI [of _ bm']) (auto simp: add.assoc)
  qed
qed

lemma highest_loop_mono: "h \<le> highest_loop m h"
  by (induction m arbitrary: h) (auto, meson dual_order.trans order.strict_implies_order)

lemma highest_loop_bound:
  "e \<in> set m \<Longrightarrow> usable e \<Longrightarrow> mm_base e + mm_length e \<le> highest_loop m h"
proof (induction m arbitrary: h)
  case (Cons e' m)
  show ?case
  proof (cases "e = e'")
    case True
    have "mm_base e + mm_length e \<le>
            (if mm_base e + mm_length e > h then mm_base e + mm_length e else h)"
      by auto
    also have "\<dots> \<le> highest_loop m \<dots>" by (rule highest_loop_mono)
    finally show ?thesis using True Cons.prems(2) by (simp add: usable_def split: if_splits)
  next
    case False
    then show ?thesis using Cons by simp
  qed
qed simp

lemma usable_end_le:
  "e \<in> set m \<Longrightarrow> usable e \<Longrightarrow>
   unat (mm_base e + mm_length e) div 4096 \<le> unat (highest_loop m 0) div 4096"
  using highest_loop_bound [of e m 0] by (simp add: word_le_nat_alt div_le_mono)

definition bitmap_bytes :: "memmap_entry list \<Rightarrow> u64" where
  "bitmap_bytes m = (highest_loop m 0 div PAGE_SIZE + 7) div 8"

lemma place_bitmap_found:
  "\<exists>e \<in> set m. usable e \<and> bitmap_size s \<le> mm_length e \<Longrightarrow>
   \<exists>e \<in> set m. usable e \<and> bitmap_size s \<le> mm_length e \<and>
     place_bitmap m s = s\<lparr>bitmap_ptr := mm_base e + hhdm_offset s\<rparr>"
  by (induction m) (auto simp: usable_def)

lemma unat_bitmap_bytes:
  "unat (bitmap_bytes m) = (unat (highest_loop m 0) div 4096 + 7) div 8"
  "unat (bitmap_bytes m) < 2 ^ 50"
proof -
  have "unat (highest_loop m 0) div 4096 < 4503599627370496"
    using unat_u64_less [of "highest_loop m 0"] by simp
  then show "unat (bitmap_bytes m) = (unat (highest_loop m 0) div 4096 + 7) div 8"
    and "unat (bitmap_bytes m) < 2 ^ 50"
    by (simp_all add: bitmap_bytes_def unat_div unat_word_ariths)
qed

lemma page_used_replicate_FF: "i < 8 * n \<Longrightarrow> page_used (replicate n 0xFF) i"
proof -
  assume "i < 8 * n"
  moreover have "bit (0xFF :: u8) k" if "k < 8" for k
  proof -
    have "(0xFF :: u8) = mask 8" by (simp add: mask_eq_exp_minus_1)
    then show ?thesis using that by (simp only: bit_mask_iff) simp
  qed
  ultimately show ?thesis by (simp add: page_used_def)
qed

lemma usable_page_bounds:
  assumes "wf_memmap hhdm m" and "j \<in> set (usable_pages m)"
  shows "0 < j" and "j < unat (highest_loop m 0) div 4096"
proof -
  obtain e where e: "e \<in> set m" "usable e" "j \<in> set (entry_pages e)"
    using assms(2) by (auto simp: usable_pages_def)
  have ok: "entry_ok hhdm e"
    using assms(1) e by (auto simp: wf_memmap_def list_all_iff)
  show "0 < j" using entry_ok_div(3) [OF ok] e(3) by (simp add: entry_pages_def)
  show "j < unat (highest_loop m 0) div 4096"
    using entry_ok_div(2) [OF ok] e(3) usable_end_le [OF e(1,2)] by (simp add: entry_pages_def)
qed

lemma bitmap_pages_in_entry:
  assumes "entry_ok hhdm e" and "bitmap_bytes m \<le> mm_length e"
  shows "unat ((bitmap_bytes m + PAGE_SIZE - 1) div PAGE_SIZE) \<le> unat (mm_length e) div 4096"
proof -
  have "4096 dvd unat (mm_length e)"
    using assms(1) by (simp add: entry_ok_def page_aligned_iff dvd_eq_mod_eq_0)
  then obtain q where q: "unat (mm_length e) = 4096 * q" by auto
  have "bitmap_bytes m + PAGE_SIZE - 1 = bitmap_bytes m + 4095" by simp
  moreover have "unat (bitmap_bytes m + 4095) = unat (bitmap_bytes m) + 4095"
    using unat_bitmap_bytes(2) [of m] by (simp add: unat_word_ariths)
  ultimately have "unat ((bitmap_bytes m + PAGE_SIZE - 1) div PAGE_SIZE) =
                     (unat (bitmap_bytes m) + 4095) div 4096"
    by (simp only: unat_div) simp
  then show ?thesis using assms(2) q by (simp add: word_le_nat_alt)
qed

lemma unat_diff_of_nat:
  "k \<le> n \<Longrightarrow> n < 2 ^ 64 \<Longrightarrow> unat (of_nat n - of_nat k :: u64) = n - k"
  by (simp add: unat_sub word_le_nat_alt unsigned_of_nat take_bit_nat_eq_self)

text \<open>The pages that hold the bitmap when it is placed at the start of entry \<open>e\<close>.\<close>

definition bitmap_frames :: "memmap_entry list \<Rightarrow> memmap_entry \<Rightarrow> nat set" where
  "bitmap_frames m e =
     {unat (mm_base e div PAGE_SIZE) ..<
      unat (mm_base e div PAGE_SIZE) + unat ((bitmap_bytes m + PAGE_SIZE - 1) div PAGE_SIZE)}"

lemma bitmap_frames_subset:
  assumes "entry_ok hhdm e" "e \<in> set m" "usable e" "bitmap_bytes m \<le> mm_length e"
  shows "bitmap_frames m e \<subseteq> set (usable_pages m)"
  using assms bitmap_pages_in_entry [OF assms(1,4)]
  by (auto simp: bitmap_frames_def usable_pages_def entry_pages_eq unat_div intro!: bexI [of _ e])

lemma entry_ptr_nonnull: "entry_ok hhdm e \<Longrightarrow> mm_base e + hhdm \<noteq> NULL"
proof
  assume ok: "entry_ok hhdm e" and "mm_base e + hhdm = NULL"
  moreover have "unat (mm_base e + hhdm) = unat (mm_base e) + unat hhdm"
    using ok by (simp add: entry_ok_def unat_word_ariths)
  ultimately show False using ok by (simp add: entry_ok_def unat_eq_zero)
qed

lemma pmm_init_run:
  assumes wf: "wf_memmap hhdm m" and fit: "\<exists>e \<in> set m. usable e \<and> bitmap_bytes m \<le> mm_length e"
    and fp: "free_pages s = 0"
  obtains e bm where "e \<in> set m" "usable e" "bitmap_bytes m \<le> mm_length e" "entry_ok hhdm e"
    "pmm_init m hhdm s = Some (log_info ''PMM''
       (s\<lparr>hhdm_offset := hhdm, total_pages := highest_loop m 0 div PAGE_SIZE,
          bitmap_size := bitmap_bytes m, bitmap_ptr := mm_base e + hhdm, bitmap := bm,
          free_pages := of_nat (length (usable_pages m)) -
                        (bitmap_bytes m + PAGE_SIZE - 1) div PAGE_SIZE\<rparr>))"
    "length bm = unat (bitmap_bytes m)"
    "\<And>j. j < 8 * length bm \<Longrightarrow>
         page_used bm j \<longleftrightarrow> j \<notin> set (usable_pages m) \<or> j \<in> bitmap_frames m e"
proof -
  let ?total = "highest_loop m 0 div PAGE_SIZE"
  let ?s1 = "s\<lparr>hhdm_offset := hhdm, total_pages := ?total, bitmap_size := bitmap_bytes m\<rparr>"
  obtain e where e: "e \<in> set m" "usable e" "bitmap_bytes m \<le> mm_length e"
    "place_bitmap m ?s1 = ?s1\<lparr>bitmap_ptr := mm_base e + hhdm\<rparr>"
    using place_bitmap_found [of m ?s1] fit by auto
  have ok: "entry_ok hhdm e" using wf e by (auto simp: wf_memmap_def list_all_iff)
  let ?s2 = "?s1\<lparr>bitmap_ptr := mm_base e + hhdm, bitmap := replicate (unat (bitmap_bytes m)) 0xFF\<rparr>"
  have t8: "unat (highest_loop m 0) div 4096 \<le> 8 * length (bitmap ?s2)"
    by (simp add: unat_bitmap_bytes(1))
  obtain bm where bm: "release_entries m ?s2 =
      Some (?s2\<lparr>bitmap := bm, free_pages := of_nat (length (usable_pages m))\<rparr>)"
    "length bm = length (bitmap ?s2)"
    "\<And>j. page_used bm j \<longleftrightarrow> page_used (bitmap ?s2) j \<and> j \<notin> set (usable_pages m)"
    using release_entries_spec [of hhdm m ?s2] wf fp le_trans [OF usable_end_le t8]
    by (auto simp: wf_memmap_def)
  let ?s3 = "?s2\<lparr>bitmap := bm, free_pages := of_nat (length (usable_pages m))\<rparr>"
  let ?b = "mm_base e div PAGE_SIZE" and ?n = "(bitmap_bytes m + PAGE_SIZE - 1) div PAGE_SIZE"
  have "unat ?b + unat ?n \<le> unat (mm_base e + mm_length e) div 4096"
    using bitmap_pages_in_entry [OF ok e(3)] entry_ok_div(2) [OF ok] by (simp add: unat_div)
  also note usable_end_le [OF e(1,2)]
  finally have bt: "unat ?b + unat ?n \<le> unat (highest_loop m 0) div 4096" .
  also note t8
  finally have b8: "unat ?b + unat ?n \<le> 8 * length (bitmap ?s3)" using bm(2) by simp
  have "unat ?b + unat ?n < 2 ^ 64"
    using bt unat_u64_less [of "highest_loop m 0"] by simp
  from reserve_page_loop [OF b8 this] obtain bm' where bm':
    "for_u64 0 ?n (\<lambda>i. reserve_page (?b + i)) ?s3 =
      Some (?s3\<lparr>bitmap := bm', free_pages := free_pages ?s3 - ?n\<rparr>)"
    "length bm' = length (bitmap ?s3)"
    "\<And>j. page_used bm' j \<longleftrightarrow> page_used (bitmap ?s3) j \<or> (unat ?b \<le> j \<and> j < unat ?b + unat ?n)"
    by blast
  show thesis
  proof (rule that [OF e(1-3) ok])
    show "pmm_init m hhdm s = Some (log_info ''PMM''
       (s\<lparr>hhdm_offset := hhdm, total_pages := ?total, bitmap_size := bitmap_bytes m,
          bitmap_ptr := mm_base e + hhdm, bitmap := bm',
          free_pages := of_nat (length (usable_pages m)) - ?n\<rparr>))"
      using e(4) entry_ptr_nonnull [OF ok] bm(1) bm'(1)
      by (simp add: pmm_init_def bitmap_bytes_def Let_def)
    show "length bm' = unat (bitmap_bytes m)" using bm(2) bm'(2) by simp
    then show "page_used bm' j \<longleftrightarrow> j \<notin> set (usable_pages m) \<or> j \<in> bitmap_frames m e"
      if "j < 8 * length bm'" for j
      using that by (simp add: bm'(3) bm(3) page_used_replicate_FF bitmap_frames_def)
  qed
qed

lemma pmm_init_count:
  assumes "wf_memmap hhdm m" and "bitmap_frames m e \<subseteq> set (usable_pages m)"
  shows "unat (of_nat (length (usable_pages m)) - (bitmap_bytes m + PAGE_SIZE - 1) div PAGE_SIZE) =
         card (set (usable_pages m) - bitmap_frames m e)"
proof -
  let ?n = "(bitmap_bytes m + PAGE_SIZE - 1) div PAGE_SIZE"
  have n: "unat ?n = card (bitmap_frames m e)" by (simp add: bitmap_frames_def)
  have lu: "length (usable_pages m) = card (set (usable_pages m))"
    using assms(1) by (simp add: wf_memmap_def distinct_card)
  have le: "card (bitmap_frames m e) \<le> length (usable_pages m)"
    unfolding lu by (rule card_mono) (use assms(2) in auto)
  have "set (usable_pages m) \<subseteq> {..<unat (highest_loop m 0) div 4096}"
    using usable_page_bounds(2) [OF assms(1)] by auto
  then have "card (set (usable_pages m)) \<le> card {..<unat (highest_loop m 0) div 4096}"
    by (rule card_mono [rotated]) simp
  then have "length (usable_pages m) < 2 ^ 64"
    using unat_u64_less [of "highest_loop m 0"] by (simp add: lu)
  from unat_diff_of_nat [OF le this]
  have "unat (of_nat (length (usable_pages m)) - of_nat (unat ?n) :: u64) =
          length (usable_pages m) - card (bitmap_frames m e)"
    by (simp only: n)
  moreover have "card (set (usable_pages m) - bitmap_frames m e) =
                   length (usable_pages m) - card (bitmap_frames m e)"
    using assms(2) by (simp add: lu card_Diff_subset bitmap_frames_def)
  ultimately show ?thesis by simp
qed

lemma pmm_init_correct:
  assumes wf: "wf_memmap hhdm m" and fit: "\<exists>e \<in> set m. usable e \<and> bitmap_bytes m \<le> mm_length e"
    and fp: "free_pages s = 0"
  shows "\<exists>s' e. pmm_init m hhdm s = Some s' \<and> e \<in> set m \<and> usable e \<and>
           bitmap_ptr s' = mm_base e + hhdm \<and> pmm_inv s' \<and> 0 \<notin> free_set s' \<and>
           free_set s' = set (usable_pages m) - bitmap_frames m e"
proof -
  obtain e bm where e: "e \<in> set m" "usable e" "bitmap_bytes m \<le> mm_length e" "entry_ok hhdm e"
    and init: "pmm_init m hhdm s = Some (log_info ''PMM''
       (s\<lparr>hhdm_offset := hhdm, total_pages := highest_loop m 0 div PAGE_SIZE,
          bitmap_size := bitmap_bytes m, bitmap_ptr := mm_base e + hhdm, bitmap := bm,
          free_pages := of_nat (length (usable_pages m)) -
                        (bitmap_bytes m + PAGE_SIZE - 1) div PAGE_SIZE\<rparr>))"
      (is "_ = Some (log_info _ ?s)")
    and len: "length bm = unat (bitmap_bytes m)"
    and used: "\<And>j. j < 8 * length bm \<Longrightarrow>
         page_used bm j \<longleftrightarrow> j \<notin> set (usable_pages m) \<or> j \<in> bitmap_frames m e"
    using pmm_init_run [OF assms] by blast
  have ut: "unat (total_pages ?s) = unat (highest_loop m 0) div 4096" by (simp add: unat_div)
  have t8: "unat (highest_loop m 0) div 4096 \<le> 8 * length bm"
    by (simp add: len unat_bitmap_bytes(1))
  have t52: "unat (highest_loop m 0) div 4096 < 2 ^ 52"
    using unat_u64_less [of "highest_loop m 0"] by simp
  have "j \<in> free_set ?s \<longleftrightarrow> j \<in> set (usable_pages m) - bitmap_frames m e" for j
    using usable_page_bounds(2) [OF wf, of j] t8 used [of j]
    by (auto simp: free_set_def unat_div)
  then have fs: "free_set ?s = set (usable_pages m) - bitmap_frames m e" by blast
  then have "pmm_inv ?s"
    using pmm_init_count [OF wf bitmap_frames_subset [OF e(4,1,2,3)]] t8 t52 ut
    by (simp add: pmm_inv_def)
  moreover have "0 \<notin> free_set ?s" using fs usable_page_bounds(1) [OF wf, of 0] by auto
  ultimately show ?thesis
    using init fs e(1,2) by (intro exI [of _ "log_info ''PMM'' ?s"] exI [of _ e])
      (simp, simp add: log_event_def)
qed

section \<open>The interface to the clients\<close>

text \<open>
  What the pager and the heap rely on. \<open>frames s\<close> is the set of addresses of free frames and
  \<open>managed s\<close> the set of addresses the allocator may hand out at all; \<open>NULL\<close> is the error value, so
  it is in neither.
\<close>

locale frame_allocator =
  fixes alloc :: "'s \<Rightarrow> (u64 \<times> 's) option"
    and release :: "u64 \<Rightarrow> 's \<Rightarrow> 's option"
    and frames :: "'s \<Rightarrow> u64 set"
    and managed :: "'s \<Rightarrow> u64 set"
    and invar :: "'s \<Rightarrow> bool"
  assumes finite_frames: "invar s \<Longrightarrow> finite (frames s)"
    and frames_managed: "invar s \<Longrightarrow> frames s \<subseteq> managed s"
    and managed_nonnull: "NULL \<notin> managed s"
    and managed_aligned: "p \<in> managed s \<Longrightarrow> page_aligned p"
    and alloc_some: "invar s \<Longrightarrow> frames s \<noteq> {} \<Longrightarrow>
      \<exists>p s'. alloc s = Some (p, s') \<and> p \<in> frames s \<and> frames s' = frames s - {p} \<and>
             managed s' = managed s \<and> invar s'"
    and alloc_none: "invar s \<Longrightarrow> frames s = {} \<Longrightarrow>
      \<exists>s'. alloc s = Some (NULL, s') \<and> frames s' = {} \<and> managed s' = managed s \<and> invar s'"
    and release_used: "invar s \<Longrightarrow> p \<in> managed s - frames s \<Longrightarrow>
      \<exists>s'. release p s = Some s' \<and> frames s' = insert p (frames s) \<and> managed s' = managed s \<and>
           invar s'"
begin

lemma alloc_result:
  assumes "invar s"
  obtains p s' where "alloc s = Some (p, s')" "invar s'" "managed s' = managed s"
    "p = NULL \<longleftrightarrow> frames s = {}" "frames s' = frames s - {p}" "p \<noteq> NULL \<longrightarrow> p \<in> frames s"
    "page_aligned p"
proof (cases "frames s = {}")
  case True
  then show thesis using alloc_none [OF assms] that by auto
next
  case False
  have "p \<noteq> NULL \<and> page_aligned p" if "p \<in> frames s" for p
    using that frames_managed [OF assms] managed_nonnull [of s] managed_aligned by blast
  then show thesis using alloc_some [OF assms False] that False by metis
qed

lemma alloc_total: "invar s \<Longrightarrow> \<exists>p s'. alloc s = Some (p, s')"
  using alloc_result by metis

lemma alloc_fresh:
  assumes "invar s" "alloc s = Some (p, s')"
  shows "invar s'" "managed s' = managed s" "frames s' = frames s - {p}" "page_aligned p"
    "p = NULL \<longleftrightarrow> frames s = {}" "p \<noteq> NULL \<Longrightarrow> p \<in> frames s" "p \<noteq> NULL \<Longrightarrow> p \<in> managed s"
proof -
  obtain q t where r: "alloc s = Some (q, t)" "invar t" "managed t = managed s"
    "q = NULL \<longleftrightarrow> frames s = {}" "frames t = frames s - {q}" "q \<noteq> NULL \<longrightarrow> q \<in> frames s"
    "page_aligned q"
    by (rule alloc_result [OF assms(1)])
  have "q = p" "t = s'" using r(1) assms(2) by auto
  with r frames_managed [OF assms(1)]
  show "invar s'" "managed s' = managed s" "frames s' = frames s - {p}" "page_aligned p"
    "p = NULL \<longleftrightarrow> frames s = {}" "p \<noteq> NULL \<Longrightarrow> p \<in> frames s" "p \<noteq> NULL \<Longrightarrow> p \<in> managed s"
    by blast+
qed

lemma alloc_release:
  assumes "invar s" "alloc s = Some (p, s')" "p \<noteq> NULL"
  shows "\<exists>s''. release p s' = Some s'' \<and> frames s'' = frames s \<and> invar s''"
proof -
  note f = alloc_fresh [OF assms(1,2)]
  have "p \<in> managed s' - frames s'" using f assms(3) by auto
  from release_used [OF f(1) this] obtain s'' where
    "release p s' = Some s''" "frames s'' = insert p (frames s')" "invar s''" by blast
  moreover have "insert p (frames s') = frames s" using f assms(3) by auto
  ultimately show ?thesis by auto
qed

end

definition free_frames :: "'a pmm_scheme \<Rightarrow> u64 set" where
  "free_frames s = {p. page_aligned p \<and> unat p div 4096 \<in> free_set s}"

definition managed_frames :: "'a pmm_scheme \<Rightarrow> u64 set" where
  "managed_frames s = {p. page_aligned p \<and> p \<noteq> NULL \<and> unat p div 4096 < unat (total_pages s)}"

definition pmm_ok :: "'a pmm_scheme \<Rightarrow> bool" where
  "pmm_ok s \<longleftrightarrow> pmm_inv s \<and> 0 \<notin> free_set s"

lemma unat_frame:
  assumes "i < 4503599627370496"
  shows "unat (of_nat i * PAGE_SIZE) = 4096 * i"
proof -
  have "unat (of_nat i :: u64) = i" using assms by (intro unat_of_nat_u64) simp
  then show ?thesis using assms by (simp add: unat_word_ariths)
qed

lemma frame_eq_iff:
  assumes "page_aligned p"
  shows "unat p div 4096 = i \<longleftrightarrow> p = of_nat i * PAGE_SIZE \<and> i < 4503599627370496"
proof
  assume i: "unat p div 4096 = i"
  then have "i < 4503599627370496" using unat_u64_less [of p] by simp
  moreover have "unat p = 4096 * i"
    using assms i div_mult_mod_eq [of "unat p" 4096] by (simp add: page_aligned_iff)
  ultimately show "p = of_nat i * PAGE_SIZE \<and> i < 4503599627370496"
    by (simp add: word_unat_eq_iff unat_frame)
next
  assume "p = of_nat i * PAGE_SIZE \<and> i < 4503599627370496"
  then show "unat p div 4096 = i" by (simp add: unat_frame)
qed

lemma free_frames_image:
  assumes "pmm_inv s"
  shows "free_frames s = (\<lambda>i. of_nat i * PAGE_SIZE) ` free_set s"
proof -
  have "i < 4503599627370496" if "i \<in> free_set s" for i
    using that assms by (auto simp: free_set_def pmm_inv_def)
  then show ?thesis
    by (auto simp: free_frames_def image_iff unat_frame) (metis frame_eq_iff)+
qed

lemma free_frames_cong: "free_set s = free_set s' \<Longrightarrow> free_frames s = free_frames s'"
  by (simp add: free_frames_def)

interpretation pmm: frame_allocator pmm_alloc pmm_free free_frames managed_frames pmm_ok
proof unfold_locales
  fix s :: "'a pmm_scheme"
  show "finite (free_frames s)" if "pmm_ok s"
    using that by (simp add: free_frames_image pmm_ok_def)
  show "free_frames s \<subseteq> managed_frames s" if "pmm_ok s"
    using that by (auto simp: free_frames_def managed_frames_def pmm_ok_def free_set_def)
  show "NULL \<notin> managed_frames s" by (simp add: managed_frames_def)
  show "page_aligned p" if "p \<in> managed_frames s" for p using that by (simp add: managed_frames_def)
  show "\<exists>s'. pmm_alloc s = Some (NULL, s') \<and> free_frames s' = {} \<and>
          managed_frames s' = managed_frames s \<and> pmm_ok s'"
    if "pmm_ok s" "free_frames s = {}"
  proof -
    have "free_set s = {}" using that by (simp add: free_frames_image pmm_ok_def)
    then show ?thesis using that pmm_alloc_exhausted [of s]
      by (simp add: pmm_ok_def free_frames_def managed_frames_def) (simp add: log_event_def)
  qed
  show "\<exists>p s'. pmm_alloc s = Some (p, s') \<and> p \<in> free_frames s \<and> free_frames s' = free_frames s - {p} \<and>
          managed_frames s' = managed_frames s \<and> pmm_ok s'"
    if ok: "pmm_ok s" and ne: "free_frames s \<noteq> {}"
  proof -
    let ?i = "Min (free_set s)" and ?p = "of_nat (Min (free_set s)) * PAGE_SIZE"
    have inv: "pmm_inv s" and "free_set s \<noteq> {}"
      using ok ne by (auto simp: free_frames_image pmm_ok_def)
    from pmm_alloc_available [OF this] obtain s' where a: "pmm_alloc s = Some (?p, s')"
      "total_pages s' = total_pages s" "free_set s' = free_set s - {?i}" "pmm_inv s'" by blast
    have mi: "?i \<in> free_set s" using \<open>free_set s \<noteq> {}\<close> by simp
    then have "?i < 4503599627370496" using inv by (auto simp: free_set_def pmm_inv_def)
    then have "?p \<in> free_frames s" "free_frames s' = free_frames s - {?p}"
      using mi a(3) frame_eq_iff [of _ ?i] by (auto simp: free_frames_def unat_frame)
    then show ?thesis using a ok by (auto simp: pmm_ok_def managed_frames_def)
  qed
  show "\<exists>s'. pmm_free p s = Some s' \<and> free_frames s' = insert p (free_frames s) \<and>
          managed_frames s' = managed_frames s \<and> pmm_ok s'"
    if ok: "pmm_ok s" and p: "p \<in> managed_frames s - free_frames s" for p
  proof -
    have al: "page_aligned p" "p \<noteq> NULL" and i: "unat p div 4096 < unat (total_pages s)"
      "unat p div 4096 \<notin> free_set s" "pmm_inv s"
      using ok p by (auto simp: managed_frames_def free_frames_def pmm_ok_def)
    let ?s = "\<lambda>bm. s\<lparr>bitmap := bm, free_pages := free_pages s + 1\<rparr>"
    obtain bm where f: "pmm_free p s = Some (?s bm)"
      "free_set (?s bm) = insert (unat p div 4096) (free_set s)" "pmm_inv (?s bm)"
      by (rule pmm_free_used [OF i(3,1,2)])
    have "free_frames (?s bm) = insert p (free_frames s)"
      using f(2) al(1) frame_eq_iff by (auto simp: free_frames_def) metis+
    moreover have "unat p div 4096 \<noteq> 0" using al frame_eq_iff [of p 0] by auto
    ultimately show ?thesis using f ok by (auto simp: pmm_ok_def managed_frames_def)
  qed
qed

section \<open>Properties\<close>

lemma bitmap_eqI:
  assumes "length bm = length bm'" and "\<And>j. j < 8 * length bm \<Longrightarrow> page_used bm j = page_used bm' j"
  shows "bm = bm'"
proof (rule nth_equalityI)
  show "length bm = length bm'" by (rule assms(1))
  fix k
  assume k: "k < length bm"
  show "bm ! k = bm' ! k"
  proof (rule bit_word_eqI)
    fix n
    assume "n < LENGTH(8)"
    then have "8 * k + n < 8 * length bm" "(8 * k + n) div 8 = k" "(8 * k + n) mod 8 = n"
      using k by simp_all
    then show "bit (bm ! k) n = bit (bm' ! k) n"
      using assms(2) [of "8 * k + n"] by (simp add: page_used_def)
  qed
qed

lemma pmm_alloc_free_id:
  assumes "pmm_inv s" and "free_set s \<noteq> {}" and "pmm_alloc s = Some (p, s')"
  shows "pmm_free p s' = Some s"
proof -
  let ?i = "Min (free_set s)"
  obtain bm where a:
    "pmm_alloc s = Some (of_nat ?i * PAGE_SIZE, s\<lparr>bitmap := bm, free_pages := free_pages s - 1\<rparr>)"
    "length bm = length (bitmap s)" "\<And>j. page_used bm j \<longleftrightarrow> j = ?i \<or> page_used (bitmap s) j"
    using pmm_alloc_loop_found [of s 0] assms(1,2) unfolding pmm_alloc_def pmm_inv_def by auto
  have i: "?i < unat (total_pages s)" "\<not> page_used (bitmap s) ?i"
    using Min_in [of "free_set s"] assms(2) by (auto simp: free_set_def)
  have up: "unat (p div PAGE_SIZE) = ?i"
    using a(1) assms i(1) by (simp add: pmm_inv_def unat_div unat_frame)
  have s': "s' = s\<lparr>bitmap := bm, free_pages := free_pages s - 1\<rparr>" using a(1) assms(3) by simp
  have lt: "unat (p div PAGE_SIZE) < 8 * length (bitmap s')"
    using up i(1) assms(1) a(2) by (simp add: s' pmm_inv_def)
  obtain bm' where c: "BITMAP_CLEAR (p div PAGE_SIZE) s' = Some (s'\<lparr>bitmap := bm'\<rparr>)"
    "length bm' = length (bitmap s')"
    "\<And>j. page_used bm' j \<longleftrightarrow> j \<noteq> unat (p div PAGE_SIZE) \<and> page_used (bitmap s') j"
    using BITMAP_CLEAR_eq [OF lt] by blast
  have "bm' = bitmap s"
    using a c(2) i(2) by (intro bitmap_eqI) (auto simp: c(3) s' up)
  moreover have "BITMAP_TEST (p div PAGE_SIZE) s' = Some True"
    by (simp add: BITMAP_TEST_eq [OF lt] up) (simp add: s' a(3))
  ultimately show ?thesis
    using c(1) by (simp add: pmm_free_def Let_def) (simp add: s')
qed

text \<open>A small state for the witnesses: four pages, of which 2 and 3 are free.\<close>

definition sample_pmm :: pmm where
  "sample_pmm = \<lparr>klog = [], bitmap = [0xF3], bitmap_ptr = 0x1000, total_pages = 4, free_pages = 2,
                 bitmap_size = 1, hhdm_offset = 0\<rparr>"

lemma sample_pmm_free: "free_set sample_pmm = {2, 3}"
proof -
  have "i < 4 \<and> \<not> page_used [0xF3] i \<longleftrightarrow> i = 2 \<or> i = 3" for i
  proof (cases "i < 4")
    case True
    then consider "i = 0" | "i = 1" | "i = 2" | "i = 3" by linarith
    then show ?thesis by cases (simp_all add: page_used_def)
  qed auto
  then show ?thesis by (auto simp: free_set_def sample_pmm_def)
qed

lemma sample_pmm_inv: "pmm_inv sample_pmm"
  unfolding pmm_inv_def sample_pmm_free by (simp add: sample_pmm_def)

text \<open>
  C10. On a well-formed memory map with a usable entry large enough for the bitmap, \<^verbatim>\<open>pmm_init\<close>
  succeeds: the bitmap lies at the start of a usable entry, the free count is the number of clear
  bits, the free pages are exactly the usable pages without those that hold the bitmap, and page 0
  (the error value of \<^verbatim>\<open>pmm_alloc\<close>) is not among them.
\<close>

theorem pmm_init_establishes:
  assumes "wf_memmap hhdm m" and "\<exists>e \<in> set m. usable e \<and> bitmap_bytes m \<le> mm_length e"
    and "free_pages s = 0"
  shows "\<exists>s' e. pmm_init m hhdm s = Some s' \<and> e \<in> set m \<and> usable e \<and>
           bitmap_ptr s' = mm_base e + hhdm \<and> pmm_inv s' \<and> 0 \<notin> free_set s' \<and>
           free_set s' = set (usable_pages m) - bitmap_frames m e"
  using assms by (rule pmm_init_correct)

definition sample_memmap :: "memmap_entry list" where
  "sample_memmap =
     [\<lparr>mm_base = 0, mm_length = 0x1000, mm_type = LIMINE_MEMMAP_OTHER\<rparr>,
      \<lparr>mm_base = 0x1000, mm_length = 0x3000, mm_type = LIMINE_MEMMAP_USABLE\<rparr>]"

definition boot_pmm :: pmm where
  "boot_pmm = \<lparr>klog = [], bitmap = [], bitmap_ptr = 0, total_pages = 0, free_pages = 0,
               bitmap_size = 0, hhdm_offset = 0\<rparr>"

theorem pmm_init_establishes_witness:
  "\<exists>s' e. pmm_init sample_memmap 0 boot_pmm = Some s' \<and> e \<in> set sample_memmap \<and> usable e \<and>
     bitmap_ptr s' = mm_base e + 0 \<and> pmm_inv s' \<and> 0 \<notin> free_set s' \<and>
     free_set s' = set (usable_pages sample_memmap) - bitmap_frames sample_memmap e"
proof (rule pmm_init_establishes)
  show "wf_memmap 0 sample_memmap"
    by (simp add: wf_memmap_def sample_memmap_def usable_def entry_ok_def page_aligned_def
        usable_pages_def entry_pages_def)
  show "\<exists>e \<in> set sample_memmap. usable e \<and> bitmap_bytes sample_memmap \<le> mm_length e"
    by (simp add: sample_memmap_def usable_def bitmap_bytes_def)
  show "free_pages boot_pmm = 0" by (simp add: boot_pmm_def)
qed

text \<open>
  C16. With a free page, \<^verbatim>\<open>pmm_alloc\<close> returns the address of the lowest one, takes exactly that page
  out of the free set, keeps the invariant (so the count drops by one) and changes nothing else.
\<close>

theorem pmm_alloc_lowest:
  assumes "pmm_inv s" and "free_set s \<noteq> {}"
  shows "\<exists>s'. pmm_alloc s = Some (of_nat (Min (free_set s)) * PAGE_SIZE, s') \<and>
              free_set s' = free_set s - {Min (free_set s)} \<and> pmm_inv s' \<and>
              unat (free_pages s') = unat (free_pages s) - 1 \<and> klog s' = klog s \<and> pmm_frame s s'"
proof -
  from pmm_alloc_available [OF assms] obtain s' where
    a: "pmm_alloc s = Some (of_nat (Min (free_set s)) * PAGE_SIZE, s')"
    "free_pages s' = free_pages s - 1" "klog s' = klog s"
    "free_set s' = free_set s - {Min (free_set s)}" "pmm_inv s'" by blast
  have "0 < card (free_set s)" using assms(2) by (simp add: card_gt_0_iff)
  then have "unat (free_pages s - 1) = unat (free_pages s) - 1"
    using assms(1) by (intro unat_minus_1) (simp_all add: pmm_inv_def)
  with a pmm_alloc_frame [OF a(1)] show ?thesis by auto
qed

theorem pmm_alloc_lowest_witness:
  "\<exists>s'. pmm_alloc sample_pmm = Some (0x2000, s') \<and> free_set s' = {3} \<and> pmm_inv s' \<and>
        unat (free_pages s') = 1 \<and> klog s' = [] \<and> pmm_frame sample_pmm s'"
  using pmm_alloc_lowest [OF sample_pmm_inv]
  by (simp add: sample_pmm_free) (auto simp: sample_pmm_def)

text \<open>
  C25. Freeing a page of the managed range adds it to the free set and keeps the invariant; freeing
  a page that is already free changes nothing, so a double free cannot inflate the count.
\<close>

theorem pmm_free_page:
  assumes "pmm_inv s" and "unat p div 4096 < unat (total_pages s)"
  shows "\<exists>s'. pmm_free p s = Some s' \<and> free_set s' = insert (unat p div 4096) (free_set s) \<and>
              pmm_inv s' \<and> (unat p div 4096 \<in> free_set s \<longrightarrow> s' = s)"
proof (cases "unat p div 4096 \<in> free_set s")
  case True
  then show ?thesis using pmm_free_unused [OF assms(1)] assms(1) by auto
next
  case False
  then show ?thesis using pmm_free_used [OF assms False] by metis
qed

theorem pmm_free_page_witness:
  "\<exists>s'. pmm_free 0x1000 sample_pmm = Some s' \<and> free_set s' = {1, 2, 3} \<and> pmm_inv s' \<and>
        (1 \<in> free_set sample_pmm \<longrightarrow> s' = sample_pmm)"
  using pmm_free_page [OF sample_pmm_inv, where p = "0x1000"]
  by (simp add: sample_pmm_free) (simp add: sample_pmm_def)

text \<open>
  If page 0 is free (a memory map that declares it usable), \<^verbatim>\<open>pmm_alloc\<close> hands it out: it returns
  0, which every caller reads as "out of memory", without logging an error, and the page is marked
  used although nobody owns it.
\<close>

lemma pmm_alloc_page_zero:
  assumes "pmm_inv s" and "0 \<in> free_set s"
  shows "\<exists>s'. pmm_alloc s = Some (0, s') \<and> klog s' = klog s \<and> free_set s' = free_set s - {0} \<and>
              pmm_inv s'"
proof -
  have "Min (free_set s) = 0" using assms(2) by (intro Min_eqI) auto
  moreover have "free_set s \<noteq> {}" using assms(2) by auto
  ultimately show ?thesis using pmm_alloc_available [OF assms(1)] by auto
qed

end
