(* ===== verification/Vmm.thy ===== *)
theory Vmm
  imports Pmm
begin

text \<open>
  \<^verbatim>\<open>mm/vmm.c\<close>: four-level x86-64 page tables, built in frames of the physical allocator and reached
  through the higher-half direct map (HHDM).
\<close>

section \<open>State and operations\<close>

text \<open>
  \<open>mem\<close> is the memory the kernel reaches through the HHDM, as 8-byte cells at 8-byte aligned
  virtual addresses. \<open>cr3\<close> is the control register, and \<open>invlpg\<close> records the addresses whose
  translations the kernel invalidated.
\<close>

record vmm = pmm +
  mem :: "u64 \<Rightarrow> u64"
  cr3 :: u64
  invlpg :: "u64 list"

definition VMM_PRESENT :: u64 where "VMM_PRESENT = 1"
definition VMM_WRITE :: u64 where "VMM_WRITE = 2"
definition VMM_USER :: u64 where "VMM_USER = 4"
definition VMM_NX :: u64 where "VMM_NX = 0x8000000000000000"
definition VMM_KERNEL :: u64 where "VMM_KERNEL = VMM_PRESENT OR VMM_WRITE"
definition VMM_USERMODE :: u64 where "VMM_USERMODE = VMM_PRESENT OR VMM_WRITE OR VMM_USER"

lemmas vmm_flags = VMM_PRESENT_def VMM_WRITE_def VMM_USER_def VMM_NX_def VMM_KERNEL_def
  VMM_USERMODE_def

text \<open>\<open>cell t i\<close> is the address of entry \<open>i\<close> of the table at \<open>t\<close>, the C expression \<^verbatim>\<open>&t[i]\<close>.\<close>

definition cell :: "u64 \<Rightarrow> u64 \<Rightarrow> u64" where
  "cell t i = t + 8 * i"

definition mem_write :: "u64 \<Rightarrow> u64 \<Rightarrow> 'a vmm_scheme \<Rightarrow> 'a vmm_scheme" where
  "mem_write a v s = s\<lparr>mem := (mem s)(a := v)\<rparr>"

definition phys_to_virt :: "'a vmm_scheme \<Rightarrow> u64 \<Rightarrow> u64" where
  "phys_to_virt s phys = phys + hhdm_offset s"

definition virt_to_phys :: "'a vmm_scheme \<Rightarrow> u64 \<Rightarrow> u64" where
  "virt_to_phys s virt = virt - hhdm_offset s"

definition pml4_idx :: "u64 \<Rightarrow> u64" where "pml4_idx virt = drop_bit 39 virt AND 0x1FF"
definition pdpt_idx :: "u64 \<Rightarrow> u64" where "pdpt_idx virt = drop_bit 30 virt AND 0x1FF"
definition pd_idx :: "u64 \<Rightarrow> u64" where "pd_idx virt = drop_bit 21 virt AND 0x1FF"
definition pt_idx :: "u64 \<Rightarrow> u64" where "pt_idx virt = drop_bit 12 virt AND 0x1FF"

definition zero_table :: "u64 \<Rightarrow> 'a vmm_scheme \<Rightarrow> 'a vmm_scheme option" where
  "zero_table t s = for_u64 0 512 (\<lambda>i s. Some (mem_write (cell t i) 0 s)) s"

definition get_or_create :: "u64 \<Rightarrow> u64 \<Rightarrow> u64 \<Rightarrow> 'a vmm_scheme \<Rightarrow> (u64 \<times> 'a vmm_scheme) option" where
  "get_or_create table index flags s =
     (if mem s (cell table index) AND VMM_PRESENT \<noteq> 0
      then Some (phys_to_virt s (page_base (mem s (cell table index))), s)
      else do {
        (phys, s) \<leftarrow> pmm_alloc s;
        if phys = 0 then Some (NULL, log_error ''VMM'' s)
        else do {
          let virt = phys_to_virt s phys;
          s \<leftarrow> zero_table virt s;
          Some (virt, mem_write (cell table index) (phys OR flags) s)
        }
      })"

definition vmm_map :: "u64 \<Rightarrow> u64 \<Rightarrow> u64 \<Rightarrow> u64 \<Rightarrow> 'a vmm_scheme \<Rightarrow> 'a vmm_scheme option" where
  "vmm_map pml4 virt phys flags s =
     (let table_flags = VMM_PRESENT OR VMM_WRITE;
          table_flags = (if flags AND VMM_USER \<noteq> 0 then table_flags OR VMM_USER else table_flags)
      in do {
        (pdpt, s) \<leftarrow> get_or_create pml4 (pml4_idx virt) table_flags s;
        if pdpt = NULL then Some s else do {
        (pd, s) \<leftarrow> get_or_create pdpt (pdpt_idx virt) table_flags s;
        if pd = NULL then Some s else do {
        (pt, s) \<leftarrow> get_or_create pd (pd_idx virt) table_flags s;
        if pt = NULL then Some s else
        Some (mem_write (cell pt (pt_idx virt)) (phys OR flags) s) } } })"

definition vmm_unmap :: "u64 \<Rightarrow> u64 \<Rightarrow> 'a vmm_scheme \<Rightarrow> 'a vmm_scheme" where
  "vmm_unmap pml4 virt s =
     (if mem s (cell pml4 (pml4_idx virt)) AND VMM_PRESENT = 0 then s else
      let pdpt = phys_to_virt s (page_base (mem s (cell pml4 (pml4_idx virt)))) in
      if mem s (cell pdpt (pdpt_idx virt)) AND VMM_PRESENT = 0 then s else
      let pd = phys_to_virt s (page_base (mem s (cell pdpt (pdpt_idx virt)))) in
      if mem s (cell pd (pd_idx virt)) AND VMM_PRESENT = 0 then s else
      let pt = phys_to_virt s (page_base (mem s (cell pd (pd_idx virt))));
          s = mem_write (cell pt (pt_idx virt)) 0 s
      in s\<lparr>invlpg := invlpg s @ [virt]\<rparr>)"

definition vmm_get_current :: "'a vmm_scheme \<Rightarrow> u64" where
  "vmm_get_current s = phys_to_virt s (page_base (cr3 s))"

definition vmm_switch :: "u64 \<Rightarrow> 'a vmm_scheme \<Rightarrow> 'a vmm_scheme" where
  "vmm_switch pml4 s = s\<lparr>cr3 := virt_to_phys s pml4\<rparr>"

definition vmm_new_pagemap :: "'a vmm_scheme \<Rightarrow> (u64 \<times> 'a vmm_scheme) option" where
  "vmm_new_pagemap s =
     do {
       (phys, s) \<leftarrow> pmm_alloc s;
       let pml4 = phys_to_virt s phys;
       let current_pml4 = vmm_get_current s;
       s \<leftarrow> for_u64 0 512
              (\<lambda>i s. Some (mem_write (cell pml4 i)
                            (if i \<ge> 256 then mem s (cell current_pml4 i) else 0) s)) s;
       Some (pml4, s)
     }"

definition vmm_init :: "'a vmm_scheme \<Rightarrow> 'a vmm_scheme" where
  "vmm_init s = log_info ''VMM'' (vmm_switch (vmm_get_current s) s)"

definition vmm_get_phys :: "u64 \<Rightarrow> u64 \<Rightarrow> 'a vmm_scheme \<Rightarrow> u64" where
  "vmm_get_phys pml4 virt s =
     (if mem s (cell pml4 (pml4_idx virt)) AND VMM_PRESENT = 0 then 0 else
      let pdpt = phys_to_virt s (page_base (mem s (cell pml4 (pml4_idx virt)))) in
      if mem s (cell pdpt (pdpt_idx virt)) AND VMM_PRESENT = 0 then 0 else
      let pd = phys_to_virt s (page_base (mem s (cell pdpt (pdpt_idx virt)))) in
      if mem s (cell pd (pd_idx virt)) AND VMM_PRESENT = 0 then 0 else
      let pt = phys_to_virt s (page_base (mem s (cell pd (pd_idx virt))))
      in page_base (mem s (cell pt (pt_idx virt))))"

section \<open>Cells and tables\<close>

definition table_idx :: "u64 \<Rightarrow> bool" where
  "table_idx i \<longleftrightarrow> i < 512"

lemma and_1FF: "table_idx (v AND 0x1FF)"
proof -
  have "v AND 0x1FF \<le> 0x1FF" by (rule word_and_le1)
  also have "\<dots> < 512" by simp
  finally show ?thesis by (simp add: table_idx_def)
qed

lemma table_idx_idx [simp]:
  "table_idx (pml4_idx v)" "table_idx (pdpt_idx v)" "table_idx (pd_idx v)" "table_idx (pt_idx v)"
  by (simp_all add: pml4_idx_def pdpt_idx_def pd_idx_def pt_idx_def and_1FF)

lemma table_idx_offset:
  assumes "table_idx i"
  shows "8 * i < 4096" "unat (8 * i) = 8 * unat i"
proof -
  have i: "unat i < 512" using assms by (simp add: table_idx_def word_less_nat_alt)
  then show "unat (8 * i) = 8 * unat i" by (simp add: unat_word_ariths)
  with i show "8 * i < 4096" by (simp add: word_less_nat_alt)
qed

lemma cell_inject:
  assumes "page_aligned t" "page_aligned t'" "table_idx i" "table_idx i'"
  shows "cell t i = cell t' i' \<longleftrightarrow> t = t' \<and> i = i'"
proof -
  have "8 * i = 8 * i' \<longleftrightarrow> i = i'"
    using table_idx_offset(2) [OF assms(3)] table_idx_offset(2) [OF assms(4)]
    by (metis mult_cancel_left word_unat_eq_iff zero_neq_numeral)
  then show ?thesis
    unfolding cell_def
    using page_offset_inject [OF assms(1,2) table_idx_offset(1) table_idx_offset(1)] assms(3,4)
    by blast
qed

lemma page_base_cell: "page_aligned t \<Longrightarrow> table_idx i \<Longrightarrow> page_base (cell t i) = t"
  unfolding cell_def by (intro page_base_offset table_idx_offset(1))

lemma zero_table_spec:
  assumes "page_aligned t"
  shows "\<exists>m. zero_table t s = Some (s\<lparr>mem := m\<rparr>) \<and>
             (\<forall>i. table_idx i \<longrightarrow> m (cell t i) = 0) \<and>
             (\<forall>a. page_base a \<noteq> t \<longrightarrow> m a = mem s a)"
proof -
  let ?I = "\<lambda>k u. \<exists>m. u = s\<lparr>mem := m\<rparr> \<and> (\<forall>i. i < k \<longrightarrow> m (cell t i) = 0) \<and>
                      (\<forall>a. page_base a \<noteq> t \<longrightarrow> m a = mem s a)"
  have "\<exists>u. zero_table t s = Some u \<and> ?I 512 u"
    unfolding zero_table_def
  proof (rule for_u64_rule)
    show "?I 0 s" by (rule exI [of _ "mem s"]) simp
    show "(0 :: u64) \<le> 512" by simp
  next
    fix k u
    assume k: "k < 512" and "?I k u"
    then obtain m where m: "u = s\<lparr>mem := m\<rparr>" "\<forall>i. i < k \<longrightarrow> m (cell t i) = 0"
      "\<forall>a. page_base a \<noteq> t \<longrightarrow> m a = mem s a" by blast
    have "page_base (cell t k) = t" using assms k by (simp add: page_base_cell table_idx_def)
    moreover have "i < k + 1 \<Longrightarrow> i = k \<or> i < k" for i
      using unat_succ_less [OF k] by (auto simp: word_less_nat_alt word_unat_eq_iff)
    ultimately have "?I (k + 1) (mem_write (cell t k) 0 u)"
      using m by (intro exI [of _ "m(cell t k := 0)"]) (auto simp: mem_write_def)
    then show "\<exists>u'. Some (mem_write (cell t k) 0 u) = Some u' \<and> ?I (k + 1) u'" by blast
  qed
  then show ?thesis by (auto simp: table_idx_def)
qed

section \<open>The tree of tables\<close>

text \<open>
  \<open>tbl h m t is\<close> follows the entries \<open>is\<close> from the table at \<open>t\<close> and gives the address of the table
  it arrives at. A path of length 3 from a PML4 leads to a page table.
\<close>

fun tbl :: "u64 \<Rightarrow> (u64 \<Rightarrow> u64) \<Rightarrow> u64 \<Rightarrow> u64 list \<Rightarrow> u64 option" where
  "tbl h m t [] = Some t"
| "tbl h m t (i # is) =
     (if m (cell t i) AND VMM_PRESENT \<noteq> 0 then tbl h m (page_base (m (cell t i)) + h) is else None)"

definition table_path :: "u64 list \<Rightarrow> bool" where
  "table_path p \<longleftrightarrow> length p \<le> 3 \<and> list_all table_idx p"

text \<open>
  The tables below the root \<open>r\<close> form a tree: no two paths share a table, and no table lies in a
  frame the allocator may hand out.
\<close>

definition hhdm_ok :: "'a vmm_scheme \<Rightarrow> bool" where
  "hhdm_ok s \<longleftrightarrow> page_aligned (hhdm_offset s) \<and> (\<forall>p \<in> managed_frames s. p + hhdm_offset s \<noteq> NULL)"

definition pt_tree :: "'a vmm_scheme \<Rightarrow> u64 \<Rightarrow> bool" where
  "pt_tree s r \<longleftrightarrow>
     page_aligned r \<and>
     (\<forall>p a. table_path p \<longrightarrow> tbl (hhdm_offset s) (mem s) r p = Some a \<longrightarrow>
        a \<noteq> NULL \<and> a - hhdm_offset s \<notin> free_frames s) \<and>
     (\<forall>p q a. table_path p \<longrightarrow> table_path q \<longrightarrow>
        tbl (hhdm_offset s) (mem s) r p = Some a \<longrightarrow> tbl (hhdm_offset s) (mem s) r q = Some a \<longrightarrow>
        p = q)"

definition vmm_inv :: "'a vmm_scheme \<Rightarrow> u64 \<Rightarrow> bool" where
  "vmm_inv s r \<longleftrightarrow> pmm_ok s \<and> hhdm_ok s \<and> pt_tree s r"

lemma table_path_simps [simp]:
  "table_path []"
  "table_path (p @ [i]) \<longleftrightarrow> length p < 3 \<and> table_path p \<and> table_idx i"
  by (auto simp: table_path_def)

lemma tbl_snoc:
  "tbl h m t (p @ [i]) =
     (case tbl h m t p of None \<Rightarrow> None
      | Some u \<Rightarrow> if m (cell u i) AND VMM_PRESENT \<noteq> 0 then Some (page_base (m (cell u i)) + h) else None)"
  by (induction p arbitrary: t) auto

lemma tbl_aligned:
  "page_aligned t \<Longrightarrow> page_aligned h \<Longrightarrow> tbl h m t p = Some a \<Longrightarrow> page_aligned a"
  by (induction p arbitrary: t)
    (auto split: if_splits, metis page_aligned_add page_aligned_page_base)

lemma tbl_cong:
  assumes "page_aligned h" "page_aligned r" "table_path p"
    and "\<And>q u i. table_path q \<Longrightarrow> length q < 3 \<Longrightarrow> tbl h m r q = Some u \<Longrightarrow> table_idx i \<Longrightarrow>
           m' (cell u i) = m (cell u i)"
  shows "tbl h m' r p = tbl h m r p"
  using assms(3)
proof (induction p rule: rev_induct)
  case (snoc i p)
  then show ?case using assms(4) [of p _ i] by (auto simp: tbl_snoc split: option.splits)
qed simp

lemma vmm_inv_tbl:
  assumes "vmm_inv s r" "table_path p" "tbl (hhdm_offset s) (mem s) r p = Some a"
  shows "page_aligned a" "a \<noteq> NULL" "a - hhdm_offset s \<notin> free_frames s"
  using assms tbl_aligned unfolding vmm_inv_def pt_tree_def hhdm_ok_def by blast+

lemma vmm_inv_inj:
  assumes "vmm_inv s r" "table_path p" "table_path q"
    "tbl (hhdm_offset s) (mem s) r p = Some a" "tbl (hhdm_offset s) (mem s) r q = Some a"
  shows "p = q"
  using assms unfolding vmm_inv_def pt_tree_def by blast

section \<open>The address space\<close>

text \<open>
  Seen from outside, a page map is a function from page paths (the four indices of a virtual
  address) to page table entries, \<open>0\<close> where there is no page table.
\<close>

definition page_path :: "u64 list \<Rightarrow> bool" where
  "page_path v \<longleftrightarrow> length v = 4 \<and> list_all table_idx v"

definition vidx :: "u64 \<Rightarrow> u64 list" where
  "vidx virt = [pml4_idx virt, pdpt_idx virt, pd_idx virt, pt_idx virt]"

definition aspace :: "'a vmm_scheme \<Rightarrow> u64 \<Rightarrow> u64 list \<Rightarrow> u64" where
  "aspace s r v =
     (if page_path v
      then case tbl (hhdm_offset s) (mem s) r (butlast v) of None \<Rightarrow> 0 | Some t \<Rightarrow> mem s (cell t (last v))
      else 0)"

definition tables :: "'a vmm_scheme \<Rightarrow> u64 \<Rightarrow> u64 set" where
  "tables s r = {a. \<exists>p. table_path p \<and> tbl (hhdm_offset s) (mem s) r p = Some a}"

lemma free_not_table: "vmm_inv s r \<Longrightarrow> f \<in> free_frames s \<Longrightarrow> f + hhdm_offset s \<notin> tables s r"
  unfolding tables_def vmm_inv_def pt_tree_def by auto

lemma page_path_vidx [simp]: "page_path (vidx virt)"
  by (simp add: page_path_def vidx_def)

lemma page_path_butlast:
  assumes "page_path v"
  shows "table_path (butlast v)" "table_idx (last v)" "length (butlast v) = 3"
proof -
  obtain a b c d where "v = [a, b, c, d]"
    using assms by (auto simp: page_path_def length_Suc_conv numeral_eq_Suc)
  then show "table_path (butlast v)" "table_idx (last v)" "length (butlast v) = 3"
    using assms by (simp_all add: page_path_def table_path_def)
qed

definition vmm_frame :: "'a vmm_scheme \<Rightarrow> 'a vmm_scheme \<Rightarrow> bool" where
  "vmm_frame s s' \<longleftrightarrow>
     s' = s\<lparr>klog := klog s', bitmap := bitmap s', free_pages := free_pages s', mem := mem s',
            invlpg := invlpg s'\<rparr>"

lemma vmm_frameE:
  assumes "vmm_frame s s'"
  obtains l bm n m i where
    "s' = s\<lparr>klog := l, bitmap := bm, free_pages := n, mem := m, invlpg := i\<rparr>"
  using assms unfolding vmm_frame_def by blast

lemma vmm_frame_fields:
  assumes "vmm_frame s s'"
  shows "hhdm_offset s' = hhdm_offset s" "total_pages s' = total_pages s" "cr3 s' = cr3 s"
    "managed_frames s' = managed_frames s"
  using assms by (auto elim!: vmm_frameE simp: managed_frames_def)

lemma vmm_frame_trans: "vmm_frame s s' \<Longrightarrow> vmm_frame s' s'' \<Longrightarrow> vmm_frame s s''"
  by (elim vmm_frameE) (simp add: vmm_frame_def)

lemma pmm_frame_vmm_frame: "pmm_frame s s' \<Longrightarrow> vmm_frame s s'"
  by (auto elim!: pmm_frameE simp: vmm_frame_def)

lemma pmm_frame_mem:
  assumes "pmm_frame s s'"
  shows "mem s' = mem s" "hhdm_offset s' = hhdm_offset s" "cr3 s' = cr3 s" "invlpg s' = invlpg s"
  using assms by (auto elim!: pmm_frameE)

text \<open>
  A step of the pager on the map below \<open>r\<close>: it keeps the invariant and every table there is, new
  tables lie in frames that were free before, and memory outside the tables and those frames keeps
  its contents.
\<close>

definition vmm_step :: "u64 \<Rightarrow> 'a vmm_scheme \<Rightarrow> 'a vmm_scheme \<Rightarrow> bool" where
  "vmm_step r s s' \<longleftrightarrow>
     vmm_inv s' r \<and> vmm_frame s s' \<and> free_frames s' \<subseteq> free_frames s \<and>
     (\<forall>p a. table_path p \<longrightarrow> tbl (hhdm_offset s) (mem s) r p = Some a \<longrightarrow>
            tbl (hhdm_offset s) (mem s') r p = Some a) \<and>
     tables s' r \<subseteq> tables s r \<union> (\<lambda>f. f + hhdm_offset s) ` (free_frames s - free_frames s') \<and>
     (\<forall>c. page_base c \<notin> tables s r \<longrightarrow> page_base c - hhdm_offset s \<notin> free_frames s \<longrightarrow>
          mem s' c = mem s c)"

lemma vmm_step_refl: "vmm_inv s r \<Longrightarrow> vmm_step r s s"
  by (simp add: vmm_step_def vmm_frame_def)

lemma vmm_step_trans:
  assumes "vmm_step r s s'" and "vmm_step r s' s''"
  shows "vmm_step r s s''"
proof -
  note h = vmm_frame_fields(1) [of s s']
  have fr: "vmm_frame s s'" "vmm_frame s' s''" and hs: "hhdm_offset s' = hhdm_offset s"
    using assms h by (auto simp: vmm_step_def)
  have tb: "tables s' r \<subseteq> tables s r \<union> (\<lambda>f. f + hhdm_offset s) ` (free_frames s - free_frames s')"
    and "tables s'' r \<subseteq> tables s' r \<union> (\<lambda>f. f + hhdm_offset s) ` (free_frames s' - free_frames s'')"
    and ff: "free_frames s' \<subseteq> free_frames s" "free_frames s'' \<subseteq> free_frames s'"
    using assms hs by (auto simp: vmm_step_def)
  then have "tables s'' r \<subseteq> tables s r \<union> (\<lambda>f. f + hhdm_offset s) ` (free_frames s - free_frames s'')"
    by blast
  moreover have "mem s'' c = mem s c"
    if "page_base c \<notin> tables s r" "page_base c - hhdm_offset s \<notin> free_frames s" for c
  proof -
    have "page_base c \<notin> tables s' r" using that tb by auto
    moreover have "page_base c - hhdm_offset s' \<notin> free_frames s'" using that ff hs by auto
    ultimately have "mem s'' c = mem s' c" using assms(2) by (simp add: vmm_step_def)
    also have "\<dots> = mem s c" using that assms(1) by (simp add: vmm_step_def)
    finally show ?thesis .
  qed
  ultimately show ?thesis
    using assms ff vmm_frame_trans [OF fr] hs unfolding vmm_step_def by auto
qed

definition table_flags_ok :: "u64 \<Rightarrow> bool" where
  "table_flags_ok f \<longleftrightarrow> page_base f = 0 \<and> f AND VMM_PRESENT \<noteq> 0"

lemma page_base_or: "page_base (a OR b) = page_base a OR page_base b"
  unfolding page_base_def by (rule bit.conj_disj_distrib2)

lemma table_entry:
  assumes "page_aligned f" "table_flags_ok fl"
  shows "(f OR fl) AND VMM_PRESENT \<noteq> 0" "page_base (f OR fl) = f"
proof -
  have "(f OR fl) AND VMM_PRESENT = (f AND VMM_PRESENT) OR (fl AND VMM_PRESENT)"
    by (rule bit.conj_disj_distrib2)
  then show "(f OR fl) AND VMM_PRESENT \<noteq> 0"
    using assms(2) by (simp add: table_flags_ok_def or_eq_0_iff)
  show "page_base (f OR fl) = f" using assms by (simp add: page_base_or table_flags_ok_def)
qed

text \<open>
  \<open>new_table r s p i t f s'\<close>: the state \<open>s'\<close> is \<open>s\<close> after the free frame \<open>f\<close> was taken, zeroed and
  linked at the absent entry \<open>i\<close> of the table \<open>t\<close> at path \<open>p\<close>.
\<close>

definition new_table ::
  "u64 \<Rightarrow> 'a vmm_scheme \<Rightarrow> u64 list \<Rightarrow> u64 \<Rightarrow> u64 \<Rightarrow> u64 \<Rightarrow> 'a vmm_scheme \<Rightarrow> bool" where
  "new_table r s p i t f s' \<longleftrightarrow>
     vmm_inv s r \<and> table_path (p @ [i]) \<and> tbl (hhdm_offset s) (mem s) r p = Some t \<and>
     mem s (cell t i) AND VMM_PRESENT = 0 \<and> f \<in> free_frames s \<and>
     mem s' (cell t i) AND VMM_PRESENT \<noteq> 0 \<and> page_base (mem s' (cell t i)) = f \<and>
     (\<forall>j. table_idx j \<longrightarrow> mem s' (cell (f + hhdm_offset s) j) = 0) \<and>
     (\<forall>c. page_base c \<noteq> f + hhdm_offset s \<longrightarrow> c \<noteq> cell t i \<longrightarrow> mem s' c = mem s c) \<and>
     vmm_frame s s' \<and> free_frames s' = free_frames s - {f} \<and> pmm_ok s'"

lemma new_tableD:
  assumes "new_table r s p i t f s'"
  shows "vmm_inv s r" "table_path p" "table_idx i" "length p < 3"
    "tbl (hhdm_offset s) (mem s) r p = Some t" "mem s (cell t i) AND VMM_PRESENT = 0"
    "f \<in> free_frames s" "mem s' (cell t i) AND VMM_PRESENT \<noteq> 0"
    "page_base (mem s' (cell t i)) = f" "vmm_frame s s'" "free_frames s' = free_frames s - {f}"
    "pmm_ok s'" "hhdm_offset s' = hhdm_offset s"
    "table_idx j \<Longrightarrow> mem s' (cell (f + hhdm_offset s) j) = 0"
    "page_base c \<noteq> f + hhdm_offset s \<Longrightarrow> c \<noteq> cell t i \<Longrightarrow> mem s' c = mem s c"
  using assms vmm_frame_fields(1) [of s s'] by (simp_all add: new_table_def)

lemma new_table_tbl:
  assumes N: "new_table r s p i t f s'" and "table_path q"
  shows "tbl (hhdm_offset s) (mem s') r q =
         (if q = p @ [i] then Some (f + hhdm_offset s) else tbl (hhdm_offset s) (mem s) r q)"
  using assms(2)
proof (induction q rule: rev_induct)
  case Nil
  then show ?case by simp
next
  case (snoc j q)
  let ?h = "hhdm_offset s" and ?a = "f + hhdm_offset s"
  have inv: "vmm_inv s r" and t: "tbl ?h (mem s) r p = Some t" and pp: "table_path p" "table_idx i"
    and e: "mem s' (cell t i) AND VMM_PRESENT \<noteq> 0" "page_base (mem s' (cell t i)) = f"
    and z: "mem s' (cell ?a j) = 0"
    using new_tableD [OF N] snoc.prems by auto
  have q: "table_path q" "table_idx j" "length q < 3" using snoc.prems by auto
  note IH = snoc.IH [OF q(1)]
  show ?case
  proof (cases "q = p @ [i]")
    case True
    have "tbl ?h (mem s) r q = None" using new_tableD(5,6) [OF N] by (simp add: True tbl_snoc)
    moreover have "tbl ?h (mem s') r q = Some ?a" using IH True by simp
    moreover have "q @ [j] \<noteq> p @ [i]" using True by auto
    ultimately show ?thesis using z by (simp add: tbl_snoc)
  next
    case False
    show ?thesis
    proof (cases "tbl ?h (mem s) r q")
      case None
      then show ?thesis using False IH t by (auto simp: tbl_snoc)
    next
      case (Some c)
      have c: "page_aligned c" "c - ?h \<notin> free_frames s"
        using vmm_inv_tbl [OF inv q(1) Some] by auto
      have pb: "page_base (cell c j) \<noteq> ?a"
        using c new_tableD(7) [OF N] q(2) by (auto simp: page_base_cell)
      have tr: "tbl ?h (mem s') r q = Some c" using IH False Some by simp
      show ?thesis
      proof (cases "q = p \<and> j = i")
        case True
        then have "c = t" using t Some by simp
        then show ?thesis using True tr e by (simp add: tbl_snoc)
      next
        case neq: False
        have "c \<noteq> t \<or> j \<noteq> i" using vmm_inv_inj [OF inv q(1) pp(1) Some] t neq by blast
        then have "cell c j \<noteq> cell t i"
          using cell_inject [OF c(1) vmm_inv_tbl(1) [OF inv pp(1) t] q(2) pp(2)] by blast
        with pb have "mem s' (cell c j) = mem s (cell c j)" by (rule new_tableD(15) [OF N])
        then show ?thesis using neq tr Some by (auto simp: tbl_snoc)
      qed
    qed
  qed
qed

lemma new_table_fresh:
  assumes "new_table r s p i t f s'" "table_path q" "tbl (hhdm_offset s) (mem s) r q = Some b"
  shows "f + hhdm_offset s \<noteq> b" "q \<noteq> p @ [i]"
proof -
  have "b - hhdm_offset s \<notin> free_frames s"
    using vmm_inv_tbl(3) [OF new_tableD(1) [OF assms(1)] assms(2,3)] .
  then show "f + hhdm_offset s \<noteq> b" using new_tableD(7) [OF assms(1)] by auto
  show "q \<noteq> p @ [i]" using assms(3) new_tableD(5,6) [OF assms(1)] by (auto simp: tbl_snoc)
qed

lemma new_table_inv:
  assumes N: "new_table r s p i t f s'"
  shows "vmm_inv s' r"
proof -
  let ?h = "hhdm_offset s" and ?a = "f + hhdm_offset s"
  have inv: "vmm_inv s r" and f: "f \<in> free_frames s" and ff: "free_frames s' = free_frames s - {f}"
    and fr: "vmm_frame s s'" and ok: "pmm_ok s'"
    using new_tableD [OF N] by auto
  have "f \<in> managed_frames s"
    using pmm.frames_managed [of s] inv f by (auto simp: vmm_inv_def)
  then have anz: "?a \<noteq> NULL" using inv by (auto simp: vmm_inv_def hhdm_ok_def)
  note T = new_table_tbl [OF N] and F = new_table_fresh(1) [OF N]
  show ?thesis
    unfolding vmm_inv_def pt_tree_def hhdm_ok_def vmm_frame_fields(1,4) [OF fr]
  proof (intro conjI allI impI)
    show "pmm_ok s'" "page_aligned ?h" "page_aligned r" "\<forall>p \<in> managed_frames s. p + ?h \<noteq> NULL"
      using ok inv by (auto simp: vmm_inv_def hhdm_ok_def pt_tree_def)
    fix q b
    assume q: "table_path q" "tbl ?h (mem s') r q = Some b"
    show "b \<noteq> NULL" "b - ?h \<notin> free_frames s'"
      using q T [OF q(1)] vmm_inv_tbl(2,3) [OF inv q(1)] anz ff by (auto split: if_splits)
    fix q'
    assume q': "table_path q'" "tbl ?h (mem s') r q' = Some b"
    show "q = q'"
      using q q' T [OF q(1)] T [OF q'(1)] F [OF q(1)] F [OF q'(1)] vmm_inv_inj [OF inv q(1) q'(1)]
      by (auto split: if_splits)
  qed
qed

lemma new_table_aspace:
  assumes N: "new_table r s p i t f s'"
  shows "aspace s' r = aspace s r"
proof
  fix v
  let ?h = "hhdm_offset s"
  have inv: "vmm_inv s r" and t: "tbl ?h (mem s) r p = Some t"
    and pp: "table_path p" "table_idx i" "length p < 3" and hs: "hhdm_offset s' = ?h"
    using new_tableD [OF N] by auto
  show "aspace s' r v = aspace s r v"
  proof (cases "page_path v")
    case True
    note v = page_path_butlast [OF True]
    show ?thesis
    proof (cases "tbl ?h (mem s) r (butlast v)")
      case None
      moreover have "mem s' (cell (f + ?h) (last v)) = 0" using v(2) by (rule new_tableD(14) [OF N])
      ultimately show ?thesis using True new_table_tbl [OF N v(1)] by (simp add: aspace_def hs)
    next
      case (Some b)
      have al: "page_aligned b" "page_aligned t"
        using vmm_inv_tbl(1) [OF inv v(1) Some] vmm_inv_tbl(1) [OF inv pp(1) t] .
      have "b \<noteq> t" using vmm_inv_inj [OF inv v(1) pp(1) Some] t v(3) pp(3) by auto
      then have "cell b (last v) \<noteq> cell t i" using cell_inject [OF al v(2) pp(2)] by blast
      moreover have "page_base (cell b (last v)) \<noteq> f + ?h"
        using page_base_cell [OF al(1) v(2)] new_table_fresh(1) [OF N v(1) Some] by auto
      ultimately have "mem s' (cell b (last v)) = mem s (cell b (last v))"
        by (intro new_tableD(15) [OF N])
      then show ?thesis
        using True Some new_table_tbl [OF N v(1)] new_table_fresh(2) [OF N v(1) Some]
        by (simp add: aspace_def hs)
    qed
  qed (simp add: aspace_def)
qed

lemma new_table_step:
  assumes N: "new_table r s p i t f s'"
  shows "vmm_step r s s'"
proof -
  let ?h = "hhdm_offset s" and ?a = "f + hhdm_offset s"
  have inv: "vmm_inv s r" and t: "tbl ?h (mem s) r p = Some t" and pp: "table_path p" "table_idx i"
    and f: "f \<in> free_frames s" and ff: "free_frames s' = free_frames s - {f}"
    and fr: "vmm_frame s s'" and hs: "hhdm_offset s' = ?h"
    using new_tableD [OF N] by auto
  have "tables s' r \<subseteq> tables s r \<union> (\<lambda>f. f + ?h) ` (free_frames s - free_frames s')"
    using new_table_tbl [OF N] f ff by (auto simp: tables_def hs split: if_splits)
  moreover have "mem s' c = mem s c"
    if c: "page_base c \<notin> tables s r" "page_base c - ?h \<notin> free_frames s" for c
  proof -
    have "page_base (cell t i) = t" using vmm_inv_tbl(1) [OF inv pp(1) t] pp(2) by (rule page_base_cell)
    moreover have "t \<in> tables s r" using pp(1) t by (auto simp: tables_def)
    ultimately have "c \<noteq> cell t i" using c(1) by auto
    moreover have "page_base c \<noteq> ?a" using c f by auto
    ultimately show ?thesis by (intro new_tableD(15) [OF N])
  qed
  ultimately show ?thesis
    using new_table_inv [OF N] fr ff new_table_tbl [OF N] new_table_fresh(2) [OF N]
    by (auto simp: vmm_step_def)
qed

lemma pmm_part_mem [simp]:
  "free_frames (s\<lparr>mem := m\<rparr>) = free_frames s" "pmm_ok (s\<lparr>mem := m\<rparr>) = pmm_ok s"
  "managed_frames (s\<lparr>mem := m\<rparr>) = managed_frames s"
  "free_frames (s\<lparr>invlpg := l\<rparr>) = free_frames s" "pmm_ok (s\<lparr>invlpg := l\<rparr>) = pmm_ok s"
  "managed_frames (s\<lparr>invlpg := l\<rparr>) = managed_frames s"
  by (simp_all add: free_frames_def free_set_def pmm_ok_def pmm_inv_def managed_frames_def)

lemma pmm_part_log [simp]:
  "free_frames (log_event l n s) = free_frames s" "pmm_ok (log_event l n s) = pmm_ok s"
  "hhdm_offset (log_event l n s) = hhdm_offset s" "mem (log_event l n s) = mem s"
  "managed_frames (log_event l n s) = managed_frames s"
  by (simp_all add: free_frames_def pmm_ok_def managed_frames_def) (simp_all add: log_event_def)

lemma vmm_frame_log: "vmm_frame s s' \<Longrightarrow> vmm_frame s (log_event l n s')"
  by (elim vmm_frameE) (simp add: vmm_frame_def log_event_def)

text \<open>A state change that leaves memory alone and frees no frame is a step.\<close>

lemma vmm_step_same_mem:
  assumes "vmm_inv s r" "vmm_frame s s'" "mem s' = mem s" "free_frames s' \<subseteq> free_frames s" "pmm_ok s'"
  shows "vmm_step r s s'" "aspace s' r = aspace s r"
proof -
  note h = vmm_frame_fields(1,4) [OF assms(2)]
  have "vmm_inv s' r"
    using assms(1,4,5) unfolding vmm_inv_def pt_tree_def hhdm_ok_def h assms(3) by blast
  then show "vmm_step r s s'"
    using assms by (simp add: vmm_step_def tables_def h)
  show "aspace s' r = aspace s r" by (rule ext) (simp add: aspace_def h assms(3) split: option.split)
qed

lemma get_or_create_new:
  assumes inv: "vmm_inv s r" and p: "table_path (p @ [i])"
    and t: "tbl (hhdm_offset s) (mem s) r p = Some t"
    and np: "mem s (cell t i) AND VMM_PRESENT = 0"
    and fl: "table_flags_ok fl" and al: "pmm_alloc s = Some (f, s1)" "f \<noteq> NULL"
  shows "\<exists>s'. get_or_create t i fl s = Some (f + hhdm_offset s, s') \<and> new_table r s p i t f s'"
proof -
  let ?a = "f + hhdm_offset s"
  have ok: "pmm_ok s" and hal: "page_aligned (hhdm_offset s)"
    using inv by (auto simp: vmm_inv_def hhdm_ok_def)
  note fresh = pmm.alloc_fresh [OF ok al(1)]
  have fr: "pmm_frame s s1" by (rule pmm_alloc_frame [OF al(1)])
  note fr' = pmm_frame_mem [OF fr]
  have aal: "page_aligned ?a" using fresh(4) hal by (rule page_aligned_add)
  obtain m where z: "zero_table ?a s1 = Some (s1\<lparr>mem := m\<rparr>)"
    "\<And>j. table_idx j \<Longrightarrow> m (cell ?a j) = 0" "\<And>c. page_base c \<noteq> ?a \<Longrightarrow> m c = mem s c"
    using zero_table_spec [OF aal, of s1] fr'(1) by auto
  let ?s' = "mem_write (cell t i) (f OR fl) (s1\<lparr>mem := m\<rparr>)"
  have tt: "page_aligned t" "t - hhdm_offset s \<notin> free_frames s"
    using vmm_inv_tbl [OF inv _ t] p by auto
  have "?a \<noteq> t" using tt(2) fresh(6) al(2) by auto
  then have "cell ?a j \<noteq> cell t i" if "table_idx j" for j
    using cell_inject [OF aal tt(1) that] p by simp
  moreover have "vmm_frame s ?s'"
    using fr by (elim pmm_frameE) (simp add: vmm_frame_def mem_write_def)
  ultimately have "new_table r s p i t f ?s'"
    unfolding new_table_def using inv p t np fresh al(2) table_entry [OF fresh(4) fl] z(2,3)
    by (simp add: mem_write_def)
  moreover have "get_or_create t i fl s = Some (?a, ?s')"
    using np al z(1) fr'(2) by (simp add: get_or_create_def phys_to_virt_def)
  ultimately show ?thesis by blast
qed

lemma get_or_create_spec:
  assumes inv: "vmm_inv s r" and p: "table_path (p @ [i])"
    and t: "tbl (hhdm_offset s) (mem s) r p = Some t" and fl: "table_flags_ok fl"
  shows "\<exists>a s'. get_or_create t i fl s = Some (a, s') \<and> vmm_step r s s' \<and> aspace s' r = aspace s r \<and>
           (a \<noteq> NULL \<longrightarrow> tbl (hhdm_offset s) (mem s') r (p @ [i]) = Some a) \<and>
           (a = NULL \<longrightarrow> free_frames s = {} \<and> (LOG_ERROR, ''VMM'') \<in> set (klog s')) \<and>
           card (free_frames s) \<le> Suc (card (free_frames s'))"
proof (cases "mem s (cell t i) AND VMM_PRESENT = 0")
  case False
  let ?a = "page_base (mem s (cell t i)) + hhdm_offset s"
  have "tbl (hhdm_offset s) (mem s) r (p @ [i]) = Some ?a" using t False by (simp add: tbl_snoc)
  then have "?a \<noteq> NULL" using vmm_inv_tbl(2) [OF inv p] by simp
  then show ?thesis
    using False t vmm_step_refl [OF inv]
    by (simp add: get_or_create_def phys_to_virt_def tbl_snoc)
next
  case np: True
  have ok: "pmm_ok s" using inv by (simp add: vmm_inv_def)
  obtain f s1 where al: "pmm_alloc s = Some (f, s1)" using pmm.alloc_total [OF ok] by blast
  note fresh = pmm.alloc_fresh [OF ok al]
  show ?thesis
  proof (cases "f = NULL")
    case True
    let ?s' = "log_error ''VMM'' s1"
    have "vmm_frame s ?s'"
      by (intro vmm_frame_log pmm_frame_vmm_frame pmm_alloc_frame [OF al])
    moreover have "mem ?s' = mem s" using pmm_frame_mem(1) [OF pmm_alloc_frame [OF al]] by simp
    ultimately have "vmm_step r s ?s'" "aspace ?s' r = aspace s r"
      using vmm_step_same_mem [OF inv, of ?s'] fresh by auto
    then show ?thesis using True np al fresh by (simp add: get_or_create_def)
  next
    case False
    from get_or_create_new [OF inv p t np fl al False] obtain s' where
      s': "get_or_create t i fl s = Some (f + hhdm_offset s, s')" and N: "new_table r s p i t f s'"
      by blast
    have st: "vmm_step r s s'" by (rule new_table_step [OF N])
    have lk: "tbl (hhdm_offset s) (mem s') r (p @ [i]) = Some (f + hhdm_offset s)"
      using new_table_tbl [OF N p] by simp
    have "f + hhdm_offset s \<noteq> NULL"
      using vmm_inv_tbl(2) [OF new_table_inv [OF N] p] lk new_tableD(13) [OF N] by simp
    moreover have "card (free_frames s) \<le> Suc (card (free_frames s'))"
      using new_tableD(11) [OF N] by (simp add: card_Diff_singleton_if) arith
    ultimately show ?thesis using s' st lk new_table_aspace [OF N] by simp
  qed
qed

text \<open>Writing an entry of a page table changes that page of the address space and nothing else.\<close>

lemma leaf_write:
  assumes inv: "vmm_inv s r" and v: "page_path v"
    and t: "tbl (hhdm_offset s) (mem s) r (butlast v) = Some t"
  shows "vmm_step r s (mem_write (cell t (last v)) x s)"
    "aspace (mem_write (cell t (last v)) x s) r = (aspace s r)(v := x)"
proof -
  let ?h = "hhdm_offset s" and ?s' = "mem_write (cell t (last v)) x s"
  note b = page_path_butlast [OF v]
  have tal: "page_aligned t" by (rule vmm_inv_tbl(1) [OF inv b(1) t])
  have hr: "page_aligned ?h" "page_aligned r"
    using inv by (auto simp: vmm_inv_def hhdm_ok_def pt_tree_def)
  have other: "mem ?s' (cell u i) = mem s (cell u i)"
    if "table_path q" "tbl ?h (mem s) r q = Some u" "table_idx i" "(q, i) \<noteq> (butlast v, last v)" for q u i
  proof -
    have "\<not> (u = t \<and> i = last v)" using that(4) vmm_inv_inj [OF inv that(1) b(1) that(2)] t by auto
    then have "cell u i \<noteq> cell t (last v)"
      using cell_inject [OF vmm_inv_tbl(1) [OF inv that(1,2)] tal that(3) b(2)] by blast
    then show ?thesis by (simp add: mem_write_def)
  qed
  have T: "tbl ?h (mem ?s') r q = tbl ?h (mem s) r q" if "table_path q" for q
    by (rule tbl_cong [OF hr that]) (use other b(3) in force)
  have fr: "vmm_frame s ?s'" by (simp add: vmm_frame_def mem_write_def)
  have h': "hhdm_offset ?s' = ?h" by (simp add: mem_write_def)
  have "vmm_inv ?s' r"
    using inv T unfolding vmm_inv_def pt_tree_def hhdm_ok_def h'
    by (simp add: mem_write_def)
  moreover have "t \<in> tables s r" using b(1) t by (auto simp: tables_def)
  then have "mem ?s' c = mem s c" if "page_base c \<notin> tables s r" for c
    using that page_base_cell [OF tal b(2)] by (auto simp: mem_write_def)
  moreover have "tables ?s' r = tables s r" unfolding tables_def h' using T by auto
  ultimately show "vmm_step r s ?s'"
    using fr T by (simp add: vmm_step_def) (simp add: mem_write_def)
  show "aspace ?s' r = (aspace s r)(v := x)"
  proof
    fix w
    show "aspace ?s' r w = ((aspace s r)(v := x)) w"
    proof (cases "page_path w")
      case True
      note wb = page_path_butlast [OF True]
      have "w = v \<longleftrightarrow> butlast w = butlast v \<and> last w = last v"
        using True v by (metis append_butlast_last_id list.size(3) page_path_def zero_neq_numeral)
      then show ?thesis
        using True T [OF wb(1)] other [OF wb(1) _ wb(2)] t h'
        by (auto simp: aspace_def split: option.split) (simp add: mem_write_def)
    qed (use v in \<open>auto simp: aspace_def\<close>)
  qed
qed

section \<open>Mapping, unmapping, translation\<close>

definition map_flags :: "u64 \<Rightarrow> u64" where
  "map_flags flags =
     (if flags AND VMM_USER \<noteq> 0 then (VMM_PRESENT OR VMM_WRITE) OR VMM_USER
      else VMM_PRESENT OR VMM_WRITE)"

lemma map_flags_ok: "table_flags_ok (map_flags flags)"
  by (simp add: table_flags_ok_def map_flags_def page_base_def vmm_flags)

text \<open>
  The outcome of a mapping: the page is set, or memory ran out, the map is as before and the error
  is in the log.
\<close>

definition map_outcome :: "u64 \<Rightarrow> u64 list \<Rightarrow> u64 \<Rightarrow> 'a vmm_scheme \<Rightarrow> 'a vmm_scheme \<Rightarrow> nat \<Rightarrow> bool" where
  "map_outcome r v e s s' n \<longleftrightarrow>
     vmm_step r s s' \<and> card (free_frames s) \<le> card (free_frames s') + n \<and>
     (aspace s' r = (aspace s r)(v := e) \<or>
      aspace s' r = aspace s r \<and> card (free_frames s) < n \<and> (LOG_ERROR, ''VMM'') \<in> set (klog s'))"

lemma map_outcome_later:
  assumes "vmm_step r s s1" "aspace s1 r = aspace s r" "card (free_frames s) \<le> Suc (card (free_frames s1))"
    and "map_outcome r v e s1 s' n"
  shows "map_outcome r v e s s' (Suc n)"
  using assms vmm_step_trans [OF assms(1)] by (auto simp: map_outcome_def)

lemma map_outcome_fail:
  assumes "vmm_step r s s'" "aspace s' r = aspace s r" "free_frames s = {}"
    "(LOG_ERROR, ''VMM'') \<in> set (klog s')"
  shows "map_outcome r v e s s' (Suc n)"
  using assms by (simp add: map_outcome_def)

lemma vmm_step_inv: "vmm_step r s s' \<Longrightarrow> vmm_inv s' r"
  by (simp add: vmm_step_def)

lemma vmm_step_hhdm: "vmm_step r s s' \<Longrightarrow> hhdm_offset s' = hhdm_offset s"
  by (simp add: vmm_step_def vmm_frame_fields(1))

lemma map_level:
  assumes inv: "vmm_inv s r" and p: "table_path (p @ [i])"
    and t: "tbl (hhdm_offset s) (mem s) r p = Some t"
    and k: "\<And>a s1. vmm_inv s1 r \<Longrightarrow> tbl (hhdm_offset s1) (mem s1) r (p @ [i]) = Some a \<Longrightarrow>
              \<exists>s'. k a s1 = Some s' \<and> map_outcome r v e s1 s' n"
  shows "\<exists>s'. do { (a, s1) \<leftarrow> get_or_create t i (map_flags fl) s; if a = NULL then Some s1 else k a s1 }
              = Some s' \<and> map_outcome r v e s s' (Suc n)"
proof -
  from get_or_create_spec [OF inv p t map_flags_ok] obtain a s1 where
    g: "get_or_create t i (map_flags fl) s = Some (a, s1)" and st: "vmm_step r s s1"
    and as: "aspace s1 r = aspace s r"
    and tb: "a \<noteq> NULL \<longrightarrow> tbl (hhdm_offset s) (mem s1) r (p @ [i]) = Some a"
    and fl: "a = NULL \<longrightarrow> free_frames s = {} \<and> (LOG_ERROR, ''VMM'') \<in> set (klog s1)"
    and cd: "card (free_frames s) \<le> Suc (card (free_frames s1))"
    by blast
  show ?thesis
  proof (cases "a = NULL")
    case True
    then show ?thesis using g fl map_outcome_fail [OF st as] by simp
  next
    case False
    then obtain s' where "k a s1 = Some s'" "map_outcome r v e s1 s' n"
      using k [OF vmm_step_inv [OF st]] tb vmm_step_hhdm [OF st] by auto
    then show ?thesis using False g map_outcome_later [OF st as cd] by simp
  qed
qed

lemma vmm_map_unfold:
  "vmm_map r virt phys flags s =
     do {
        (pdpt, s) \<leftarrow> get_or_create r (pml4_idx virt) (map_flags flags) s;
        if pdpt = NULL then Some s else do {
        (pd, s) \<leftarrow> get_or_create pdpt (pdpt_idx virt) (map_flags flags) s;
        if pd = NULL then Some s else do {
        (pt, s) \<leftarrow> get_or_create pd (pd_idx virt) (map_flags flags) s;
        if pt = NULL then Some s else
        Some (mem_write (cell pt (pt_idx virt)) (phys OR flags) s) } } }"
  unfolding vmm_map_def map_flags_def Let_def by (rule refl)

lemma vmm_map_outcome:
  assumes inv: "vmm_inv s r"
  shows "\<exists>s'. vmm_map r virt phys flags s = Some s' \<and>
              map_outcome r (vidx virt) (phys OR flags) s s' (Suc (Suc (Suc 0)))"
  unfolding vmm_map_unfold
proof (rule map_level [where p = "[]"])
  show "vmm_inv s r" "table_path ([] @ [pml4_idx virt])" "tbl (hhdm_offset s) (mem s) r [] = Some r"
    using inv by (simp_all add: table_path_def)
  fix pdpt s1
  assume 1: "vmm_inv s1 r" "tbl (hhdm_offset s1) (mem s1) r ([] @ [pml4_idx virt]) = Some pdpt"
  show "\<exists>s'. do { (pd, s) \<leftarrow> get_or_create pdpt (pdpt_idx virt) (map_flags flags) s1;
                 if pd = NULL then Some s else do {
                 (pt, s) \<leftarrow> get_or_create pd (pd_idx virt) (map_flags flags) s;
                 if pt = NULL then Some s
                 else Some (mem_write (cell pt (pt_idx virt)) (phys OR flags) s) } } = Some s' \<and>
              map_outcome r (vidx virt) (phys OR flags) s1 s' (Suc (Suc 0))"
  proof (rule map_level [where p = "[pml4_idx virt]", OF 1(1)])
    show "tbl (hhdm_offset s1) (mem s1) r [pml4_idx virt] = Some pdpt" using 1(2) by simp
    show "table_path ([pml4_idx virt] @ [pdpt_idx virt])" by (simp add: table_path_def)
    fix pd s2
    assume 2: "vmm_inv s2 r"
      "tbl (hhdm_offset s2) (mem s2) r ([pml4_idx virt] @ [pdpt_idx virt]) = Some pd"
    show "\<exists>s'. do { (pt, s) \<leftarrow> get_or_create pd (pd_idx virt) (map_flags flags) s2;
                   if pt = NULL then Some s
                   else Some (mem_write (cell pt (pt_idx virt)) (phys OR flags) s) } = Some s' \<and>
                map_outcome r (vidx virt) (phys OR flags) s2 s' (Suc 0)"
    proof (rule map_level [where p = "[pml4_idx virt, pdpt_idx virt]", OF 2(1)])
      show "tbl (hhdm_offset s2) (mem s2) r [pml4_idx virt, pdpt_idx virt] = Some pd"
        using 2(2) by simp
      show "table_path ([pml4_idx virt, pdpt_idx virt] @ [pd_idx virt])" by (simp add: table_path_def)
      fix pt s3
      assume 3: "vmm_inv s3 r"
        "tbl (hhdm_offset s3) (mem s3) r ([pml4_idx virt, pdpt_idx virt] @ [pd_idx virt]) = Some pt"
      then show "\<exists>s'. Some (mem_write (cell pt (pt_idx virt)) (phys OR flags) s3) = Some s' \<and>
                   map_outcome r (vidx virt) (phys OR flags) s3 s' 0"
        using leaf_write [OF 3(1) page_path_vidx, of virt pt "phys OR flags"]
        by (simp add: vidx_def map_outcome_def) (simp add: mem_write_def)
    qed
  qed
qed

lemma tbl3:
  "tbl h m r [i, j, k] =
     (if m (cell r i) AND VMM_PRESENT = 0 then None else
      let pdpt = page_base (m (cell r i)) + h in
      if m (cell pdpt j) AND VMM_PRESENT = 0 then None else
      let pd = page_base (m (cell pdpt j)) + h in
      if m (cell pd k) AND VMM_PRESENT = 0 then None else Some (page_base (m (cell pd k)) + h))"
  by (simp add: Let_def)

lemma vmm_get_phys_eq: "vmm_get_phys r virt s = page_base (aspace s r (vidx virt))"
proof -
  have "page_base 0 = 0" by (simp add: page_base_def)
  then show ?thesis
    by (simp add: vmm_get_phys_def aspace_def vidx_def page_path_def tbl3 Let_def phys_to_virt_def)
qed

lemma vmm_unmap_eq:
  "vmm_unmap r virt s =
     (case tbl (hhdm_offset s) (mem s) r (butlast (vidx virt)) of None \<Rightarrow> s
      | Some t \<Rightarrow> (mem_write (cell t (pt_idx virt)) 0 s)\<lparr>invlpg := invlpg s @ [virt]\<rparr>)"
  by (simp add: vmm_unmap_def vidx_def tbl3 Let_def phys_to_virt_def) (simp add: mem_write_def)

lemma vmm_unmap_spec:
  assumes inv: "vmm_inv s r"
  shows "vmm_step r s (vmm_unmap r virt s)"
    "aspace (vmm_unmap r virt s) r = (aspace s r)(vidx virt := 0)"
    "free_frames (vmm_unmap r virt s) = free_frames s"
proof -
  have "vmm_step r s (vmm_unmap r virt s) \<and>
        aspace (vmm_unmap r virt s) r = (aspace s r)(vidx virt := 0) \<and>
        free_frames (vmm_unmap r virt s) = free_frames s"
  proof (cases "tbl (hhdm_offset s) (mem s) r (butlast (vidx virt))")
    case None
    then have "aspace s r (vidx virt) = 0" by (simp add: aspace_def)
    then show ?thesis using None vmm_step_refl [OF inv] by (auto simp: vmm_unmap_eq)
  next
    case (Some t)
    let ?s1 = "mem_write (cell t (pt_idx virt)) 0 s"
    have l: "last (vidx virt) = pt_idx virt" by (simp add: vidx_def)
    note w = leaf_write [OF inv page_path_vidx Some, of 0, unfolded l]
    have "vmm_frame ?s1 (?s1\<lparr>invlpg := invlpg s @ [virt]\<rparr>)" by (simp add: vmm_frame_def)
    from vmm_step_same_mem [OF vmm_step_inv [OF w(1)] this]
    have "vmm_step r ?s1 (?s1\<lparr>invlpg := invlpg s @ [virt]\<rparr>)"
      "aspace (?s1\<lparr>invlpg := invlpg s @ [virt]\<rparr>) r = aspace ?s1 r"
      using vmm_step_inv [OF w(1)] by (auto simp: vmm_inv_def)
    then show ?thesis
      using w vmm_step_trans [OF w(1)] Some by (simp add: vmm_unmap_eq) (simp add: mem_write_def)
  qed
  then show "vmm_step r s (vmm_unmap r virt s)"
    "aspace (vmm_unmap r virt s) r = (aspace s r)(vidx virt := 0)"
    "free_frames (vmm_unmap r virt s) = free_frames s" by auto
qed

section \<open>The interface to the clients\<close>

text \<open>
  What the heap and the device drivers rely on: a map from pages to entries, with \<open>room\<close> for new
  tables. A mapping needs at most three.
\<close>

locale address_space =
  fixes map_page :: "u64 \<Rightarrow> u64 \<Rightarrow> u64 \<Rightarrow> 's \<Rightarrow> 's option"
    and unmap_page :: "u64 \<Rightarrow> 's \<Rightarrow> 's"
    and translate :: "u64 \<Rightarrow> 's \<Rightarrow> u64"
    and view :: "'s \<Rightarrow> u64 list \<Rightarrow> u64"
    and room :: "'s \<Rightarrow> nat"
    and invar :: "'s \<Rightarrow> bool"
  assumes map_page: "invar s \<Longrightarrow>
      \<exists>s'. map_page v p f s = Some s' \<and> invar s' \<and> room s \<le> room s' + 3 \<and>
           (view s' = (view s)(vidx v := p OR f) \<or> view s' = view s \<and> room s < 3)"
    and unmap_page: "invar s \<Longrightarrow>
      invar (unmap_page v s) \<and> view (unmap_page v s) = (view s)(vidx v := 0) \<and>
      room (unmap_page v s) = room s"
    and translate: "invar s \<Longrightarrow> translate v s = page_base (view s (vidx v))"
begin

lemma map_total: "invar s \<Longrightarrow> \<exists>s'. map_page v p f s = Some s' \<and> invar s'"
  using map_page [of s v p f] by blast

lemma map_translate:
  assumes "invar s" "3 \<le> room s" "map_page v p f s = Some s'"
  shows "translate v s' = page_base p OR page_base f"
proof -
  have "invar s'" "view s' = (view s)(vidx v := p OR f)"
    using map_page [OF assms(1), of v p f] assms(2,3) by auto
  then show ?thesis by (simp add: translate page_base_or)
qed

lemma map_other:
  assumes "invar s" "map_page v p f s = Some s'" "vidx w \<noteq> vidx v"
  shows "translate w s' = translate w s"
proof -
  have "invar s'" "view s' = (view s)(vidx v := p OR f) \<or> view s' = view s"
    using map_page [OF assms(1), of v p f] assms(2) by auto
  then show ?thesis using assms(1,3) by (auto simp: translate)
qed

lemma unmap_translate:
  assumes "invar s"
  shows "translate w (unmap_page v s) = (if vidx w = vidx v then 0 else translate w s)"
proof -
  have "page_base 0 = 0" by (simp add: page_base_def)
  then show ?thesis using unmap_page [OF assms, of v] assms by (simp add: translate)
qed

lemma map_unmap_view:
  assumes "invar s" "map_page v p f s = Some s'"
  shows "view (unmap_page v s') = (view s)(vidx v := 0)"
proof -
  have "invar s'" "view s' = (view s)(vidx v := p OR f) \<or> view s' = view s"
    using map_page [OF assms(1), of v p f] assms(2) by auto
  then show ?thesis using unmap_page [of s' v] by auto
qed

end

interpretation vmm: address_space "vmm_map r" "vmm_unmap r" "vmm_get_phys r" "\<lambda>s. aspace s r"
  "\<lambda>s. card (free_frames s)" "\<lambda>s. vmm_inv s r" for r
proof unfold_locales
  fix s :: "'a vmm_scheme" and v p f
  assume inv: "vmm_inv s r"
  from vmm_map_outcome [OF inv, of v p f]
  show "\<exists>s'. vmm_map r v p f s = Some s' \<and> vmm_inv s' r \<and>
             card (free_frames s) \<le> card (free_frames s') + 3 \<and>
             (aspace s' r = (aspace s r)(vidx v := p OR f) \<or>
              aspace s' r = aspace s r \<and> card (free_frames s) < 3)"
    by (auto simp: map_outcome_def eval_nat_numeral dest: vmm_step_inv)
  show "vmm_inv (vmm_unmap r v s) r \<and> aspace (vmm_unmap r v s) r = (aspace s r)(vidx v := 0) \<and>
        card (free_frames (vmm_unmap r v s)) = card (free_frames s)"
    using vmm_unmap_spec [OF inv, of v] by (simp add: vmm_step_inv)
  show "vmm_get_phys r v s = page_base (aspace s r (vidx v))" by (rule vmm_get_phys_eq)
qed

section \<open>A new page map\<close>

lemma new_pagemap_loop:
  assumes "page_aligned p" "page_aligned c" "p \<noteq> c"
  shows "\<exists>m. for_u64 0 512 (\<lambda>i s. Some (mem_write (cell p i) (if i \<ge> 256 then mem s (cell c i) else 0) s)) s
              = Some (s\<lparr>mem := m\<rparr>) \<and>
             (\<forall>i. table_idx i \<longrightarrow> m (cell p i) = (if i \<ge> 256 then mem s (cell c i) else 0)) \<and>
             (\<forall>a. page_base a \<noteq> p \<longrightarrow> m a = mem s a)"
proof -
  let ?w = "\<lambda>i. if i \<ge> 256 then mem s (cell c i) else 0"
  let ?I = "\<lambda>k u. \<exists>m. u = s\<lparr>mem := m\<rparr> \<and> (\<forall>i. i < k \<longrightarrow> m (cell p i) = ?w i) \<and>
                      (\<forall>a. page_base a \<noteq> p \<longrightarrow> m a = mem s a)"
  let ?body = "\<lambda>i s. Some (mem_write (cell p i) (if i \<ge> 256 then mem s (cell c i) else 0) s)"
  have "\<exists>u. for_u64 0 512 ?body s = Some u \<and> ?I 512 u"
  proof (rule for_u64_rule)
    show "?I 0 s" by (rule exI [of _ "mem s"]) simp
    show "(0 :: u64) \<le> 512" by simp
  next
    fix k u
    assume k: "k < 512" and "?I k u"
    then obtain m where m: "u = s\<lparr>mem := m\<rparr>" "\<forall>i. i < k \<longrightarrow> m (cell p i) = ?w i"
      "\<forall>a. page_base a \<noteq> p \<longrightarrow> m a = mem s a" by blast
    have ti: "table_idx i" if "i \<le> k" for i using that k by (simp add: table_idx_def)
    have "page_base (cell c k) = c" "page_base (cell p k) = p"
      using assms ti by (simp_all add: page_base_cell)
    then have mk: "mem u (cell c k) = mem s (cell c k)" using m assms(3) by simp
    have ik: "i = k \<or> i < k" if "i < k + 1" for i
      using that unat_succ_less [OF k] by (auto simp: word_less_nat_alt word_unat_eq_iff)
    have "cell p i \<noteq> cell p k" if "i < k" for i
      using that cell_inject [OF assms(1,1) ti ti, of i k] by auto
    then have "(m(cell p k := ?w k)) (cell p i) = ?w i" if "i < k + 1" for i
      using m(2) ik [OF that] by (cases "i = k") simp_all
    moreover have "(m(cell p k := ?w k)) a = mem s a" if "page_base a \<noteq> p" for a
      using m(3) \<open>page_base (cell p k) = p\<close> that by (cases "a = cell p k") simp_all
    moreover have "mem_write (cell p k) (if k \<ge> 256 then mem u (cell c k) else 0) u =
        s\<lparr>mem := m(cell p k := ?w k)\<rparr>"
      using mk m(1) by (simp add: mem_write_def)
    ultimately have "?I (k + 1) (mem_write (cell p k) (if k \<ge> 256 then mem u (cell c k) else 0) u)"
      by blast
    then show "\<exists>u'. ?body k u = Some u' \<and> ?I (k + 1) u'" by blast
  qed
  then show ?thesis by (auto simp: table_idx_def)
qed

text \<open>
  The new map shares the upper half of the current one (the kernel's tables are the same tables) and
  has nothing in the lower half.
\<close>

lemma new_pagemap_aspace:
  assumes inv: "vmm_inv s r" and pal: "page_aligned p" and pt: "p \<notin> tables s r"
    and h: "hhdm_offset s' = hhdm_offset s"
    and m1: "\<forall>i. table_idx i \<longrightarrow> mem s' (cell p i) = (if i \<ge> 256 then mem s (cell r i) else 0)"
    and m2: "\<forall>a. page_base a \<noteq> p \<longrightarrow> mem s' a = mem s a"
  shows "aspace s' r = aspace s r"
    "aspace s' p v = (if hd v \<ge> 256 then aspace s r v else 0)"
proof -
  let ?h = "hhdm_offset s"
  have ral: "page_aligned r" and hal: "page_aligned ?h"
    using inv by (auto simp: vmm_inv_def pt_tree_def hhdm_ok_def)
  have same: "mem s' (cell u i) = mem s (cell u i)"
    if "table_path q" "tbl ?h (mem s) r q = Some u" "table_idx i" for q u i
  proof -
    have "u \<noteq> p" using that pt by (auto simp: tables_def)
    then show ?thesis using m2 page_base_cell [OF tbl_aligned [OF ral hal that(2)] that(3)] by simp
  qed
  have T: "tbl ?h (mem s') r q = tbl ?h (mem s) r q" if "table_path q" for q
    using that by (intro tbl_cong [OF hal ral]) (auto intro: same)
  show A: "aspace s' r = aspace s r"
  proof
    fix v
    show "aspace s' r v = aspace s r v"
      using T [OF page_path_butlast(1), of v] same [OF page_path_butlast(1) _ page_path_butlast(2), of v _ v]
      by (simp add: aspace_def h split: option.split)
  qed
  show "aspace s' p v = (if hd v \<ge> 256 then aspace s r v else 0)"
  proof (cases "page_path v")
    case True
    then obtain i j k l where v: "v = [i, j, k, l]" and i: "table_idx i"
      by (auto simp: page_path_def length_Suc_conv numeral_eq_Suc)
    show ?thesis
    proof (cases "i \<ge> 256")
      case hi: True
      have "mem s' (cell p i) = mem s' (cell r i)"
        using m1 i hi same [of "[]" r i] by simp
      then have "aspace s' p v = aspace s' r v" using v by (simp add: aspace_def)
      then show ?thesis using A v hi by simp
    next
      case lo: False
      then have "mem s' (cell p i) = 0" using m1 i by simp
      then show ?thesis using v lo by (simp add: aspace_def)
    qed
  qed (simp add: aspace_def)
qed

lemma vmm_new_pagemap_spec:
  assumes inv: "vmm_inv s r" and r: "vmm_get_current s = r" and ne: "free_frames s \<noteq> {}"
  shows "\<exists>p s'. vmm_new_pagemap s = Some (p, s') \<and> p - hhdm_offset s \<in> free_frames s \<and>
           free_frames s' = free_frames s - {p - hhdm_offset s} \<and>
           aspace s' r = aspace s r \<and>
           (\<forall>v. aspace s' p v = (if hd v \<ge> 256 then aspace s r v else 0)) \<and>
           (\<forall>a. page_base a \<noteq> p \<longrightarrow> mem s' a = mem s a)"
proof -
  have ok: "pmm_ok s" and hal: "page_aligned (hhdm_offset s)" and ral: "page_aligned r"
    using inv by (auto simp: vmm_inv_def hhdm_ok_def pt_tree_def)
  from pmm.alloc_total [OF ok] obtain f s1 where a: "pmm_alloc s = Some (f, s1)" by blast
  note fr = pmm.alloc_fresh [OF ok a]
  note fm = pmm_frame_mem [OF pmm_alloc_frame [OF a]]
  let ?p = "f + hhdm_offset s"
  have f: "f \<in> free_frames s" using fr(5,6) ne by blast
  have pal: "page_aligned ?p" using fr(4) hal by (rule page_aligned_add)
  have nt: "?p \<notin> tables s r" by (rule free_not_table [OF inv f])
  have "r \<in> tables s r" unfolding tables_def by (auto intro!: exI [of _ "[]"])
  then have "?p \<noteq> r" using nt by blast
  have cur: "vmm_get_current s1 = r" using fm r by (simp add: vmm_get_current_def phys_to_virt_def)
  from new_pagemap_loop [OF pal ral \<open>?p \<noteq> r\<close>, of s1] obtain m where
    l: "for_u64 0 512 (\<lambda>i s. Some (mem_write (cell ?p i) (if i \<ge> 256 then mem s (cell r i) else 0) s)) s1
        = Some (s1\<lparr>mem := m\<rparr>)"
    and m: "\<forall>i. table_idx i \<longrightarrow> m (cell ?p i) = (if i \<ge> 256 then mem s (cell r i) else 0)"
    "\<forall>a. page_base a \<noteq> ?p \<longrightarrow> m a = mem s a"
    using fm(1) by auto
  have "vmm_new_pagemap s = Some (?p, s1\<lparr>mem := m\<rparr>)"
    using a l by (simp add: vmm_new_pagemap_def phys_to_virt_def fm(2) cur Let_def cong: if_cong)
  moreover have "aspace (s1\<lparr>mem := m\<rparr>) r = aspace s r"
    "aspace (s1\<lparr>mem := m\<rparr>) ?p v = (if hd v \<ge> 256 then aspace s r v else 0)" for v
    using new_pagemap_aspace [OF inv pal nt, of "s1\<lparr>mem := m\<rparr>"] m fm(2) by auto
  ultimately show ?thesis using f fr(3) m(2) by (intro exI [of _ ?p]) auto
qed

section \<open>Pages and their paths\<close>

text \<open>The four indices of an address determine its bits 12 to 47.\<close>

lemma idx_bit:
  "bit (pml4_idx v) n \<longleftrightarrow> n < 9 \<and> bit v (39 + n)" "bit (pdpt_idx v) n \<longleftrightarrow> n < 9 \<and> bit v (30 + n)"
  "bit (pd_idx v) n \<longleftrightarrow> n < 9 \<and> bit v (21 + n)" "bit (pt_idx v) n \<longleftrightarrow> n < 9 \<and> bit v (12 + n)"
proof -
  have m: "(0x1FF :: u64) = mask 9" by (simp add: mask_eq_exp_minus_1)
  show "bit (pml4_idx v) n \<longleftrightarrow> n < 9 \<and> bit v (39 + n)" "bit (pdpt_idx v) n \<longleftrightarrow> n < 9 \<and> bit v (30 + n)"
    "bit (pd_idx v) n \<longleftrightarrow> n < 9 \<and> bit v (21 + n)" "bit (pt_idx v) n \<longleftrightarrow> n < 9 \<and> bit v (12 + n)"
    unfolding pml4_idx_def pdpt_idx_def pd_idx_def pt_idx_def m
    by (auto simp: bit_simps dest: bit_imp_le_length)
qed

lemma vidx_bits:
  assumes "vidx v = vidx w" "12 \<le> n" "n < 48"
  shows "bit v n = bit w n"
proof -
  have e: "pml4_idx v = pml4_idx w" "pdpt_idx v = pdpt_idx w" "pd_idx v = pd_idx w" "pt_idx v = pt_idx w"
    using assms(1) by (simp_all add: vidx_def)
  consider "n < 21" | "21 \<le> n" "n < 30" | "30 \<le> n" "n < 39" | "39 \<le> n" by linarith
  then show ?thesis
  proof cases
    case 1
    then show ?thesis using idx_bit(4) [of v "n - 12"] idx_bit(4) [of w "n - 12"] e(4) assms(2) by auto
  next
    case 2
    then show ?thesis using idx_bit(3) [of v "n - 21"] idx_bit(3) [of w "n - 21"] e(3) by auto
  next
    case 3
    then show ?thesis using idx_bit(2) [of v "n - 30"] idx_bit(2) [of w "n - 30"] e(2) by auto
  next
    case 4
    then show ?thesis using idx_bit(1) [of v "n - 39"] idx_bit(1) [of w "n - 39"] e(1) assms(3) by auto
  qed
qed

text \<open>Two pages of the same half with the same path are the same page.\<close>

lemma vidx_inject:
  assumes "page_aligned v" "page_aligned w" "drop_bit 48 v = drop_bit 48 w"
  shows "vidx v = vidx w \<longleftrightarrow> v = w"
proof
  assume x: "vidx v = vidx w"
  have "bit v n = bit w n" if "n < 64" for n
  proof -
    consider "n < 12" | "12 \<le> n" "n < 48" | "48 \<le> n" by linarith
    then show ?thesis
    proof cases
      case 1
      have "bit (take_bit 12 v) n = bit (take_bit 12 w) n"
        using assms(1,2) by (simp add: page_aligned_take_bit)
      then show ?thesis using 1 by (simp add: bit_simps)
    next
      case 2
      then show ?thesis using vidx_bits [OF x] by simp
    next
      case 3
      have "bit (drop_bit 48 v) (n - 48) = bit (drop_bit 48 w) (n - 48)" using assms(3) by simp
      then show ?thesis using 3 by (simp add: bit_simps)
    qed
  qed
  then show "v = w" by (intro bit_word_eqI) simp
qed simp

section \<open>Properties\<close>

text \<open>
  A small machine for the witnesses: eight pages, of which 2 to 7 are free, seen at an HHDM offset
  of 1 MiB; page 1 holds an empty PML4.
\<close>

definition sample_vmm :: vmm where
  "sample_vmm = \<lparr>klog = [], bitmap = [0x03], bitmap_ptr = 0, total_pages = 8, free_pages = 6,
                 bitmap_size = 1, hhdm_offset = 0x100000, mem = (\<lambda>_. 0), cr3 = 0x1000, invlpg = []\<rparr>"

lemma sample_vmm_free: "free_set sample_vmm = {2, 3, 4, 5, 6, 7}"
proof -
  have "i < 8 \<and> \<not> page_used [0x03] i \<longleftrightarrow> i \<in> {2, 3, 4, 5, 6, 7}" for i
  proof (cases "i < 8")
    case True
    then consider "i = 0" | "i = 1" | "i = 2" | "i = 3" | "i = 4" | "i = 5" | "i = 6" | "i = 7"
      by linarith
    then show ?thesis by cases (simp_all add: page_used_def)
  qed auto
  then show ?thesis by (auto simp: free_set_def sample_vmm_def)
qed

lemma sample_vmm_ok: "pmm_ok sample_vmm"
  unfolding pmm_ok_def pmm_inv_def sample_vmm_free by (simp add: sample_vmm_def)

lemma sample_vmm_frames:
  "free_frames sample_vmm = {0x2000, 0x3000, 0x4000, 0x5000, 0x6000, 0x7000}"
  using sample_vmm_ok unfolding pmm_ok_def by (simp add: free_frames_image sample_vmm_free)

lemma sample_vmm_card: "card (free_frames sample_vmm) = 6"
  by (simp add: sample_vmm_frames)

lemma sample_vmm_inv: "vmm_inv sample_vmm 0x101000"
proof -
  have T: "tbl h (\<lambda>_. 0) r p = Some a \<Longrightarrow> p = [] \<and> a = r" for h r p a
    by (cases p) auto
  have "p + 0x100000 \<noteq> NULL" if "unat p div 4096 < 8" for p :: u64
  proof
    assume "p + 0x100000 = NULL"
    then have "p = - 0x100000" by (simp add: eq_neg_iff_add_eq_0)
    with that show False by simp
  qed
  then have "hhdm_ok sample_vmm"
    by (auto simp: hhdm_ok_def managed_frames_def sample_vmm_def page_aligned_def)
  moreover have "pt_tree sample_vmm 0x101000"
    unfolding pt_tree_def sample_vmm_frames
    by (auto simp: sample_vmm_def page_aligned_def dest!: T)
  ultimately show ?thesis using sample_vmm_ok by (simp add: vmm_inv_def)
qed

text \<open>
  C7. \<^verbatim>\<open>vmm_map\<close> implements an update of the abstract address space: it always returns, keeps the page
  tables a tree inside allocated frames, and either sets exactly the entry of the given page, or
  (only if fewer than three frames are free) leaves the whole address space as it was and logs an
  error. It touches no memory outside the page tables and the frames that were free.
\<close>

theorem vmm_map_refines:
  assumes "vmm_inv s r"
  shows "\<exists>s'. vmm_map r virt phys flags s = Some s' \<and> vmm_inv s' r \<and>
      (aspace s' r = (aspace s r)(vidx virt := phys OR flags) \<or>
       aspace s' r = aspace s r \<and> card (free_frames s) < 3 \<and> (LOG_ERROR, ''VMM'') \<in> set (klog s')) \<and>
      (\<forall>a. page_base a \<notin> tables s r \<longrightarrow> page_base a - hhdm_offset s \<notin> free_frames s \<longrightarrow>
           mem s' a = mem s a)"
proof -
  obtain s' where s': "vmm_map r virt phys flags s = Some s'"
    "map_outcome r (vidx virt) (phys OR flags) s s' 3"
    using vmm_map_outcome [OF assms, of virt phys flags] by (auto simp: eval_nat_numeral)
  then have "vmm_step r s s'" by (simp add: map_outcome_def)
  with s' show ?thesis by (intro exI [of _ s']) (simp add: map_outcome_def vmm_step_def)
qed

theorem vmm_map_refines_witness:
  "\<exists>s'. vmm_map 0x101000 0x400000 0x7000 VMM_KERNEL sample_vmm = Some s' \<and> vmm_inv s' 0x101000 \<and>
        aspace s' 0x101000 = (aspace sample_vmm 0x101000)([0, 0, 2, 0] := 0x7003) \<and>
        mem s' 0x100000 = 0"
proof -
  have v: "vidx 0x400000 = [0, 0, 2, 0]"
    by (simp add: vidx_def pml4_idx_def pdpt_idx_def pd_idx_def pt_idx_def)
  have "a = 0x101000" if "tbl h (\<lambda>_. 0) 0x101000 p = Some a" for h p a
    using that by (cases p) auto
  then have t: "a = 0x101000" if "a \<in> tables sample_vmm 0x101000" for a
    using that by (auto simp: tables_def sample_vmm_def)
  have t: "0x100000 \<notin> tables sample_vmm 0x101000" using t [of "0x100000"] by auto
  have "mem sample_vmm a = 0" "hhdm_offset sample_vmm = 0x100000" for a
    by (simp_all add: sample_vmm_def)
  then show ?thesis
    using vmm_map_refines [OF sample_vmm_inv, of "0x400000" "0x7000" VMM_KERNEL] t
    by (auto simp: v vmm_flags sample_vmm_card sample_vmm_frames page_base_def)
qed

text \<open>
  C21. Mapping and translation: with three free frames, after mapping \<open>virt\<close> to the page \<open>phys\<close>,
  \<^verbatim>\<open>vmm_get_phys\<close> of \<open>virt\<close> is \<open>phys\<close> with the high bits of the flags still in it (the mask
  \<^verbatim>\<open>~0xFFF\<close> does not clear \<^verbatim>\<open>VMM_NX\<close>), the translation of every other page is as before, and after
  \<^verbatim>\<open>vmm_unmap\<close> of \<open>virt\<close> its translation is 0 and that of the others still as before.
\<close>

theorem vmm_map_get_phys:
  assumes "vmm_inv s r" and "3 \<le> card (free_frames s)" and "page_aligned phys"
  shows "\<exists>s'. vmm_map r virt phys flags s = Some s' \<and>
           vmm_get_phys r virt s' = (phys OR page_base flags) \<and>
           vmm_get_phys r virt (vmm_unmap r virt s') = 0 \<and>
           (\<forall>w. vidx w \<noteq> vidx virt \<longrightarrow> vmm_get_phys r w s' = vmm_get_phys r w s \<and>
                 vmm_get_phys r w (vmm_unmap r virt s') = vmm_get_phys r w s)"
proof -
  obtain s' where s': "vmm_map r virt phys flags s = Some s'" "vmm_inv s' r"
    using vmm.map_total [OF assms(1)] by blast
  then show ?thesis
    using vmm.map_translate [OF assms(1,2) s'(1)] vmm.map_other [OF assms(1) s'(1)]
      vmm.unmap_translate [OF s'(2)] assms(3) by auto
qed

theorem vmm_map_get_phys_witness:
  "\<exists>s'. vmm_map 0x101000 0x400000 0x7000 (VMM_KERNEL OR VMM_NX) sample_vmm = Some s' \<and>
        vmm_get_phys 0x101000 0x400000 s' = 0x8000000000007000 \<and>
        vmm_get_phys 0x101000 0x400000 (vmm_unmap 0x101000 0x400000 s') = 0"
proof -
  have "page_base (VMM_KERNEL OR VMM_NX) = 0x8000000000000000" "page_aligned 0x7000"
    by (simp_all add: vmm_flags page_base_def page_aligned_def)
  then show ?thesis
    using vmm_map_get_phys [OF sample_vmm_inv, of "0x7000" "0x400000" "VMM_KERNEL OR VMM_NX"]
    by (auto simp: sample_vmm_card)
qed

text \<open>
  C22. \<^verbatim>\<open>vmm_unmap\<close> clears exactly the entry of the given page, keeps the tree of tables and every free
  frame (a table that becomes empty is not given back), and invalidates the translation of the page
  whenever it changed memory.
\<close>

theorem vmm_unmap_refines:
  assumes "vmm_inv s r"
  shows "vmm_inv (vmm_unmap r virt s) r \<and>
         aspace (vmm_unmap r virt s) r = (aspace s r)(vidx virt := 0) \<and>
         free_frames (vmm_unmap r virt s) = free_frames s \<and>
         (vmm_unmap r virt s = s \<or> invlpg (vmm_unmap r virt s) = invlpg s @ [virt])"
  using vmm_unmap_spec [OF assms, of virt]
  by (simp add: vmm_step_inv) (simp add: vmm_unmap_eq split: option.split)

theorem vmm_unmap_refines_witness:
  "vmm_inv (vmm_unmap 0x101000 0x400000 sample_vmm) 0x101000 \<and>
   aspace (vmm_unmap 0x101000 0x400000 sample_vmm) 0x101000 [0, 0, 2, 0] = 0"
  using vmm_unmap_refines [OF sample_vmm_inv, of "0x400000"]
  by (simp add: vidx_def pml4_idx_def pdpt_idx_def pd_idx_def pt_idx_def)

text \<open>
  C24. With a free frame, \<^verbatim>\<open>vmm_new_pagemap\<close> builds in a fresh frame a page map that translates every
  address of the upper half (PML4 entries 256 to 511) as the current map does, and has no mapping in
  the lower half; the current map and all other memory are unchanged.
\<close>

theorem vmm_new_pagemap_shares_kernel:
  assumes "vmm_inv s r" and "vmm_get_current s = r" and "free_frames s \<noteq> {}"
  shows "\<exists>p s'. vmm_new_pagemap s = Some (p, s') \<and> p - hhdm_offset s \<in> free_frames s \<and>
           free_frames s' = free_frames s - {p - hhdm_offset s} \<and> aspace s' r = aspace s r \<and>
           (\<forall>v. aspace s' p v = (if hd v \<ge> 256 then aspace s r v else 0)) \<and>
           (\<forall>a. page_base a \<noteq> p \<longrightarrow> mem s' a = mem s a)"
  using assms by (rule vmm_new_pagemap_spec)

theorem vmm_new_pagemap_shares_kernel_witness:
  "\<exists>p s'. vmm_new_pagemap sample_vmm = Some (p, s') \<and>
     aspace s' 0x101000 = aspace sample_vmm 0x101000 \<and>
     (\<forall>v. aspace s' p v = (if hd v \<ge> 256 then aspace sample_vmm 0x101000 v else 0))"
proof -
  have "vmm_get_current sample_vmm = 0x101000"
    by (simp add: vmm_get_current_def phys_to_virt_def sample_vmm_def page_base_def)
  from vmm_new_pagemap_shares_kernel [OF sample_vmm_inv this] show ?thesis
    using sample_vmm_frames by auto
qed

text \<open>
  C26. \<^verbatim>\<open>vmm_new_pagemap\<close> does not test for exhaustion: with no free page it takes the error value 0 for
  a frame, overwrites the lower half of physical page 0 with zeros and returns that page as the new
  map.
\<close>

theorem vmm_new_pagemap_no_memory:
  assumes "vmm_inv s r" and "vmm_get_current s = r" and "free_frames s = {}"
    and "r \<noteq> hhdm_offset s"
  shows "\<exists>s'. vmm_new_pagemap s = Some (hhdm_offset s, s') \<and>
           (\<forall>i < 256. mem s' (cell (hhdm_offset s) i) = 0)"
proof -
  have ok: "pmm_ok s" and hal: "page_aligned (hhdm_offset s)" and ral: "page_aligned r"
    using assms(1) by (auto simp: vmm_inv_def hhdm_ok_def pt_tree_def)
  from pmm.alloc_none [OF ok assms(3)] obtain s1 where a: "pmm_alloc s = Some (NULL, s1)" by blast
  note fm = pmm_frame_mem [OF pmm_alloc_frame [OF a]]
  have cur: "vmm_get_current s1 = r"
    using fm assms(2) by (simp add: vmm_get_current_def phys_to_virt_def)
  from new_pagemap_loop [OF hal ral assms(4) [symmetric], of s1] obtain m where
    l: "for_u64 0 512 (\<lambda>i s. Some (mem_write (cell (hhdm_offset s1) i) (if i \<ge> 256 then mem s (cell r i) else 0) s)) s1
        = Some (s1\<lparr>mem := m\<rparr>)"
    and m: "\<forall>i. table_idx i \<longrightarrow> m (cell (hhdm_offset s) i) = (if i \<ge> 256 then mem s (cell r i) else 0)"
    using fm by auto
  have "vmm_new_pagemap s = Some (hhdm_offset s, s1\<lparr>mem := m\<rparr>)"
    using a l fm(2) by (simp add: vmm_new_pagemap_def phys_to_virt_def cur Let_def cong: if_cong)
  moreover have "table_idx i" "\<not> 256 \<le> i" if "i < 256" for i
    using that less_trans [of i 256 512] by (simp_all add: table_idx_def)
  ultimately show ?thesis using m by auto
qed

theorem vmm_new_pagemap_no_memory_witness:
  "\<exists>s'. vmm_new_pagemap (sample_vmm\<lparr>bitmap := [0xFF], free_pages := 0\<rparr>) = Some (0x100000, s') \<and>
        (\<forall>i < 256. mem s' (cell 0x100000 i) = 0)"
proof -
  let ?s = "sample_vmm\<lparr>bitmap := [0xFF], free_pages := 0\<rparr>"
  have u: "page_used [0xFF] i" if "i < 8" for i
    using that page_used_replicate_FF [of i 1] by simp
  then have fs: "free_set ?s = {}" by (auto simp: free_set_def sample_vmm_def)
  then have ff: "free_frames ?s = {}" by (simp add: free_frames_def)
  have "pmm_ok ?s" unfolding pmm_ok_def pmm_inv_def fs by (simp add: sample_vmm_def)
  then have "vmm_inv ?s 0x101000"
    using sample_vmm_inv ff unfolding vmm_inv_def hhdm_ok_def pt_tree_def managed_frames_def by simp
  moreover have "vmm_get_current ?s = 0x101000"
    by (simp add: vmm_get_current_def phys_to_virt_def sample_vmm_def page_base_def)
  ultimately show ?thesis
    using vmm_new_pagemap_no_memory [of ?s "0x101000"] ff by (simp add: sample_vmm_def)
qed

end
