(* ===== verification/Memory.thy ===== *)
theory Memory
  imports Vmm
begin

text \<open>
  Loads and stores of the kernel. Below \<open>KERNEL_HEAP_BASE\<close> lie the HHDM and the kernel image, which
  the boot loader maps once and for all: an address there names its memory cell directly. From
  \<open>KERNEL_HEAP_BASE\<close> on (the range the heap maps itself, \<^verbatim>\<open>kernel_heap_vaddr\<close> of \<^verbatim>\<open>mm/heap.c\<close>) an access
  goes through the page tables of the current map, and an absent page is a fault.
\<close>

section \<open>Loads and stores\<close>

definition KERNEL_HEAP_BASE :: u64 where
  "KERNEL_HEAP_BASE = 0xffffffff90000000"

text \<open>Bits 12 to 51 of a page table entry are the frame.\<close>

definition pte_frame :: "u64 \<Rightarrow> u64" where
  "pte_frame e = e AND 0x000FFFFFFFFFF000"

definition mmu :: "'a vmm_scheme \<Rightarrow> u64 \<Rightarrow> u64 option" where
  "mmu s a =
     (if a < KERNEL_HEAP_BASE then Some a
      else let e = aspace s (vmm_get_current s) (vidx a) in
        if e AND VMM_PRESENT = 0 then None
        else Some (phys_to_virt s (pte_frame e) + (a AND 0xFFF)))"

definition load64 :: "u64 \<Rightarrow> 'a vmm_scheme \<Rightarrow> u64 option" where
  "load64 a s = do { c \<leftarrow> mmu s a; Some (mem s c) }"

definition store64 :: "u64 \<Rightarrow> u64 \<Rightarrow> 'a vmm_scheme \<Rightarrow> 'a vmm_scheme option" where
  "store64 a v s = do { c \<leftarrow> mmu s a; Some (mem_write c v s) }"

text \<open>A 32-bit field at the start of a cell: a store keeps the upper half of the cell.\<close>

definition low32 :: "u64 \<Rightarrow> u32" where
  "low32 w = ucast w"

definition set_low32 :: "u64 \<Rightarrow> u32 \<Rightarrow> u64" where
  "set_low32 w v = (w AND NOT (mask 32)) OR ucast v"

definition load32 :: "u64 \<Rightarrow> 'a vmm_scheme \<Rightarrow> u32 option" where
  "load32 a s = do { c \<leftarrow> mmu s a; Some (low32 (mem s c)) }"

definition store32 :: "u64 \<Rightarrow> u32 \<Rightarrow> 'a vmm_scheme \<Rightarrow> 'a vmm_scheme option" where
  "store32 a v s = do { c \<leftarrow> mmu s a; Some (mem_write c (set_low32 (mem s c) v) s) }"

text \<open>Bytes: byte \<open>k\<close> of a cell, little endian.\<close>

definition get_byte :: "u64 \<Rightarrow> nat \<Rightarrow> u8" where
  "get_byte w k = ucast (drop_bit (8 * k) w)"

definition set_byte :: "u64 \<Rightarrow> nat \<Rightarrow> u8 \<Rightarrow> u64" where
  "set_byte w k v = (w AND NOT (push_bit (8 * k) 0xFF)) OR push_bit (8 * k) (ucast v)"

definition cell_of :: "u64 \<Rightarrow> u64" where
  "cell_of a = a AND NOT 7"

definition byte_pos :: "u64 \<Rightarrow> nat" where
  "byte_pos a = unat (a AND 7)"

definition load8 :: "u64 \<Rightarrow> 'a vmm_scheme \<Rightarrow> u8 option" where
  "load8 a s = do { c \<leftarrow> mmu s a; Some (get_byte (mem s (cell_of c)) (byte_pos c)) }"

definition store8 :: "u64 \<Rightarrow> u8 \<Rightarrow> 'a vmm_scheme \<Rightarrow> 'a vmm_scheme option" where
  "store8 a v s =
     do { c \<leftarrow> mmu s a;
          Some (mem_write (cell_of c) (set_byte (mem s (cell_of c)) (byte_pos c) v) s) }"

section \<open>Direct addresses\<close>

definition direct :: "u64 \<Rightarrow> bool" where
  "direct a \<longleftrightarrow> a < KERNEL_HEAP_BASE"

definition byte :: "'a vmm_scheme \<Rightarrow> u64 \<Rightarrow> u8" where
  "byte s a = get_byte (mem s (cell_of a)) (byte_pos a)"

lemma mmu_direct [simp]: "direct a \<Longrightarrow> mmu s a = Some a"
  by (simp add: mmu_def direct_def)

lemma load64_direct [simp]: "direct a \<Longrightarrow> load64 a s = Some (mem s a)"
  by (simp add: load64_def)

lemma store64_direct [simp]: "direct a \<Longrightarrow> store64 a v s = Some (mem_write a v s)"
  by (simp add: store64_def)

lemma load32_direct [simp]: "direct a \<Longrightarrow> load32 a s = Some (low32 (mem s a))"
  by (simp add: load32_def)

lemma store32_direct [simp]: "direct a \<Longrightarrow> store32 a v s = Some (mem_write a (set_low32 (mem s a) v) s)"
  by (simp add: store32_def)

lemma load8_direct [simp]: "direct a \<Longrightarrow> load8 a s = Some (byte s a)"
  by (simp add: load8_def byte_def)

lemma low32_set_low32 [simp]: "low32 (set_low32 w v) = v"
  unfolding low32_def set_low32_def by (rule bit_word_eqI) (auto simp: bit_simps)

lemma get_byte_set_byte:
  assumes "j < 8" "k < 8"
  shows "get_byte (set_byte w k v) j = (if j = k then v else get_byte w j)"
proof (rule bit_word_eqI)
  fix n :: nat
  assume "n < LENGTH(8)"
  then have n: "n < 8" by simp
  have FF: "(0xFF :: u64) = mask 8" by (simp add: mask_eq_exp_minus_1)
  have "8 * j + n < 64" using n assms(1) by linarith
  moreover have "8 * k \<le> 8 * j + n \<and> 8 * j + n - 8 * k < 8 \<longleftrightarrow> j = k" using n by linarith
  moreover have "\<not> bit v m" if "8 \<le> m" for m using that bit_imp_le_length [of v m] by auto
  ultimately show "bit (get_byte (set_byte w k v) j) n = bit (if j = k then v else get_byte w j) n"
    using n unfolding get_byte_def set_byte_def FF
    by (cases "j = k") (auto simp: bit_simps not_less)
qed

lemma byte_pos_less: "byte_pos a < 8"
proof -
  have "a AND 7 \<le> 7" by (rule word_and_le1)
  then have "unat (a AND 7) \<le> 7" by (simp add: word_le_nat_alt)
  then show ?thesis by (simp add: byte_pos_def)
qed

lemma byte_address: "cell_of a = cell_of b \<Longrightarrow> byte_pos a = byte_pos b \<Longrightarrow> a = b"
proof -
  assume "cell_of a = cell_of b" "byte_pos a = byte_pos b"
  then have "a AND NOT 7 = b AND NOT 7" "a AND 7 = b AND 7"
    unfolding cell_of_def byte_pos_def word_unat_eq_iff by blast+
  moreover have "x = (x AND NOT 7) OR (x AND 7)" for x :: u64
    by (rule bit_eqI) (auto simp: bit_simps)
  ultimately show "a = b" by metis
qed

lemma store8_direct:
  assumes "direct a"
  shows "\<exists>m. store8 a v s = Some (s\<lparr>mem := m\<rparr>) \<and>
             (\<forall>b. byte (s\<lparr>mem := m\<rparr>) b = (if b = a then v else byte s b)) \<and>
             (\<forall>c. c \<noteq> cell_of a \<longrightarrow> m c = mem s c)"
proof -
  let ?m = "(mem s)(cell_of a := set_byte (mem s (cell_of a)) (byte_pos a) v)"
  have "byte (s\<lparr>mem := ?m\<rparr>) b = (if b = a then v else byte s b)" for b
    using byte_address [of a b] get_byte_set_byte [OF byte_pos_less byte_pos_less, of _ a v b]
    by (cases "cell_of b = cell_of a") (auto simp: byte_def)
  then show ?thesis using assms by (intro exI [of _ ?m]) (simp add: store8_def mem_write_def)
qed

lemma page_base_cell_of: "page_base (cell_of a) = page_base a"
proof -
  have "(NOT 7 AND NOT 0xFFF :: u64) = NOT 0xFFF" by simp
  then show ?thesis unfolding page_base_def cell_of_def by (metis and.assoc)
qed

section \<open>Buffers\<close>

text \<open>
  A buffer of \<open>n\<close> bytes at \<open>a\<close>, all of it directly mapped (so it does not wrap around), and its
  contents.
\<close>

definition buffer :: "u64 \<Rightarrow> nat \<Rightarrow> bool" where
  "buffer a n \<longleftrightarrow> unat a + n \<le> unat KERNEL_HEAP_BASE"

definition bytes_at :: "'a vmm_scheme \<Rightarrow> u64 \<Rightarrow> nat \<Rightarrow> u8 list" where
  "bytes_at s a n = map (\<lambda>k. byte s (a + of_nat k)) [0..<n]"

definition in_buf :: "u64 \<Rightarrow> nat \<Rightarrow> u64 \<Rightarrow> bool" where
  "in_buf a n b \<longleftrightarrow> (\<exists>k < n. b = a + of_nat k)"

lemma heap_base_bound: "unat KERNEL_HEAP_BASE < 18446744073709551616"
  by (rule unat_u64_less)

lemma unat_buffer:
  assumes "buffer a n" "k < n"
  shows "unat (a + of_nat k) = unat a + k" "direct (a + of_nat k)"
proof -
  have b: "unat a + k < unat KERNEL_HEAP_BASE" using assms by (simp add: buffer_def)
  then have "unat a + k < 18446744073709551616" using heap_base_bound by linarith
  then show *: "unat (a + of_nat k) = unat a + k"
    by (simp add: unat_word_ariths unsigned_of_nat take_bit_nat_eq_self)
  show "direct (a + of_nat k)" using b * by (simp add: direct_def word_less_nat_alt)
qed

lemma buffer_le: "buffer a n \<Longrightarrow> m \<le> n \<Longrightarrow> buffer a m"
  by (simp add: buffer_def)

lemma buffer_eq_iff:
  assumes "buffer a n" "buffer b m" "j < n" "k < m"
  shows "a + of_nat j = b + of_nat k \<longleftrightarrow> unat a + j = unat b + k"
  using unat_buffer(1) [OF assms(1,3)] unat_buffer(1) [OF assms(2,4)] by (metis word_unat_eq_iff)

lemma length_bytes_at [simp]: "length (bytes_at s a n) = n"
  by (simp add: bytes_at_def)

lemma nth_bytes_at [simp]: "k < n \<Longrightarrow> bytes_at s a n ! k = byte s (a + of_nat k)"
  by (simp add: bytes_at_def)

lemma bytes_at_Suc: "bytes_at s a (Suc n) = byte s a # bytes_at s (a + 1) n"
  unfolding bytes_at_def map_upt_Suc by (simp add: algebra_simps)

lemma bytes_at_snoc: "bytes_at s a (Suc n) = bytes_at s a n @ [byte s (a + of_nat n)]"
  by (simp add: bytes_at_def)

lemma bytes_at_cong:
  assumes "\<And>k. k < n \<Longrightarrow> byte s' (b + of_nat k) = byte s (a + of_nat k)"
  shows "bytes_at s' b n = bytes_at s a n"
  using assms by (simp add: bytes_at_def)

end
