(* ===== verification/CString.thy ===== *)
theory CString
  imports Memory
begin

text \<open>
  \<^verbatim>\<open>lib/string.c\<close>: the memory and string routines, byte by byte over the kernel's memory, and what
  they compute on directly mapped buffers and null-terminated strings.
\<close>

section \<open>The routines\<close>

definition memcpy :: "u64 \<Rightarrow> u64 \<Rightarrow> u64 \<Rightarrow> 'a vmm_scheme \<Rightarrow> (u64 \<times> 'a vmm_scheme) option" where
  "memcpy dest src n s =
     do {
       s \<leftarrow> for_u64 0 n (\<lambda>i s. do { v \<leftarrow> load8 (src + i) s; store8 (dest + i) v s }) s;
       Some (dest, s)
     }"

definition memset :: "u64 \<Rightarrow> u32 \<Rightarrow> u64 \<Rightarrow> 'a vmm_scheme \<Rightarrow> (u64 \<times> 'a vmm_scheme) option" where
  "memset p c n s =
     do { s \<leftarrow> for_u64 0 n (\<lambda>i s. store8 (p + i) (ucast c) s) s; Some (p, s) }"

text \<open>The second loop of \<^verbatim>\<open>memmove\<close>, which counts down.\<close>

function memmove_down :: "u64 \<Rightarrow> u64 \<Rightarrow> u64 \<Rightarrow> 'a vmm_scheme \<Rightarrow> 'a vmm_scheme option" where
  "memmove_down i dest src s =
     (if i > 0
      then do { v \<leftarrow> load8 (src + (i - 1)) s; s \<leftarrow> store8 (dest + (i - 1)) v s;
                memmove_down (i - 1) dest src s }
      else Some s)"
  by pat_completeness auto
termination
  by (relation "measure (\<lambda>(i, _). unat i)") (auto simp: word_gt_0 measure_unat)

declare memmove_down.simps [simp del]

definition memmove :: "u64 \<Rightarrow> u64 \<Rightarrow> u64 \<Rightarrow> 'a vmm_scheme \<Rightarrow> (u64 \<times> 'a vmm_scheme) option" where
  "memmove dest src n s =
     (if src > dest then
        do { s \<leftarrow> for_u64 0 n (\<lambda>i s. do { v \<leftarrow> load8 (src + i) s; store8 (dest + i) v s }) s;
             Some (dest, s) }
      else if src < dest then do { s \<leftarrow> memmove_down n dest src s; Some (dest, s) }
      else Some (dest, s))"

function memcmp_loop :: "u64 \<Rightarrow> u64 \<Rightarrow> u64 \<Rightarrow> u64 \<Rightarrow> 'a vmm_scheme \<Rightarrow> int option" where
  "memcmp_loop i s1 s2 n s =
     (if i < n
      then do { x \<leftarrow> load8 (s1 + i) s; y \<leftarrow> load8 (s2 + i) s;
                if x \<noteq> y then Some (if x < y then - 1 else 1) else memcmp_loop (i + 1) s1 s2 n s }
      else Some 0)"
  by pat_completeness auto
termination
proof (relation "measure (\<lambda>(i, _, _, n, _). unat n - unat i)")
  fix i s1 s2 n :: u64 and s :: "'a vmm_scheme" and x y :: u8
  assume "i < n"
  then have "unat i < unat (i + 1)" and "unat i < unat n"
    by (simp_all add: unat_succ_less) (simp add: word_less_nat_alt)
  then show "((i + 1, s1, s2, n, s), i, s1, s2, n, s) \<in> measure (\<lambda>(i, _, _, n, _). unat n - unat i)"
    by simp
qed simp

declare memcmp_loop.simps [simp del]

definition memcmp :: "u64 \<Rightarrow> u64 \<Rightarrow> u64 \<Rightarrow> 'a vmm_scheme \<Rightarrow> int option" where
  "memcmp s1 s2 n s = memcmp_loop 0 s1 s2 n s"

partial_function (option) strcmp :: "u64 \<Rightarrow> u64 \<Rightarrow> 'a vmm_scheme \<Rightarrow> int option" where
  "strcmp cs ct s =
     do { c1 \<leftarrow> load8 cs s; c2 \<leftarrow> load8 ct s;
          if c1 \<noteq> c2 then Some (if c1 < c2 then - 1 else 1)
          else if c1 = 0 then Some 0 else strcmp (cs + 1) (ct + 1) s }"

partial_function (option) strcpy_loop :: "u64 \<Rightarrow> u64 \<Rightarrow> 'a vmm_scheme \<Rightarrow> 'a vmm_scheme option" where
  "strcpy_loop dest src s =
     do { c \<leftarrow> load8 src s; s \<leftarrow> store8 dest c s;
          if c \<noteq> 0 then strcpy_loop (dest + 1) (src + 1) s else Some s }"

definition strcpy :: "u64 \<Rightarrow> u64 \<Rightarrow> 'a vmm_scheme \<Rightarrow> (u64 \<times> 'a vmm_scheme) option" where
  "strcpy dest src s = do { s \<leftarrow> strcpy_loop dest src s; Some (dest, s) }"

partial_function (option) strrchr_loop :: "u64 \<Rightarrow> u8 \<Rightarrow> u64 \<Rightarrow> 'a vmm_scheme \<Rightarrow> u64 option" where
  "strrchr_loop p c lst s =
     do { x \<leftarrow> load8 p s;
          if x \<noteq> 0 then strrchr_loop (p + 1) c (if x = c then p else lst) s
          else Some (if x = c then p else lst) }"

definition strrchr :: "u64 \<Rightarrow> u32 \<Rightarrow> 'a vmm_scheme \<Rightarrow> u64 option" where
  "strrchr p c s = strrchr_loop p (ucast c) NULL s"

partial_function (option) strlen_loop :: "u64 \<Rightarrow> 'a vmm_scheme \<Rightarrow> u64 option" where
  "strlen_loop sc s = do { c \<leftarrow> load8 sc s; if c \<noteq> 0 then strlen_loop (sc + 1) s else Some sc }"

definition strlen :: "u64 \<Rightarrow> 'a vmm_scheme \<Rightarrow> u64 option" where
  "strlen p s = do { sc \<leftarrow> strlen_loop p s; Some (sc - p) }"

section \<open>Writing a set of bytes\<close>

text \<open>
  \<open>written s u a J f\<close>: the state \<open>u\<close> is \<open>s\<close> after the bytes of the buffer \<open>a\<close> at the indices \<open>J\<close>
  were set, byte \<open>j\<close> to \<open>f j\<close>, and nothing else.
\<close>

definition written :: "'a vmm_scheme \<Rightarrow> 'a vmm_scheme \<Rightarrow> u64 \<Rightarrow> nat set \<Rightarrow> (nat \<Rightarrow> u8) \<Rightarrow> bool" where
  "written s u a J f \<longleftrightarrow>
     u = s\<lparr>mem := mem u\<rparr> \<and> (\<forall>j \<in> J. byte u (a + of_nat j) = f j) \<and>
     (\<forall>b. (\<forall>j \<in> J. b \<noteq> a + of_nat j) \<longrightarrow> byte u b = byte s b) \<and>
     (\<forall>c. (\<forall>j \<in> J. c \<noteq> cell_of (a + of_nat j)) \<longrightarrow> mem u c = mem s c)"

lemma written_empty: "written s s a {} f"
  by (simp add: written_def)

lemma written_byte: "written s u a J f \<Longrightarrow> j \<in> J \<Longrightarrow> byte u (a + of_nat j) = f j"
  by (simp add: written_def)

lemma written_other: "written s u a J f \<Longrightarrow> (\<And>j. j \<in> J \<Longrightarrow> b \<noteq> a + of_nat j) \<Longrightarrow> byte u b = byte s b"
  by (auto simp: written_def)

lemma written_step:
  assumes w: "written s u a J f" and buf: "buffer a n" and k: "k < n" "k \<notin> J" and J: "J \<subseteq> {..<n}"
  shows "\<exists>u'. store8 (a + of_nat k) (f k) u = Some u' \<and> written s u' a (insert k J) f"
proof -
  from store8_direct [OF unat_buffer(2) [OF buf k(1)], of "f k" u] obtain m where
    m: "store8 (a + of_nat k) (f k) u = Some (u\<lparr>mem := m\<rparr>)"
    "\<And>b. byte (u\<lparr>mem := m\<rparr>) b = (if b = a + of_nat k then f k else byte u b)"
    "\<And>c. c \<noteq> cell_of (a + of_nat k) \<Longrightarrow> m c = mem u c" by blast
  have "a + of_nat j \<noteq> a + of_nat k" if "j \<in> J" for j
    using that k J buffer_eq_iff [OF buf buf, of j k] by auto
  moreover have "u\<lparr>mem := m\<rparr> = s\<lparr>mem := m\<rparr>" using w by (metis vmm.update_convs(1) written_def vmm.surjective)
  ultimately have "written s (u\<lparr>mem := m\<rparr>) a (insert k J) f"
    using w m(2,3) by (simp add: written_def)
  then show ?thesis using m(1) by blast
qed

text \<open>The whole of a buffer of \<open>n\<close> bytes is overwritten.\<close>

definition overwritten :: "'a vmm_scheme \<Rightarrow> 'a vmm_scheme \<Rightarrow> u64 \<Rightarrow> nat \<Rightarrow> u8 list \<Rightarrow> bool" where
  "overwritten s u a n xs \<longleftrightarrow>
     u = s\<lparr>mem := mem u\<rparr> \<and> bytes_at u a n = xs \<and> (\<forall>b. \<not> in_buf a n b \<longrightarrow> byte u b = byte s b) \<and>
     (\<forall>c. (\<forall>b. in_buf a n b \<longrightarrow> c \<noteq> cell_of b) \<longrightarrow> mem u c = mem s c)"

lemma written_overwritten:
  assumes "written s u a {..<n} f" "length xs = n" "\<And>k. k < n \<Longrightarrow> xs ! k = f k"
  shows "overwritten s u a n xs"
proof -
  have "bytes_at u a n = xs"
    using assms by (intro nth_equalityI) (auto simp: written_byte)
  moreover have "mem u c = mem s c" if "\<forall>b. in_buf a n b \<longrightarrow> c \<noteq> cell_of b" for c
  proof -
    have "c \<noteq> cell_of (a + of_nat j)" if "j < n" for j
      using that \<open>\<forall>b. in_buf a n b \<longrightarrow> c \<noteq> cell_of b\<close> by (auto simp: in_buf_def)
    then show ?thesis using assms(1) by (auto simp: written_def)
  qed
  ultimately show ?thesis using assms(1) by (auto simp: overwritten_def written_def in_buf_def)
qed

section \<open>Copying and filling\<close>

lemma written_loop:
  assumes buf: "buffer a (unat n)"
    and body: "\<And>k u. k < unat n \<Longrightarrow> written s u a {..<k} f \<Longrightarrow>
                 body (of_nat k) u = store8 (a + of_nat k) (f k) u"
  shows "\<exists>u. for_u64 0 n body s = Some u \<and> written s u a {..<unat n} f"
proof (rule for_u64_rule)
  show "written s s a {..<unat (0 :: u64)} f" by (simp add: written_empty)
  show "0 \<le> n" by simp
  fix k u
  assume k: "k < n" and w: "written s u a {..<unat k} f"
  then have kn: "unat k < unat n" by (simp add: word_less_nat_alt)
  have "insert (unat k) {..<unat k} = {..<unat (k + 1)}" using unat_succ_less [OF k] by auto
  with written_step [OF w buf kn] body [OF kn w] kn
  show "\<exists>u'. body k u = Some u' \<and> written s u' a {..<unat (k + 1)} f" by auto
qed

lemma copy_up:
  assumes "buffer dest (unat n)" "buffer src (unat n)"
    and "\<And>j k. j < k \<Longrightarrow> k < unat n \<Longrightarrow> unat dest + j \<noteq> unat src + k"
  shows "\<exists>u. for_u64 0 n (\<lambda>i s. do { v \<leftarrow> load8 (src + i) s; store8 (dest + i) v s }) s = Some u \<and>
             overwritten s u dest (unat n) (bytes_at s src (unat n))"
proof -
  let ?f = "\<lambda>k. byte s (src + of_nat k)"
  have "\<exists>u. for_u64 0 n (\<lambda>i s. do { v \<leftarrow> load8 (src + i) s; store8 (dest + i) v s }) s = Some u \<and>
            written s u dest {..<unat n} ?f"
  proof (rule written_loop [OF assms(1)])
    fix k u
    assume k: "k < unat n" and w: "written s u dest {..<k} ?f"
    have "src + of_nat k \<noteq> dest + of_nat j" if "j < k" for j
      using that k assms(3) [OF that k] buffer_eq_iff [OF assms(2,1), of k j] by auto
    then have "byte u (src + of_nat k) = ?f k" by (intro written_other [OF w]) auto
    then show "do { v \<leftarrow> load8 (src + of_nat k) u; store8 (dest + of_nat k) v u } =
               store8 (dest + of_nat k) (?f k) u"
      using unat_buffer(2) [OF assms(2) k] by simp
  qed
  then show ?thesis using written_overwritten [of s _ dest "unat n" ?f] by force
qed

lemma memmove_down_written:
  assumes d: "buffer dest n" and sr: "buffer src n" and sep: "unat src < unat dest"
    and w: "written s u dest {k..<n} (\<lambda>j. byte s (src + of_nat j))" and k: "k \<le> n"
  shows "\<exists>u'. memmove_down (of_nat k) dest src u = Some u' \<and>
              written s u' dest {..<n} (\<lambda>j. byte s (src + of_nat j))"
  using w k
proof (induction k arbitrary: u)
  case 0
  then show ?case by (simp add: memmove_down.simps atLeast0LessThan)
next
  case (Suc k)
  let ?f = "\<lambda>j. byte s (src + of_nat j)"
  have kn: "k < n" using Suc.prems by simp
  have "Suc k < 18446744073709551616"
    using d Suc.prems(2) heap_base_bound by (simp add: buffer_def)
  then have pos: "(of_nat (Suc k) :: u64) > 0" and pred: "of_nat (Suc k) - 1 = (of_nat k :: u64)"
    using unat_of_nat_u64 [of "Suc k"] by (simp_all add: word_less_nat_alt)
  have "src + of_nat k \<noteq> dest + of_nat j" if "j \<in> {Suc k..<n}" for j
    using that sep kn buffer_eq_iff [OF sr d, of k j] by auto
  then have v: "byte u (src + of_nat k) = ?f k" by (intro written_other [OF Suc.prems(1)]) auto
  have "insert k {Suc k..<n} = {k..<n}" "{Suc k..<n} \<subseteq> {..<n}" using kn by auto
  with written_step [OF Suc.prems(1) d kn] obtain u1 where
    u1: "store8 (dest + of_nat k) (?f k) u = Some u1" "written s u1 dest {k..<n} ?f" by auto
  obtain u' where "memmove_down (of_nat k) dest src u1 = Some u'" "written s u' dest {..<n} ?f"
    using Suc.IH [OF u1(2)] kn by auto
  then show ?case
    using pos v u1(1) unat_buffer(2) [OF sr kn]
    by (simp only: memmove_down.simps [of "of_nat (Suc k)"] pred if_True load8_direct bind.bind_lunit)
      simp
qed

lemma memcpy_spec:
  assumes "buffer dest (unat n)" "buffer src (unat n)"
    and "unat dest + unat n \<le> unat src \<or> unat src + unat n \<le> unat dest"
  shows "\<exists>s'. memcpy dest src n s = Some (dest, s') \<and>
              overwritten s s' dest (unat n) (bytes_at s src (unat n))"
proof -
  have "unat dest + j \<noteq> unat src + k" if "j < k" "k < unat n" for j k using that assms(3) by linarith
  from copy_up [OF assms(1,2) this, of s] show ?thesis by (auto simp: memcpy_def)
qed

lemma memset_spec:
  assumes "buffer p (unat n)"
  shows "\<exists>s'. memset p c n s = Some (p, s') \<and> overwritten s s' p (unat n) (replicate (unat n) (ucast c))"
proof -
  have "\<exists>u. for_u64 0 n (\<lambda>i s. store8 (p + i) (ucast c) s) s = Some u \<and>
            written s u p {..<unat n} (\<lambda>_. ucast c)"
    by (rule written_loop [OF assms]) simp
  then show ?thesis
    using written_overwritten [of s _ p "unat n" "\<lambda>_. ucast c" "replicate (unat n) (ucast c)"]
    by (auto simp: memset_def)
qed

lemma memmove_spec:
  assumes "buffer dest (unat n)" "buffer src (unat n)"
  shows "\<exists>s'. memmove dest src n s = Some (dest, s') \<and>
              overwritten s s' dest (unat n) (bytes_at s src (unat n))"
proof -
  consider "src > dest" | "src < dest" | "src = dest" by (meson linorder_cases)
  then show ?thesis
  proof cases
    case 1
    then have "unat dest + j \<noteq> unat src + k" if "j < k" "k < unat n" for j k
      using that by (simp add: word_less_nat_alt)
    from copy_up [OF assms this, of s] 1 show ?thesis by (auto simp: memmove_def)
  next
    case 2
    then have "unat src < unat dest" by (simp add: word_less_nat_alt)
    from memmove_down_written [OF assms this, of s s "unat n"]
    obtain u where "memmove_down n dest src s = Some u"
      "written s u dest {..<unat n} (\<lambda>j. byte s (src + of_nat j))"
      by (auto simp: written_empty)
    moreover have "\<not> src > dest" using 2 by auto
    ultimately show ?thesis
      using 2 written_overwritten [of s u dest "unat n" _ "bytes_at s src (unat n)"]
      by (auto simp: memmove_def)
  next
    case 3
    then show ?thesis by (simp add: memmove_def overwritten_def)
  qed
qed

section \<open>Comparing\<close>

text \<open>The reference: the sign of the lexicographic comparison of two byte lists of equal length.\<close>

fun lex_cmp :: "u8 list \<Rightarrow> u8 list \<Rightarrow> int" where
  "lex_cmp (x # xs) (y # ys) = (if x < y then - 1 else if y < x then 1 else lex_cmp xs ys)"
| "lex_cmp xs ys = 0"

lemma lex_cmp_eq_0: "length xs = length ys \<Longrightarrow> lex_cmp xs ys = 0 \<longleftrightarrow> xs = ys"
  by (induction xs ys rule: lex_cmp.induct) auto

lemma lex_cmp_swap: "lex_cmp ys xs = - lex_cmp xs ys"
  by (induction xs ys rule: lex_cmp.induct) auto

lemma lex_cmp_less:
  "length xs = length ys \<Longrightarrow> lex_cmp xs ys = - 1 \<longleftrightarrow> (xs, ys) \<in> lex {(x, y). x < y}"
  by (induction xs ys rule: lex_cmp.induct) auto

lemma memcmp_loop_spec:
  assumes "buffer a (unat n)" "buffer b (unat n)" "k \<le> unat n"
  shows "memcmp_loop (of_nat k) a b n s =
         Some (lex_cmp (drop k (bytes_at s a (unat n))) (drop k (bytes_at s b (unat n))))"
  using assms(3)
proof (induction "unat n - k" arbitrary: k)
  case 0
  then have "k = unat n" by simp
  then show ?case by (simp add: memcmp_loop.simps)
next
  case (Suc d)
  let ?x = "byte s (a + of_nat k)" and ?y = "byte s (b + of_nat k)"
  have k: "k < unat n" using Suc.hyps(2) by simp
  then have "unat (of_nat k :: u64) = k" using unat_u64_less [of n] by (intro unat_of_nat_u64) simp
  then have lt: "of_nat k < n" using k by (simp add: word_less_nat_alt)
  have IH: "memcmp_loop (of_nat k + 1) a b n s =
      Some (lex_cmp (drop (Suc k) (bytes_at s a (unat n))) (drop (Suc k) (bytes_at s b (unat n))))"
    using Suc.hyps(1) [of "Suc k"] Suc.hyps(2) k by (simp add: add.commute)
  have D: "drop k (bytes_at s a (unat n)) = ?x # drop (Suc k) (bytes_at s a (unat n))"
    "drop k (bytes_at s b (unat n)) = ?y # drop (Suc k) (bytes_at s b (unat n))"
    using k by (simp_all add: Cons_nth_drop_Suc [symmetric])
  show ?case
    using lt IH unat_buffer(2) [OF assms(1) k] unat_buffer(2) [OF assms(2) k]
    by (simp add: memcmp_loop.simps [of "of_nat k"] D)
qed

lemma memcmp_spec:
  assumes "buffer a (unat n)" "buffer b (unat n)"
  shows "memcmp a b n s = Some (lex_cmp (bytes_at s a (unat n)) (bytes_at s b (unat n)))"
  using memcmp_loop_spec [OF assms, of 0 s] by (simp add: memcmp_def)

section \<open>Null-terminated strings\<close>

definition cstr :: "'a vmm_scheme \<Rightarrow> u64 \<Rightarrow> u8 list \<Rightarrow> bool" where
  "cstr s a cs \<longleftrightarrow>
     buffer a (Suc (length cs)) \<and> bytes_at s a (Suc (length cs)) = cs @ [0] \<and> 0 \<notin> set cs"

lemma buffer_Suc: "buffer a (Suc n) \<longleftrightarrow> direct a \<and> buffer (a + 1) n"
proof -
  have "unat (a + 1) = Suc (unat a)" if "direct a"
    using that unat_succ_less [of a KERNEL_HEAP_BASE] by (simp add: direct_def)
  then show ?thesis by (auto simp: buffer_def direct_def word_less_nat_alt)
qed

lemma cstr_Nil [simp]: "cstr s a [] \<longleftrightarrow> direct a \<and> byte s a = 0"
proof -
  have "buffer (a + 1) 0" if "direct a"
    using that unat_succ_less [of a KERNEL_HEAP_BASE]
    by (simp add: buffer_def direct_def word_less_nat_alt)
  then show ?thesis by (auto simp: cstr_def buffer_Suc bytes_at_def)
qed

lemma cstr_Cons [simp]:
  "cstr s a (c # cs) \<longleftrightarrow> direct a \<and> c \<noteq> 0 \<and> byte s a = c \<and> cstr s (a + 1) cs"
  by (auto simp: cstr_def buffer_Suc [of a] bytes_at_Suc [of s a])

lemma strlen_loop_spec: "cstr s a cs \<Longrightarrow> strlen_loop a s = Some (a + of_nat (length cs))"
proof (induction cs arbitrary: a)
  case (Cons c cs)
  then have "strlen_loop (a + 1) s = Some (a + 1 + of_nat (length cs))" by simp
  with Cons.prems show ?case by (simp add: strlen_loop.simps [of a] algebra_simps)
qed (simp add: strlen_loop.simps)

lemma strlen_spec: "cstr s a cs \<Longrightarrow> strlen a s = Some (of_nat (length cs))"
  by (simp add: strlen_def strlen_loop_spec)

lemma strcmp_spec:
  "cstr s a xs \<Longrightarrow> cstr s b ys \<Longrightarrow> strcmp a b s = Some (lex_cmp (xs @ [0]) (ys @ [0]))"
proof (induction xs arbitrary: a b ys)
  case Nil
  then show ?case
    by (cases ys) (auto simp: strcmp.simps [of a] word_gt_0)
next
  case (Cons x xs)
  show ?case
  proof (cases ys)
    case Nil
    then show ?thesis using Cons.prems by (auto simp: strcmp.simps [of a] word_gt_0)
  next
    case (Cons y ys')
    with Cons.prems Cons.IH [of "a + 1" "b + 1" ys'] show ?thesis
      by (auto simp: strcmp.simps [of a])
  qed
qed

lemma lex_cmp_cstr_eq_0: "0 \<notin> set xs \<Longrightarrow> 0 \<notin> set ys \<Longrightarrow> lex_cmp (xs @ [0]) (ys @ [0]) = 0 \<longleftrightarrow> xs = ys"
proof (induction xs arbitrary: ys)
  case Nil
  then show ?case by (cases ys) (auto simp: word_gt_0)
next
  case (Cons x xs)
  then show ?case by (cases ys) (auto simp: word_gt_0)
qed

lemma strrchr_loop_spec:
  "cstr s a cs \<Longrightarrow> strrchr_loop a c l s =
     Some (if c \<in> set (cs @ [0]) then a + of_nat (Max {i. i \<le> length cs \<and> (cs @ [0]) ! i = c}) else l)"
proof (induction cs arbitrary: a l)
  case Nil
  have "{i. i \<le> 0 \<and> ([0] :: u8 list) ! i = 0} = {0}" by auto
  with Nil show ?case by (auto simp: strrchr_loop.simps)
next
  case (Cons x cs)
  let ?A = "{i. i \<le> length cs \<and> (cs @ [0]) ! i = c}"
  let ?B = "{i. i \<le> length (x # cs) \<and> ((x # cs) @ [0]) ! i = c}"
  have B: "?B = Suc ` ?A \<union> (if x = c then {0} else {})"
  proof -
    have "i \<in> ?B \<longleftrightarrow> i \<in> Suc ` ?A \<union> (if x = c then {0} else {})" for i
      by (cases i) auto
    then show ?thesis by blast
  qed
  have fin: "finite ?A" by simp
  have ne: "?A \<noteq> {} \<longleftrightarrow> c \<in> set (cs @ [0])"
    unfolding in_set_conv_nth by (auto simp only: length_append_singleton less_Suc_eq_le)
  have M: "Max ?B = Suc (Max ?A)" if "?A \<noteq> {}"
  proof -
    have "Max (Suc ` ?A) = Suc (Max ?A)" using mono_Max_commute [of Suc ?A] fin that by (simp add: mono_def)
    then show ?thesis using fin that unfolding B by (simp add: Max_Un)
  qed
  have M0: "Max ?B = 0" if "?A = {}" "x = c" unfolding B that(1) using that(2) by simp
  have "strrchr_loop (a + 1) c (if x = c then a else l) s =
      Some (if c \<in> set (cs @ [0]) then a + 1 + of_nat (Max ?A) else if x = c then a else l)"
    using Cons.IH [of "a + 1" "if x = c then a else l"] Cons.prems by simp
  then have "strrchr_loop a c l s =
      Some (if c \<in> set (cs @ [0]) then a + 1 + of_nat (Max ?A) else if x = c then a else l)"
    using Cons.prems by (simp add: strrchr_loop.simps [of a])
  also have "\<dots> = Some (if c \<in> set ((x # cs) @ [0]) then a + of_nat (Max ?B) else l)"
    using M M0 ne by (auto simp: algebra_simps)
  finally show ?case .
qed

lemma strcpy_loop_spec:
  assumes c: "cstr s src cs" and d: "buffer dest (Suc (length cs))"
    and sep: "unat dest + length cs < unat src \<or> unat src + length cs < unat dest"
    and w: "written s u dest {..<k} (\<lambda>j. (cs @ [0]) ! j)" and k: "k \<le> length cs"
  shows "\<exists>u'. strcpy_loop (dest + of_nat k) (src + of_nat k) u = Some u' \<and>
              written s u' dest {..<Suc (length cs)} (\<lambda>j. (cs @ [0]) ! j)"
proof -
  let ?n = "Suc (length cs)" and ?f = "\<lambda>j. (cs @ [0]) ! j"
  have sb: "buffer src ?n" and sv: "byte s (src + of_nat j) = ?f j" if "j < ?n" for j
    using c that nth_bytes_at [of j ?n s src] by (auto simp: cstr_def)
  have step: "load8 (src + of_nat k) u = Some (?f k) \<and>
      (\<exists>u1. store8 (dest + of_nat k) (?f k) u = Some u1 \<and> written s u1 dest {..<Suc k} ?f)"
    if w: "written s u dest {..<k} ?f" and k: "k < ?n" for k u
  proof -
    have "src + of_nat k \<noteq> dest + of_nat j" if "j < k" for j
      using that k sep buffer_eq_iff [OF sb d, of k k j] by auto
    then have "byte u (src + of_nat k) = ?f k" using written_other [OF w] sv [OF k] by auto
    moreover have "insert k {..<k} = {..<Suc k}" by auto
    ultimately show ?thesis
      using written_step [OF w d k] k unat_buffer(2) [OF sb k, of k] by auto
  qed
  from w k show ?thesis
  proof (induction "length cs - k" arbitrary: k u)
    case (0 k u)
    then have k: "k = length cs" by simp
    then have f0: "?f k = 0" by simp
    from step [OF "0.prems"(1)] k obtain u1 where
      u1: "load8 (src + of_nat k) u = Some (?f k)" "store8 (dest + of_nat k) (?f k) u = Some u1"
      "written s u1 dest {..<Suc k} ?f" by auto
    then have "strcpy_loop (dest + of_nat k) (src + of_nat k) u = Some u1"
      unfolding strcpy_loop.simps [of "dest + of_nat k"] f0 by simp
    then show ?case using u1(3) k by auto
  next
    case (Suc x k u)
    then have k: "k < length cs" by simp
    then have "?f k \<in> set cs" by (simp add: nth_append)
    then have f: "?f k \<noteq> 0" using c by (metis cstr_def)
    from step [OF Suc.prems(1)] k obtain u1 where
      u1: "load8 (src + of_nat k) u = Some (?f k)" "store8 (dest + of_nat k) (?f k) u = Some u1"
      "written s u1 dest {..<Suc k} ?f" by auto
    have "x = length cs - Suc k" using Suc.hyps(2) by simp
    from Suc.hyps(1) [OF this u1(3)] k obtain u' where
      u': "strcpy_loop (dest + of_nat (Suc k)) (src + of_nat (Suc k)) u1 = Some u'"
      "written s u' dest {..<Suc (length cs)} ?f" by auto
    have "dest + of_nat (Suc k) = dest + of_nat k + 1" "src + of_nat (Suc k) = src + of_nat k + 1"
      by (simp_all add: algebra_simps)
    then have "strcpy_loop (dest + of_nat k) (src + of_nat k) u = Some u'"
      using u1(1,2) u'(1) f unfolding strcpy_loop.simps [of "dest + of_nat k"]
      by (simp add: add.assoc add.commute [of 1])
    then show ?case using u'(2) by blast
  qed
qed

lemma strcpy_spec:
  assumes "cstr s src cs" "buffer dest (Suc (length cs))"
    and "unat dest + length cs < unat src \<or> unat src + length cs < unat dest"
  shows "\<exists>s'. strcpy dest src s = Some (dest, s') \<and> overwritten s s' dest (Suc (length cs)) (cs @ [0])"
proof -
  from strcpy_loop_spec [OF assms written_empty [folded lessThan_0]] obtain u where
    "strcpy_loop dest src s = Some u" "written s u dest {..<Suc (length cs)} (\<lambda>j. (cs @ [0]) ! j)"
    by auto
  then show ?thesis
    using written_overwritten [of s u dest "Suc (length cs)" _ "cs @ [0]"] by (simp add: strcpy_def)
qed

section \<open>Properties\<close>

text \<open>
  C17. \<^verbatim>\<open>memmove\<close> on any two directly mapped buffers, overlapping or not: it returns the destination,
  which then holds what the source held before the call; no byte outside the destination changes.
\<close>

theorem memmove_overlap:
  assumes "buffer dest (unat n)" and "buffer src (unat n)"
  shows "\<exists>s'. memmove dest src n s = Some (dest, s') \<and> s' = s\<lparr>mem := mem s'\<rparr> \<and>
              bytes_at s' dest (unat n) = bytes_at s src (unat n) \<and>
              (\<forall>b. \<not> in_buf dest (unat n) b \<longrightarrow> byte s' b = byte s b)"
  using memmove_spec [OF assms, of s] by (auto simp: overwritten_def)

text \<open>The witnesses use a memory whose cell at \<open>0x1000\<close> holds the bytes \<open>abc\<close>, zero-terminated.\<close>

definition sample_text :: vmm where
  "sample_text = sample_vmm\<lparr>mem := (\<lambda>_. 0)(0x1000 := 0x636261)\<rparr>"

lemma sample_text_bytes:
  "byte sample_text 0x1000 = 0x61" "byte sample_text 0x1001 = 0x62" "byte sample_text 0x1002 = 0x63"
  "byte sample_text 0x1003 = 0" "byte sample_text 0x2000 = 0"
  by (simp_all add: byte_def cell_of_def byte_pos_def get_byte_def sample_text_def)

lemma sample_text_buffer: "buffer 0x1000 n" "buffer 0x1001 n" "buffer 0x2000 n" if "n \<le> 4096"
  using that by (simp_all add: buffer_def KERNEL_HEAP_BASE_def)

lemma sample_text_cstr: "cstr sample_text 0x1000 [0x61, 0x62, 0x63]"
  by (simp add: sample_text_bytes direct_def KERNEL_HEAP_BASE_def)

lemma bytes_at_3: "bytes_at s a 3 = [byte s a, byte s (a + 1), byte s (a + 2)]"
  by (simp add: bytes_at_def numeral_eq_Suc)

theorem memmove_overlap_witness:
  "\<exists>s'. memmove 0x1001 0x1000 3 sample_text = Some (0x1001, s') \<and>
        bytes_at s' 0x1001 3 = [0x61, 0x62, 0x63]"
proof -
  have "unat (3 :: u64) = 3" by simp
  then show ?thesis
    using memmove_overlap [of "0x1001" 3 "0x1000" sample_text] sample_text_buffer [of 3]
    by (auto simp: bytes_at_3 sample_text_bytes)
qed

text \<open>
  C27. \<^verbatim>\<open>memcmp\<close> of two buffers is 0 exactly if they hold the same bytes, and otherwise the sign of
  their lexicographic order by unsigned bytes; swapping the buffers negates it.
\<close>

theorem memcmp_lexicographic:
  assumes "buffer a (unat n)" and "buffer b (unat n)"
  shows "\<exists>r. memcmp a b n s = Some r \<and> memcmp b a n s = Some (- r) \<and> r \<in> {- 1, 0, 1} \<and>
             (r = 0 \<longleftrightarrow> bytes_at s a (unat n) = bytes_at s b (unat n)) \<and>
             (r = - 1 \<longleftrightarrow> (bytes_at s a (unat n), bytes_at s b (unat n)) \<in> lex {(x, y). x < y})"
proof -
  have "lex_cmp xs ys \<in> {- 1, 0, 1}" for xs ys by (induction xs ys rule: lex_cmp.induct) auto
  then have "lex_cmp (bytes_at s a (unat n)) (bytes_at s b (unat n)) \<in> {- 1, 0, 1}" .
  then show ?thesis
    using memcmp_spec [OF assms, of s] memcmp_spec [OF assms(2,1), of s]
      lex_cmp_eq_0 [of "bytes_at s a (unat n)" "bytes_at s b (unat n)"]
      lex_cmp_less [of "bytes_at s a (unat n)" "bytes_at s b (unat n)"]
      lex_cmp_swap [of "bytes_at s b (unat n)" "bytes_at s a (unat n)"] by auto
qed

theorem memcmp_lexicographic_witness:
  "\<exists>r. memcmp 0x1000 0x1001 3 sample_text = Some r \<and> r \<noteq> 0"
proof -
  have "unat (3 :: u64) = 3" by simp
  then show ?thesis
    using memcmp_lexicographic [of "0x1000" 3 "0x1001" sample_text] sample_text_buffer [of 3]
    by (auto simp: bytes_at_3 sample_text_bytes)
qed

text \<open>
  C28. The string routines terminate on null-terminated strings: \<^verbatim>\<open>strlen\<close> is the length, \<^verbatim>\<open>strcmp\<close> is 0
  exactly on equal strings, \<^verbatim>\<open>strrchr\<close> points at the last occurrence (the terminator included) or is
  \<^verbatim>\<open>NULL\<close>, and \<^verbatim>\<open>strcpy\<close> into a buffer that has room and does not overlap copies the string with its
  terminator and nothing else.
\<close>

theorem string_routines:
  assumes "cstr s a xs" and "cstr s b ys"
    and "buffer d (Suc (length xs))"
    and "unat d + length xs < unat a \<or> unat a + length xs < unat d"
  shows "strlen a s = Some (of_nat (length xs)) \<and>
         (\<exists>r. strcmp a b s = Some r \<and> (r = 0 \<longleftrightarrow> xs = ys)) \<and>
         strrchr a c s = Some (if ucast c \<in> set (xs @ [0])
            then a + of_nat (Max {i. i \<le> length xs \<and> (xs @ [0]) ! i = ucast c}) else NULL) \<and>
         (\<exists>s'. strcpy d a s = Some (d, s') \<and> overwritten s s' d (Suc (length xs)) (xs @ [0]))"
proof -
  have "0 \<notin> set xs" "0 \<notin> set ys" using assms(1,2) by (auto simp: cstr_def)
  then have "\<exists>r. strcmp a b s = Some r \<and> (r = 0 \<longleftrightarrow> xs = ys)"
    using strcmp_spec [OF assms(1,2)] lex_cmp_cstr_eq_0 by blast
  then show ?thesis
    using strlen_spec [OF assms(1)] strrchr_loop_spec [OF assms(1)] strcpy_spec [OF assms(1,3,4)]
    unfolding strrchr_def by blast
qed

theorem string_routines_witness:
  "strlen 0x1000 sample_text = Some 3 \<and>
   (\<exists>r. strcmp 0x1000 0x1000 sample_text = Some r \<and> r = 0) \<and>
   (\<exists>s'. strcpy 0x2000 0x1000 sample_text = Some (0x2000, s'))"
proof -
  let ?cs = "[0x61, 0x62, 0x63] :: u8 list"
  have "length ?cs = 3" by simp
  moreover have "buffer 0x2000 (Suc (length ?cs))" by (rule sample_text_buffer) simp
  moreover have "unat (0x1000 :: u64) + length ?cs < unat (0x2000 :: u64)" by simp
  ultimately show ?thesis
    using string_routines [OF sample_text_cstr sample_text_cstr, of "0x2000" 0] by (simp only:) auto
qed

end
