(* ===== verification/Heap.thy ===== *)
theory Heap
  imports CString
begin

text \<open>
  \<^verbatim>\<open>mm/heap.c\<close>: the kernel heap. Requests of up to 1024 bytes are served from six caches of
  one-page slabs in the HHDM, larger ones from whole pages mapped at \<^verbatim>\<open>kernel_heap_vaddr\<close>. Every block
  carries a 24-byte header with a magic number that tells \<^verbatim>\<open>kfree\<close> where it came from.
\<close>

section \<open>State\<close>

text \<open>
  \<^verbatim>\<open>struct slab_header\<close> has \<^verbatim>\<open>obj_size\<close> at offset 0, \<^verbatim>\<open>free_list\<close> at 8 and \<^verbatim>\<open>next_slab\<close> at 16;
  \<^verbatim>\<open>struct alloc_header\<close> has the 32-bit \<^verbatim>\<open>magic\<close> at 0, \<^verbatim>\<open>pages\<close> at 8 and \<^verbatim>\<open>size\<close> at 16;
  \<^verbatim>\<open>struct slab_object\<close> has \<^verbatim>\<open>next\<close> at 0. All three live in kernel memory.
\<close>

record slab_cache =
  obj_size :: u64
  first_slab :: u64

record heap = vmm +
  caches :: "slab_cache list"
  kernel_heap_vaddr :: u64

definition MAGIC_SLAB :: u32 where "MAGIC_SLAB = 0x800051AB"
definition MAGIC_PAGE :: u32 where "MAGIC_PAGE = 0x80007A63"

abbreviation sizeof_alloc_header :: u64 where "sizeof_alloc_header \<equiv> 24"
abbreviation sizeof_slab_header :: u64 where "sizeof_slab_header \<equiv> 24"

definition SLAB_1024 :: u64 where "SLAB_1024 = 1024"

definition slab_sizes :: "u64 list" where
  "slab_sizes = [32, 64, 128, 256, 512, 1024]"

section \<open>Operations\<close>

definition create_slab :: "u64 \<Rightarrow> 'a vmm_scheme \<Rightarrow> (u64 \<times> 'a vmm_scheme) option" where
  "create_slab objsz s =
     do {
       (phys, s) \<leftarrow> pmm_alloc s;
       if phys = 0 then Some (NULL, s)
       else do {
         let slab = phys + hhdm_offset s;
         s \<leftarrow> store64 slab objsz s;
         s \<leftarrow> store64 (slab + 16) NULL s;
         let available_space = 4096 - sizeof_slab_header;
         if objsz = 0 then None
         else do {
           let num_objs = available_space div objsz;
           let first_obj_addr = slab + sizeof_slab_header;
           s \<leftarrow> store64 (slab + 8) first_obj_addr s;
           (current, s) \<leftarrow>
             for_u64 0 (num_objs - 1)
               (\<lambda>i (current, s). do {
                  s \<leftarrow> store64 current (current + objsz) s;
                  current \<leftarrow> load64 current s;
                  Some (current, s) })
               (first_obj_addr, s);
           s \<leftarrow> store64 current NULL s;
           Some (slab, s)
         }
       }
     }"

fun heap_init_loop :: "nat \<Rightarrow> u64 list \<Rightarrow> 'a heap_scheme \<Rightarrow> 'a heap_scheme option" where
  "heap_init_loop i [] s = Some s"
| "heap_init_loop i (sz # szs) s =
     do {
       (slab, s) \<leftarrow> create_slab sz s;
       let s = s\<lparr>caches := (caches s)[i := \<lparr>obj_size = sz, first_slab = slab\<rparr>]\<rparr>;
       let s = (if slab = NULL then log_error ''HEAP'' s else s);
       heap_init_loop (Suc i) szs s
     }"

definition heap_init :: "'a heap_scheme \<Rightarrow> 'a heap_scheme option" where
  "heap_init s = do { s \<leftarrow> heap_init_loop 0 slab_sizes s; Some (log_info ''HEAP'' s) }"

text \<open>The page loop of \<^verbatim>\<open>kmalloc\<close>; \<open>False\<close> is its early \<^verbatim>\<open>return NULL\<close>.\<close>

function kmalloc_pages ::
  "u64 \<Rightarrow> u64 \<Rightarrow> u64 \<Rightarrow> u64 \<Rightarrow> 'a vmm_scheme \<Rightarrow> (bool \<times> 'a vmm_scheme) option" where
  "kmalloc_pages i pages_count pml4 virt_start s =
     (if i < pages_count
      then do {
        (phys, s) \<leftarrow> pmm_alloc s;
        if phys = 0 then Some (False, s)
        else do {
          s \<leftarrow> vmm_map pml4 (virt_start + i * 4096) phys (VMM_PRESENT OR VMM_WRITE) s;
          kmalloc_pages (i + 1) pages_count pml4 virt_start s
        }
      }
      else Some (True, s))"
  by pat_completeness auto
termination
proof (relation "measure (\<lambda>(i, n, _). unat n - unat i)")
  fix i n p v :: u64 and s s' :: "'a vmm_scheme"
  assume "i < n"
  then have "unat i < unat (i + 1)" and "unat i < unat n"
    by (simp_all add: unat_succ_less) (simp add: word_less_nat_alt)
  then show "((i + 1, n, p, v, s'), i, n, p, v, s) \<in> measure (\<lambda>(i, n, _). unat n - unat i)"
    by simp
qed simp

declare kmalloc_pages.simps [simp del]

definition kmalloc_large :: "u64 \<Rightarrow> u64 \<Rightarrow> 'a heap_scheme \<Rightarrow> (u64 \<times> 'a heap_scheme) option" where
  "kmalloc_large sz total_needed s =
     do {
       let pages_count = (total_needed + 4095) div 4096;
       let virt_start = kernel_heap_vaddr s;
       let s = s\<lparr>kernel_heap_vaddr := kernel_heap_vaddr s + pages_count * 4096\<rparr>;
       let pml4 = vmm_get_current s;
       (ok, s) \<leftarrow> kmalloc_pages 0 pages_count pml4 virt_start s;
       if \<not> ok then Some (NULL, s)
       else do {
         s \<leftarrow> store32 virt_start MAGIC_PAGE s;
         s \<leftarrow> store64 (virt_start + 8) pages_count s;
         s \<leftarrow> store64 (virt_start + 16) sz s;
         Some (virt_start + sizeof_alloc_header, s)
       }
     }"

text \<open>The search through the slabs of a cache, which appends a slab when all are full.\<close>

partial_function (option) kmalloc_search ::
  "u64 \<Rightarrow> u64 \<Rightarrow> 'a vmm_scheme \<Rightarrow> (u64 \<times> 'a vmm_scheme) option" where
  "kmalloc_search objsz slab s =
     (if slab = NULL then Some (NULL, s)
      else do {
        free_list \<leftarrow> load64 (slab + 8) s;
        if free_list \<noteq> NULL
        then do {
          nxt \<leftarrow> load64 free_list s;
          s \<leftarrow> store64 (slab + 8) nxt s;
          Some (free_list, s)
        }
        else do {
          next_slab \<leftarrow> load64 (slab + 16) s;
          s \<leftarrow> (if next_slab = NULL
               then do { (new, s) \<leftarrow> create_slab objsz s; store64 (slab + 16) new s }
               else Some s);
          slab \<leftarrow> load64 (slab + 16) s;
          kmalloc_search objsz slab s
        }
      })"

definition kmalloc_small :: "u64 \<Rightarrow> u64 \<Rightarrow> 'a heap_scheme \<Rightarrow> (u64 \<times> 'a heap_scheme) option" where
  "kmalloc_small sz total_needed s =
     (case find (\<lambda>c. total_needed \<le> obj_size c) (caches s) of
        None \<Rightarrow> Some (NULL, s)
      | Some cache \<Rightarrow> do {
          (header, s) \<leftarrow> kmalloc_search (obj_size cache) (first_slab cache) s;
          if header \<noteq> NULL
          then do {
            s \<leftarrow> store32 header MAGIC_SLAB s;
            s \<leftarrow> store64 (header + 16) sz s;
            Some (header + sizeof_alloc_header, s)
          }
          else Some (NULL, s)
        })"

definition kmalloc :: "u64 \<Rightarrow> 'a heap_scheme \<Rightarrow> (u64 \<times> 'a heap_scheme) option" where
  "kmalloc sz s =
     (if sz = 0 then Some (NULL, s)
      else let total_needed = sz + sizeof_alloc_header in
        if sz > SLAB_1024 then kmalloc_large sz total_needed s
        else kmalloc_small sz total_needed s)"

definition kfree_page :: "u64 \<Rightarrow> u64 \<Rightarrow> u64 \<Rightarrow> 'a vmm_scheme \<Rightarrow> 'a vmm_scheme option" where
  "kfree_page pml4 virt_base i s =
     (let v_addr = virt_base + i * 4096;
          phys = vmm_get_phys pml4 v_addr s;
          s = vmm_unmap pml4 v_addr s
      in if phys \<noteq> 0 then pmm_free phys s else Some s)"

definition kfree :: "u64 \<Rightarrow> 'a heap_scheme \<Rightarrow> 'a heap_scheme option" where
  "kfree p s =
     (if p = NULL then Some s
      else do {
        let header = p - sizeof_alloc_header;
        magic \<leftarrow> load32 header s;
        if magic = MAGIC_SLAB
        then do {
          let slab = page_base header;
          free_list \<leftarrow> load64 (slab + 8) s;
          s \<leftarrow> store64 header free_list s;
          store64 (slab + 8) header s
        }
        else if magic = MAGIC_PAGE
        then do {
          pages_to_free \<leftarrow> load64 (header + 8) s;
          let pml4 = vmm_get_current s;
          for_u64 0 pages_to_free (kfree_page pml4 header) s
        }
        else Some (log_error ''KFREE'' s)
      })"

definition kcalloc :: "u64 \<Rightarrow> u64 \<Rightarrow> 'a heap_scheme \<Rightarrow> (u64 \<times> 'a heap_scheme) option" where
  "kcalloc count sz s =
     do {
       (p, s) \<leftarrow> kmalloc (count * sz) s;
       if p \<noteq> NULL
       then do { (_, s) \<leftarrow> memset p 0 (count * sz) s; Some (p, s) }
       else Some (p, s)
     }"

section \<open>Slots of a slab\<close>

text \<open>Byte \<open>k\<close> of a page.\<close>

abbreviation at :: "u64 \<Rightarrow> nat \<Rightarrow> u64" where
  "at b k \<equiv> b + of_nat k"

lemma unat_small: "k < 4096 \<Longrightarrow> unat (of_nat k :: u64) = k"
  by (rule unat_of_nat_u64) simp

lemma of_nat_less_page: "k < 4096 \<Longrightarrow> (of_nat k :: u64) < 4096"
  by (simp add: word_less_nat_alt unat_small del: unat_of_nat)

lemma page_base_at [simp]: "page_aligned b \<Longrightarrow> k < 4096 \<Longrightarrow> page_base (at b k) = b"
  by (intro page_base_offset of_nat_less_page)

lemma at_inject:
  assumes "page_aligned b" "page_aligned c" "j < 4096" "k < 4096"
  shows "at b j = at c k \<longleftrightarrow> b = c \<and> j = k"
  using page_offset_inject [OF assms(1,2) of_nat_less_page [OF assms(3)] of_nat_less_page [OF assms(4)]]
    unat_small [OF assms(3)] unat_small [OF assms(4)] by metis

lemma slab_fields:
  assumes "page_aligned b"
  shows "page_base b = b" "page_base (b + 8) = b" "page_base (b + 16) = b"
  using assms page_base_at [of b 8] page_base_at [of b 16] by simp_all

definition slot :: "u64 \<Rightarrow> u64 \<Rightarrow> nat \<Rightarrow> u64" where
  "slot n b k = at b (24 + k * unat n)"

definition nslots :: "u64 \<Rightarrow> nat" where
  "nslots n = 4072 div unat n"

definition slots :: "u64 \<Rightarrow> u64 \<Rightarrow> u64 list" where
  "slots n b = map (slot n b) [0..<nslots n]"

definition slab_size :: "u64 \<Rightarrow> bool" where
  "slab_size n \<longleftrightarrow> n \<in> set slab_sizes"

lemma slab_size_cases:
  assumes "slab_size n"
  shows "unat n \<in> {32, 64, 128, 256, 512, 1024}" "n \<noteq> 0" "3 \<le> nslots n"
  using assms by (auto simp: slab_size_def slab_sizes_def nslots_def)

lemma slot_bound:
  assumes "slab_size n" "k < nslots n" "x < unat n"
  shows "24 + k * unat n + x < 4096"
proof -
  have "Suc k * unat n \<le> nslots n * unat n" using assms(2) by (intro mult_le_mono1) simp
  also have "\<dots> \<le> 4072" by (simp add: nslots_def)
  finally show ?thesis using assms(3) by simp
qed

lemma slot_bound0: "slab_size n \<Longrightarrow> k < nslots n \<Longrightarrow> 24 + k * unat n < 4096"
  using slot_bound [of n k 0] slab_size_cases(1) [of n] by auto

lemma slot_offset_inject:
  assumes "x < n" "y < n" "(k :: nat) * n + x = j * n + y"
  shows "k = j \<and> x = y"
proof -
  have "(k * n + x) div n = k" "(j * n + y) div n = j" using assms(1,2) by simp_all
  then have "k = j" using assms(3) by simp
  then show ?thesis using assms(3) by simp
qed

lemma slot_inject:
  assumes "slab_size n" "page_aligned b" "page_aligned c" "k < nslots n" "j < nslots n"
    "x < unat n" "y < unat n"
  shows "slot n b k + of_nat x = slot n c j + of_nat y \<longleftrightarrow> b = c \<and> k = j \<and> x = y"
proof -
  have e: "slot n b k + of_nat x = at b (24 + k * unat n + x)"
    "slot n c j + of_nat y = at c (24 + j * unat n + y)"
    by (simp_all add: slot_def)
  show ?thesis
    unfolding e at_inject [OF assms(2,3) slot_bound [OF assms(1,4,6)] slot_bound [OF assms(1,5,7)]]
    using slot_offset_inject [OF assms(6,7), of k j] by auto
qed

lemma slots_in_page:
  assumes "slab_size n" "page_aligned b" "p \<in> set (slots n b)" "x < unat n"
  shows "page_base (p + of_nat x) = b" "p + of_nat x \<notin> {b, b + 8, b + 16}"
proof -
  obtain k where k: "p = slot n b k" "k < nslots n" using assms(3) by (auto simp: slots_def)
  let ?o = "24 + k * unat n + x"
  have e: "p + of_nat x = at b ?o" using k by (simp add: slot_def)
  have o: "?o < 4096" using slot_bound [OF assms(1) k(2) assms(4)] .
  show "page_base (p + of_nat x) = b" unfolding e by (rule page_base_at [OF assms(2) o])
  have "at b ?o \<noteq> at b m" if "m < 24" for m
    using that o at_inject [OF assms(2,2) o, of m] by simp
  from this [of 0] this [of 8] this [of 16] show "p + of_nat x \<notin> {b, b + 8, b + 16}"
    unfolding e by simp
qed

lemma slots_page_base:
  assumes "slab_size n" "page_aligned b" "p \<in> set (slots n b)"
  shows "page_base p = b" "p \<noteq> b" "p \<noteq> b + 8" "p \<noteq> b + 16"
  using slots_in_page [OF assms, of 0] slab_size_cases(1) [OF assms(1)] by auto

lemma slab_fields_distinct:
  assumes "page_aligned b"
  shows "b + 8 \<noteq> b" "b + 16 \<noteq> b" "b + 8 \<noteq> b + 16"
  using at_inject [OF assms assms, of 8 0] at_inject [OF assms assms, of 16 0]
    at_inject [OF assms assms, of 8 16] by simp_all

lemma distinct_slots:
  assumes "slab_size n" "page_aligned b"
  shows "distinct (slots n b)"
  using slot_inject [OF assms(1,2,2), of _ _ 0 0] slab_size_cases(1) [OF assms(1)]
  by (auto simp: slots_def distinct_map inj_on_def)

lemma slot_next: "slot n b k + n = slot n b (Suc k)"
  by (simp add: slot_def algebra_simps)

section \<open>Memory outside the page tables\<close>

abbreviation root :: "'a vmm_scheme \<Rightarrow> u64" where
  "root s \<equiv> vmm_get_current s"

lemma vmm_frame_root: "vmm_frame s s' \<Longrightarrow> root s' = root s"
  by (simp add: vmm_get_current_def phys_to_virt_def vmm_frame_fields)

text \<open>Memory may change outside the tables, and frames may be taken, without effect on the address space.\<close>

lemma vmm_outside:
  assumes inv: "vmm_inv s r" and fr: "vmm_frame s s'" and ok: "pmm_ok s'"
    and ff: "free_frames s' \<subseteq> free_frames s"
    and m: "\<And>a. page_base a \<in> tables s r \<Longrightarrow> mem s' a = mem s a"
  shows "vmm_inv s' r" "tables s' r = tables s r" "aspace s' r = aspace s r"
proof -
  let ?h = "hhdm_offset s"
  note h = vmm_frame_fields(1,4) [OF fr]
  have ral: "page_aligned r" and hal: "page_aligned ?h"
    using inv by (auto simp: vmm_inv_def pt_tree_def hhdm_ok_def)
  have same: "mem s' (cell u i) = mem s (cell u i)"
    if "table_path q" "tbl ?h (mem s) r q = Some u" "table_idx i" for q u i
  proof -
    have "u \<in> tables s r" using that by (auto simp: tables_def)
    then show ?thesis using m page_base_cell [OF tbl_aligned [OF ral hal that(2)] that(3)] by simp
  qed
  have T: "tbl ?h (mem s') r q = tbl ?h (mem s) r q" if "table_path q" for q
    using that by (intro tbl_cong [OF hal ral]) (auto intro: same)
  show "tables s' r = tables s r" using T by (auto simp: tables_def h)
  show "aspace s' r = aspace s r"
  proof
    fix v
    show "aspace s' r v = aspace s r v"
      using T [OF page_path_butlast(1), of v] same [OF page_path_butlast(1) _ page_path_butlast(2), of v _ v]
      by (simp add: aspace_def h split: option.split)
  qed
  have "a \<noteq> NULL \<and> a - ?h \<notin> free_frames s'" if "table_path p" "tbl ?h (mem s') r p = Some a" for p a
    using vmm_inv_tbl [OF inv that(1)] that(2) T [OF that(1)] ff by auto
  moreover have "p = q" if "table_path p" "table_path q" "tbl ?h (mem s') r p = Some a"
    "tbl ?h (mem s') r q = Some a" for p q a
    using vmm_inv_inj [OF inv that(1,2)] that(3,4) T [OF that(1)] T [OF that(2)] by auto
  ultimately have "pt_tree s' r" using ral unfolding pt_tree_def h by blast
  then show "vmm_inv s' r" using inv ok unfolding vmm_inv_def hhdm_ok_def h by blast
qed

text \<open>
  A step of the heap inside the pages \<open>P\<close>: it may take frames, and changes memory only in \<open>P\<close> and in
  frames that were free.
\<close>

definition heap_step :: "'a vmm_scheme \<Rightarrow> 'a vmm_scheme \<Rightarrow> u64 set \<Rightarrow> bool" where
  "heap_step s s' P \<longleftrightarrow>
     vmm_frame s s' \<and> pmm_ok s' \<and> free_frames s' \<subseteq> free_frames s \<and>
     (\<forall>a. page_base a \<notin> P \<longrightarrow> page_base a - hhdm_offset s \<notin> free_frames s \<longrightarrow> mem s' a = mem s a)"

lemma heap_step_refl: "pmm_ok s \<Longrightarrow> heap_step s s P"
  by (simp add: heap_step_def vmm_frame_def)

lemma heap_stepD:
  assumes "heap_step s s' P"
  shows "vmm_frame s s'" "pmm_ok s'" "free_frames s' \<subseteq> free_frames s"
    "hhdm_offset s' = hhdm_offset s" "managed_frames s' = managed_frames s" "root s' = root s"
    "page_base a \<notin> P \<Longrightarrow> page_base a - hhdm_offset s \<notin> free_frames s \<Longrightarrow> mem s' a = mem s a"
  using assms vmm_frame_fields [of s s'] vmm_frame_root [of s s'] by (auto simp: heap_step_def)

lemma heap_step_trans:
  assumes "heap_step s s' P" "heap_step s' s'' P'"
    and "\<And>b. b \<in> P' \<Longrightarrow> b \<in> P \<or> b - hhdm_offset s \<in> free_frames s"
  shows "heap_step s s'' P"
proof -
  note d = heap_stepD [OF assms(1)] and d' = heap_stepD [OF assms(2)]
  have "mem s'' a = mem s a" if "page_base a \<notin> P" "page_base a - hhdm_offset s \<notin> free_frames s" for a
    using that d(7) d'(7) [of a] d(3,4) assms(3) by auto
  then show ?thesis
    using vmm_frame_trans [OF d(1) d'(1)] d d' unfolding heap_step_def by blast
qed

lemma heap_step_mono: "heap_step s s' P \<Longrightarrow> P \<subseteq> P' \<Longrightarrow> heap_step s s' P'"
  unfolding heap_step_def by blast

lemma heap_step_write: "pmm_ok s \<Longrightarrow> heap_step s (mem_write a v s) {page_base a}"
  by (auto simp: heap_step_def mem_write_def vmm_frame_def)

lemma vmm_frame_mem_update: "vmm_frame s s' \<Longrightarrow> vmm_frame s (s'\<lparr>mem := m\<rparr>)"
  by (elim vmm_frameE) (simp add: vmm_frame_def)

lemma heap_step_update:
  assumes "heap_step s s' P"
    and "\<And>a. page_base a \<notin> P \<Longrightarrow> page_base a - hhdm_offset s \<notin> free_frames s \<Longrightarrow> m a = mem s a"
  shows "heap_step s (s'\<lparr>mem := m\<rparr>) P"
  using assms vmm_frame_mem_update by (auto simp: heap_step_def)

definition hhdm_low :: "'a vmm_scheme \<Rightarrow> bool" where
  "hhdm_low s \<longleftrightarrow> (\<forall>f \<in> managed_frames s. \<forall>k < 4096. direct (at (f + hhdm_offset s) k))"

definition pages_ok :: "'a vmm_scheme \<Rightarrow> bool" where
  "pages_ok s \<longleftrightarrow> vmm_inv s (root s) \<and> hhdm_low s"

lemma pages_ok_pmm: "pages_ok s \<Longrightarrow> pmm_ok s"
  by (simp add: pages_ok_def vmm_inv_def)

lemma heap_step_pages:
  assumes ok: "pages_ok s" and st: "heap_step s s' P" and P: "P \<inter> tables s (root s) = {}"
  shows "pages_ok s'" "tables s' (root s') = tables s (root s)" "aspace s' (root s) = aspace s (root s)"
proof -
  have inv: "vmm_inv s (root s)" using ok by (simp add: pages_ok_def)
  note d = heap_stepD [OF st]
  have "mem s' a = mem s a" if "page_base a \<in> tables s (root s)" for a
  proof (rule d(7))
    show "page_base a \<notin> P" using that P by blast
    show "page_base a - hhdm_offset s \<notin> free_frames s"
      using that inv unfolding tables_def vmm_inv_def pt_tree_def by blast
  qed
  note v = vmm_outside [OF inv d(1-3) this]
  then show "tables s' (root s') = tables s (root s)" "aspace s' (root s) = aspace s (root s)"
    by (simp_all add: d)
  show "pages_ok s'" using ok v(1) unfolding pages_ok_def hhdm_low_def d by blast
qed

section \<open>Slabs\<close>

definition slab_ok :: "'a vmm_scheme \<Rightarrow> u64 \<Rightarrow> u64 \<Rightarrow> u64 list \<Rightarrow> bool" where
  "slab_ok s n b fs \<longleftrightarrow>
     slab_size n \<and> page_aligned b \<and> b - hhdm_offset s \<in> managed_frames s - free_frames s \<and>
     b \<notin> tables s (root s) \<and> mem s b = n \<and>
     linked (\<lambda>a. Some (mem s a)) (mem s (b + 8)) fs \<and> set fs \<subseteq> set (slots n b)"

lemma slab_okD:
  assumes "slab_ok s n b fs"
  shows "slab_size n" "page_aligned b" "b - hhdm_offset s \<in> managed_frames s"
    "b - hhdm_offset s \<notin> free_frames s" "b \<notin> tables s (root s)" "mem s b = n"
    "linked (\<lambda>a. Some (mem s a)) (mem s (b + 8)) fs" "set fs \<subseteq> set (slots n b)"
  using assms by (simp_all add: slab_ok_def)

lemma slab_ok_cong:
  assumes "slab_ok s n b fs" and "\<And>a. page_base a = b \<Longrightarrow> a \<noteq> b + 16 \<Longrightarrow> mem s' a = mem s a"
    and "hhdm_offset s' = hhdm_offset s" "managed_frames s' = managed_frames s"
    and "b - hhdm_offset s \<notin> free_frames s'" "b \<notin> tables s' (root s')"
  shows "slab_ok s' n b fs"
proof -
  note d = slab_okD [OF assms(1)]
  note f = slab_fields [OF d(2)] slab_fields_distinct [OF d(2)]
  have "mem s' b = mem s b" "mem s' (b + 8) = mem s (b + 8)"
    using assms(2) [of b] assms(2) [of "b + 8"] f by simp_all
  moreover have "mem s' a = mem s a" if "a \<in> set fs" for a
    using assms(2) [of a] slots_page_base [OF d(1,2), of a] that d(8) by auto
  then have "linked (\<lambda>a. Some (mem s' a)) p fs = linked (\<lambda>a. Some (mem s a)) p fs" for p
    by (intro linked_cong) simp
  ultimately show ?thesis
    using d assms(3-6) unfolding slab_ok_def by auto
qed

lemma slab_direct:
  assumes "pages_ok s" "slab_ok s n b fs" "k < 4096"
  shows "direct (at b k)"
proof -
  have "direct (at (b - hhdm_offset s + hhdm_offset s) k)"
    using assms slab_okD(3) [OF assms(2)] unfolding pages_ok_def hhdm_low_def by blast
  then show ?thesis by simp
qed

lemma slab_fields_direct:
  assumes "pages_ok s" "slab_ok s n b fs"
  shows "direct b" "direct (b + 8)" "direct (b + 16)" "p \<in> set (slots n b) \<Longrightarrow> direct p"
proof -
  show "direct b" "direct (b + 8)" "direct (b + 16)"
    using slab_direct [OF assms, of 0] slab_direct [OF assms, of 8] slab_direct [OF assms, of 16] by simp_all
  show "direct p" if "p \<in> set (slots n b)"
    using that slab_direct [OF assms slot_bound0 [OF slab_okD(1) [OF assms(2)]]]
    by (auto simp: slots_def slot_def)
qed

lemma slab_nonnull:
  assumes "pages_ok s" "slab_ok s n b fs"
  shows "b \<noteq> NULL"
proof -
  have "b - hhdm_offset s + hhdm_offset s \<noteq> NULL"
    using assms slab_okD(3) [OF assms(2)] unfolding pages_ok_def vmm_inv_def hhdm_ok_def by blast
  then show ?thesis by simp
qed

lemma linked_upt:
  assumes "\<And>j. i \<le> j \<Longrightarrow> j < N \<Longrightarrow> f j \<noteq> NULL \<and> nx (f j) = Some (if Suc j < N then f (Suc j) else NULL)"
  shows "linked nx (if i < N then f i else NULL) (map f [i..<N])"
  using assms
proof (induction "N - i" arbitrary: i)
  case (Suc d)
  then have i: "i < N" by simp
  have "linked nx (if Suc i < N then f (Suc i) else NULL) (map f [Suc i..<N])"
    using Suc.hyps(1) [of "Suc i"] Suc.hyps(2) Suc.prems by auto
  then show ?case using i Suc.prems [of i] by (simp add: upt_conv_Cons)
qed simp

lemma slot_nonnull:
  assumes "slab_size n" "page_aligned b" "b \<noteq> NULL" "k < nslots n"
  shows "slot n b k \<noteq> NULL"
proof
  assume "slot n b k = NULL"
  moreover have "page_base (slot n b k) = b"
    using slots_page_base(1) [OF assms(1,2), of "slot n b k"] assms(4) by (auto simp: slots_def)
  ultimately show False using assms(3) by simp
qed

lemma unat_num_objs:
  assumes "slab_size n"
  shows "unat (4072 div n - 1) = nslots n - 1"
proof -
  have "unat (4072 div n) = nslots n" by (simp add: unat_div nslots_def)
  then show ?thesis using slab_size_cases(3) [OF assms] by (intro unat_minus_1) simp_all
qed

text \<open>The loop that threads the free list through a new slab.\<close>

lemma create_slab_loop:
  assumes n: "slab_size n" and al: "page_aligned b" and d: "\<And>k. k < nslots n \<Longrightarrow> direct (slot n b k)"
  shows "\<exists>m. for_u64 0 (4072 div n - 1)
            (\<lambda>i (current, s). do { s \<leftarrow> store64 current (current + n) s; current \<leftarrow> load64 current s;
                                  Some (current, s) }) (slot n b 0, s)
          = Some (slot n b (nslots n - 1), s\<lparr>mem := m\<rparr>) \<and>
          (\<forall>j < nslots n - 1. m (slot n b j) = slot n b (Suc j)) \<and>
          (\<forall>a. a \<notin> set (slots n b) \<longrightarrow> m a = mem s a)"
proof -
  let ?N = "4072 div n - 1"
  let ?body = "\<lambda>(i :: u64) (current, s). do { s \<leftarrow> store64 current (current + n) s;
                 current \<leftarrow> load64 current s; Some (current, s) }"
  let ?I = "\<lambda>k cs. \<exists>m. cs = (slot n b (unat k), s\<lparr>mem := m\<rparr>) \<and>
              (\<forall>j < unat k. m (slot n b j) = slot n b (Suc j)) \<and>
              (\<forall>a. a \<notin> set (slots n b) \<longrightarrow> m a = mem s a)"
  have "\<exists>cs. for_u64 0 ?N ?body (slot n b 0, s) = Some cs \<and> ?I ?N cs"
  proof (rule for_u64_rule)
    show "?I 0 (slot n b 0, s)" by (intro exI [of _ "mem s"]) simp
    show "0 \<le> ?N" by simp
    fix k cs
    assume k: "k < ?N" and "?I k cs"
    then obtain m where m: "cs = (slot n b (unat k), s\<lparr>mem := m\<rparr>)"
      "\<forall>j < unat k. m (slot n b j) = slot n b (Suc j)" "\<forall>a. a \<notin> set (slots n b) \<longrightarrow> m a = mem s a" by blast
    have kn: "Suc (unat k) < nslots n"
      using k unat_num_objs [OF n] by (simp add: word_less_nat_alt)
    let ?m = "m(slot n b (unat k) := slot n b (Suc (unat k)))"
    have "slot n b j \<noteq> slot n b (unat k)" if "j < unat k" for j
      using slot_inject [OF n al al, of j "unat k" 0 0] that kn slab_size_cases(1) [OF n] by auto
    then have "\<forall>j < unat (k + 1). ?m (slot n b j) = slot n b (Suc j)"
      using m(2) unat_succ_less [OF k] by (simp add: less_Suc_eq)
    moreover have "slot n b (unat k) \<in> set (slots n b)" using kn by (simp add: slots_def)
    then have "\<forall>a. a \<notin> set (slots n b) \<longrightarrow> ?m a = mem s a" using m(3) by auto
    moreover have "?body k cs = Some (slot n b (unat (k + 1)), s\<lparr>mem := ?m\<rparr>)"
      using m(1) d [of "unat k"] kn unat_succ_less [OF k] by (simp add: slot_next mem_write_def)
    ultimately show "\<exists>cs'. ?body k cs = Some cs' \<and> ?I (k + 1) cs'" by blast
  qed
  then show ?thesis unfolding unat_num_objs [OF n] by blast
qed

lemma create_slab_spec:
  assumes ok: "pages_ok s" and n: "slab_size n"
  shows "\<exists>c s'. create_slab n s = Some (c, s') \<and> heap_step s s' {} \<and>
           (c = NULL \<longrightarrow> free_frames s = {} \<and> mem s' = mem s) \<and>
           (c \<noteq> NULL \<longrightarrow> c - hhdm_offset s \<in> free_frames s \<and> slab_ok s' n c (slots n c) \<and>
              mem s' (c + 16) = NULL \<and> free_frames s' = free_frames s - {c - hhdm_offset s})"
proof -
  have pk: "pmm_ok s" using ok by (rule pages_ok_pmm)
  from pmm.alloc_total [OF pk] obtain f s1 where a: "pmm_alloc s = Some (f, s1)" by blast
  note fr = pmm.alloc_fresh [OF pk a]
  note pf = pmm_alloc_frame [OF a]
  note fm = pmm_frame_mem [OF pf]
  have st1: "heap_step s s1 {}"
    using pmm_frame_vmm_frame [OF pf] fr fm by (simp add: heap_step_def)
  show ?thesis
  proof (cases "f = NULL")
    case True
    then show ?thesis using a st1 fr fm by (simp add: create_slab_def)
  next
    case False
    let ?b = "f + hhdm_offset s"
    have f: "f \<in> free_frames s" "f \<in> managed_frames s" "page_aligned f" using fr(4,6,7) False by blast+
    have al: "page_aligned ?b" using f(3) ok
      by (simp add: pages_ok_def vmm_inv_def hhdm_ok_def page_aligned_add)
    have bn: "?b \<noteq> NULL" using f(2) ok by (simp add: pages_ok_def vmm_inv_def hhdm_ok_def)
    have dk: "direct (at ?b k)" if "k < 4096" for k
      using that f(2) ok by (simp add: pages_ok_def hhdm_low_def)
    have d0: "direct ?b" "direct (?b + 8)" "direct (?b + 16)"
      using dk [of 0] dk [of 8] dk [of 16] by simp_all
    have ds: "direct (slot n ?b k)" if "k < nslots n" for k
      unfolding slot_def by (rule dk [OF slot_bound0 [OF n that]])
    let ?s2 = "mem_write (?b + 8) (?b + 24) (mem_write (?b + 16) NULL (mem_write ?b n s1))"
    from create_slab_loop [OF n al ds, of ?s2] obtain m where
      l: "for_u64 0 (4072 div n - 1)
            (\<lambda>i (current, s). do { s \<leftarrow> store64 current (current + n) s; current \<leftarrow> load64 current s;
                                  Some (current, s) }) (slot n ?b 0, ?s2)
          = Some (slot n ?b (nslots n - 1), ?s2\<lparr>mem := m\<rparr>)"
      and m: "\<forall>j < nslots n - 1. m (slot n ?b j) = slot n ?b (Suc j)"
      "\<forall>a. a \<notin> set (slots n ?b) \<longrightarrow> m a = mem ?s2 a" by blast
    let ?last = "slot n ?b (nslots n - 1)"
    let ?s3 = "mem_write ?last NULL (?s2\<lparr>mem := m\<rparr>)"
    have ln: "nslots n - 1 < nslots n" using slab_size_cases(3) [OF n] by simp
    have "slot n ?b 0 = ?b + 24" by (simp add: slot_def)
    then have c: "create_slab n s = Some (?b, ?s3)"
      using a False d0 l ds [OF ln] slab_size_cases(2) [OF n]
      by (simp add: create_slab_def fm(2) Let_def)
    define M where "M = m(?last := NULL)"
    have "?s3 = s1\<lparr>mem := M\<rparr>" by (simp add: mem_write_def M_def)
    with c have c: "create_slab n s = Some (?b, s1\<lparr>mem := M\<rparr>)" by simp
    have lin: "?last \<in> set (slots n ?b)" using ln by (simp add: slots_def)
    have m2: "M x = mem ?s2 x" if "x \<notin> set (slots n ?b)" for x using that m(2) lin by (auto simp: M_def)
    have out: "M x = mem s x" if "page_base x \<noteq> ?b" for x
    proof -
      have "x \<notin> set (slots n ?b)" "x \<noteq> ?b" "x \<noteq> ?b + 8" "x \<noteq> ?b + 16"
        using that slots_page_base(1) [OF n al] slab_fields [OF al] by metis+
      then show ?thesis using m2 fm(1) by (simp add: mem_write_def)
    qed
    have "page_base x \<noteq> ?b" if "page_base x - hhdm_offset s \<notin> free_frames s" for x
      using that f(1) by auto
    then have st3: "heap_step s (s1\<lparr>mem := M\<rparr>) {}" using out by (intro heap_step_update [OF st1]) blast
    have nos: "?b \<notin> set (slots n ?b)" "?b + 8 \<notin> set (slots n ?b)" "?b + 16 \<notin> set (slots n ?b)"
      using slots_page_base(2-4) [OF n al] by blast+
    have hd: "M ?b = n" "M (?b + 8) = slot n ?b 0" "M (?b + 16) = NULL"
      using m2 nos slab_fields_distinct [OF al] \<open>slot n ?b 0 = ?b + 24\<close>
      by (simp_all add: mem_write_def)
    have lk: "linked (\<lambda>a. Some (M a)) (slot n ?b 0) (slots n ?b)"
    proof -
      have "slot n ?b j \<noteq> NULL \<and> Some (M (slot n ?b j)) =
          Some (if Suc j < nslots n then slot n ?b (Suc j) else NULL)" if "j < nslots n" for j
      proof -
        have "slot n ?b j = ?last \<longleftrightarrow> j = nslots n - 1"
          using slot_inject [OF n al al that ln, of 0 0] slab_size_cases(1) [OF n] by auto
        then show ?thesis using slot_nonnull [OF n al bn that] m(1) that by (auto simp: M_def)
      qed
      from linked_upt [of 0 "nslots n" "slot n ?b", OF this] show ?thesis
        using ln by (simp add: slots_def)
    qed
    have "?b \<notin> tables s (root s)" 
      by (rule free_not_table [OF _ f(1)]) (use ok in \<open>simp add: pages_ok_def\<close>)
    then have "slab_ok (s1\<lparr>mem := M\<rparr>) n ?b (slots n ?b)"
      unfolding slab_ok_def heap_step_pages(2) [OF ok st3 Int_empty_left] heap_stepD(4,5) [OF st3]
      using n al f(2) fr(3) hd lk by simp
    then show ?thesis using c st3 f(1) bn hd(3) fr(3) by simp
  qed
qed

section \<open>The chain of slabs of a cache\<close>

definition chain :: "'a vmm_scheme \<Rightarrow> u64 \<Rightarrow> u64 \<Rightarrow> u64 list \<Rightarrow> (u64 \<Rightarrow> u64 list) \<Rightarrow> bool" where
  "chain s n p bs fr \<longleftrightarrow>
     linked (\<lambda>b. Some (mem s (b + 16))) p bs \<and> (\<forall>b \<in> set bs. slab_ok s n b (fr b))"

text \<open>The objects of a chain that are not on a free list.\<close>

definition live1 :: "u64 \<Rightarrow> u64 list \<Rightarrow> (u64 \<Rightarrow> u64 list) \<Rightarrow> u64 set" where
  "live1 n bs fr = {p. \<exists>b \<in> set bs. p \<in> set (slots n b) \<and> p \<notin> set (fr b)}"

lemma chain_cong:
  assumes "chain s n p bs fr" and "\<And>a. page_base a \<in> set bs \<Longrightarrow> mem s' a = mem s a"
    and "hhdm_offset s' = hhdm_offset s" "managed_frames s' = managed_frames s"
    and "\<And>b. b \<in> set bs \<Longrightarrow> b - hhdm_offset s \<notin> free_frames s' \<and> b \<notin> tables s' (root s')"
    and "\<And>b. b \<in> set bs \<Longrightarrow> fr' b = fr b"
  shows "chain s' n p bs fr'"
proof -
  have sl: "slab_ok s n b (fr b)" if "b \<in> set bs" for b using assms(1) that by (simp add: chain_def)
  have "mem s' (b + 16) = mem s (b + 16)" if "b \<in> set bs" for b
    using assms(2) [of "b + 16"] slab_fields(3) [OF slab_okD(2) [OF sl [OF that]]] that by simp
  then have "linked (\<lambda>b. Some (mem s' (b + 16))) p bs"
    using assms(1) linked_cong [of bs "\<lambda>b. Some (mem s' (b + 16))" "\<lambda>b. Some (mem s (b + 16))"]
    by (simp add: chain_def)
  moreover have "slab_ok s' n b (fr' b)" if "b \<in> set bs" for b
    unfolding assms(6) [OF that]
    by (rule slab_ok_cong [OF sl [OF that] assms(2-4)]) (use that assms(5) in auto)
  ultimately show ?thesis by (simp add: chain_def)
qed

lemma chain_step:
  assumes ok: "pages_ok s" and ch: "chain s n p bs fr" and st: "heap_step s s' P"
    and P: "P \<inter> tables s (root s) = {}" "P \<inter> set bs = {}" and fr: "\<And>b. b \<in> set bs \<Longrightarrow> fr' b = fr b"
  shows "chain s' n p bs fr'"
proof (rule chain_cong [OF ch _ heap_stepD(4,5) [OF st] _ fr])
  show "b - hhdm_offset s \<notin> free_frames s' \<and> b \<notin> tables s' (root s')" if "b \<in> set bs" for b
    using ch that slab_okD(4,5) heap_stepD(3) [OF st] heap_step_pages(2) [OF ok st P(1)]
    unfolding chain_def by blast
  fix a
  assume a: "page_base a \<in> set bs"
  then have "page_base a - hhdm_offset s \<notin> free_frames s"
    using ch slab_okD(4) unfolding chain_def by blast
  then show "mem s' a = mem s a" using heap_stepD(7) [OF st] a P(2) by blast
qed

lemma linked_mem_write:
  "c \<notin> set xs \<Longrightarrow> linked (\<lambda>a. Some (mem (mem_write c v s) a)) p xs = linked (\<lambda>a. Some (mem s a)) p xs"
  by (rule linked_cong) (auto simp: mem_write_def)

text \<open>Taking the first object off a free list.\<close>

lemma slab_pop:
  assumes ok: "pages_ok s" and sl: "slab_ok s n b (x # xs)"
  shows "kmalloc_search n b s = Some (x, mem_write (b + 8) (mem s x) s)"
    "slab_ok (mem_write (b + 8) (mem s x) s) n b xs"
    "heap_step s (mem_write (b + 8) (mem s x) s) {b}"
    "mem (mem_write (b + 8) (mem s x) s) (b + 16) = mem s (b + 16)"
    "x \<in> set (slots n b)" "x \<notin> set xs" "x \<noteq> NULL"
proof -
  let ?s = "mem_write (b + 8) (mem s x) s"
  note d = slab_okD [OF sl]
  have x: "mem s (b + 8) = x" "x \<noteq> NULL" "linked (\<lambda>a. Some (mem s a)) (mem s x) xs" using d(7) by auto
  show xin: "x \<in> set (slots n b)" "x \<noteq> NULL" using d(8) x by auto
  show "x \<notin> set xs" using linked_distinct [OF d(7)] by simp
  show "kmalloc_search n b s = Some (x, ?s)"
    using slab_nonnull [OF ok sl] slab_fields_direct [OF ok sl] x xin
    by (simp add: kmalloc_search.simps [of n b])
  show st: "heap_step s ?s {b}"
    using heap_step_write [OF pages_ok_pmm [OF ok], of "b + 8"] slab_fields(2) [OF d(2)] by simp
  have tb: "tables ?s (root ?s) = tables s (root s)"
    using heap_step_pages(2) [OF ok st] d(5) by simp
  show "mem ?s (b + 16) = mem s (b + 16)"
    using slab_fields_distinct [OF d(2)] by (simp add: mem_write_def)
  have "b + 8 \<notin> set xs" using slots_page_base(3) [OF d(1,2)] d(8) by auto
  then have "linked (\<lambda>a. Some (mem ?s a)) (mem s x) xs"
    using x(3) by (simp add: linked_mem_write)
  then show "slab_ok ?s n b xs"
    using d tb heap_stepD(3,4,5) [OF st] slab_fields_distinct [OF d(2)]
    unfolding slab_ok_def by (auto simp: mem_write_def)
qed

text \<open>In the slabs \<open>bs\<close>, only the link fields of the slab headers change.\<close>

definition links_only :: "'a vmm_scheme \<Rightarrow> 'a vmm_scheme \<Rightarrow> u64 set \<Rightarrow> bool" where
  "links_only s s' P \<longleftrightarrow>
     (\<forall>a. page_base a \<in> P \<longrightarrow> a \<noteq> page_base a + 8 \<longrightarrow> a \<noteq> page_base a + 16 \<longrightarrow> mem s' a = mem s a)"

text \<open>At most one page is taken from the page allocator.\<close>

definition takes_one :: "'a pmm_scheme \<Rightarrow> 'a pmm_scheme \<Rightarrow> bool" where
  "takes_one s s' \<longleftrightarrow> (\<exists>f. free_frames s \<subseteq> insert f (free_frames s'))"

lemma takes_oneI: "free_frames s \<subseteq> insert f (free_frames s') \<Longrightarrow> takes_one s s'"
  by (auto simp: takes_one_def)

lemma takes_one_same: "free_frames s' = free_frames s \<Longrightarrow> takes_one s s'"
  by (rule takes_oneI [of _ 0]) blast

lemma free_frames_mem_write [simp]: "free_frames (mem_write a v s) = free_frames s"
  by (simp add: mem_write_def)

text \<open>The result of a search in the chain \<open>bs\<close> with free lists \<open>fr\<close>.\<close>

definition search_result ::
  "'a vmm_scheme \<Rightarrow> u64 \<Rightarrow> u64 \<Rightarrow> u64 list \<Rightarrow> (u64 \<Rightarrow> u64 list) \<Rightarrow> u64 \<Rightarrow> 'a vmm_scheme \<Rightarrow> bool" where
  "search_result s n p bs fr h s' \<longleftrightarrow>
     heap_step s s' (set bs) \<and> links_only s s' (set bs) \<and> takes_one s s' \<and>
     (\<exists>bs' fr'. chain s' n p bs' fr' \<and> set bs \<subseteq> set bs' \<and>
        (\<forall>b \<in> set bs'. b \<in> set bs \<or> b - hhdm_offset s \<in> free_frames s) \<and>
        (\<forall>b. b \<notin> set bs' \<longrightarrow> fr' b = fr b) \<and>
        (if h = NULL then (bs = [] \<or> free_frames s = {}) \<and> live1 n bs' fr' = live1 n bs fr
         else h \<notin> live1 n bs fr \<and> live1 n bs' fr' = insert h (live1 n bs fr)))"

lemma chain_tables: "chain s n p bs fr \<Longrightarrow> set bs \<inter> tables s (root s) = {}"
  using slab_okD(5) unfolding chain_def by blast

lemma chain_Cons:
  "chain s n p (b # bs) fr \<longleftrightarrow>
     p = b \<and> b \<noteq> NULL \<and> slab_ok s n b (fr b) \<and> chain s n (mem s (b + 16)) bs fr"
  by (auto simp: chain_def)

lemma slots_disjoint:
  assumes "slab_size n" "page_aligned b" "page_aligned c" "b \<noteq> c"
  shows "set (slots n b) \<inter> set (slots n c) = {}"
  using slots_page_base(1) [OF assms(1,2)] slots_page_base(1) [OF assms(1,3)] assms(4) by blast

lemma search_pop:
  assumes ok: "pages_ok s" and ch: "chain s n b (b # bs) fr" and fr: "fr b = x # xs"
  shows "kmalloc_search n b s = Some (x, mem_write (b + 8) (mem s x) s)"
    "search_result s n b (b # bs) fr x (mem_write (b + 8) (mem s x) s)"
proof -
  let ?s = "mem_write (b + 8) (mem s x) s"
  have sl: "slab_ok s n b (x # xs)" and rest: "chain s n (mem s (b + 16)) bs fr"
    using ch fr by (auto simp: chain_Cons)
  note p = slab_pop [OF ok sl]
  show "kmalloc_search n b s = Some (x, ?s)" by (rule p(1))
  have "distinct (b # bs)" using ch linked_distinct unfolding chain_def by blast
  then have bn: "b \<notin> set bs" by simp
  have "chain ?s n (mem s (b + 16)) bs (fr(b := xs))"
    by (rule chain_step [OF ok rest p(3)]) (use bn slab_okD(5) [OF sl] in auto)
  then have "chain ?s n b (b # bs) (fr(b := xs))"
    using p(2,4) slab_nonnull [OF ok sl] by (simp add: chain_Cons)
  moreover have "c = b" if "c \<in> set (b # bs)" "x \<in> set (slots n c)" for c
  proof -
    have "slab_ok s n c (fr c)" using ch that(1) by (auto simp: chain_def)
    then show ?thesis
      using slots_disjoint [OF slab_okD(1,2) [OF sl] slab_okD(2)] that(2) p(5) by blast
  qed
  then have "x \<notin> live1 n (b # bs) fr" "live1 n (b # bs) (fr(b := xs)) = insert x (live1 n (b # bs) fr)"
    using fr p(5,6) bn by (auto simp: live1_def)
  moreover have "links_only s ?s (set (b # bs))"
    using slab_fields(2) [OF slab_okD(2) [OF sl]] by (auto simp: links_only_def mem_write_def)
  ultimately show "search_result s n b (b # bs) fr x ?s"
    unfolding search_result_def using heap_step_mono [OF p(3)] p(7) takes_one_same [of ?s s]
    by (intro conjI exI [of _ "b # bs"] exI [of _ "fr(b := xs)"]) auto
qed

text \<open>A search that passes a full slab.\<close>

lemma search_pass:
  assumes ok: "pages_ok s" and sl: "slab_ok s n b (fr b)" and full: "fr b = []" and bn: "b \<notin> set bs"
    and ch: "chain s n (mem s (b + 16)) bs fr"
    and res: "search_result s n (mem s (b + 16)) bs fr h s'" and h: "h = NULL \<longrightarrow> free_frames s = {}"
  shows "search_result s n b (b # bs) fr h s'"
proof -
  from res obtain bs' fr' where st: "heap_step s s' (set bs)" and lo: "links_only s s' (set bs)"
    and one: "takes_one s s'" and ch': "chain s' n (mem s (b + 16)) bs' fr'" and sub: "set bs \<subseteq> set bs'"
    and new: "\<forall>c \<in> set bs'. c \<in> set bs \<or> c - hhdm_offset s \<in> free_frames s"
    and old: "\<forall>c. c \<notin> set bs' \<longrightarrow> fr' c = fr c"
    and lv: "if h = NULL then (bs = [] \<or> free_frames s = {}) \<and> live1 n bs' fr' = live1 n bs fr
             else h \<notin> live1 n bs fr \<and> live1 n bs' fr' = insert h (live1 n bs fr)"
    unfolding search_result_def by blast
  note d = slab_okD [OF sl]
  have bn': "b \<notin> set bs'" using new bn d(4) by blast
  have T: "set bs \<inter> tables s (root s) = {}" using chain_tables [OF ch] .
  have mb: "mem s' a = mem s a" if "page_base a = b" for a
    using heap_stepD(7) [OF st, of a] that bn d(4) by simp
  have "slab_ok s' n b (fr' b)"
    using slab_ok_cong [OF sl mb heap_stepD(4,5) [OF st]] heap_stepD(3) [OF st]
      heap_step_pages(2) [OF ok st T] d(4,5) old bn' by auto
  moreover have "mem s' (b + 16) = mem s (b + 16)" using mb slab_fields(3) [OF d(2)] by blast
  ultimately have "chain s' n b (b # bs') fr'"
    using ch' slab_nonnull [OF ok sl] by (simp add: chain_Cons)
  moreover have "h \<notin> set (slots n b)" if "h \<noteq> NULL"
  proof
    assume hb: "h \<in> set (slots n b)"
    have "h \<in> live1 n bs' fr'" using lv that by auto
    then obtain c where c: "c \<in> set bs'" "h \<in> set (slots n c)" by (auto simp: live1_def)
    then have "slab_ok s' n c (fr' c)" using ch' by (auto simp: chain_def)
    then have "c = b" using slots_disjoint [OF d(1,2) slab_okD(2)] c(2) hb by blast
    then show False using c(1) bn' by simp
  qed
  moreover have "live1 n (b # cs) g = set (slots n b) - set (g b) \<union> live1 n cs g" for cs g
    by (auto simp: live1_def)
  moreover have "fr' b = []" using old bn' full by simp
  moreover have "links_only s s' (set (b # bs))" using lo mb by (auto simp: links_only_def)
  ultimately show ?thesis
    unfolding search_result_def using heap_step_mono [OF st, of "set (b # bs)"] one sub new old lv h full
    by (intro conjI exI [of _ "b # bs'"] exI [of _ fr']) (auto split: if_splits)
qed

lemma mem_write_same: "mem s a = v \<Longrightarrow> mem_write a v s = s"
  by (simp add: mem_write_def fun_upd_idem)

lemma search_result_grow:
  assumes st: "heap_step s s2 (set bs)" and lo: "links_only s s2 (set bs)" and res: "search_result s2 n p cs fr2 h s'" and h: "h \<noteq> NULL"
    and cs: "set cs = insert c (set bs)" and c: "c - hhdm_offset s \<in> free_frames s"
    and fr: "\<And>b. b \<noteq> c \<Longrightarrow> fr2 b = fr b" and lv: "live1 n cs fr2 = live1 n bs fr" and one: "takes_one s s'"
  shows "search_result s n p bs fr h s'"
proof -
  from res h obtain bs' fr' where st': "heap_step s2 s' (set cs)" and lo': "links_only s2 s' (set cs)"
    and r: "chain s' n p bs' fr'" "set cs \<subseteq> set bs'"
    "\<forall>b \<in> set bs'. b \<in> set cs \<or> b - hhdm_offset s2 \<in> free_frames s2"
    "\<forall>b. b \<notin> set bs' \<longrightarrow> fr' b = fr2 b"
    "h \<notin> live1 n cs fr2" "live1 n bs' fr' = insert h (live1 n cs fr2)"
    unfolding search_result_def by auto
  have "heap_step s s' (set bs)" by (rule heap_step_trans [OF st st']) (use cs c in auto)
  moreover have "b \<in> set bs \<or> b - hhdm_offset s \<in> free_frames s" if "b \<in> set bs'" for b
    using r(3) that cs c heap_stepD(3,4) [OF st] by auto
  moreover have "fr' b = fr b" if "b \<notin> set bs'" for b
    using r(2,4) that cs fr [of b] by auto
  moreover have "links_only s s' (set bs)" using lo lo' cs by (auto simp: links_only_def)
  ultimately show ?thesis
    unfolding search_result_def using r h cs lv one
    by (intro conjI exI [of _ bs'] exI [of _ fr']) auto
qed

text \<open>A full chain of one slab gets a second one.\<close>

lemma search_append:
  assumes ok: "pages_ok s" and ch: "chain s n b [b] fr" and full: "fr b = []"
  shows "\<exists>h s'. kmalloc_search n b s = Some (h, s') \<and> search_result s n b [b] fr h s'"
proof -
  have sl: "slab_ok s n b (fr b)" and nx: "mem s (b + 16) = NULL" and bnn: "b \<noteq> NULL"
    using ch by (auto simp: chain_Cons chain_def)
  note d = slab_okD [OF sl] and dir = slab_fields_direct [OF ok sl]
  have fl: "mem s (b + 8) = NULL" using d(7) full by simp
  from create_slab_spec [OF ok d(1)] obtain c s1 where c: "create_slab n s = Some (c, s1)"
    and st1: "heap_step s s1 {}" and c0: "c = NULL \<longrightarrow> free_frames s = {} \<and> mem s1 = mem s"
    and c1: "c \<noteq> NULL \<longrightarrow> c - hhdm_offset s \<in> free_frames s \<and> slab_ok s1 n c (slots n c) \<and>
               mem s1 (c + 16) = NULL \<and> free_frames s1 = free_frames s - {c - hhdm_offset s}" by blast
  let ?s2 = "mem_write (b + 16) c s1"
  have run: "kmalloc_search n b s = kmalloc_search n c ?s2"
    using bnn fl nx c dir by (simp add: kmalloc_search.simps [of n b s]) (simp add: mem_write_def)
  have ch1: "chain s1 n b [b] fr" by (rule chain_step [OF ok ch st1]) auto
  have ok1: "pages_ok s1" by (rule heap_step_pages(1) [OF ok st1]) simp
  show ?thesis
  proof (cases "c = NULL")
    case True
    then have "?s2 = s1" using c0 nx by (intro mem_write_same) simp
    moreover have "search_result s n b [b] fr NULL s1"
      unfolding search_result_def links_only_def using heap_step_mono [OF st1] c0 True ch1
        takes_oneI [of s 0 s1]
      by (intro conjI exI [of _ "[b]"] exI [of _ fr]) auto
    ultimately show ?thesis using run True by (simp add: kmalloc_search.simps [of n NULL])
  next
    case False
    let ?fr = "fr(c := slots n c)"
    have cf: "c - hhdm_offset s \<in> free_frames s" and slc: "slab_ok s1 n c (slots n c)"
      and nc: "mem s1 (c + 16) = NULL" using c1 False by auto
    have slb: "slab_ok s1 n b (fr b)" using ch1 by (simp add: chain_Cons)
    have cb: "c \<noteq> b" using cf d(4) by blast
    have st2: "heap_step s1 ?s2 {b}"
      using heap_step_write [OF pages_ok_pmm [OF ok1], of "b + 16"] slab_fields(3) [OF d(2)] by simp
    have T: "{b} \<inter> tables s1 (root s1) = {}" using slab_okD(5) [OF slb] by simp
    have away: "x - hhdm_offset s1 \<notin> free_frames ?s2" "x \<notin> tables ?s2 (root ?s2)"
      if "slab_ok s1 n x fs" for x fs
      using slab_okD(4,5) [OF that] heap_stepD(3) [OF st2] heap_step_pages(2) [OF ok1 st2 T] by auto
    have "slab_ok ?s2 n b (fr b)"
      by (rule slab_ok_cong [OF slb _ heap_stepD(4,5) [OF st2] away [OF slb]]) (simp add: mem_write_def)
    moreover have "slab_ok ?s2 n c (slots n c)"
      by (rule slab_ok_cong [OF slc _ heap_stepD(4,5) [OF st2] away [OF slc]])
        (use cb slab_fields(3) [OF d(2)] in \<open>auto simp: mem_write_def\<close>)
    moreover have m2: "mem ?s2 (b + 16) = c" "mem ?s2 (c + 16) = NULL"
      using nc cb by (simp_all add: mem_write_def)
    ultimately have ch2: "chain ?s2 n c [c] ?fr" "slab_ok ?s2 n b (?fr b)"
      using False cb by (auto simp: chain_Cons chain_def)
    have ok2: "pages_ok ?s2" by (rule heap_step_pages(1) [OF ok1 st2 T])
    obtain x xs where x: "slots n c = x # xs"
      using slab_size_cases(3) [OF d(1)] by (cases "slots n c") (auto simp: slots_def)
    have pop: "kmalloc_search n c ?s2 = Some (x, mem_write (c + 8) (mem ?s2 x) ?s2)"
      "search_result ?s2 n c [c] ?fr x (mem_write (c + 8) (mem ?s2 x) ?s2)"
      using search_pop [OF ok2 ch2(1), of x xs] x by auto
    have xn: "x \<noteq> NULL" using slab_okD(7) [OF slc] x by auto
    have r2: "search_result ?s2 n b [b, c] ?fr x (mem_write (c + 8) (mem ?s2 x) ?s2)"
      by (rule search_pass [where fr = ?fr, OF ok2 ch2(2)]) (use cb full m2 ch2 pop xn in auto)
    have st: "heap_step s ?s2 {b}" by (rule heap_step_trans [OF heap_step_mono [OF st1] st2]) auto
    have "live1 n [b, c] ?fr = live1 n [b] fr" using cb by (auto simp: live1_def)
    moreover have "links_only s ?s2 (set [b])"
    proof -
      have "mem s1 a = mem s a" if "page_base a = b" for a
        using heap_stepD(7) [OF st1, of a] that d(4) by simp
      then show ?thesis by (auto simp: links_only_def mem_write_def)
    qed
    moreover have "takes_one s (mem_write (c + 8) (mem ?s2 x) ?s2)"
      by (rule takes_oneI [of _ "c - hhdm_offset s"]) (use c1 False in auto)
    ultimately have "search_result s n b [b] fr x (mem_write (c + 8) (mem ?s2 x) ?s2)"
      by (intro search_result_grow [OF _ _ r2 xn, of s "[b]" c]) (use st cf in auto)
    then show ?thesis using run pop(1) by auto
  qed
qed

lemma kmalloc_search_spec:
  assumes "pages_ok s" "chain s n p bs fr"
  shows "\<exists>h s'. kmalloc_search n p s = Some (h, s') \<and> search_result s n p bs fr h s'"
  using assms(2)
proof (induction bs arbitrary: p)
  case Nil
  then have "p = NULL" by (simp add: chain_def)
  then show ?case
    using Nil heap_step_refl [OF pages_ok_pmm [OF assms(1)]]
      takes_one_same [of s s]
    by (auto simp: kmalloc_search.simps search_result_def links_only_def chain_def)
next
  case (Cons b bs)
  then have p: "p = b" and sl: "slab_ok s n b (fr b)" and ch: "chain s n (mem s (b + 16)) bs fr"
    and bn: "b \<noteq> NULL" by (auto simp: chain_Cons)
  have "distinct (b # bs)" using Cons.prems linked_distinct unfolding chain_def by blast
  then have bs: "b \<notin> set bs" by simp
  consider x xs where "fr b = x # xs" | "fr b = []" "bs = []" | "fr b = []" "bs \<noteq> []"
    by (meson neq_Nil_conv)
  then show ?case
  proof cases
    case 1
    then show ?thesis using search_pop [OF assms(1)] Cons.prems p by blast
  next
    case 2
    then show ?thesis using search_append [OF assms(1), of n b fr] Cons.prems p by blast
  next
    case 3
    obtain h s' where h: "kmalloc_search n (mem s (b + 16)) s = Some (h, s')"
      "search_result s n (mem s (b + 16)) bs fr h s'" using Cons.IH [OF ch] by blast
    have fl: "mem s (b + 8) = NULL" using slab_okD(7) [OF sl] 3(1) by simp
    have nx: "mem s (b + 16) \<noteq> NULL" using ch 3(2) by (cases bs) (auto simp: chain_Cons)
    have "kmalloc_search n b s = Some (h, s')"
      using bn fl nx h(1) slab_fields_direct [OF assms(1) sl] by (simp add: kmalloc_search.simps [of n b])
    moreover have "h = NULL \<longrightarrow> free_frames s = {}"
      using h(2) 3(2) by (auto simp: search_result_def)
    then have "search_result s n b (b # bs) fr h s'"
      by (rule search_pass [OF assms(1) sl 3(1) bs ch h(2)])
    ultimately show ?thesis using p by auto
  qed
qed

end
