(* ===== verification/HeapSpec.thy ===== *)
theory HeapSpec
  imports Heap
begin

text \<open>
  What \<^verbatim>\<open>kmalloc\<close> and \<^verbatim>\<open>kfree\<close> promise their callers: the heap as a set of disjoint live blocks,
  each with the number of bytes it spans, header included.
\<close>

section \<open>The abstract heap\<close>

text \<open>
  \<open>page_block s v fs\<close>: the pages from the virtual address \<open>v\<close> on are mapped to the frames \<open>fs\<close>, which
  belong to nobody else, and the first one starts with an intact header.
\<close>

definition page_block :: "'a heap_scheme \<Rightarrow> u64 \<Rightarrow> u64 list \<Rightarrow> bool" where
  "page_block s v fs \<longleftrightarrow>
     page_aligned v \<and> KERNEL_HEAP_BASE \<le> v \<and> fs \<noteq> [] \<and>
     unat v + 4096 * length fs \<le> unat (kernel_heap_vaddr s) \<and>
     (\<forall>j < length fs. aspace s (root s) (vidx (v + of_nat j * 4096)) = (fs ! j OR VMM_KERNEL)) \<and>
     (\<forall>f \<in> set fs. f \<in> managed_frames s - free_frames s \<and> f + hhdm_offset s \<notin> tables s (root s)) \<and>
     low32 (mem s (hd fs + hhdm_offset s)) = MAGIC_PAGE \<and>
     mem s (hd fs + hhdm_offset s + 8) = of_nat (length fs)"

definition live :: "(u64 \<Rightarrow> u64 list) \<Rightarrow> (u64 \<Rightarrow> u64 list) \<Rightarrow> (u64 \<times> u64) set" where
  "live ch fr = {(p, n). slab_size n \<and> p \<in> live1 n (ch n) fr}"

definition slabs_ok :: "'a heap_scheme \<Rightarrow> (u64 \<Rightarrow> u64 list) \<Rightarrow> (u64 \<Rightarrow> u64 list) \<Rightarrow> bool" where
  "slabs_ok s ch fr \<longleftrightarrow>
     map obj_size (caches s) = slab_sizes \<and>
     (\<forall>c \<in> set (caches s). chain s (obj_size c) (first_slab c) (ch (obj_size c)) fr) \<and>
     (\<forall>(p, n) \<in> live ch fr. low32 (mem s p) = MAGIC_SLAB)"

definition block_frames :: "(u64 \<times> u64 list) list \<Rightarrow> u64 list" where
  "block_frames B = concat (map snd B)"

definition heap_rel ::
  "'a heap_scheme \<Rightarrow> (u64 \<Rightarrow> u64 list) \<Rightarrow> (u64 \<Rightarrow> u64 list) \<Rightarrow> (u64 \<times> u64 list) list \<Rightarrow> bool" where
  "heap_rel s ch fr B \<longleftrightarrow>
     pages_ok s \<and> total_pages s \<le> 2 ^ 40 \<and> slabs_ok s ch fr \<and>
     KERNEL_HEAP_BASE \<le> kernel_heap_vaddr s \<and> page_aligned (kernel_heap_vaddr s) \<and>
     (\<forall>(v, fs) \<in> set B. page_block s v fs) \<and> distinct (block_frames B) \<and>
     (\<forall>n b. slab_size n \<longrightarrow> b \<in> set (ch n) \<longrightarrow> b - hhdm_offset s \<notin> set (block_frames B))"

definition blocks ::
  "(u64 \<Rightarrow> u64 list) \<Rightarrow> (u64 \<Rightarrow> u64 list) \<Rightarrow> (u64 \<times> u64 list) list \<Rightarrow> (u64 \<times> nat) set" where
  "blocks ch fr B = (\<lambda>(p, n). (p, unat n)) ` live ch fr \<union> (\<lambda>(v, fs). (v, 4096 * length fs)) ` set B"

definition heap_view :: "'a heap_scheme \<Rightarrow> (u64 \<times> nat) set \<Rightarrow> bool" where
  "heap_view s L \<longleftrightarrow> (\<exists>ch fr B. heap_rel s ch fr B \<and> L = blocks ch fr B)"

lemma vmm_frame_heap:
  assumes "vmm_frame s s'"
  shows "caches s' = caches s" "kernel_heap_vaddr s' = kernel_heap_vaddr s" "total_pages s' = total_pages s"
  using assms by (auto elim!: vmm_frameE)

section \<open>Slab pages\<close>

lemma slabs_okD:
  assumes "slabs_ok s ch fr"
  shows "map obj_size (caches s) = slab_sizes"
    "c \<in> set (caches s) \<Longrightarrow> chain s (obj_size c) (first_slab c) (ch (obj_size c)) fr"
    "(p, n) \<in> live ch fr \<Longrightarrow> low32 (mem s p) = MAGIC_SLAB"
  using assms by (auto simp: slabs_ok_def)

lemma slabs_slab_ok:
  assumes "slabs_ok s ch fr" "slab_size n" "b \<in> set (ch n)"
  shows "slab_ok s n b (fr b)"
proof -
  have "n \<in> obj_size ` set (caches s)"
    using assms(1,2) slabs_okD(1) unfolding slab_size_def by (metis list.set_map)
  then obtain c where "c \<in> set (caches s)" "obj_size c = n" by auto
  then show ?thesis using slabs_okD(2) [OF assms(1), of c] assms(3) by (auto simp: chain_def)
qed

lemma slab_chains_disjoint:
  assumes "slabs_ok s ch fr" "slab_size n" "slab_size n'" "b \<in> set (ch n)" "b \<in> set (ch n')"
  shows "n = n'"
  using slabs_slab_ok [OF assms(1,2,4)] slabs_slab_ok [OF assms(1,3,5)] slab_okD(6) by blast

lemma obj_size_slab: "slabs_ok s ch fr \<Longrightarrow> c \<in> set (caches s) \<Longrightarrow> slab_size (obj_size c)"
  using slabs_okD(1) [of s ch fr] unfolding slab_size_def by (metis image_eqI list.set_map)

lemma liveE:
  assumes "(p, n) \<in> live ch fr"
  obtains b where "slab_size n" "b \<in> set (ch n)" "p \<in> set (slots n b)" "p \<notin> set (fr b)"
  using assms by (auto simp: live_def live1_def)

lemma page_block_step:
  assumes pb: "page_block s v fs" and ok: "pages_ok s" and st: "heap_step s s' P"
    and P: "P \<inter> tables s (root s) = {}" "hd fs + hhdm_offset s \<notin> P"
  shows "page_block s' v fs"
proof -
  note d = heap_stepD [OF st] and k = vmm_frame_heap [OF heap_stepD(1) [OF st]]
  have f: "hd fs \<in> managed_frames s" "hd fs \<notin> free_frames s" using pb by (auto simp: page_block_def)
  have al: "page_aligned (hd fs + hhdm_offset s)"
    using pmm.managed_aligned [OF f(1)] ok by (simp add: pages_ok_def vmm_inv_def hhdm_ok_def page_aligned_add)
  have "mem s' a = mem s a" if "page_base a = hd fs + hhdm_offset s" for a
    using d(7) [of a] that P(2) f(2) by simp
  then have "mem s' (hd fs + hhdm_offset s) = mem s (hd fs + hhdm_offset s)"
    "mem s' (hd fs + hhdm_offset s + 8) = mem s (hd fs + hhdm_offset s + 8)"
    using slab_fields [OF al] by blast+
  then show ?thesis
    using pb heap_step_pages(2,3) [OF ok st P(1)] d(3) unfolding page_block_def k d by auto
qed

text \<open>
  A change of the slab pages \<open>P\<close> that ends in a well-formed set of slabs keeps the whole heap
  well-formed.
\<close>

lemma heap_rel_slabs:
  assumes rel: "heap_rel s ch fr B" and st: "heap_step s s' P"
    and P: "\<And>b. b \<in> P \<Longrightarrow> \<exists>n. slab_size n \<and> b \<in> set (ch n)"
    and new: "\<And>n b. slab_size n \<Longrightarrow> b \<in> set (ch' n) \<Longrightarrow>
                (\<exists>n. slab_size n \<and> b \<in> set (ch n)) \<or> b - hhdm_offset s \<in> free_frames s"
    and sl: "slabs_ok s' ch' fr'"
  shows "heap_rel s' ch' fr' B"
proof -
  have ok: "pages_ok s" and so: "slabs_ok s ch fr" and pb: "(v, fs) \<in> set B \<Longrightarrow> page_block s v fs"
    and away: "slab_size n \<Longrightarrow> b \<in> set (ch n) \<Longrightarrow> b - hhdm_offset s \<notin> set (block_frames B)" for v fs n b
    using rel by (auto simp: heap_rel_def)
  have T: "P \<inter> tables s (root s) = {}" using P slabs_slab_ok [OF so] slab_okD(5) by blast
  have "page_block s' v fs" if vb: "(v, fs) \<in> set B" for v fs
  proof (rule page_block_step [OF pb [OF vb] ok st T])
    have "hd fs \<in> set fs" using pb [OF vb] by (simp add: page_block_def)
    then have "hd fs \<in> set (block_frames B)" using vb by (force simp: block_frames_def)
    then show "hd fs + hhdm_offset s \<notin> P" using P away by fastforce
  qed
  moreover have "f \<notin> free_frames s" if "f \<in> set (block_frames B)" for f
    using that pb by (fastforce simp: block_frames_def page_block_def)
  ultimately show ?thesis
    using rel sl heap_step_pages(1) [OF ok st T] new away
    unfolding heap_rel_def vmm_frame_heap [OF heap_stepD(1) [OF st]] heap_stepD(4) [OF st] by blast
qed

section \<open>Writing into live objects\<close>

text \<open>A change of memory inside one object.\<close>

definition object_update :: "'a vmm_scheme \<Rightarrow> 'a vmm_scheme \<Rightarrow> u64 \<Rightarrow> u64 \<Rightarrow> bool" where
  "object_update s s' q n \<longleftrightarrow>
     s' = s\<lparr>mem := mem s'\<rparr> \<and> (\<forall>a. (\<forall>x < unat n. a \<noteq> q + of_nat x) \<longrightarrow> mem s' a = mem s a)"

lemma object_update_write: "x < unat n \<Longrightarrow> object_update s (mem_write (q + of_nat x) v s) q n"
  by (auto simp: object_update_def mem_write_def)

lemma object_update_other:
  "object_update s s' q n \<Longrightarrow> (\<And>x. x < unat n \<Longrightarrow> a \<noteq> q + of_nat x) \<Longrightarrow> mem s' a = mem s a"
  by (simp add: object_update_def)

lemma slab_write:
  assumes sl: "slab_ok s n b fs" and q: "q \<in> set (slots n b)" "q \<notin> set fs" and u: "object_update s s' q n"
    and ok: "pages_ok s"
  shows "slab_ok s' n b fs" "mem s' (b + 16) = mem s (b + 16)" "heap_step s s' {b}"
proof -
  note d = slab_okD [OF sl] and a = slots_in_page [OF slab_okD(1,2) [OF sl] q(1)]
  have "mem s' c = mem s c" if "page_base c \<noteq> b" for c
    by (rule object_update_other [OF u]) (use that a(1) in auto)
  then have "heap_step s (s\<lparr>mem := mem s'\<rparr>) {b}"
    by (intro heap_step_update [OF heap_step_refl [OF pages_ok_pmm [OF ok]]]) simp
  then show st: "heap_step s s' {b}" using u by (simp add: object_update_def)
  have hd: "mem s' c = mem s c" if "c \<in> {b, b + 8, b + 16}" for c
    by (rule object_update_other [OF u]) (use that a(2) in auto)
  then show "mem s' (b + 16) = mem s (b + 16)" by simp
  have "mem s' f = mem s f" if f: "f \<in> set fs" for f
  proof (rule object_update_other [OF u])
    fix x
    assume x: "x < unat n"
    obtain k j where k: "f = slot n b k" "k < nslots n" "q = slot n b j" "j < nslots n"
      using d(8) f q(1) by (auto simp: slots_def)
    show "f \<noteq> q + of_nat x"
      using slot_inject [OF d(1,2,2) k(2,4) _ x, of 0] x k f q(2) by auto
  qed
  then have "linked (\<lambda>a. Some (mem s' a)) p fs = linked (\<lambda>a. Some (mem s a)) p fs" for p
    by (intro linked_cong) simp
  moreover have "tables s' (root s') = tables s (root s)" using heap_step_pages(2) [OF ok st] d(5) by simp
  ultimately show "slab_ok s' n b fs"
    using d hd heap_stepD(3-5) [OF st] unfolding slab_ok_def by auto
qed

text \<open>A change inside one slab, seen from any chain.\<close>

lemma chain_update:
  assumes ch: "chain s n p bs fr" and b: "slab_ok s m b fs" and st: "heap_step s s' {b}"
    and nx: "mem s' (b + 16) = mem s (b + 16)" and b': "slab_ok s' m b xs" and ok: "pages_ok s"
  shows "chain s' n p bs (fr(b := xs))"
proof -
  have T: "{b} \<inter> tables s (root s) = {}" using slab_okD(5) [OF b] by simp
  have "slab_ok s' n c ((fr(b := xs)) c) \<and> mem s' (c + 16) = mem s (c + 16)" if "c \<in> set bs" for c
  proof -
    have slc: "slab_ok s n c (fr c)" using ch that by (simp add: chain_def)
    show ?thesis
    proof (cases "c = b")
      case True
      then have "n = m" using slab_okD(6) [OF slc] slab_okD(6) [OF b] by simp
      then show ?thesis using b' nx True by simp
    next
      case False
      have m: "mem s' a = mem s a" if "page_base a = c" for a
        using heap_stepD(7) [OF st, of a] that False slab_okD(4) [OF slc] by simp
      have "slab_ok s' n c (fr c)"
        by (rule slab_ok_cong [OF slc m heap_stepD(4,5) [OF st]])
          (use slab_okD(4,5) [OF slc] heap_stepD(3) [OF st] heap_step_pages(2) [OF ok st T] in auto)
      then show ?thesis using m slab_fields(3) [OF slab_okD(2) [OF slc]] False by auto
    qed
  qed
  then show ?thesis
    using ch linked_cong [of bs "\<lambda>c. Some (mem s' (c + 16))" "\<lambda>c. Some (mem s (c + 16))" p]
    by (simp add: chain_def)
qed

lemma chain_write:
  assumes ch: "chain s n p bs fr" and b: "slab_ok s m b (fr b)"
    and q: "q \<in> set (slots m b)" "q \<notin> set (fr b)" and u: "object_update s s' q m" and ok: "pages_ok s"
  shows "chain s' n p bs fr"
proof -
  note w = slab_write [OF b q u ok]
  show ?thesis using chain_update [OF ch b w(3,2,1) ok] by simp
qed

text \<open>Two live objects share no cell.\<close>

lemma live_inject:
  assumes so: "slabs_ok s ch fr" and p: "(p, n) \<in> live ch fr" and q: "(q, m) \<in> live ch fr"
    and xy: "x < unat n" "y < unat m" and e: "p + of_nat x = q + of_nat y"
  shows "p = q \<and> n = m \<and> x = y"
proof -
  obtain b where b: "slab_size n" "b \<in> set (ch n)" "p \<in> set (slots n b)" using p by (rule liveE)
  obtain c where c: "slab_size m" "c \<in> set (ch m)" "q \<in> set (slots m c)" using q by (rule liveE)
  note sb = slabs_slab_ok [OF so b(1,2)] and sc = slabs_slab_ok [OF so c(1,2)]
  have "b = c"
    using slots_in_page(1) [OF b(1) slab_okD(2) [OF sb] b(3) xy(1)]
      slots_in_page(1) [OF c(1) slab_okD(2) [OF sc] c(3) xy(2)] e by simp
  moreover have "n = m" using slab_okD(6) [OF sb] slab_okD(6) [OF sc] \<open>b = c\<close> by simp
  moreover obtain k j where "p = slot n b k" "k < nslots n" "q = slot m c j" "j < nslots m"
    using b(3) c(3) by (auto simp: slots_def)
  ultimately show ?thesis using slot_inject [OF b(1) slab_okD(2) [OF sb] slab_okD(2) [OF sb], of k j x y] xy e by auto
qed

lemma heap_rel_write:
  assumes rel: "heap_rel s ch fr B" and q: "(q, n) \<in> live ch fr" and u: "object_update s s' q n"
    and v: "low32 (mem s' q) = MAGIC_SLAB"
  shows "heap_rel s' ch fr B"
proof -
  have ok: "pages_ok s" and so: "slabs_ok s ch fr" using rel by (auto simp: heap_rel_def)
  obtain b where b: "slab_size n" "b \<in> set (ch n)" "q \<in> set (slots n b)" "q \<notin> set (fr b)"
    using q by (rule liveE)
  note sl = slabs_slab_ok [OF so b(1,2)]
  note w = slab_write [OF sl b(3,4) u ok]
  have cs: "caches s' = caches s" by (rule vmm_frame_heap(1) [OF heap_stepD(1) [OF w(3)]])
  have "low32 (mem s' p) = MAGIC_SLAB" if p: "(p, m) \<in> live ch fr" for p m
  proof (cases "p = q")
    case False
    have "slab_size m" using p by (simp add: live_def)
    then have "0 < unat m" using slab_size_cases(1) [of m] by auto
    then have "mem s' p = mem s p"
      using live_inject [OF so p q, of 0] False by (intro object_update_other [OF u]) auto
    then show ?thesis using slabs_okD(3) [OF so p] by simp
  qed (use v in simp)
  then have "slabs_ok s' ch fr"
    unfolding slabs_ok_def cs using slabs_okD(1) [OF so] slabs_okD(2) [OF so]
      chain_write [where fr = fr, OF _ sl b(3,4) u ok] by auto
  from heap_rel_slabs [OF rel w(3) _ _ this] show ?thesis using b by auto
qed

section \<open>Allocating from a slab\<close>

lemma find_cache:
  assumes so: "slabs_ok s ch fr" and t: "t \<le> 1024"
  shows "\<exists>c. find (\<lambda>c. t \<le> obj_size c) (caches s) = Some c \<and> c \<in> set (caches s) \<and> t \<le> obj_size c"
proof -
  have "1024 \<in> obj_size ` set (caches s)"
    using slabs_okD(1) [OF so] by (metis list.set_map slab_sizes_def list.set_intros)
  then obtain c0 where "c0 \<in> set (caches s)" "t \<le> obj_size c0" using t by auto
  then obtain c where c: "find (\<lambda>c. t \<le> obj_size c) (caches s) = Some c"
    by (metis (mono_tags, lifting) find_None_iff option.exhaust)
  then show ?thesis by (auto simp: find_Some_iff)
qed

text \<open>The effect of a search at the level of the heap.\<close>

lemma heap_rel_search:
  assumes rel: "heap_rel s ch fr B" and c: "c \<in> set (caches s)"
    and res: "search_result s (obj_size c) (first_slab c) (ch (obj_size c)) fr h s'"
  shows "\<exists>ch' fr'. pages_ok s' \<and> heap_step s s' (set (ch (obj_size c))) \<and>
           links_only s s' (set (ch (obj_size c))) \<and> caches s' = caches s \<and> takes_one s s' \<and>
           (\<forall>c \<in> set (caches s'). chain s' (obj_size c) (first_slab c) (ch' (obj_size c)) fr') \<and>
           (\<forall>n b. slab_size n \<longrightarrow> b \<in> set (ch' n) \<longrightarrow> b \<in> set (ch n) \<or> b - hhdm_offset s \<in> free_frames s) \<and>
           (if h = NULL then (first_slab c = NULL \<or> free_frames s = {}) \<and> live ch' fr' = live ch fr
            else (h, obj_size c) \<notin> live ch fr \<and> live ch' fr' = insert (h, obj_size c) (live ch fr))"
proof -
  let ?n = "obj_size c"
  have ok: "pages_ok s" and so: "slabs_ok s ch fr" using rel by (auto simp: heap_rel_def)
  note ch = slabs_okD(2) [OF so c]
  from res obtain bs' fr' where st: "heap_step s s' (set (ch ?n))" and lo: "links_only s s' (set (ch ?n))"
    and one: "takes_one s s'" and ch': "chain s' ?n (first_slab c) bs' fr'"
    and new: "\<forall>b \<in> set bs'. b \<in> set (ch ?n) \<or> b - hhdm_offset s \<in> free_frames s"
    and old: "\<forall>b. b \<notin> set bs' \<longrightarrow> fr' b = fr b"
    and lv: "if h = NULL then (ch ?n = [] \<or> free_frames s = {}) \<and> live1 ?n bs' fr' = live1 ?n (ch ?n) fr
             else h \<notin> live1 ?n (ch ?n) fr \<and> live1 ?n bs' fr' = insert h (live1 ?n (ch ?n) fr)"
    unfolding search_result_def by blast
  let ?ch = "ch(?n := bs')"
  have T: "set (ch ?n) \<inter> tables s (root s) = {}" by (rule chain_tables [OF ch])
  have cs: "caches s' = caches s" by (rule vmm_frame_heap(1) [OF heap_stepD(1) [OF st]])
  have nz: "slab_size ?n" by (rule obj_size_slab [OF so c])
  have other: "b \<notin> set bs'" "b \<notin> set (ch ?n)" if "slab_size m" "m \<noteq> ?n" "b \<in> set (ch m)" for m b
    using that slab_chains_disjoint [OF so that(1) nz that(3)] new
      slab_okD(4) [OF slabs_slab_ok [OF so that(1,3)]] by blast+
  have chains: "chain s' (obj_size d) (first_slab d) (?ch (obj_size d)) fr'" if d: "d \<in> set (caches s)" for d
  proof (cases "obj_size d = ?n")
    case True
    have "distinct (map obj_size (caches s))" unfolding slabs_okD(1) [OF so] by (simp add: slab_sizes_def)
    then have "d = c" using True c d by (metis distinct_map inj_on_eq_iff)
    then show ?thesis using ch' by simp
  next
    case False
    note dn = obj_size_slab [OF so d]
    have "chain s' (obj_size d) (first_slab d) (ch (obj_size d)) fr'"
      by (rule chain_step [OF ok slabs_okD(2) [OF so d] st T]) (use other [OF dn False] old in auto)
    then show ?thesis using False by simp
  qed
  have l1: "live1 m (ch m) fr' = live1 m (ch m) fr" if "slab_size m" "m \<noteq> ?n" for m
    using other [OF that] old by (auto simp: live1_def)
  have lve: "live ?ch fr' = {(p, m). slab_size m \<and> (if m = ?n then p \<in> live1 ?n bs' fr' else p \<in> live1 m (ch m) fr)}"
    using l1 by (auto simp: live_def)
  have "if h = NULL then (first_slab c = NULL \<or> free_frames s = {}) \<and> live ?ch fr' = live ch fr
        else (h, ?n) \<notin> live ch fr \<and> live ?ch fr' = insert (h, ?n) (live ch fr)"
    using lv nz ch unfolding lve by (auto simp: live_def chain_def split: if_splits)
  moreover have "b \<in> set (ch n) \<or> b - hhdm_offset s \<in> free_frames s" if "slab_size n" "b \<in> set (?ch n)" for n b
    using that new by (auto split: if_splits)
  ultimately show ?thesis
    using st lo cs chains one heap_step_pages(1) [OF ok st T]
    by (intro exI [of _ ?ch] exI [of _ fr']) auto
qed

lemma heap_viewI: "heap_rel s ch fr B \<Longrightarrow> heap_view s (blocks ch fr B)"
  by (auto simp: heap_view_def)

lemma live_address:
  assumes rel: "heap_rel s ch fr B" and p: "(p, n) \<in> live ch fr" and x: "x < unat n"
  shows "direct (p + of_nat x)" "p + of_nat x \<noteq> NULL" "p + of_nat x \<notin> {page_base (p + of_nat x) + 8, page_base (p + of_nat x) + 16}"
    "page_base (p + of_nat x) - hhdm_offset s \<notin> free_frames s"
    "page_base (p + of_nat x) \<in> set (ch n)" "page_base (p + of_nat x) - hhdm_offset s \<in> managed_frames s"
proof -
  have ok: "pages_ok s" and so: "slabs_ok s ch fr" using rel by (auto simp: heap_rel_def)
  obtain b where b: "slab_size n" "b \<in> set (ch n)" "p \<in> set (slots n b)" using p by (rule liveE)
  note sl = slabs_slab_ok [OF so b(1,2)]
  note pb = slots_in_page [OF b(1) slab_okD(2) [OF sl] b(3) x]
  obtain k where k: "p = slot n b k" "k < nslots n" using b(3) by (auto simp: slots_def)
  have "p + of_nat x = at b (24 + k * unat n + x)" using k by (simp add: slot_def)
  then show "direct (p + of_nat x)" using slab_direct [OF ok sl slot_bound [OF b(1) k(2) x]] by metis
  show "p + of_nat x \<noteq> NULL"
  proof
    assume "p + of_nat x = NULL"
    then have "b = NULL" using pb(1) by simp
    then show False using slab_nonnull [OF ok sl] by simp
  qed
  show "p + of_nat x \<notin> {page_base (p + of_nat x) + 8, page_base (p + of_nat x) + 16}"
    using pb by auto
  show "page_base (p + of_nat x) - hhdm_offset s \<notin> free_frames s" "page_base (p + of_nat x) \<in> set (ch n)"
    "page_base (p + of_nat x) - hhdm_offset s \<in> managed_frames s"
    using pb(1) b(2) slab_okD(3,4) [OF sl] by simp_all
qed

lemma links_only_live:
  assumes rel: "heap_rel s ch fr B" and st: "heap_step s s' P" and lo: "links_only s s' P"
    and p: "(p, n) \<in> live ch fr" and x: "x < unat n"
  shows "mem s' (p + of_nat x) = mem s (p + of_nat x)"
proof (cases "page_base (p + of_nat x) \<in> P")
  case True
  then show ?thesis using lo live_address(3) [OF rel p x] by (auto simp: links_only_def)
next
  case False
  then show ?thesis using heap_stepD(7) [OF st] live_address(4) [OF rel p x] by blast
qed

lemma slab_size_24: "slab_size n \<Longrightarrow> 24 < unat n" "slab_size n \<Longrightarrow> 16 < unat n" "slab_size n \<Longrightarrow> 0 < unat n"
  using slab_size_cases(1) [of n] by auto

text \<open>What a request for \<open>t\<close> bytes, header included, does to the slabs.\<close>

definition small_result ::
  "'a heap_scheme \<Rightarrow> (u64 \<Rightarrow> u64 list) \<Rightarrow> (u64 \<Rightarrow> u64 list) \<Rightarrow> u64 \<Rightarrow> u64 \<Rightarrow> u64 \<Rightarrow> 'a heap_scheme \<Rightarrow>
   (u64 \<Rightarrow> u64 list) \<Rightarrow> (u64 \<Rightarrow> u64 list) \<Rightarrow> bool" where
  "small_result s ch fr sz t p s' ch' fr' \<longleftrightarrow>
     (\<exists>P. heap_step s s' P \<and> (\<forall>b \<in> P. \<exists>n. slab_size n \<and> b \<in> set (ch n))) \<and>
     (\<forall>n b. slab_size n \<longrightarrow> b \<in> set (ch' n) \<longrightarrow> b \<in> set (ch n) \<or> b - hhdm_offset s \<in> free_frames s) \<and>
     takes_one s s' \<and>
     (\<forall>(q, m) \<in> live ch fr. \<forall>x < unat m. mem s' (q + of_nat x) = mem s (q + of_nat x)) \<and>
     (if p = NULL
      then live ch' fr' = live ch fr \<and> (free_frames s = {} \<or> (\<exists>c \<in> set (caches s). first_slab c = NULL))
      else \<exists>n. slab_size n \<and> t \<le> n \<and> (p - 24, n) \<notin> live ch fr \<and>
             live ch' fr' = insert (p - 24, n) (live ch fr) \<and> mem s' (p - 8) = sz)"

lemma kmalloc_small_spec:
  assumes rel: "heap_rel s ch fr B" and t: "t \<le> 1024"
  shows "\<exists>p s' ch' fr'. kmalloc_small sz t s = Some (p, s') \<and> heap_rel s' ch' fr' B \<and>
           small_result s ch fr sz t p s' ch' fr'"
proof -
  have ok: "pages_ok s" and so: "slabs_ok s ch fr" using rel by (auto simp: heap_rel_def)
  from find_cache [OF so t] obtain c where c: "find (\<lambda>c. t \<le> obj_size c) (caches s) = Some c"
    "c \<in> set (caches s)" "t \<le> obj_size c" by blast
  let ?n = "obj_size c"
  have n: "slab_size ?n" by (rule obj_size_slab [OF so c(2)])
  from kmalloc_search_spec [OF ok slabs_okD(2) [OF so c(2)]] obtain h s1 where
    h: "kmalloc_search ?n (first_slab c) s = Some (h, s1)"
    and res: "search_result s ?n (first_slab c) (ch ?n) fr h s1" by blast
  from heap_rel_search [OF rel c(2) res] obtain ch' fr' where
    ok1: "pages_ok s1" and st: "heap_step s s1 (set (ch ?n))" and lo: "links_only s s1 (set (ch ?n))"
    and cs: "caches s1 = caches s" and one: "takes_one s s1"
    and chs: "\<forall>c \<in> set (caches s1). chain s1 (obj_size c) (first_slab c) (ch' (obj_size c)) fr'"
    and new: "\<And>n b. slab_size n \<Longrightarrow> b \<in> set (ch' n) \<Longrightarrow> b \<in> set (ch n) \<or> b - hhdm_offset s \<in> free_frames s"
    and lv: "if h = NULL then (first_slab c = NULL \<or> free_frames s = {}) \<and> live ch' fr' = live ch fr
             else (h, ?n) \<notin> live ch fr \<and> live ch' fr' = insert (h, ?n) (live ch fr)"
    by blast
  note keep = links_only_live [OF rel st lo]
  have Pn: "\<forall>b \<in> set (ch ?n). \<exists>n. slab_size n \<and> b \<in> set (ch n)" using n by blast
  have magic: "low32 (mem s1 q) = MAGIC_SLAB" if "(q, m) \<in> live ch fr" for q m
    using keep [OF that, of 0] slabs_okD(3) [OF so that] slab_size_24(3) [of m] that by (auto simp: live_def)
  show ?thesis
  proof (cases "h = NULL")
    case True
    then have "slabs_ok s1 ch' fr'"
      unfolding slabs_ok_def using chs cs slabs_okD(1) [OF so] lv magic by auto
    from heap_rel_slabs [OF rel st _ _ this] have "heap_rel s1 ch' fr' B" using n new by blast
    moreover have "small_result s ch fr sz t NULL s1 ch' fr'"
      unfolding small_result_def using True c(2) lv st Pn keep new one by auto
    moreover have "kmalloc_small sz t s = Some (NULL, s1)" using True c(1) h by (simp add: kmalloc_small_def)
    ultimately show ?thesis by blast
  next
    case False
    let ?s2 = "mem_write h (set_low32 (mem s1 h) MAGIC_SLAB) s1"
    let ?s3 = "mem_write (h + 16) sz ?s2"
    have hl: "(h, ?n) \<in> live ch' fr'" and hn: "(h, ?n) \<notin> live ch fr"
      and lv': "live ch' fr' = insert (h, ?n) (live ch fr)" using lv False by auto
    obtain b where b: "b \<in> set (ch' ?n)" "h \<in> set (slots ?n b)" "h \<notin> set (fr' b)"
      using hl by (auto elim: liveE)
    have slb: "slab_ok s1 ?n b (fr' b)" using chs b(1) c(2) cs by (auto simp: chain_def)
    have u2: "object_update s1 ?s2 h ?n"
      using object_update_write [OF slab_size_24(3) [OF n], of s1 h] by simp
    note w = slab_write(3) [OF slb b(2,3) u2 ok1]
    have st2: "heap_step s ?s2 (set (ch ?n))"
      by (rule heap_step_trans [OF st]) (use w new [OF n] b(1) in auto)
    have "chain ?s2 (obj_size d) (first_slab d) (ch' (obj_size d)) fr'" if "d \<in> set (caches s1)" for d
      using chain_write [where fr = fr', OF _ slb b(2,3) u2 ok1] chs that by auto
    moreover have "low32 (mem ?s2 q) = MAGIC_SLAB" if "(q, m) \<in> live ch' fr'" for q m
      using magic that lv' by (auto simp: mem_write_def)
    ultimately have so2: "slabs_ok ?s2 ch' fr'"
      unfolding slabs_ok_def using cs slabs_okD(1) [OF so] by (auto simp: mem_write_def)
    from heap_rel_slabs [OF rel st2 _ _ this] have rel2: "heap_rel ?s2 ch' fr' B" using n new by blast
    have rel3: "heap_rel ?s3 ch' fr' B"
    proof (rule heap_rel_write [OF rel2 hl])
      show "object_update ?s2 ?s3 h ?n"
        using object_update_write [OF slab_size_24(2) [OF n], of ?s2 h sz] by simp
      show "low32 (mem ?s3 h) = MAGIC_SLAB" by (simp add: mem_write_def)
    qed
    have a: "direct h" "direct (h + 16)" "h + 24 \<noteq> NULL"
      using live_address(1) [OF rel2 hl slab_size_24(3) [OF n]]
        live_address(1) [OF rel2 hl slab_size_24(2) [OF n]]
        live_address(2) [OF rel2 hl slab_size_24(1) [OF n]] by simp_all
    have run: "kmalloc_small sz t s = Some (h + 24, ?s3)"
      using c(1) h False a by (simp add: kmalloc_small_def)
    have st3: "heap_step s ?s3 (set (ch ?n))"
    proof (rule heap_step_trans [OF st2])
      show "heap_step ?s2 ?s3 {b}"
        using heap_step_write [of ?s2 "h + 16" sz] rel2 slots_in_page(1) [OF n slab_okD(2) [OF slb] b(2) slab_size_24(2) [OF n]]
        by (simp add: heap_rel_def pages_ok_pmm)
    qed (use new [OF n] b(1) in auto)
    have "mem ?s3 (q + of_nat x) = mem s (q + of_nat x)" if q: "(q, m) \<in> live ch fr" and x: "x < unat m" for q m x
    proof -
      have "q + of_nat x \<noteq> h + of_nat y" if "y < unat ?n" for y
        using live_inject [OF so2 _ hl x that, of q] q hn lv' by auto
      from this [OF slab_size_24(3) [OF n]] this [OF slab_size_24(2) [OF n]]
      have "mem ?s3 (q + of_nat x) = mem s1 (q + of_nat x)" by (simp add: mem_write_def)
      then show ?thesis using keep [OF q x] by simp
    qed
    moreover have "mem ?s3 (h + 24 - 8) = sz" by (simp add: mem_write_def)
    ultimately have "small_result s ch fr sz t (h + 24) ?s3 ch' fr'"
      unfolding small_result_def using st3 Pn n c(3) hn lv' a(3) new one by (auto simp: takes_one_def)
    then show ?thesis using run rel3 by blast
  qed
qed

section \<open>Returning an object to its slab\<close>

lemma slot_even:
  assumes "slab_size n" "page_aligned b" "p \<in> set (slots n b)"
  shows "even (unat p)"
proof -
  obtain k where k: "p = slot n b k" "k < nslots n" using assms(3) by (auto simp: slots_def)
  have o: "24 + k * unat n < 4096" by (rule slot_bound0 [OF assms(1) k(2)])
  have "unat p = unat b + (24 + k * unat n)"
    unfolding k(1) slot_def using unat_page_offset [OF assms(2) of_nat_less_page [OF o]] unat_small [OF o] by simp
  moreover have "even (unat n)" using slab_size_cases(1) [OF assms(1)] by auto
  moreover have "4096 dvd unat b" using assms(2) by (simp add: page_aligned_iff mod_eq_0_iff_dvd)
  then have "even (unat b)" by (rule dvd_trans [rotated]) simp
  ultimately show ?thesis by simp
qed

lemma even_not_magic:
  assumes "even (unat w)"
  shows "low32 w \<noteq> MAGIC_SLAB" "low32 w \<noteq> MAGIC_PAGE"
proof -
  have "unat (low32 w) = unat w mod 2 ^ 32"
    by (simp add: low32_def unsigned_ucast_eq take_bit_eq_mod)
  then have "even (unat (low32 w))" using assms by (simp add: dvd_mod_iff)
  then show "low32 w \<noteq> MAGIC_SLAB" "low32 w \<noteq> MAGIC_PAGE"
    by (auto simp: MAGIC_SLAB_def MAGIC_PAGE_def)
qed

lemma slab_push:
  assumes ok: "pages_ok s" and sl: "slab_ok s n b fs" and q: "q \<in> set (slots n b)" "q \<notin> set fs"
  defines "s' \<equiv> mem_write (b + 8) q (mem_write q (mem s (b + 8)) s)"
  shows "slab_ok s' n b (q # fs)" "heap_step s s' {b}" "mem s' (b + 16) = mem s (b + 16)"
    "low32 (mem s' q) \<noteq> MAGIC_SLAB" "low32 (mem s' q) \<noteq> MAGIC_PAGE"
proof -
  note d = slab_okD [OF sl] and qp = slots_page_base [OF slab_okD(1,2) [OF sl] q(1)]
  let ?s1 = "mem_write q (mem s (b + 8)) s"
  have st1: "heap_step s ?s1 {b}" using heap_step_write [OF pages_ok_pmm [OF ok], of q] qp(1) by simp
  have "pages_ok ?s1" by (rule heap_step_pages(1) [OF ok st1]) (use d(5) in simp)
  then have "heap_step ?s1 s' {b}"
    using heap_step_write [OF pages_ok_pmm, of ?s1 "b + 8"] slab_fields(2) [OF d(2)] by (simp add: s'_def)
  with st1 show st: "heap_step s s' {b}" by (rule heap_step_trans) simp
  have f: "mem s' (b + 8) = q" "mem s' q = mem s (b + 8)" "mem s' b = mem s b"
    using qp slab_fields_distinct [OF d(2)] by (simp_all add: s'_def mem_write_def)
  show "mem s' (b + 16) = mem s (b + 16)"
    using qp slab_fields_distinct [OF d(2)] by (simp add: s'_def mem_write_def)
  have qn: "q \<noteq> NULL" using qp(1) slab_nonnull [OF ok sl] by auto
  have "mem s' a = mem s a" if "a \<in> set fs" for a
    using that q(2) slots_page_base(3) [OF d(1,2)] d(8) by (auto simp: s'_def mem_write_def)
  then have "linked (\<lambda>a. Some (mem s' a)) (mem s (b + 8)) fs = linked (\<lambda>a. Some (mem s a)) (mem s (b + 8)) fs"
    by (intro linked_cong) simp
  then have "linked (\<lambda>a. Some (mem s' a)) (mem s' (b + 8)) (q # fs)"
    using d(7) f qn by simp
  moreover have "tables s' (root s') = tables s (root s)" using heap_step_pages(2) [OF ok st] d(5) by simp
  ultimately show "slab_ok s' n b (q # fs)"
    using d f(3) q(1) heap_stepD(3-5) [OF st] unfolding slab_ok_def by auto
  have "even (unat (mem s (b + 8)))"
  proof (cases fs)
    case Nil
    then show ?thesis using d(7) by simp
  next
    case (Cons a as)
    then show ?thesis using d(7,8) slot_even [OF d(1,2), of a] by auto
  qed
  then show "low32 (mem s' q) \<noteq> MAGIC_SLAB" "low32 (mem s' q) \<noteq> MAGIC_PAGE"
    unfolding f(2) by (rule even_not_magic)+
qed

lemma kfree_small_spec:
  assumes rel: "heap_rel s ch fr B" and q: "(q, n) \<in> live ch fr"
  shows "\<exists>s' fr'. kfree (q + 24) s = Some s' \<and> heap_rel s' ch fr' B \<and> live ch fr' = live ch fr - {(q, n)} \<and>
           free_frames s' = free_frames s \<and> heap_step s s' {page_base q} \<and>
           (\<forall>(p, m) \<in> live ch fr'. \<forall>x < unat m. mem s' (p + of_nat x) = mem s (p + of_nat x)) \<and>
           kfree (q + 24) s' = Some (log_error ''KFREE'' s')"
proof -
  have ok: "pages_ok s" and so: "slabs_ok s ch fr" using rel by (auto simp: heap_rel_def)
  obtain b where b: "slab_size n" "b \<in> set (ch n)" "q \<in> set (slots n b)" "q \<notin> set (fr b)"
    using q by (rule liveE)
  note sl = slabs_slab_ok [OF so b(1,2)]
  let ?s = "mem_write (b + 8) q (mem_write q (mem s (b + 8)) s)" and ?fr = "fr(b := q # fr b)"
  note p = slab_push [OF ok sl b(3,4)]
  have qb: "page_base q = b" by (rule slots_page_base(1) [OF b(1) slab_okD(2) [OF sl] b(3)])
  have dir: "direct q" "direct (b + 8)" "q + 24 \<noteq> NULL"
    using live_address(1) [OF rel q slab_size_24(3) [OF b(1)]] slab_fields_direct(2) [OF ok sl]
      live_address(2) [OF rel q slab_size_24(1) [OF b(1)]] by simp_all
  have run: "kfree (q + 24) s = Some ?s"
    using dir slabs_okD(3) [OF so q] qb by (simp add: kfree_def Let_def)
  have again: "kfree (q + 24) ?s = Some (log_error ''KFREE'' ?s)"
    using dir p(4,5) by (simp add: kfree_def Let_def)
  have lv: "live ch ?fr = live ch fr - {(q, n)}"
  proof -
    have "p \<in> live1 m (ch m) ?fr \<longleftrightarrow> p \<in> live1 m (ch m) fr \<and> (p, m) \<noteq> (q, n)" if m: "slab_size m" for p m
    proof -
      have "c = b \<and> m = n" if "c \<in> set (ch m)" "q \<in> set (slots m c)" for c
        using slots_page_base(1) [OF m slab_okD(2) [OF slabs_slab_ok [OF so m that(1)]] that(2)] qb
          slab_chains_disjoint [OF so m b(1), of b] that(1) b(2) by auto
      then have "p \<notin> set (?fr c) \<longleftrightarrow> p \<notin> set (fr c) \<and> (p, m) \<noteq> (q, n)"
        if "c \<in> set (ch m)" "p \<in> set (slots m c)" for c
        using that by auto
      then show ?thesis unfolding live1_def by blast
    qed
    then show ?thesis by (auto simp: live_def)
  qed
  have keep: "mem ?s (p + of_nat x) = mem s (p + of_nat x)" if l: "(p, m) \<in> live ch ?fr" and x: "x < unat m" for p m x
  proof -
    have pl: "(p, m) \<in> live ch fr" "(p, m) \<noteq> (q, n)" using l lv by auto
    have "p + of_nat x \<noteq> q + of_nat 0"
      using live_inject [OF so pl(1) q x slab_size_24(3) [OF b(1)]] pl(2) by auto
    moreover have "p + of_nat x \<noteq> b + 8"
      using live_address(3) [OF rel pl(1) x] slab_fields(2) [OF slab_okD(2) [OF sl]] by auto
    ultimately show ?thesis by (simp add: mem_write_def)
  qed
  have "low32 (mem ?s p) = MAGIC_SLAB" if l: "(p, m) \<in> live ch ?fr" for p m
  proof -
    have "0 < unat m" "(p, m) \<in> live ch fr" using l lv slab_size_24(3) [of m] by (auto simp: live_def)
    then show ?thesis using keep [OF l, of 0] slabs_okD(3) [OF so] by simp
  qed
  moreover have "caches ?s = caches s" by (simp add: mem_write_def)
  ultimately have "slabs_ok ?s ch ?fr"
    unfolding slabs_ok_def
    using slabs_okD(1) [OF so] chain_update [OF slabs_okD(2) [OF so] sl p(2,3,1) ok] by auto
  from heap_rel_slabs [OF rel p(2) _ _ this] have "heap_rel ?s ch ?fr B" using b by blast
  moreover have "free_frames ?s = free_frames s" by (simp add: mem_write_def)
  moreover have "\<forall>(p, m) \<in> live ch ?fr. \<forall>x < unat m. mem ?s (p + of_nat x) = mem s (p + of_nat x)"
    by (intro ballI, clarify, rule keep)
  ultimately show ?thesis
    using run again lv p(2) unfolding qb by (intro exI [of _ ?s] exI [of _ ?fr] conjI) assumption+
qed

end
