(* ===== verification/HeapPages.thy ===== *)
theory HeapPages
  imports HeapSpec
begin

text \<open>
  The blocks of \<^verbatim>\<open>mm/heap.c\<close> that span whole pages, and the contract of \<^verbatim>\<open>kmalloc\<close>, \<^verbatim>\<open>kfree\<close> and
  \<^verbatim>\<open>kcalloc\<close> as the rest of the kernel uses it.
\<close>

section \<open>Addresses of the heap range\<close>

lemma page_base_bit: "bit (page_base a) n \<longleftrightarrow> 12 \<le> n \<and> bit a n"
  unfolding page_base_def FFF_mask by (auto simp: bit_simps dest: bit_imp_le_length)

lemma vidx_page_base: "vidx (page_base a) = vidx a"
  by (auto simp: vidx_def intro!: bit_eqI simp: idx_bit page_base_bit)

lemma pte_frame_kernel:
  assumes f: "f \<in> managed_frames s" and t: "total_pages s \<le> 2 ^ 40"
  shows "pte_frame (f OR VMM_KERNEL) = f" "(f OR VMM_KERNEL) AND VMM_PRESENT \<noteq> 0"
    "page_base (f OR VMM_KERNEL) = f"
proof -
  have al: "page_aligned f" and "unat f div 4096 < unat (total_pages s)" using f by (auto simp: managed_frames_def)
  moreover have "unat (total_pages s) \<le> 2 ^ 40" using t by (simp add: word_le_nat_alt)
  ultimately have "unat f div 4096 < 2 ^ 40" by linarith
  then have "unat f < 2 ^ 52" by simp
  then have "take_bit 52 f = f"
    by (simp add: word_unat_eq_iff unsigned_take_bit_eq take_bit_nat_eq_self)
  then have hi: "bit f n \<Longrightarrow> n < 52" for n by (metis bit_take_bit_iff)
  have "page_base f = f" using al by simp
  then have lo: "bit f n \<Longrightarrow> 12 \<le> n" for n by (metis page_base_bit)
  have M: "(0x000FFFFFFFFFF000 :: u64) = mask 52 AND NOT (mask 12)" by (simp add: mask_eq_exp_minus_1)
  have K: "VMM_KERNEL = mask 2" by (simp add: vmm_flags mask_eq_exp_minus_1)
  show "pte_frame (f OR VMM_KERNEL) = f"
    unfolding pte_frame_def M K by (rule bit_eqI) (auto simp: bit_simps dest: hi lo)
  have "(f OR VMM_KERNEL) AND VMM_PRESENT = (f AND VMM_PRESENT) OR (VMM_KERNEL AND VMM_PRESENT)"
    by (rule bit.conj_disj_distrib2)
  then show "(f OR VMM_KERNEL) AND VMM_PRESENT \<noteq> 0" by (simp add: vmm_flags or_eq_0_iff)
  show "page_base (f OR VMM_KERNEL) = f" using al by (simp add: page_base_or) (simp add: vmm_flags page_base_def)
qed

text \<open>Page \<open>j\<close> of the virtual range that starts at \<open>v\<close>.\<close>

abbreviation vpage :: "u64 \<Rightarrow> nat \<Rightarrow> u64" where
  "vpage v j \<equiv> v + of_nat j * 4096"

definition vrange :: "u64 \<Rightarrow> nat \<Rightarrow> bool" where
  "vrange v n \<longleftrightarrow> page_aligned v \<and> KERNEL_HEAP_BASE \<le> v \<and> unat v + 4096 * n < 2 ^ 64"

lemma unat_vpage:
  assumes "vrange v n" "j \<le> n"
  shows "unat (vpage v j) = unat v + 4096 * j" "KERNEL_HEAP_BASE \<le> vpage v j" "page_aligned (vpage v j)"
proof -
  have "unat v + 4096 * j < 2 ^ 64" using assms by (simp add: vrange_def)
  then have j: "unat v + 4096 * j < 18446744073709551616" by simp
  then have "unat (of_nat j :: u64) = j" by (intro unat_of_nat_u64) simp
  then show *: "unat (vpage v j) = unat v + 4096 * j" using j by (simp add: unat_word_ariths)
  show "KERNEL_HEAP_BASE \<le> vpage v j" using assms(1) * by (simp add: vrange_def word_le_nat_alt)
  show "page_aligned (vpage v j)" using assms(1) by (simp add: vrange_def page_aligned_add)
qed

lemma heap_range_high:
  assumes "KERNEL_HEAP_BASE \<le> a"
  shows "drop_bit 48 a = 0xFFFF"
proof -
  have "unat (drop_bit 48 a) = unat a div 2 ^ 48" by (simp add: drop_bit_eq_div unat_div)
  moreover have "unat KERNEL_HEAP_BASE \<le> unat a" using assms by (simp add: word_le_nat_alt)
  then have "18446744071830503424 \<le> unat a" by (simp add: KERNEL_HEAP_BASE_def)
  then have "unat a div 281474976710656 = 65535" using unat_u64_less [of a] by simp
  ultimately have "unat (drop_bit 48 a) = unat (0xFFFF :: u64)" by simp
  then show ?thesis by (simp only: word_unat_eq_iff)
qed

lemma vidx_heap:
  assumes "page_aligned a" "page_aligned b" "KERNEL_HEAP_BASE \<le> a" "KERNEL_HEAP_BASE \<le> b"
  shows "vidx a = vidx b \<longleftrightarrow> a = b"
  using vidx_inject [OF assms(1,2)] heap_range_high [OF assms(3)] heap_range_high [OF assms(4)] by simp

lemma vidx_vpage:
  assumes "vrange v n" "vrange w m" "i \<le> n" "j \<le> m"
  shows "vidx (vpage v i) = vidx (vpage w j) \<longleftrightarrow> unat v + 4096 * i = unat w + 4096 * j"
  using vidx_heap [OF unat_vpage(3) [OF assms(1,3)] unat_vpage(3) [OF assms(2,4)]
      unat_vpage(2) [OF assms(1,3)] unat_vpage(2) [OF assms(2,4)]]
    unat_vpage(1) [OF assms(1,3)] unat_vpage(1) [OF assms(2,4)] by (metis word_unat_eq_iff)

text \<open>An access inside a mapped page of the range.\<close>

lemma mmu_vpage:
  assumes v: "vrange v n" "j \<le> n" and k: "k < 4096"
    and e: "aspace s (root s) (vidx (vpage v j)) = (f OR VMM_KERNEL)"
    and f: "f \<in> managed_frames s" "total_pages s \<le> 2 ^ 40"
  shows "mmu s (at (vpage v j) k) = Some (at (f + hhdm_offset s) k)"
proof -
  note al = unat_vpage(3) [OF v]
  have pb: "page_base (at (vpage v j) k) = vpage v j" by (rule page_base_at [OF al k])
  then have "vidx (at (vpage v j) k) = vidx (vpage v j)" by (metis vidx_page_base)
  moreover have "at (vpage v j) k AND 0xFFF = of_nat k"
    using page_split [of "at (vpage v j) k"] pb by simp
  moreover have "\<not> at (vpage v j) k < KERNEL_HEAP_BASE"
  proof -
    have "unat (at (vpage v j) k) = unat (vpage v j) + k"
      using unat_page_offset [OF al of_nat_less_page [OF k]] unat_small [OF k] by simp
    then show ?thesis using unat_vpage(2) [OF v] by (simp add: word_less_nat_alt word_le_nat_alt)
  qed
  ultimately show ?thesis
    using e pte_frame_kernel [OF f] by (simp add: mmu_def phys_to_virt_def)
qed

section \<open>Mapping the pages of a block\<close>

lemma vmm_stepD:
  assumes "vmm_step r s s'"
  shows "vmm_inv s' r" "vmm_frame s s'" "free_frames s' \<subseteq> free_frames s"
    "hhdm_offset s' = hhdm_offset s" "managed_frames s' = managed_frames s"
    "a \<in> tables s' r \<Longrightarrow> a \<in> tables s r \<or> a - hhdm_offset s \<in> free_frames s - free_frames s'"
    "page_base c \<notin> tables s r \<Longrightarrow> page_base c - hhdm_offset s \<notin> free_frames s \<Longrightarrow> mem s' c = mem s c"
  using assms vmm_frame_fields [of s s'] unfolding vmm_step_def by (auto simp: subset_iff)

lemma alloc_vmm_step:
  assumes inv: "vmm_inv s r" and a: "pmm_alloc s = Some (f, s1)" and f: "f \<noteq> NULL"
  shows "vmm_step r s s1" "aspace s1 r = aspace s r" "f \<in> free_frames s" "f \<notin> free_frames s1"
    "f \<in> managed_frames s" "Suc (card (free_frames s1)) = card (free_frames s)" "f + hhdm_offset s \<notin> tables s1 r"
    "tables s1 r = tables s r"
proof -
  have ok: "pmm_ok s" using inv by (simp add: vmm_inv_def)
  note fr = pmm.alloc_fresh [OF ok a] and pf = pmm_alloc_frame [OF a]
  note vf = pmm_frame_vmm_frame [OF pf] and fm = pmm_frame_mem [OF pf]
  show "vmm_step r s s1" "aspace s1 r = aspace s r"
    using vmm_step_same_mem [OF inv vf fm(1) _ fr(1)] fr(3) by auto
  show ff: "f \<in> free_frames s" "f \<in> managed_frames s" using fr(6,7) f by auto
  show "f \<notin> free_frames s1" using fr(3) by simp
  have "finite (free_frames s)" by (rule pmm.finite_frames [OF ok])
  then show "Suc (card (free_frames s1)) = card (free_frames s)"
    unfolding fr(3) using ff(1) by (rule card_Suc_Diff1)
  show tb: "tables s1 r = tables s r" by (simp add: tables_def fm)
  show "f + hhdm_offset s \<notin> tables s1 r" using free_not_table [OF inv ff(1)] by (simp add: tb)
qed

lemma vmm_map_room:
  assumes "vmm_inv s r" "3 \<le> card (free_frames s)"
  shows "\<exists>s'. vmm_map r v p fl s = Some s' \<and> vmm_step r s s' \<and> aspace s' r = (aspace s r)(vidx v := p OR fl) \<and>
              card (free_frames s) \<le> card (free_frames s') + 3"
  using vmm_map_outcome [OF assms(1), of v p fl] assms(2) by (auto simp: map_outcome_def)

text \<open>The pages \<open>i\<close> to \<open>n - 1\<close> of the range at \<open>v\<close> get the fresh frames \<open>fs\<close>.\<close>

definition pages_mapped :: "u64 \<Rightarrow> u64 \<Rightarrow> nat \<Rightarrow> nat \<Rightarrow> u64 list \<Rightarrow> 'a vmm_scheme \<Rightarrow> 'a vmm_scheme \<Rightarrow> bool" where
  "pages_mapped r v i n fs s s' \<longleftrightarrow>
     vmm_step r s s' \<and> length fs = n - i \<and> distinct fs \<and> set fs \<subseteq> free_frames s - free_frames s' \<and>
     card (free_frames s) \<le> card (free_frames s') + 4 * (n - i) \<and>
     (\<forall>f \<in> set fs. f + hhdm_offset s \<notin> tables s' r) \<and>
     (\<forall>j < n - i. aspace s' r (vidx (vpage v (i + j))) = (fs ! j OR VMM_KERNEL)) \<and>
     (\<forall>w. (\<forall>j. i \<le> j \<longrightarrow> j < n \<longrightarrow> w \<noteq> vidx (vpage v j)) \<longrightarrow> aspace s' r w = aspace s r w)"

lemma pages_mapped_Cons:
  assumes vr: "vrange v n" and i: "i < n" and st: "vmm_step r s s2" and st': "pages_mapped r v (Suc i) n fs s2 s'"
    and f: "f \<in> free_frames s" "f \<notin> free_frames s2" "f + hhdm_offset s \<notin> tables s2 r"
    and as: "aspace s2 r = (aspace s r)(vidx (vpage v i) := (f OR VMM_KERNEL))"
    and cd: "card (free_frames s) \<le> card (free_frames s2) + 4"
  shows "pages_mapped r v i n (f # fs) s s'"
proof -
  note d = vmm_stepD [OF st]
  have p: "vmm_step r s2 s'" "length fs = n - Suc i" "distinct fs" "set fs \<subseteq> free_frames s2 - free_frames s'"
    "\<forall>g \<in> set fs. g + hhdm_offset s \<notin> tables s' r"
    "\<And>j. j < n - Suc i \<Longrightarrow> aspace s' r (vidx (vpage v (Suc i + j))) = (fs ! j OR VMM_KERNEL)"
    "\<And>w. (\<forall>j. Suc i \<le> j \<longrightarrow> j < n \<longrightarrow> w \<noteq> vidx (vpage v j)) \<Longrightarrow> aspace s' r w = aspace s2 r w"
    using st' d(4) by (auto simp: pages_mapped_def)
  note d' = vmm_stepD [OF p(1)]
  have "f + hhdm_offset s \<notin> tables s' r" using d'(6) [of "f + hhdm_offset s"] f d(4) by auto
  moreover have "aspace s' r (vidx (vpage v (i + j))) = ((f # fs) ! j OR VMM_KERNEL)" if "j < n - i" for j
  proof (cases j)
    case 0
    have "vidx (vpage v i) \<noteq> vidx (vpage v k)" if "Suc i \<le> k" "k < n" for k
      using vidx_vpage [OF vr vr, of i k] that i by simp
    then show ?thesis using 0 p(7) [of "vidx (vpage v i)"] as by simp
  next
    case (Suc k)
    then show ?thesis using p(6) [of k] that by simp
  qed
  moreover have "aspace s' r w = aspace s r w" if w: "\<forall>j. i \<le> j \<longrightarrow> j < n \<longrightarrow> w \<noteq> vidx (vpage v j)" for w
    using p(7) [of w] w as i by simp
  moreover have "f \<notin> set fs" "set fs \<subseteq> free_frames s" using p(4) f(2) d(3) by auto
  moreover have "card (free_frames s) \<le> card (free_frames s') + 4 * (n - i)"
  proof -
    have "card (free_frames s2) \<le> card (free_frames s') + 4 * (n - Suc i)" using st' by (simp add: pages_mapped_def)
    then show ?thesis using cd i by linarith
  qed
  ultimately show ?thesis
    using vmm_step_trans [OF st p(1)] p(2-5) f d'(3) i by (auto simp: pages_mapped_def)
qed

lemma kmalloc_pages_spec:
  assumes "vmm_inv s r" "vrange v (unat n)" "i \<le> unat n" "4 * (unat n - i) \<le> card (free_frames s)"
  shows "\<exists>fs s'. kmalloc_pages (of_nat i) n r v s = Some (True, s') \<and> pages_mapped r v i (unat n) fs s s'"
  using assms
proof (induction "unat n - i" arbitrary: i s)
  case 0
  then have "i = unat n" by simp
  then show ?case using vmm_step_refl [OF 0(2)] by (simp add: kmalloc_pages.simps pages_mapped_def)
next
  case (Suc d)
  have i: "i < unat n" using Suc.hyps(2) by simp
  then have "unat (of_nat i :: u64) = i" using unat_u64_less [of n] by (intro unat_of_nat_u64) simp
  then have lt: "of_nat i < n" using i by (simp add: word_less_nat_alt)
  have ok: "pmm_ok s" using Suc.prems(1) by (simp add: vmm_inv_def)
  from pmm.alloc_total [OF ok] obtain f s1 where a: "pmm_alloc s = Some (f, s1)" by blast
  have "free_frames s \<noteq> {}" using Suc.prems(4) i by auto
  then have fn: "f \<noteq> NULL" using pmm.alloc_fresh(5) [OF ok a] by blast
  note al = alloc_vmm_step [OF Suc.prems(1) a fn]
  have "3 \<le> card (free_frames s1)" using al(6) Suc.prems(4) i by linarith
  from vmm_map_room [OF vmm_stepD(1) [OF al(1)] this, of "vpage v i" f VMM_KERNEL] obtain s2 where
    m: "vmm_map r (vpage v i) f VMM_KERNEL s1 = Some s2" and st2: "vmm_step r s1 s2"
    and as: "aspace s2 r = (aspace s1 r)(vidx (vpage v i) := (f OR VMM_KERNEL))"
    and cd: "card (free_frames s1) \<le> card (free_frames s2) + 3" by blast
  have "4 * (unat n - Suc i) \<le> card (free_frames s2)" using cd al(6) Suc.prems(4) i by linarith
  moreover have "d = unat n - Suc i" using Suc.hyps(2) by simp
  ultimately obtain fs s' where r: "kmalloc_pages (of_nat (Suc i)) n r v s2 = Some (True, s')"
    "pages_mapped r v (Suc i) (unat n) fs s2 s'"
    using Suc.hyps(1) [of "Suc i", OF _ vmm_stepD(1) [OF st2] Suc.prems(2)] i by (metis Suc_leI)
  have "f + hhdm_offset s \<notin> tables s2 r"
    using vmm_stepD(6) [OF st2, of "f + hhdm_offset s"] al(4,7) vmm_stepD(4) [OF al(1)] by auto
  moreover have "f \<notin> free_frames s2" using vmm_stepD(3) [OF st2] al(4) by blast
  ultimately have "pages_mapped r v i (unat n) (f # fs) s s'"
    using pages_mapped_Cons [OF Suc.prems(2) i vmm_step_trans [OF al(1) st2] r(2) al(3)] as al(2,6) cd by simp
  moreover have "kmalloc_pages (of_nat i) n r v s = Some (True, s')"
    using lt a fn m r(1)
    by (simp add: kmalloc_pages.simps [of "of_nat i"] VMM_KERNEL_def [symmetric] add.commute)
  ultimately show ?case by blast
qed

section \<open>Steps that leave the heap's blocks alone\<close>

lemma heap_relD:
  assumes "heap_rel s ch fr B"
  shows "pages_ok s" "vmm_inv s (root s)" "total_pages s \<le> 2 ^ 40" "slabs_ok s ch fr"
    "KERNEL_HEAP_BASE \<le> kernel_heap_vaddr s" "page_aligned (kernel_heap_vaddr s)"
    "(v, fs) \<in> set B \<Longrightarrow> page_block s v fs" "distinct (block_frames B)"
    "slab_size n \<Longrightarrow> b \<in> set (ch n) \<Longrightarrow> b - hhdm_offset s \<notin> set (block_frames B)"
  using assms by (auto simp: heap_rel_def pages_ok_def)

lemma block_frame:
  assumes "heap_rel s ch fr B" "f \<in> set (block_frames B)"
  shows "f \<in> managed_frames s" "f \<notin> free_frames s" "f + hhdm_offset s \<notin> tables s (root s)"
  using assms heap_relD(7) [OF assms(1)] by (fastforce simp: block_frames_def page_block_def)+

lemma page_block_hd:
  assumes "page_block s v fs"
  shows "hd fs \<in> set fs" "hd fs = fs ! 0" "0 < length fs"
  using assms by (auto simp: page_block_def hd_conv_nth)

lemma hd_block_frames: "(v, fs) \<in> set B \<Longrightarrow> page_block s v fs \<Longrightarrow> hd fs \<in> set (block_frames B)"
  using page_block_hd(1) by (force simp: block_frames_def)

lemma frame_aligned: "pages_ok s \<Longrightarrow> f \<in> managed_frames s \<Longrightarrow> page_aligned (f + hhdm_offset s)"
  using pmm.managed_aligned by (auto simp: pages_ok_def vmm_inv_def hhdm_ok_def intro: page_aligned_add)

text \<open>
  A state in which the slab pages and the block frames have the same contents, still belong to the
  heap, and are mapped as before.
\<close>

lemma heap_rel_cells:
  assumes rel: "heap_rel s ch fr B" and ok: "pages_ok s'" and vf: "vmm_frame s s'"
    and slab: "\<And>n b a. slab_size n \<Longrightarrow> b \<in> set (ch n) \<Longrightarrow>
                 b - hhdm_offset s \<notin> free_frames s' \<and> b \<notin> tables s' (root s) \<and>
                 (page_base a = b \<longrightarrow> mem s' a = mem s a)"
    and blk: "\<And>f. f \<in> set (block_frames B) \<Longrightarrow> f \<notin> free_frames s' \<and> f + hhdm_offset s \<notin> tables s' (root s)"
    and hdr: "\<And>v fs. (v, fs) \<in> set B \<Longrightarrow> mem s' (hd fs + hhdm_offset s) = mem s (hd fs + hhdm_offset s) \<and>
                mem s' (hd fs + hhdm_offset s + 8) = mem s (hd fs + hhdm_offset s + 8)"
    and as: "\<And>v fs j. (v, fs) \<in> set B \<Longrightarrow> j < length fs \<Longrightarrow>
               aspace s' (root s) (vidx (vpage v j)) = aspace s (root s) (vidx (vpage v j))"
  shows "heap_rel s' ch fr B"
proof -
  note d = heap_relD [OF rel] and k = vmm_frame_heap [OF vf] and h = vmm_frame_fields(1,4) [OF vf]
    and r = vmm_frame_root [OF vf]
  note so = d(4)
  have "chain s' (obj_size c) (first_slab c) (ch (obj_size c)) fr" if c: "c \<in> set (caches s)" for c
    by (rule chain_cong [OF slabs_okD(2) [OF so c] _ h])
      (use slab [OF obj_size_slab [OF so c]] r in auto)
  moreover have "mem s' p = mem s p" if p: "(p, n) \<in> live ch fr" for p n
  proof -
    have "slab_size n" using p by (simp add: live_def)
    then show ?thesis using slab [of n "page_base p" p] live_address(5) [OF rel p slab_size_24(3)] by simp
  qed
  ultimately have "slabs_ok s' ch fr"
    using slabs_okD(1,3) [OF so] unfolding slabs_ok_def k by auto
  moreover have "page_block s' v fs" if vb: "(v, fs) \<in> set B" for v fs
  proof -
    note pb = d(7) [OF vb]
    have f: "f \<in> set (block_frames B)" if "f \<in> set fs" for f
      using vb that by (force simp: block_frames_def)
    have "mem s' (hd fs + hhdm_offset s) = mem s (hd fs + hhdm_offset s)"
      "mem s' (hd fs + hhdm_offset s + 8) = mem s (hd fs + hhdm_offset s + 8)"
      using hdr [OF vb] by blast+
    then show ?thesis
      using pb f blk as [OF vb] unfolding page_block_def k h r by auto
  qed
  ultimately show ?thesis
    using d ok unfolding heap_rel_def k h by blast
qed

lemma heap_rel_headers:
  assumes rel: "heap_rel s ch fr B" and ok: "pages_ok s'" and vf: "vmm_frame s s'"
    and slab: "\<And>n b a. slab_size n \<Longrightarrow> b \<in> set (ch n) \<Longrightarrow>
                 b - hhdm_offset s \<notin> free_frames s' \<and> b \<notin> tables s' (root s) \<and>
                 (page_base a = b \<longrightarrow> mem s' a = mem s a)"
    and blk: "\<And>f. f \<in> set (block_frames B) \<Longrightarrow> f \<notin> free_frames s' \<and> f + hhdm_offset s \<notin> tables s' (root s)"
    and hdr: "\<And>v fs a. (v, fs) \<in> set B \<Longrightarrow> page_base a = hd fs + hhdm_offset s \<Longrightarrow> mem s' a = mem s a"
    and as: "\<And>v fs j. (v, fs) \<in> set B \<Longrightarrow> j < length fs \<Longrightarrow>
               aspace s' (root s) (vidx (vpage v j)) = aspace s (root s) (vidx (vpage v j))"
  shows "heap_rel s' ch fr B"
proof (rule heap_rel_cells [OF rel ok vf slab blk _ as])
  fix v fs
  assume vb: "(v, fs) \<in> set B"
  have "hd fs \<in> managed_frames s" by (rule block_frame(1) [OF rel hd_block_frames [OF vb heap_relD(7) [OF rel vb]]])
  note al = slab_fields [OF frame_aligned [OF heap_relD(1) [OF rel] this]]
  show "mem s' (hd fs + hhdm_offset s) = mem s (hd fs + hhdm_offset s) \<and>
      mem s' (hd fs + hhdm_offset s + 8) = mem s (hd fs + hhdm_offset s + 8)"
    using hdr [OF vb] al by blast
qed

lemma heap_rel_cong:
  assumes rel: "heap_rel s ch fr B" and ok: "pages_ok s'" and vf: "vmm_frame s s'"
    and slab: "\<And>n b a. slab_size n \<Longrightarrow> b \<in> set (ch n) \<Longrightarrow>
                 b - hhdm_offset s \<notin> free_frames s' \<and> b \<notin> tables s' (root s) \<and>
                 (page_base a = b \<longrightarrow> mem s' a = mem s a)"
    and blk: "\<And>f a. f \<in> set (block_frames B) \<Longrightarrow>
                f \<notin> free_frames s' \<and> f + hhdm_offset s \<notin> tables s' (root s) \<and>
                (page_base a = f + hhdm_offset s \<longrightarrow> mem s' a = mem s a)"
    and as: "\<And>v fs j. (v, fs) \<in> set B \<Longrightarrow> j < length fs \<Longrightarrow>
               aspace s' (root s) (vidx (vpage v j)) = aspace s (root s) (vidx (vpage v j))"
  shows "heap_rel s' ch fr B"
proof (rule heap_rel_headers [OF rel ok vf slab])
  show "mem s' a = mem s a" if "(v, fs) \<in> set B" "page_base a = hd fs + hhdm_offset s" for v fs a
    using blk [OF hd_block_frames [OF that(1) heap_relD(7) [OF rel that(1)]]] that(2) by blast
qed (use blk as in blast)+

lemma heap_rel_step:
  assumes rel: "heap_rel s ch fr B" and st: "heap_step s s' P" and T: "P \<inter> tables s (root s) = {}"
    and sl: "\<And>n b. slab_size n \<Longrightarrow> b \<in> set (ch n) \<Longrightarrow> b \<notin> P"
    and bl: "\<And>f. f \<in> set (block_frames B) \<Longrightarrow> f + hhdm_offset s \<notin> P"
  shows "heap_rel s' ch fr B"
proof (rule heap_rel_cong [OF rel])
  note d = heap_relD [OF rel] and h = heap_stepD [OF st]
  note p = heap_step_pages [OF d(1) st T]
  show "pages_ok s'" by (rule p(1))
  show "vmm_frame s s'" by (rule h(1))
  show "b - hhdm_offset s \<notin> free_frames s' \<and> b \<notin> tables s' (root s) \<and> (page_base a = b \<longrightarrow> mem s' a = mem s a)"
    if "slab_size n" "b \<in> set (ch n)" for n b a
    using slab_okD(4,5) [OF slabs_slab_ok [OF d(4) that]] h(3,6) h(7) [of a] p(2) sl [OF that] by auto
  show "f \<notin> free_frames s' \<and> f + hhdm_offset s \<notin> tables s' (root s) \<and>
        (page_base a = f + hhdm_offset s \<longrightarrow> mem s' a = mem s a)" if "f \<in> set (block_frames B)" for f a
    using block_frame [OF rel that] h(3,6) h(7) [of a] p(2) bl [OF that] by auto
  show "aspace s' (root s) (vidx (vpage v j)) = aspace s (root s) (vidx (vpage v j))" for v j
    using p(3) by simp
qed

lemma block_heads_distinct:
  assumes rel: "heap_rel s ch fr B" and b: "(v, fs) \<in> set B" "0 < j" "j < length fs" and w: "(w, gs) \<in> set B"
  shows "hd gs \<noteq> fs ! j"
proof
  assume e: "hd gs = fs ! j"
  have gs: "gs \<noteq> []" using heap_relD(7) [OF rel w] by (simp add: page_block_def)
  obtain B1 B2 where B: "B = B1 @ (v, fs) # B2" using split_list [OF b(1)] by blast
  have ds: "distinct fs" "set fs \<inter> set (block_frames (B1 @ B2)) = {}"
    using heap_relD(8) [OF rel] unfolding B by (auto simp: block_frames_def)
  have "(w, gs) \<in> set (B1 @ B2) \<or> gs = fs" using w unfolding B by auto
  then show False
  proof
    assume "(w, gs) \<in> set (B1 @ B2)"
    then have "hd gs \<in> set (block_frames (B1 @ B2))" using gs by (force simp: block_frames_def)
    then show False using ds(2) e nth_mem [OF b(3)] by auto
  next
    assume "gs = fs"
    then have "fs ! 0 = fs ! j" using e gs by (simp add: hd_conv_nth)
    then show False using ds(1) b(2,3) nth_eq_iff_index_eq by fastforce
  qed
qed

text \<open>A write into a block behind its first page.\<close>

lemma heap_rel_block_write:
  assumes rel: "heap_rel s ch fr B" and b: "(v, fs) \<in> set B" "0 < j" "j < length fs"
    and st: "heap_step s s' {fs ! j + hhdm_offset s}" and ff: "free_frames s' = free_frames s"
  shows "heap_rel s' ch fr B" "tables s' (root s) = tables s (root s)" "aspace s' (root s) = aspace s (root s)"
proof -
  note d = heap_relD [OF rel] and h = heap_stepD [OF st]
  let ?f = "fs ! j"
  have f: "?f \<in> set (block_frames B)" using b(1) nth_mem [OF b(3)] by (force simp: block_frames_def)
  have T: "{?f + hhdm_offset s} \<inter> tables s (root s) = {}" using block_frame(3) [OF rel f] by simp
  note p = heap_step_pages [OF d(1) st T]
  show tb: "tables s' (root s) = tables s (root s)" using p(2) h(6) by simp
  show "aspace s' (root s) = aspace s (root s)" by (rule p(3))
  show "heap_rel s' ch fr B"
  proof (rule heap_rel_headers [OF rel p(1) h(1)])
    show "b - hhdm_offset s \<notin> free_frames s' \<and> b \<notin> tables s' (root s) \<and> (page_base a = b \<longrightarrow> mem s' a = mem s a)"
      if "slab_size n" "b \<in> set (ch n)" for n b a
    proof -
      have "b \<noteq> ?f + hhdm_offset s" using d(9) [OF that] f by auto
      then show ?thesis using slab_okD(4,5) [OF slabs_slab_ok [OF d(4) that]] h(7) [of a] tb ff by auto
    qed
    show "g \<notin> free_frames s' \<and> g + hhdm_offset s \<notin> tables s' (root s)" if "g \<in> set (block_frames B)" for g
      using block_frame [OF rel that] tb ff by simp
    show "mem s' a = mem s a" if w: "(w, gs) \<in> set B" "page_base a = hd gs + hhdm_offset s" for w gs a
    proof -
      have g: "hd gs \<in> set (block_frames B)" by (rule hd_block_frames [OF w(1) d(7) [OF w(1)]])
      have "hd gs \<noteq> ?f" using block_heads_distinct [OF rel b w(1)] by simp
      then show ?thesis using h(7) [of a] w(2) block_frame(2) [OF rel g] by simp
    qed
    show "aspace s' (root s) (vidx (vpage w k)) = aspace s (root s) (vidx (vpage w k))" for w k
      by (simp add: p(3))
  qed
qed

text \<open>A write to a page of a block, off the fields of its header that the heap reads.\<close>

lemma heap_rel_block_cell:
  assumes rel: "heap_rel s ch fr B" and b: "(v, fs) \<in> set B" "j < length fs"
    and c: "page_base c = fs ! j + hhdm_offset s" "c \<noteq> hd fs + hhdm_offset s" "c \<noteq> hd fs + hhdm_offset s + 8"
  shows "heap_rel (mem_write c w s) ch fr B"
proof -
  note d = heap_relD [OF rel]
  let ?f = "fs ! j" and ?s = "mem_write c w s" and ?h = "hhdm_offset s"
  have f: "?f \<in> set (block_frames B)" using b(1) nth_mem [OF b(2)] by (force simp: block_frames_def)
  have st: "heap_step s ?s {?f + ?h}" using heap_step_write [OF pages_ok_pmm [OF d(1)], of c w] c(1) by simp
  have T: "{?f + ?h} \<inter> tables s (root s) = {}" using block_frame(3) [OF rel f] by simp
  note h = heap_stepD [OF st] and p = heap_step_pages [OF d(1) st T]
  have ff: "free_frames ?s = free_frames s" by (simp add: mem_write_def)
  have tb: "tables ?s (root s) = tables s (root s)" using p(2) h(6) by simp
  show ?thesis
  proof (rule heap_rel_cells [OF rel p(1) h(1)])
    show "b - ?h \<notin> free_frames ?s \<and> b \<notin> tables ?s (root s) \<and> (page_base a = b \<longrightarrow> mem ?s a = mem s a)"
      if "slab_size n" "b \<in> set (ch n)" for n b a
    proof -
      have "b \<noteq> ?f + ?h" using d(9) [OF that] f by auto
      then show ?thesis using slab_okD(4,5) [OF slabs_slab_ok [OF d(4) that]] h(7) [of a] tb ff by auto
    qed
    show "g \<notin> free_frames ?s \<and> g + ?h \<notin> tables ?s (root s)" if "g \<in> set (block_frames B)" for g
      using block_frame [OF rel that] tb ff by simp
    show "mem ?s (hd gs + ?h) = mem s (hd gs + ?h) \<and> mem ?s (hd gs + ?h + 8) = mem s (hd gs + ?h + 8)"
      if w: "(u, gs) \<in> set B" for u gs
    proof (cases "hd gs = hd fs")
      case True
      then show ?thesis using c(2,3) by (simp add: mem_write_def)
    next
      case False
      have g: "hd gs \<in> set (block_frames B)" by (rule hd_block_frames [OF w d(7) [OF w]])
      have "hd gs \<noteq> ?f"
      proof (cases "j = 0")
        case True
        then show ?thesis using False page_block_hd(2) [OF d(7) [OF b(1)]] by simp
      next
        case False
        then show ?thesis using block_heads_distinct [OF rel b(1) _ b(2) w] by simp
      qed
      then have "page_base c \<noteq> hd gs + ?h" using c(1) by simp
      then show ?thesis
        using slab_fields [OF frame_aligned [OF d(1) block_frame(1) [OF rel g]]] by (auto simp: mem_write_def)
    qed
    show "aspace ?s (root s) (vidx (vpage u k)) = aspace s (root s) (vidx (vpage u k))" for u k
      by (simp add: p(3))
  qed
qed

lemma heap_rel_vmm_step:
  assumes rel: "heap_rel s ch fr B" and st: "vmm_step (root s) s s'"
    and as: "\<And>v fs j. (v, fs) \<in> set B \<Longrightarrow> j < length fs \<Longrightarrow>
               aspace s' (root s) (vidx (vpage v j)) = aspace s (root s) (vidx (vpage v j))"
  shows "heap_rel s' ch fr B"
proof (rule heap_rel_cong [OF rel])
  note d = heap_relD [OF rel] and h = vmm_stepD [OF st]
  show "pages_ok s'"
    using h(1) d(1) vmm_frame_root [OF h(2)] unfolding pages_ok_def hhdm_low_def h(4,5) by simp
  show "vmm_frame s s'" by (rule h(2))
  show "b - hhdm_offset s \<notin> free_frames s' \<and> b \<notin> tables s' (root s) \<and> (page_base a = b \<longrightarrow> mem s' a = mem s a)"
    if "slab_size n" "b \<in> set (ch n)" for n b a
    using slab_okD(4,5) [OF slabs_slab_ok [OF d(4) that]] h(3) h(6) [of b] h(7) [of a] by auto
  show "f \<notin> free_frames s' \<and> f + hhdm_offset s \<notin> tables s' (root s) \<and>
        (page_base a = f + hhdm_offset s \<longrightarrow> mem s' a = mem s a)" if "f \<in> set (block_frames B)" for f a
    using block_frame [OF rel that] h(3) h(6) [of "f + hhdm_offset s"] h(7) [of a] by auto
qed (rule as)

section \<open>Allocating a block of pages\<close>

lemma vaddr_update [simp]:
  "free_frames (s\<lparr>kernel_heap_vaddr := x\<rparr>) = free_frames s"
  "managed_frames (s\<lparr>kernel_heap_vaddr := x\<rparr>) = managed_frames s"
  "pmm_ok (s\<lparr>kernel_heap_vaddr := x\<rparr>) = pmm_ok s"
  "tables (s\<lparr>kernel_heap_vaddr := x\<rparr>) r = tables s r"
  "aspace (s\<lparr>kernel_heap_vaddr := x\<rparr>) r = aspace s r"
  "root (s\<lparr>kernel_heap_vaddr := x\<rparr>) = root s"
  by (simp_all add: free_frames_def free_set_def managed_frames_def pmm_ok_def pmm_inv_def tables_def
      vmm_get_current_def phys_to_virt_def) (rule ext, simp add: aspace_def split: option.split)

lemma pages_ok_vaddr [simp]: "pages_ok (s\<lparr>kernel_heap_vaddr := x\<rparr>) = pages_ok s"
  by (simp add: pages_ok_def vmm_inv_def hhdm_ok_def pt_tree_def hhdm_low_def)

lemma heap_rel_vaddr:
  assumes rel: "heap_rel s ch fr B" and x: "kernel_heap_vaddr s \<le> x" "page_aligned x"
  shows "heap_rel (s\<lparr>kernel_heap_vaddr := x\<rparr>) ch fr B"
proof -
  note d = heap_relD [OF rel]
  let ?s = "s\<lparr>kernel_heap_vaddr := x\<rparr>"
  have "chain ?s n p bs fr = chain s n p bs fr" for n p bs by (simp add: chain_def slab_ok_def)
  then have "slabs_ok ?s ch fr" using d(4) by (simp add: slabs_ok_def)
  moreover have "page_block ?s v fs" if "(v, fs) \<in> set B" for v fs
    using d(7) [OF that] x(1) by (auto simp: page_block_def word_le_nat_alt)
  moreover have "KERNEL_HEAP_BASE \<le> x" using d(5) x(1) by (rule order_trans)
  ultimately show ?thesis using rel x unfolding heap_rel_def by auto
qed

lemma mem_write_mmu:
  assumes "pages_ok s" "page_base c \<notin> tables s (root s)"
  shows "mmu (mem_write c v s) a = mmu s a" "pages_ok (mem_write c v s)"
    "tables (mem_write c v s) (root (mem_write c v s)) = tables s (root s)"
proof -
  note st = heap_step_write [OF pages_ok_pmm [OF assms(1)], of c v]
  have T: "{page_base c} \<inter> tables s (root s) = {}" using assms(2) by simp
  note p = heap_step_pages [OF assms(1) st T] and d = heap_stepD [OF st]
  show "mmu (mem_write c v s) a = mmu s a" using p(3) d(4,6) by (simp add: mmu_def phys_to_virt_def Let_def)
  show "pages_ok (mem_write c v s)" "tables (mem_write c v s) (root (mem_write c v s)) = tables s (root s)"
    by (rule p(1), rule p(2))
qed

text \<open>The three header fields of a block, stored through its first page.\<close>

lemma store_header:
  assumes ok: "pages_ok s" and f: "f \<in> managed_frames s" "f + hhdm_offset s \<notin> tables s (root s)"
    and m: "\<And>k. k < 4096 \<Longrightarrow> mmu s (at v k) = Some (at (f + hhdm_offset s) k)"
  shows "\<exists>s'. do { s \<leftarrow> store32 v g s; s \<leftarrow> store64 (v + 8) n s; store64 (v + 16) z s } = Some s' \<and>
              heap_step s s' {f + hhdm_offset s} \<and> free_frames s' = free_frames s \<and>
              low32 (mem s' (f + hhdm_offset s)) = g \<and>
              mem s' (f + hhdm_offset s + 8) = n \<and> mem s' (f + hhdm_offset s + 16) = z"
proof -
  let ?b = "f + hhdm_offset s"
  note al = frame_aligned [OF ok f(1)]
  note sf = slab_fields [OF al] slab_fields_distinct [OF al]
  have mm: "mmu s v = Some ?b" "mmu s (v + 8) = Some (?b + 8)" "mmu s (v + 16) = Some (?b + 16)"
    using m [of 0] m [of 8] m [of 16] by simp_all
  let ?s1 = "mem_write ?b (set_low32 (mem s ?b) g) s"
  let ?s2 = "mem_write (?b + 8) n ?s1"
  let ?s3 = "mem_write (?b + 16) z ?s2"
  have w1: "mmu ?s1 a = mmu s a" "pages_ok ?s1" "?b \<notin> tables ?s1 (root ?s1)" for a
    using mem_write_mmu [OF ok, of ?b] sf(1) f(2) by simp_all
  have w2: "mmu ?s2 a = mmu ?s1 a" "pages_ok ?s2" for a
    using mem_write_mmu [OF w1(2), of "?b + 8"] sf(2) w1(3) by simp_all
  have run: "do { s \<leftarrow> store32 v g s; s \<leftarrow> store64 (v + 8) n s; store64 (v + 16) z s } = Some ?s3"
    using mm w1(1) w2(1) by (simp add: store32_def store64_def)
  have "heap_step s ?s1 {?b}" "heap_step ?s1 ?s2 {?b}" "heap_step ?s2 ?s3 {?b}"
    using heap_step_write [OF pages_ok_pmm [OF ok], of ?b] heap_step_write [OF pages_ok_pmm [OF w1(2)], of "?b + 8"]
      heap_step_write [OF pages_ok_pmm [OF w2(2)], of "?b + 16"] sf by simp_all
  then have "heap_step s ?s3 {?b}" by (meson heap_step_trans)
  moreover have "low32 (mem ?s3 ?b) = g" "mem ?s3 (?b + 8) = n" "mem ?s3 (?b + 16) = z"
    using sf(4-6) by (simp_all add: mem_write_def)
  moreover have "free_frames ?s3 = free_frames s" by (simp add: mem_write_def)
  ultimately show ?thesis using run by (intro exI [of _ ?s3] conjI) assumption+
qed

text \<open>The facts about the machine that no operation of the heap changes.\<close>

definition same_machine :: "'a vmm_scheme \<Rightarrow> 'a vmm_scheme \<Rightarrow> bool" where
  "same_machine s s' \<longleftrightarrow>
     hhdm_offset s' = hhdm_offset s \<and> total_pages s' = total_pages s \<and> root s' = root s"

lemma vmm_frame_same_machine: "vmm_frame s s' \<Longrightarrow> same_machine s s'"
  by (simp add: same_machine_def vmm_frame_fields vmm_frame_root)

lemma page_block_below:
  assumes rel: "heap_rel s ch fr B" and vr: "vrange (kernel_heap_vaddr s) n" and b: "(v, gs) \<in> set B" "j < length gs" "i < n"
  shows "vidx (vpage v j) \<noteq> vidx (vpage (kernel_heap_vaddr s) i)"
proof -
  have pb: "page_aligned v" "KERNEL_HEAP_BASE \<le> v" "unat v + 4096 * length gs \<le> unat (kernel_heap_vaddr s)"
    using heap_relD(7) [OF rel b(1)] by (auto simp: page_block_def)
  then have "vrange v (length gs)" using unat_u64_less [of "kernel_heap_vaddr s"] by (simp add: vrange_def)
  from vidx_vpage [OF this vr, of j i] show ?thesis using b(2,3) pb(3) by simp
qed

text \<open>Pages that were just mapped behind all blocks become a block when its header is written.\<close>

lemma new_page_block:
  assumes rel: "heap_rel s ch fr B" and vr: "vrange v (length fs)" and top: "unat v + 4096 * length fs \<le> unat (kernel_heap_vaddr s)"
    and fs: "fs \<noteq> []" "distinct fs" "\<And>f. f \<in> set fs \<Longrightarrow> f \<in> managed_frames s - free_frames s \<and>
      f + hhdm_offset s \<notin> tables s (root s) \<and> f \<notin> set (block_frames B)"
    and nf: "\<And>n b. slab_size n \<Longrightarrow> b \<in> set (ch n) \<Longrightarrow> b - hhdm_offset s \<notin> set fs"
    and as: "\<And>j. j < length fs \<Longrightarrow> aspace s (root s) (vidx (vpage v j)) = (fs ! j OR VMM_KERNEL)"
  shows "\<exists>s'. do { s \<leftarrow> store32 v MAGIC_PAGE s; s \<leftarrow> store64 (v + 8) (of_nat (length fs)) s; store64 (v + 16) z s } = Some s' \<and>
     heap_rel s' ch fr ((v, fs) # B) \<and> heap_step s s' {hd fs + hhdm_offset s} \<and> free_frames s' = free_frames s \<and>
     tables s' (root s) = tables s (root s) \<and> aspace s' (root s) = aspace s (root s)"
proof -
  note d = heap_relD [OF rel]
  let ?f = "hd fs" and ?h = "hhdm_offset s"
  have f: "?f \<in> set fs" "?f = fs ! 0" "0 < length fs" using fs(1) by (auto simp: hd_conv_nth)
  have fm: "?f \<in> managed_frames s" "?f + ?h \<notin> tables s (root s)" using fs(3) [OF f(1)] by auto
  have "mmu s (at v j) = Some (at (?f + ?h) j)" if "j < 4096" for j
    using mmu_vpage [OF vr _ that, of 0 s ?f] as [of 0] f(2,3) fm(1) d(3) by simp
  from store_header [OF d(1) fm this, of MAGIC_PAGE "of_nat (length fs)" z] obtain s' where
    run: "do { s \<leftarrow> store32 v MAGIC_PAGE s; s \<leftarrow> store64 (v + 8) (of_nat (length fs)) s; store64 (v + 16) z s } = Some s'"
    and st: "heap_step s s' {?f + ?h}" and ff: "free_frames s' = free_frames s"
    and hd: "low32 (mem s' (?f + ?h)) = MAGIC_PAGE" "mem s' (?f + ?h + 8) = of_nat (length fs)" by blast
  have T: "{?f + ?h} \<inter> tables s (root s) = {}" using fm(2) by simp
  note h = heap_stepD [OF st] and p = heap_step_pages [OF d(1) st T] and k = vmm_frame_heap [OF heap_stepD(1) [OF st]]
  have rel': "heap_rel s' ch fr B"
    by (rule heap_rel_step [OF rel st T]) (use nf f(1) fs(3) [OF f(1)] in fastforce)+
  have "page_block s' v fs"
    using vr fs(1,3) top as hd h(4,5,6) p(2,3) k(2) ff unfolding page_block_def vrange_def by auto
  then have "heap_rel s' ch fr ((v, fs) # B)"
    using rel' fs nf h(4) unfolding heap_rel_def block_frames_def by auto
  then show ?thesis using run st ff p(2,3) h(6) by auto
qed

text \<open>The block of an allocation: new pages behind all blocks, and up to four pages taken for each.\<close>

definition block_added ::
  "'a heap_scheme \<Rightarrow> 'a heap_scheme \<Rightarrow> nat \<Rightarrow> u64 list \<Rightarrow> bool" where
  "block_added s s' n fs \<longleftrightarrow>
     length fs = n \<and> set fs \<subseteq> free_frames s - free_frames s' \<and> free_frames s' \<subseteq> free_frames s \<and>
     card (free_frames s) \<le> card (free_frames s') + 4 * n \<and>
     vmm_frame (s\<lparr>kernel_heap_vaddr := kernel_heap_vaddr s + of_nat n * 4096\<rparr>) s' \<and>
     (\<forall>a \<in> tables s' (root s). a \<in> tables s (root s) \<or> a - hhdm_offset s \<in> free_frames s) \<and>
     (\<forall>a. page_base a \<notin> tables s (root s) \<longrightarrow> page_base a - hhdm_offset s \<notin> free_frames s \<longrightarrow>
          mem s' a = mem s a) \<and>
     (\<forall>w. (\<forall>j < n. w \<noteq> vidx (vpage (kernel_heap_vaddr s) j)) \<longrightarrow> aspace s' (root s) w = aspace s (root s) w)"

lemma block_added_machine: "block_added s s' n fs \<Longrightarrow> same_machine s s'"
  using vmm_frame_same_machine [of "s\<lparr>kernel_heap_vaddr := kernel_heap_vaddr s + of_nat n * 4096\<rparr>" s']
  by (simp add: block_added_def same_machine_def)

lemma kmalloc_large_spec:
  assumes rel: "heap_rel s ch fr B" and n: "n = (t + 4095) div 4096" "0 < unat n"
    and room: "4 * unat n \<le> card (free_frames s)"
    and space: "unat (kernel_heap_vaddr s) + 4096 * unat n < 2 ^ 64"
  shows "\<exists>s' fs. kmalloc_large sz t s = Some (kernel_heap_vaddr s + 24, s') \<and>
           heap_rel s' ch fr ((kernel_heap_vaddr s, fs) # B) \<and> block_added s s' (unat n) fs"
proof -
  note d = heap_relD [OF rel]
  let ?v = "kernel_heap_vaddr s" and ?r = "root s" and ?h = "hhdm_offset s"
  let ?s0 = "s\<lparr>kernel_heap_vaddr := ?v + n * 4096\<rparr>"
  have vr: "vrange ?v (unat n)" using d(5,6) space by (simp add: vrange_def)
  have top: "unat (?v + n * 4096) = unat ?v + 4096 * unat n" using unat_vpage(1) [OF vr order_refl] by simp
  have rel0: "heap_rel ?s0 ch fr B"
    by (rule heap_rel_vaddr [OF rel]) (use top d(6) in \<open>simp_all add: word_le_nat_alt page_aligned_add\<close>)
  have "4 * (unat n - 0) \<le> card (free_frames ?s0)" using room by simp
  from kmalloc_pages_spec [of ?s0 ?r ?v n 0, OF _ vr _ this] heap_relD(2) [OF rel0]
  obtain fs s1 where k: "kmalloc_pages 0 n ?r ?v ?s0 = Some (True, s1)" and pm: "pages_mapped ?r ?v 0 (unat n) fs ?s0 s1"
    by auto
  have st: "vmm_step ?r ?s0 s1" and fs: "length fs = unat n" "distinct fs" "set fs \<subseteq> free_frames s - free_frames s1"
    and cd: "card (free_frames s) \<le> card (free_frames s1) + 4 * unat n" and ft: "\<forall>f \<in> set fs. f + ?h \<notin> tables s1 ?r"
    and as: "\<And>j. j < unat n \<Longrightarrow> aspace s1 ?r (vidx (vpage ?v j)) = (fs ! j OR VMM_KERNEL)"
    and ao: "\<And>w. \<forall>j < unat n. w \<noteq> vidx (vpage ?v j) \<Longrightarrow> aspace s1 ?r w = aspace s ?r w"
    using pm by (auto simp: pages_mapped_def)
  note h1 = vmm_stepD [OF st] and k1 = vmm_frame_heap [OF vmm_stepD(2) [OF st]]
  have r1: "root s1 = ?r" using vmm_frame_root [OF h1(2)] by simp
  have below: "vidx (vpage v j) \<noteq> vidx (vpage ?v i)" if "(v, gs) \<in> set B" "j < length gs" "i < unat n" for v gs j i
    using page_block_below [OF rel vr that] by simp
  have rel1: "heap_rel s1 ch fr B" using heap_rel_vmm_step [OF rel0, of s1] st ao below by simp
  have len: "of_nat (length fs) = n" by (simp add: fs(1))
  have "\<exists>s2. do { s \<leftarrow> store32 ?v MAGIC_PAGE s1; s \<leftarrow> store64 (?v + 8) (of_nat (length fs)) s; store64 (?v + 16) sz s } = Some s2 \<and>
     heap_rel s2 ch fr ((?v, fs) # B) \<and> heap_step s1 s2 {hd fs + hhdm_offset s1} \<and> free_frames s2 = free_frames s1 \<and>
     tables s2 (root s1) = tables s1 (root s1) \<and> aspace s2 (root s1) = aspace s1 (root s1)"
  proof (rule new_page_block [OF rel1])
    show "vrange ?v (length fs)" "unat ?v + 4096 * length fs \<le> unat (kernel_heap_vaddr s1)" "fs \<noteq> []"
      using vr fs(1) n(2) k1(2) top by auto
    show "f \<in> managed_frames s1 - free_frames s1 \<and> f + hhdm_offset s1 \<notin> tables s1 (root s1) \<and> f \<notin> set (block_frames B)"
      if "f \<in> set fs" for f
      using that fs(3) pmm.frames_managed [of s] pages_ok_pmm [OF d(1)] h1(4,5) block_frame(2) [OF rel] ft r1 by auto
    show "b - hhdm_offset s1 \<notin> set fs" if "slab_size m" "b \<in> set (ch m)" for m b
      using slab_okD(4) [OF slabs_slab_ok [OF d(4) that]] fs(3) h1(4) by auto
  qed (use fs(1,2) as r1 in auto)
  then obtain s2 where s2: "do { s \<leftarrow> store32 ?v MAGIC_PAGE s1; s \<leftarrow> store64 (?v + 8) n s; store64 (?v + 16) sz s } = Some s2"
    and rel2: "heap_rel s2 ch fr ((?v, fs) # B)" and st2: "heap_step s1 s2 {hd fs + ?h}" and ff: "free_frames s2 = free_frames s1"
    and tb: "tables s2 ?r = tables s1 ?r" and as2: "aspace s2 ?r = aspace s1 ?r" unfolding r1 len using h1(4) by auto
  have run: "kmalloc_large sz t s = Some (?v + 24, s2)"
    using k s2 by (auto simp: kmalloc_large_def n(1) [symmetric] Let_def bind_eq_Some_conv)
  have "hd fs \<in> set fs" using fs(1) n(2) by (cases fs) auto
  have m: "mem s2 a = mem s a" if "page_base a \<notin> tables s ?r" "page_base a - ?h \<notin> free_frames s" for a
  proof -
    have "page_base a \<noteq> hd fs + ?h" using that(2) \<open>hd fs \<in> set fs\<close> fs(3) by auto
    then show ?thesis using heap_stepD(7) [OF st2, of a] h1(7) [of a] that h1(3,4) by auto
  qed
  have "block_added s s2 (unat n) fs"
    unfolding block_added_def
    using fs h1(3) cd ff vmm_frame_trans [OF h1(2) heap_stepD(1) [OF st2]] h1(6) tb as2 ao m by auto
  then show ?thesis using run rel2 by blast
qed

section \<open>Returning a block of pages\<close>

lemma release_frame:
  assumes inv: "vmm_inv s r" and f: "f \<in> managed_frames s" "f \<notin> free_frames s" "f + hhdm_offset s \<notin> tables s r"
  shows "\<exists>s'. pmm_free f s = Some s' \<and> vmm_inv s' r \<and> vmm_frame s s' \<and> mem s' = mem s \<and>
              free_frames s' = insert f (free_frames s) \<and> tables s' r = tables s r \<and> aspace s' r = aspace s r"
proof -
  have ok: "pmm_ok s" using inv by (simp add: vmm_inv_def)
  from pmm.release_used [OF ok, of f] f obtain s' where p: "pmm_free f s = Some s'"
    "free_frames s' = insert f (free_frames s)" "managed_frames s' = managed_frames s" "pmm_ok s'" by auto
  note pf = pmm_free_frame [OF p(1)]
  note m = pmm_frame_mem [OF pf]
  have "a - hhdm_offset s \<noteq> f" if "table_path q" "tbl (hhdm_offset s) (mem s) r q = Some a" for q a
    using that f(3) by (auto simp: tables_def)
  then have "pt_tree s' r" using inv unfolding vmm_inv_def pt_tree_def m p(2) by blast
  then have "vmm_inv s' r" using inv p(3,4) unfolding vmm_inv_def hhdm_ok_def m p(3) by blast
  moreover have "tables s' r = tables s r" by (simp add: tables_def m)
  moreover have "aspace s' r = aspace s r" by (rule ext) (simp add: aspace_def m split: option.split)
  ultimately show ?thesis using p pmm_frame_vmm_frame [OF pf] m(1) by blast
qed

lemma unmap_step:
  assumes inv: "vmm_inv s r"
  shows "vmm_inv (vmm_unmap r v s) r" "vmm_frame s (vmm_unmap r v s)" "tables (vmm_unmap r v s) r = tables s r"
    "free_frames (vmm_unmap r v s) = free_frames s" "aspace (vmm_unmap r v s) r = (aspace s r)(vidx v := 0)"
    "page_base a \<notin> tables s r \<Longrightarrow> page_base a - hhdm_offset s \<notin> free_frames s \<Longrightarrow>
       mem (vmm_unmap r v s) a = mem s a"
proof -
  note u = vmm_unmap_spec [OF inv, of v] and d = vmm_stepD [OF vmm_unmap_spec(1) [OF inv, of v]]
  show "vmm_inv (vmm_unmap r v s) r" "vmm_frame s (vmm_unmap r v s)" by (rule d(1), rule d(2))
  show "free_frames (vmm_unmap r v s) = free_frames s" "aspace (vmm_unmap r v s) r = (aspace s r)(vidx v := 0)"
    by (rule u(3), rule u(2))
  have "tables s r \<subseteq> tables (vmm_unmap r v s) r"
    using u(1) d(4) unfolding vmm_step_def tables_def by auto
  then show "tables (vmm_unmap r v s) r = tables s r" using d(6) u(3) by blast
  show "mem (vmm_unmap r v s) a = mem s a"
    if "page_base a \<notin> tables s r" "page_base a - hhdm_offset s \<notin> free_frames s" using d(7) that by blast
qed

text \<open>The state after the first \<open>k\<close> pages of a block have been returned.\<close>

definition pages_freed :: "u64 \<Rightarrow> u64 \<Rightarrow> u64 list \<Rightarrow> nat \<Rightarrow> 'a vmm_scheme \<Rightarrow> 'a vmm_scheme \<Rightarrow> bool" where
  "pages_freed r v fs k s u \<longleftrightarrow>
     vmm_frame s u \<and> vmm_inv u r \<and> free_frames u = free_frames s \<union> set (take k fs) \<and> tables u r = tables s r \<and>
     (\<forall>w. aspace u r w = (if \<exists>j < k. w = vidx (vpage v j) then 0 else aspace s r w)) \<and>
     (\<forall>a. page_base a \<notin> tables s r \<longrightarrow> page_base a - hhdm_offset s \<notin> free_frames s \<union> set fs \<longrightarrow>
          mem u a = mem s a)"

lemma kfree_page_step:
  assumes vr: "vrange v (length fs)" and tp: "total_pages s \<le> 2 ^ 40" and ds: "distinct fs"
    and fs: "\<And>f. f \<in> set fs \<Longrightarrow> f \<in> managed_frames s \<and> f \<notin> free_frames s \<and> f + hhdm_offset s \<notin> tables s r"
    and as: "\<And>j. j < length fs \<Longrightarrow> aspace s r (vidx (vpage v j)) = (fs ! j OR VMM_KERNEL)"
    and u: "pages_freed r v fs k s u" and k: "k < length fs"
  shows "\<exists>u'. kfree_page r v (of_nat k) u = Some u' \<and> pages_freed r v fs (Suc k) s u'"
proof -
  let ?f = "fs ! k" and ?va = "vpage v k"
  have U: "vmm_frame s u" "vmm_inv u r" "free_frames u = free_frames s \<union> set (take k fs)" "tables u r = tables s r"
    "\<And>w. aspace u r w = (if \<exists>j < k. w = vidx (vpage v j) then 0 else aspace s r w)"
    "\<And>a. page_base a \<notin> tables s r \<Longrightarrow> page_base a - hhdm_offset s \<notin> free_frames s \<union> set fs \<Longrightarrow> mem u a = mem s a"
    using u by (auto simp: pages_freed_def)
  note h = vmm_frame_fields [OF U(1)] and un = unmap_step [where v = ?va, OF U(2)]
  let ?u1 = "vmm_unmap r ?va u"
  note h1 = vmm_frame_fields [OF un(2)]
  have fk: "?f \<in> managed_frames s" "?f \<notin> free_frames s" "?f + hhdm_offset s \<notin> tables s r" "?f \<in> set fs"
    using fs k by auto
  have dist: "vidx ?va \<noteq> vidx (vpage v j)" if "j < k" for j
    using vidx_vpage [OF vr vr, of k j] that k by simp
  then have "aspace u r (vidx ?va) = (?f OR VMM_KERNEL)" using U(5) as [OF k] by auto
  then have phys: "vmm_get_phys r ?va u = ?f" using pte_frame_kernel(3) [OF fk(1) tp] by (simp add: vmm_get_phys_eq)
  have "?f \<noteq> NULL" using fk(1) by (auto simp: managed_frames_def)
  have "?f \<notin> set (take k fs)" using ds k by (auto simp: in_set_conv_nth distinct_conv_nth)
  with fk have "?f \<in> managed_frames ?u1" "?f \<notin> free_frames ?u1" "?f + hhdm_offset ?u1 \<notin> tables ?u1 r"
    using un(3,4) U(3,4) h(1,4) h1(1,4) by auto
  from release_frame [OF un(1) this] obtain u2 where u2: "pmm_free ?f ?u1 = Some u2" "vmm_inv u2 r"
    "vmm_frame ?u1 u2" "mem u2 = mem ?u1" "free_frames u2 = insert ?f (free_frames ?u1)"
    "tables u2 r = tables ?u1 r" "aspace u2 r = aspace ?u1 r" by blast
  have run: "kfree_page r v (of_nat k) u = Some u2"
    using phys u2(1) \<open>?f \<noteq> NULL\<close> by (simp add: kfree_page_def Let_def)
  have "free_frames u2 = free_frames s \<union> set (take (Suc k) fs)"
    using u2(5) un(4) U(3) k by (simp add: take_Suc_conv_app_nth)
  moreover have "aspace u2 r w = (if \<exists>j < Suc k. w = vidx (vpage v j) then 0 else aspace s r w)" for w
    unfolding u2(7) un(5) using U(5) [of w] by (auto simp: less_Suc_eq)
  moreover have "mem u2 a = mem s a"
    if a: "page_base a \<notin> tables s r" "page_base a - hhdm_offset s \<notin> free_frames s \<union> set fs" for a
  proof -
    have "page_base a - hhdm_offset u \<notin> free_frames u" using a(2) U(3) h(1) set_take_subset [of k fs] by auto
    then have "mem ?u1 a = mem u a" using un(6) [of a] a(1) U(4) by simp
    then show ?thesis using U(6) [OF a] u2(4) by simp
  qed
  moreover have "vmm_frame s u2" using vmm_frame_trans [OF vmm_frame_trans [OF U(1) un(2)] u2(3)] .
  moreover have "tables u2 r = tables s r" using u2(6) un(3) U(4) by simp
  ultimately have "pages_freed r v fs (Suc k) s u2" using u2(2) unfolding pages_freed_def by blast
  then show ?thesis using run by blast
qed

lemma kfree_pages_spec:
  assumes inv: "vmm_inv s r" and vr: "vrange v (length fs)" and tp: "total_pages s \<le> 2 ^ 40" and ds: "distinct fs"
    and fs: "\<And>f. f \<in> set fs \<Longrightarrow> f \<in> managed_frames s \<and> f \<notin> free_frames s \<and> f + hhdm_offset s \<notin> tables s r"
    and as: "\<And>j. j < length fs \<Longrightarrow> aspace s r (vidx (vpage v j)) = (fs ! j OR VMM_KERNEL)"
    and n: "unat n = length fs"
  shows "\<exists>u. for_u64 0 n (kfree_page r v) s = Some u \<and> pages_freed r v fs (length fs) s u"
proof -
  have "\<exists>u. for_u64 0 n (kfree_page r v) s = Some u \<and> pages_freed r v fs (unat n) s u"
  proof (rule for_u64_rule)
    show "pages_freed r v fs (unat (0 :: u64)) s s" using inv by (simp add: pages_freed_def vmm_frame_def)
    show "0 \<le> n" by simp
    fix k u
    assume k: "k < n" and u: "pages_freed r v fs (unat k) s u"
    have "unat k < length fs" using k n by (simp add: word_less_nat_alt)
    from kfree_page_step [OF vr tp ds fs as u this]
    show "\<exists>u'. kfree_page r v k u = Some u' \<and> pages_freed r v fs (unat (k + 1)) s u'"
      using unat_succ_less [OF k] by simp
  qed
  then show ?thesis using n by simp
qed

lemma kfree_large_spec:
  assumes rel: "heap_rel s ch fr (B1 @ (v, fs) # B2)"
  shows "\<exists>s'. kfree (v + 24) s = Some s' \<and> heap_rel s' ch fr (B1 @ B2) \<and>
              free_frames s' = free_frames s \<union> set fs \<and> tables s' (root s) = tables s (root s) \<and>
              vmm_frame s s' \<and>
              (\<forall>w. aspace s' (root s) w =
                   (if \<exists>j < length fs. w = vidx (vpage v j) then 0 else aspace s (root s) w)) \<and>
              (\<forall>a. page_base a \<notin> tables s (root s) \<longrightarrow>
                   page_base a - hhdm_offset s \<notin> free_frames s \<union> set fs \<longrightarrow> mem s' a = mem s a)"
proof -
  let ?B = "B1 @ (v, fs) # B2" and ?r = "root s" and ?h = "hhdm_offset s"
  note d = heap_relD [OF rel]
  have pb: "page_block s v fs" using d(7) by simp
  have P: "page_aligned v" "KERNEL_HEAP_BASE \<le> v" "fs \<noteq> []"
    "unat v + 4096 * length fs \<le> unat (kernel_heap_vaddr s)"
    "\<And>j. j < length fs \<Longrightarrow> aspace s ?r (vidx (vpage v j)) = (fs ! j OR VMM_KERNEL)"
    "\<And>f. f \<in> set fs \<Longrightarrow> f \<in> managed_frames s \<and> f \<notin> free_frames s \<and> f + ?h \<notin> tables s ?r"
    "low32 (mem s (hd fs + ?h)) = MAGIC_PAGE" "mem s (hd fs + ?h + 8) = of_nat (length fs)"
    using pb by (auto simp: page_block_def)
  have vr: "vrange v (length fs)" using P(1,2,4) unat_u64_less [of "kernel_heap_vaddr s"] by (simp add: vrange_def)
  have dst: "distinct fs" "set fs \<inter> set (block_frames (B1 @ B2)) = {}" "distinct (block_frames (B1 @ B2))"
    using d(8) by (auto simp: block_frames_def)
  have f0: "hd fs = fs ! 0" "hd fs \<in> set fs" "0 < length fs" using P(3) by (auto simp: hd_conv_nth)
  have mm: "mmu s (at v k) = Some (at (hd fs + ?h) k)" if "k < 4096" for k
    using mmu_vpage [OF vr _ that, of 0 s "hd fs"] P(5) [of 0] P(6) [OF f0(2)] f0 d(3) by simp
  have ld: "load32 v s = Some MAGIC_PAGE" "load64 (v + 8) s = Some (of_nat (length fs))"
    using mm [of 0] mm [of 8] P(7,8) by (simp_all add: load32_def load64_def)
  have "length fs < 18446744073709551616" using vr by (simp add: vrange_def)
  then have n: "unat (of_nat (length fs) :: u64) = length fs" by (rule unat_of_nat_u64)
  from kfree_pages_spec [OF d(2) vr d(3) dst(1) P(6,5) n] obtain u where
    u: "for_u64 0 (of_nat (length fs)) (kfree_page ?r v) s = Some u" "pages_freed ?r v fs (length fs) s u"
    by blast
  have U: "vmm_frame s u" "vmm_inv u ?r" "free_frames u = free_frames s \<union> set fs" "tables u ?r = tables s ?r"
    "\<forall>w. aspace u ?r w = (if \<exists>j < length fs. w = vidx (vpage v j) then 0 else aspace s ?r w)"
    "\<forall>a. page_base a \<notin> tables s ?r \<longrightarrow> page_base a - ?h \<notin> free_frames s \<union> set fs \<longrightarrow> mem u a = mem s a"
    using u(2) by (auto simp: pages_freed_def)
  have ru: "root u = ?r" by (rule vmm_frame_root [OF U(1)])
  have "v + 24 \<noteq> NULL"
  proof
    assume "v + 24 = NULL"
    moreover have "page_base (v + 24) = v" using page_base_at [OF P(1), of 24] by simp
    ultimately show False using P(2) by (simp add: KERNEL_HEAP_BASE_def)
  qed
  moreover have "MAGIC_PAGE \<noteq> MAGIC_SLAB" by (simp add: MAGIC_PAGE_def MAGIC_SLAB_def)
  ultimately have run: "kfree (v + 24) s = Some u" using ld u(1) by (simp add: kfree_def Let_def)
  have relB: "heap_rel s ch fr (B1 @ B2)"
    using rel dst(3) by (auto simp: heap_rel_def block_frames_def)
  have sub: "set (block_frames (B1 @ B2)) \<subseteq> set (block_frames ?B)" by (auto simp: block_frames_def)
  have "heap_rel u ch fr (B1 @ B2)"
  proof (rule heap_rel_cong [OF relB _ U(1)])
    show "pages_ok u"
      using U(2) d(1) ru vmm_frame_fields(1,4) [OF U(1)] unfolding pages_ok_def hhdm_low_def by simp
    show "b - ?h \<notin> free_frames u \<and> b \<notin> tables u ?r \<and> (page_base a = b \<longrightarrow> mem u a = mem s a)"
      if "slab_size n" "b \<in> set (ch n)" for n b a
    proof -
      have "b - ?h \<notin> set fs" using d(9) [OF that] by (auto simp: block_frames_def)
      then show ?thesis using slab_okD(4,5) [OF slabs_slab_ok [OF d(4) that]] U(3,4,6) by auto
    qed
    show "f \<notin> free_frames u \<and> f + ?h \<notin> tables u ?r \<and> (page_base a = f + ?h \<longrightarrow> mem u a = mem s a)"
      if "f \<in> set (block_frames (B1 @ B2))" for f a
      using block_frame [OF relB that] dst(2) that U(3,4,6) by auto
    show "aspace u ?r (vidx (vpage w j)) = aspace s ?r (vidx (vpage w j))"
      if w: "(w, gs) \<in> set (B1 @ B2)" "j < length gs" for w gs j
    proof -
      have "page_block s w gs" using d(7) w(1) by auto
      then have e: "aspace s ?r (vidx (vpage w j)) = (gs ! j OR VMM_KERNEL)" "gs ! j \<in> managed_frames s"
        using w(2) by (auto simp: page_block_def)
      have "gs ! j \<in> set (block_frames (B1 @ B2))" using w by (force simp: block_frames_def)
      have "vidx (vpage w j) \<noteq> vidx (vpage v i)" if i: "i < length fs" for i
      proof
        assume "vidx (vpage w j) = vidx (vpage v i)"
        then have "(gs ! j OR VMM_KERNEL) = (fs ! i OR VMM_KERNEL)" using e(1) P(5) [OF i] by simp
        moreover have "fs ! i \<in> managed_frames s" using P(6) i by simp
        ultimately have "gs ! j = fs ! i" using pte_frame_kernel(3) d(3) e(2) by metis
        then show False using dst(2) \<open>gs ! j \<in> set (block_frames (B1 @ B2))\<close> i by (metis disjoint_iff nth_mem)
      qed
      then show ?thesis using U(5) by auto
    qed
  qed
  then show ?thesis using run U by blast
qed

end
