(* ===== verification/KernelHeap.thy ===== *)
theory KernelHeap
  imports HeapPages
begin

text \<open>
  The contract of \<^verbatim>\<open>kmalloc\<close>, \<^verbatim>\<open>kfree\<close> and \<^verbatim>\<open>kcalloc\<close> towards the rest of the kernel, stated on the set
  of live blocks, and the properties of \<^verbatim>\<open>mm/heap.c\<close>.
\<close>

section \<open>Blocks as sets of bytes\<close>

definition block_bytes :: "u64 \<Rightarrow> nat \<Rightarrow> u64 set" where
  "block_bytes p n = (\<lambda>x. p + of_nat x) ` {..<n}"

text \<open>The contents of all blocks in \<open>L\<close> survive.\<close>

definition keeps :: "'a heap_scheme \<Rightarrow> 'a heap_scheme \<Rightarrow> (u64 \<times> nat) set \<Rightarrow> bool" where
  "keeps s s' L \<longleftrightarrow> (\<forall>(q, m) \<in> L. \<forall>x < m. load64 (q + of_nat x) s' = load64 (q + of_nat x) s)"

lemma keeps_mono: "keeps s s' N \<Longrightarrow> M \<subseteq> N \<Longrightarrow> keeps s s' M"
  unfolding keeps_def by blast

lemma keeps_trans: "keeps s s1 L \<Longrightarrow> keeps s1 s2 L \<Longrightarrow> keeps s s2 L"
  unfolding keeps_def by fastforce

lemma root_mem_update: "root (s\<lparr>mem := m\<rparr>) = root s"
  by (simp add: vmm_get_current_def phys_to_virt_def)

lemma live_load64:
  assumes "heap_rel s ch fr B" "(q, n) \<in> live ch fr" "x < unat n"
  shows "load64 (q + of_nat x) s' = Some (mem s' (q + of_nat x))"
  using live_address(1) [OF assms] by simp

lemma page_block_range:
  assumes "page_block s v fs"
  shows "vrange v (length fs)"
  using assms unat_u64_less [of "kernel_heap_vaddr s"] by (simp add: page_block_def vrange_def)

lemma block_address:
  "v + of_nat x = at (vpage v (x div 4096)) (x mod 4096)"
proof -
  have "of_nat x = (of_nat (x div 4096 * 4096 + x mod 4096) :: u64)" by simp
  then show ?thesis by (simp only: of_nat_add of_nat_mult) (simp add: algebra_simps)
qed

lemma page_block_load64:
  assumes rel: "heap_rel s ch fr B" and b: "(v, fs) \<in> set B" and x: "x < 4096 * length fs"
    and as: "aspace s' (root s') (vidx (vpage v (x div 4096))) = aspace s (root s) (vidx (vpage v (x div 4096)))"
    and sm: "same_machine s s'"
  shows "load64 (v + of_nat x) s' = Some (mem s' (at (fs ! (x div 4096) + hhdm_offset s) (x mod 4096)))"
proof -
  note d = heap_relD [OF rel] and pb = heap_relD(7) [OF rel b]
  have j: "x div 4096 < length fs" using x by (simp add: less_mult_imp_div_less mult.commute)
  then have f: "fs ! (x div 4096) \<in> managed_frames s"
    "aspace s (root s) (vidx (vpage v (x div 4096))) = (fs ! (x div 4096) OR VMM_KERNEL)"
    using pb by (auto simp: page_block_def)
  have s': "hhdm_offset s' = hhdm_offset s" "managed_frames s' = managed_frames s" "total_pages s' = total_pages s"
    using sm by (auto simp: same_machine_def managed_frames_def)
  have "mmu s' (at (vpage v (x div 4096)) (x mod 4096)) =
        Some (at (fs ! (x div 4096) + hhdm_offset s') (x mod 4096))"
    by (rule mmu_vpage [OF page_block_range [OF pb]]) (use j f d(3) as s' in auto)
  then show ?thesis by (simp only: block_address [of v x] load64_def s' bind.bind_lunit)
qed

lemma keepsI:
  assumes rel: "heap_rel s ch fr B" and vf: "same_machine s s'"
    and sm: "\<And>q m x. (q, m) \<in> M \<Longrightarrow> x < unat m \<Longrightarrow> mem s' (q + of_nat x) = mem s (q + of_nat x)"
    and M: "M \<subseteq> live ch fr" and C: "set C \<subseteq> set B"
    and as: "\<And>v fs j. (v, fs) \<in> set C \<Longrightarrow> j < length fs \<Longrightarrow>
               aspace s' (root s) (vidx (vpage v j)) = aspace s (root s) (vidx (vpage v j))"
    and lg: "\<And>v fs f a. (v, fs) \<in> set C \<Longrightarrow> f \<in> set fs \<Longrightarrow> page_base a = f + hhdm_offset s \<Longrightarrow>
               mem s' a = mem s a"
  shows "keeps s s' ((\<lambda>(p, n). (p, unat n)) ` M \<union> (\<lambda>(v, fs). (v, 4096 * length fs)) ` set C)"
proof -
  have "load64 (q + of_nat x) s' = load64 (q + of_nat x) s" if "(q, m) \<in> M" "x < unat m" for q m x
  proof -
    have "(q, m) \<in> live ch fr" using that(1) M by blast
    note l = live_load64 [OF rel this that(2)]
    show ?thesis unfolding l sm [OF that] by (rule refl)
  qed
  moreover have "load64 (v + of_nat x) s' = load64 (v + of_nat x) s"
    if b: "(v, fs) \<in> set C" and x: "x < 4096 * length fs" for v fs x
  proof -
    have bB: "(v, fs) \<in> set B" using b C by auto
    let ?j = "x div 4096"
    have j: "?j < length fs" using x by (simp add: less_mult_imp_div_less mult.commute)
    let ?f = "fs ! ?j"
    have fm: "?f \<in> managed_frames s" using heap_relD(7) [OF rel bB] j by (auto simp: page_block_def)
    have "page_base (at (?f + hhdm_offset s) (x mod 4096)) = ?f + hhdm_offset s"
      by (rule page_base_at [OF frame_aligned [OF heap_relD(1) [OF rel] fm]]) simp
    then have "mem s' (at (?f + hhdm_offset s) (x mod 4096)) = mem s (at (?f + hhdm_offset s) (x mod 4096))"
      using lg [OF b, of ?f] j by simp
    moreover have "root s' = root s" "same_machine s s" using vf by (auto simp: same_machine_def)
    ultimately show ?thesis
      using page_block_load64 [OF rel bB x, of s'] page_block_load64 [OF rel bB x, of s] as [OF b j] vf by simp
  qed
  ultimately show ?thesis unfolding keeps_def by auto
qed

lemma keepsI_all:
  assumes "heap_rel s ch fr B" "same_machine s s'"
    and "\<And>q m x. (q, m) \<in> live ch fr \<Longrightarrow> x < unat m \<Longrightarrow> mem s' (q + of_nat x) = mem s (q + of_nat x)"
    and "\<And>v fs j. (v, fs) \<in> set B \<Longrightarrow> j < length fs \<Longrightarrow>
               aspace s' (root s) (vidx (vpage v j)) = aspace s (root s) (vidx (vpage v j))"
    and "\<And>f a. f \<in> set (block_frames B) \<Longrightarrow> page_base a = f + hhdm_offset s \<Longrightarrow> mem s' a = mem s a"
  shows "keeps s s' (blocks ch fr B)"
  unfolding blocks_def
proof (rule keepsI [OF assms(1,2,3)])
  show "mem s' a = mem s a" if "(v, fs) \<in> set B" "f \<in> set fs" "page_base a = f + hhdm_offset s" for v fs f a
    using assms(5) [of f a] that by (force simp: block_frames_def)
qed (use assms(4) in auto)

section \<open>Live blocks do not overlap\<close>

lemma page_block_bytes:
  assumes "page_block s v fs" "x < 4096 * length fs"
  shows "page_base (v + of_nat x) = vpage v (x div 4096)" "KERNEL_HEAP_BASE \<le> v + of_nat x"
    "x div 4096 < length fs"
proof -
  show j: "x div 4096 < length fs" using assms(2) by (simp add: less_mult_imp_div_less mult.commute)
  note vr = page_block_range [OF assms(1)]
  have al: "page_aligned (vpage v (x div 4096))" using unat_vpage(3) [OF vr] j by simp
  show pb: "page_base (v + of_nat x) = vpage v (x div 4096)"
    unfolding block_address [of v x] by (rule page_base_at [OF al]) simp
  have "KERNEL_HEAP_BASE \<le> page_base (v + of_nat x)" unfolding pb using unat_vpage(2) [OF vr] j by simp
  also have "page_base (v + of_nat x) \<le> v + of_nat x" by (simp add: page_base_def word_and_le2)
  finally show "KERNEL_HEAP_BASE \<le> v + of_nat x" .
qed

lemma page_block_entry:
  assumes "heap_rel s ch fr B" "(v, fs) \<in> set B" "j < length fs"
  shows "page_base (aspace s (root s) (vidx (vpage v j))) = fs ! j"
proof -
  have e: "aspace s (root s) (vidx (vpage v j)) = (fs ! j OR VMM_KERNEL)" "fs ! j \<in> managed_frames s"
    using heap_relD(7) [OF assms(1,2)] assms(3) unfolding page_block_def by auto
  show ?thesis unfolding e(1) by (rule pte_frame_kernel(3) [OF e(2) heap_relD(3) [OF assms(1)]])
qed

lemma page_blocks_disjoint:
  assumes rel: "heap_rel s ch fr B" and b: "(v, fs) \<in> set B" "(w, gs) \<in> set B"
    and xy: "x < 4096 * length fs" "y < 4096 * length gs" and e: "v + of_nat x = w + of_nat y"
  shows "(v, fs) = (w, gs)"
proof -
  note d = heap_relD [OF rel]
  note pv = page_block_bytes [OF d(7) [OF b(1)] xy(1)] and pw = page_block_bytes [OF d(7) [OF b(2)] xy(2)]
  let ?i = "x div 4096" and ?j = "y div 4096"
  have e': "vpage v ?i = vpage w ?j" using pv(1) pw(1) e by simp
  then have f: "fs ! ?i = gs ! ?j"
    using page_block_entry [OF rel b(1) pv(3)] page_block_entry [OF rel b(2) pw(3)] by simp
  have ds: "fs = gs \<or> set fs \<inter> set gs = {}" "distinct fs"
  proof -
    have "fs \<in> set (map snd B)" "gs \<in> set (map snd B)" using b by force+
    then show "fs = gs \<or> set fs \<inter> set gs = {}" "distinct fs"
      using d(8) unfolding block_frames_def distinct_concat_iff by blast+
  qed
  then have "fs = gs" using f pv(3) pw(3) by (metis disjoint_iff nth_mem)
  then have "?i = ?j" using f ds(2) pv(3) pw(3) by (simp add: nth_eq_iff_index_eq)
  then show ?thesis using e' \<open>fs = gs\<close> by simp
qed

lemma blocks_disjoint:
  assumes rel: "heap_rel s ch fr B" and p: "(p, n) \<in> blocks ch fr B" and q: "(q, m) \<in> blocks ch fr B"
    and ne: "(p, n) \<noteq> (q, m)"
  shows "block_bytes p n \<inter> block_bytes q m = {}"
proof -
  have so: "slabs_ok s ch fr" by (rule heap_relD(4) [OF rel])
  have "(p, n) = (q, m)" if xy: "x < n" "y < m" and e: "p + of_nat x = q + of_nat y" for x y
  proof -
    have small: "\<not> KERNEL_HEAP_BASE \<le> a + of_nat z" if "(a, k) \<in> live ch fr" "z < unat k" for a k z
      using live_address(1) [OF rel that] by (simp add: direct_def not_le)
    have large: "KERNEL_HEAP_BASE \<le> v + of_nat z" if "(v, fs) \<in> set B" "z < 4096 * length fs" for v fs z
      using page_block_bytes(2) [OF heap_relD(7) [OF rel that(1)] that(2)] .
    consider k l where "(p, k) \<in> live ch fr" "n = unat k" "(q, l) \<in> live ch fr" "m = unat l"
      | k gs where "(p, k) \<in> live ch fr" "n = unat k" "(q, gs) \<in> set B" "m = 4096 * length gs"
      | fs l where "(p, fs) \<in> set B" "n = 4096 * length fs" "(q, l) \<in> live ch fr" "m = unat l"
      | fs gs where "(p, fs) \<in> set B" "n = 4096 * length fs" "(q, gs) \<in> set B" "m = 4096 * length gs"
      using p q by (auto simp: blocks_def)
    then show ?thesis
    proof cases
      case 1
      then show ?thesis using live_inject [OF so 1(1,3)] xy e by auto
    next
      case 2
      then show ?thesis using small [OF 2(1), of x] large [OF 2(3), of y] xy e by simp
    next
      case 3
      then show ?thesis using large [OF 3(1), of x] small [OF 3(3), of y] xy e by simp
    next
      case 4
      then show ?thesis using page_blocks_disjoint [OF rel 4(1,3)] xy e by auto
    qed
  qed
  then show ?thesis using ne by (auto simp: block_bytes_def)
qed

section \<open>Allocation\<close>

text \<open>
  The pages of a large block, and the requests that cannot run out of memory half way: those that count as slab-sized, and larger
  ones with four free pages, for itself and three tables, for each page of the block, and room in the address space.
\<close>

definition pages_for :: "u64 \<Rightarrow> nat" where
  "pages_for sz = (unat sz + 24 + 4095) div 4096"

definition kmalloc_room :: "u64 \<Rightarrow> 'a heap_scheme \<Rightarrow> bool" where
  "kmalloc_room sz s \<longleftrightarrow>
     sz \<le> 1024 \<or>
     unat sz + 24 + 4095 < 2 ^ 64 \<and> 4 * pages_for sz \<le> card (free_frames s) \<and>
     unat (kernel_heap_vaddr s) + 4096 * pages_for sz < 2 ^ 64"

lemma kmalloc_small_contract:
  assumes hv: "heap_view s L" and sz: "0 < sz" "sz \<le> 1000"
  shows "\<exists>p s'. kmalloc sz s = Some (p, s') \<and> keeps s s' L \<and>
     (if p = NULL
      then heap_view s' L \<and> (free_frames s = {} \<or> (\<exists>c \<in> set (caches s). first_slab c = NULL))
      else \<exists>n. unat sz + 24 \<le> n \<and> (p - 24, n) \<notin> L \<and> heap_view s' (insert (p - 24, n) L) \<and>
               load64 (p - 8) s' = Some sz \<and> direct (p - 24))"
proof -
  from hv obtain ch fr B where rel: "heap_rel s ch fr B" and L: "L = blocks ch fr B"
    by (auto simp: heap_view_def)
  have u: "unat (sz + 24) = unat sz + 24" and t: "sz + 24 \<le> 1024"
  proof -
    have "unat sz \<le> 1000" using sz(2) by (simp add: word_le_nat_alt)
    then show "unat (sz + 24) = unat sz + 24" by (simp add: unat_word_ariths)
    then show "sz + 24 \<le> 1024" using \<open>unat sz \<le> 1000\<close> by (simp add: word_le_nat_alt)
  qed
  from kmalloc_small_spec [OF rel t, of sz] obtain p s' ch' fr' where
    k: "kmalloc_small sz (sz + 24) s = Some (p, s')" and rel': "heap_rel s' ch' fr' B"
    and res: "small_result s ch fr sz (sz + 24) p s' ch' fr'" by blast
  from res obtain P where st: "heap_step s s' P" and P: "\<forall>b \<in> P. \<exists>n. slab_size n \<and> b \<in> set (ch n)"
    and kp: "\<forall>(q, m) \<in> live ch fr. \<forall>x < unat m. mem s' (q + of_nat x) = mem s (q + of_nat x)"
    and out: "if p = NULL
      then live ch' fr' = live ch fr \<and> (free_frames s = {} \<or> (\<exists>c \<in> set (caches s). first_slab c = NULL))
      else \<exists>n. slab_size n \<and> sz + 24 \<le> n \<and> (p - 24, n) \<notin> live ch fr \<and>
             live ch' fr' = insert (p - 24, n) (live ch fr) \<and> mem s' (p - 8) = sz"
    unfolding small_result_def by blast
  have run: "kmalloc sz s = Some (p, s')"
  proof -
    have "\<not> sz > SLAB_1024" using sz(2) by (simp add: SLAB_1024_def word_less_nat_alt word_le_nat_alt)
    then show ?thesis using k sz(1) by (simp add: kmalloc_def word_gt_0)
  qed
  have T: "P \<inter> tables s (root s) = {}"
    using P slabs_slab_ok [OF heap_relD(4) [OF rel]] slab_okD(5) by blast
  have "keeps s s' L"
    unfolding L
  proof (rule keepsI_all [OF rel vmm_frame_same_machine [OF heap_stepD(1) [OF st]]])
    show "mem s' (q + of_nat x) = mem s (q + of_nat x)" if "(q, m) \<in> live ch fr" "x < unat m" for q m x
      using kp that by blast
    show "aspace s' (root s) (vidx (vpage v j)) = aspace s (root s) (vidx (vpage v j))" for v j
      by (simp add: heap_step_pages(3) [OF heap_relD(1) [OF rel] st T])
    show "mem s' a = mem s a" if f: "f \<in> set (block_frames B)" "page_base a = f + hhdm_offset s" for f a
    proof (rule heap_stepD(7) [OF st])
      show "page_base a \<notin> P" using P f heap_relD(9) [OF rel] by fastforce
      show "page_base a - hhdm_offset s \<notin> free_frames s" using f block_frame(2) [OF rel f(1)] by simp
    qed
  qed
  moreover have "heap_view s' (blocks ch' fr' B)" by (rule heap_viewI [OF rel'])
  moreover have "\<exists>n. unat sz + 24 \<le> n \<and> (p - 24, n) \<notin> L \<and> heap_view s' (insert (p - 24, n) L) \<and>
               load64 (p - 8) s' = Some sz \<and> direct (p - 24)" if pn: "p \<noteq> NULL"
  proof -
    obtain n where n: "slab_size n" "sz + 24 \<le> n" "(p - 24, n) \<notin> live ch fr"
      "live ch' fr' = insert (p - 24, n) (live ch fr)" "mem s' (p - 8) = sz" using out pn by auto
    have new: "(p - 24, unat n) \<in> blocks ch' fr' B" "blocks ch' fr' B = insert (p - 24, unat n) L"
      unfolding L blocks_def n(4) by auto
    have nl: "(p - 24, n) \<in> live ch' fr'" using n(4) by simp
    have dp: "direct (p - 24)" using live_address(1) [OF rel' nl slab_size_24(3) [OF n(1)]] by simp
    have "(p - 24, unat n) \<notin> L"
    proof
      assume "(p - 24, unat n) \<in> L"
      then consider k where "(p - 24, k) \<in> live ch fr" "unat k = unat n"
        | fs where "(p - 24, fs) \<in> set B" by (auto simp: L blocks_def)
      then show False
      proof cases
        case 1
        then have "k = n" by (simp add: word_unat_eq_iff)
        then show False using 1(1) n(3) by simp
      next
        case 2
        then have "\<not> direct (p - 24)"
          using heap_relD(7) [OF rel 2] by (simp add: page_block_def direct_def not_less)
        then show False using dp by blast
      qed
    qed
    moreover have "load64 (p - 24 + of_nat 16) s' = Some (mem s' (p - 24 + of_nat 16))"
      by (rule live_load64 [OF rel' nl slab_size_24(2) [OF n(1)]])
    moreover have "unat sz + 24 \<le> unat n" using n(2) u by (simp add: word_le_nat_alt)
    ultimately show ?thesis using heap_viewI [OF rel'] new(2) n(5) dp by auto
  qed
  ultimately show ?thesis using run out L by (auto simp: blocks_def split: if_splits)
qed

lemma kmalloc_large_rel:
  assumes rel: "heap_rel s ch fr B" and sz: "1024 < sz" "kmalloc_room sz s"
  shows "\<exists>s' fs. kmalloc sz s = Some (kernel_heap_vaddr s + 24, s') \<and>
           heap_rel s' ch fr ((kernel_heap_vaddr s, fs) # B) \<and> block_added s s' (pages_for sz) fs"
proof -
  let ?n = "(sz + 24 + 4095) div 4096"
  have "\<not> sz \<le> 1024" using sz(1) by (simp add: not_le)
  then have room: "unat sz + 24 + 4095 < 2 ^ 64" "4 * pages_for sz \<le> card (free_frames s)"
    "unat (kernel_heap_vaddr s) + 4096 * pages_for sz < 2 ^ 64"
    using sz(2) by (auto simp: kmalloc_room_def)
  have "unat (sz + 24 + 4095) = unat sz + 24 + 4095" using room(1) by (simp add: unat_word_ariths)
  then have n: "unat ?n = pages_for sz" by (simp add: unat_div pages_for_def)
  have pos: "0 < unat ?n" unfolding n pages_for_def by simp
  have "kmalloc sz s = kmalloc_large sz (sz + 24) s" using sz(1) by (auto simp: kmalloc_def SLAB_1024_def)
  then show ?thesis using kmalloc_large_spec [OF rel refl pos, of sz] room(2,3) unfolding n by simp
qed

lemma block_added_keeps:
  assumes rel: "heap_rel s ch fr B" and rel': "heap_rel s' ch fr ((kernel_heap_vaddr s, fs) # B)" and ba: "block_added s s' n fs"
  shows "keeps s s' (blocks ch fr B)"
proof -
  let ?v = "kernel_heap_vaddr s"
  note d = heap_relD [OF rel]
  have m: "\<And>a. page_base a \<notin> tables s (root s) \<Longrightarrow> page_base a - hhdm_offset s \<notin> free_frames s \<Longrightarrow> mem s' a = mem s a"
    and sm: "same_machine s s'"
    using ba block_added_machine [OF ba] by (auto simp: block_added_def)
  show ?thesis
  proof (rule keepsI_all [OF rel sm])
    show "mem s' (q + of_nat x) = mem s (q + of_nat x)" if q: "(q, k) \<in> live ch fr" "x < unat k" for q k x
    proof -
      have "slab_size k" using q(1) by (simp add: live_def)
      then have "page_base (q + of_nat x) \<notin> tables s (root s)"
        using slab_okD(5) [OF slabs_slab_ok [OF d(4) _ live_address(5) [OF rel q]]] by blast
      then show ?thesis using m live_address(4) [OF rel q] by blast
    qed
    show "aspace s' (root s) (vidx (vpage v j)) = aspace s (root s) (vidx (vpage v j))"
      if b: "(v, gs) \<in> set B" "j < length gs" for v gs j
    proof -
      have "page_block s' v gs" "root s' = root s" using heap_relD(7) [OF rel', of v gs] b(1) sm by (auto simp: same_machine_def)
      then show ?thesis using d(7) [OF b(1)] b(2) by (simp add: page_block_def)
    qed
    show "mem s' a = mem s a" if f: "f \<in> set (block_frames B)" "page_base a = f + hhdm_offset s" for f a
      using m block_frame(2,3) [OF rel f(1)] f(2) by simp
  qed
qed

lemma kmalloc_large_contract:
  assumes hv: "heap_view s L" and sz: "1024 < sz" "kmalloc_room sz s"
  shows "\<exists>s'. kmalloc sz s = Some (kernel_heap_vaddr s + 24, s') \<and> keeps s s' L \<and>
           (kernel_heap_vaddr s, 4096 * pages_for sz) \<notin> L \<and>
           heap_view s' (insert (kernel_heap_vaddr s, 4096 * pages_for sz) L)"
proof -
  from hv obtain ch fr B where rel: "heap_rel s ch fr B" and L: "L = blocks ch fr B"
    by (auto simp: heap_view_def)
  let ?v = "kernel_heap_vaddr s"
  note d = heap_relD [OF rel]
  from kmalloc_large_rel [OF rel sz] obtain s' fs where
    run: "kmalloc sz s = Some (?v + 24, s')" and rel': "heap_rel s' ch fr ((?v, fs) # B)"
    and ba: "block_added s s' (pages_for sz) fs" by blast
  have len: "length fs = pages_for sz" using ba by (simp add: block_added_def)
  have "(?v, 4096 * pages_for sz) \<notin> L"
  proof
    assume "(?v, 4096 * pages_for sz) \<in> L"
    then consider k where "(?v, k) \<in> live ch fr" | gs where "(?v, gs) \<in> set B"
      by (auto simp: L blocks_def)
    then show False
    proof cases
      case 1
      then have "slab_size k" by (simp add: live_def)
      then have "direct ?v" using live_address(1) [OF rel 1 slab_size_24(3)] by simp
      then show False using d(5) by (simp add: direct_def)
    next
      case 2
      then show False using d(7) [OF 2] by (auto simp: page_block_def)
    qed
  qed
  moreover have "blocks ch fr ((?v, fs) # B) = insert (?v, 4096 * pages_for sz) L"
    by (auto simp: blocks_def L len)
  ultimately show ?thesis using run heap_viewI [OF rel'] block_added_keeps [OF rel rel' ba] L by auto
qed

section \<open>Release\<close>

lemma small_not_pages:
  assumes rel: "heap_rel s ch fr B" and "(v, k) \<in> live ch fr" "(v, fs) \<in> set B"
  shows False
proof -
  have "slab_size k" using assms(2) by (simp add: live_def)
  then have "direct v" using live_address(1) [OF rel assms(2) slab_size_24(3)] by simp
  then show False using heap_relD(7) [OF rel assms(3)] by (auto simp: direct_def page_block_def)
qed

lemma kfree_small_contract:
  assumes rel: "heap_rel s ch fr B" and q: "(q, k) \<in> live ch fr"
  shows "\<exists>s' fr'. kfree (q + 24) s = Some s' \<and> heap_rel s' ch fr' B \<and> vmm_frame s s' \<and>
           blocks ch fr' B = blocks ch fr B - {(q, unat k)} \<and> keeps s s' (blocks ch fr' B) \<and> free_frames s' = free_frames s"
proof -
  note d = heap_relD [OF rel]
  from kfree_small_spec [OF rel q] obtain s' fr' where
    k: "kfree (q + 24) s = Some s'" and rel': "heap_rel s' ch fr' B" and lv: "live ch fr' = live ch fr - {(q, k)}"
    and ff: "free_frames s' = free_frames s" and st: "heap_step s s' {page_base q}"
    and kp: "\<forall>(p, m) \<in> live ch fr'. \<forall>x < unat m. mem s' (p + of_nat x) = mem s (p + of_nat x)" by blast
  have Leq: "blocks ch fr' B = blocks ch fr B - {(q, unat k)}"
    using small_not_pages [OF rel q] unfolding blocks_def lv by (auto simp: word_unat_eq_iff [symmetric])
  have sl: "slab_size k" "page_base q \<in> set (ch k)"
    using q live_address(5) [OF rel q slab_size_24(3)] by (auto simp: live_def)
  have T: "{page_base q} \<inter> tables s (root s) = {}"
    using slab_okD(5) [OF slabs_slab_ok [OF d(4) sl]] by simp
  have "keeps s s' (blocks ch fr' B)"
    unfolding blocks_def
  proof (rule keepsI [OF rel vmm_frame_same_machine [OF heap_stepD(1) [OF st]]])
    show "mem s' (p + of_nat x) = mem s (p + of_nat x)" if "(p, m) \<in> live ch fr'" "x < unat m" for p m x
      using kp that by blast
    show "live ch fr' \<subseteq> live ch fr" using lv by blast
    show "aspace s' (root s) (vidx (vpage v j)) = aspace s (root s) (vidx (vpage v j))" for v j
      by (simp add: heap_step_pages(3) [OF d(1) st T])
    show "mem s' a = mem s a" if "(v, fs) \<in> set B" "f \<in> set fs" "page_base a = f + hhdm_offset s" for v fs f a
    proof -
      have f: "f \<in> set (block_frames B)" using that by (force simp: block_frames_def)
      then have "page_base a \<noteq> page_base q" using d(9) [OF sl] that(3) by (metis add_diff_cancel)
      then show ?thesis using heap_stepD(7) [OF st, of a] block_frame(2) [OF rel f] that(3) by simp
    qed
  qed simp
  then show ?thesis using k rel' Leq ff heap_stepD(1) [OF st] by blast
qed

lemma blocks_remove:
  assumes rel: "heap_rel s ch fr B" and B: "B = B1 @ (q, fs) # B2"
  shows "blocks ch fr (B1 @ B2) = blocks ch fr B - {(q, 4096 * length fs)}"
    "set fs \<inter> set (block_frames (B1 @ B2)) = {}"
proof -
  note d = heap_relD [OF rel]
  have q: "(q, fs) \<in> set B" by (simp add: B)
  have pb: "0 < length fs" using d(7) [OF q] by (simp add: page_block_def)
  show dj: "set fs \<inter> set (block_frames (B1 @ B2)) = {}" using d(8) unfolding B by (auto simp: block_frames_def)
  have nq: "(q, gs) \<notin> set (B1 @ B2)" for gs
  proof
    assume g: "(q, gs) \<in> set (B1 @ B2)"
    then have g': "(q, gs) \<in> set B" by (auto simp: B)
    then have "0 < length gs" using d(7) by (simp add: page_block_def)
    with g' have "fs = gs" using page_blocks_disjoint [OF rel q, of q gs 0 0] pb by simp
    then have "set fs \<subseteq> set (block_frames (B1 @ B2))" using g by (force simp: block_frames_def)
    then show False using dj pb by (cases fs) auto
  qed
  have "(q, 4096 * length fs) \<notin> blocks ch fr (B1 @ B2)" using nq small_not_pages [OF rel _ q] by (auto simp: blocks_def)
  moreover have "blocks ch fr B = insert (q, 4096 * length fs) (blocks ch fr (B1 @ B2))" by (auto simp: B blocks_def)
  ultimately show "blocks ch fr (B1 @ B2) = blocks ch fr B - {(q, 4096 * length fs)}" by simp
qed

lemma kfree_pages_contract:
  assumes rel: "heap_rel s ch fr B" and B: "B = B1 @ (q, fs) # B2"
  shows "\<exists>s'. kfree (q + 24) s = Some s' \<and> heap_rel s' ch fr (B1 @ B2) \<and> vmm_frame s s' \<and>
           keeps s s' (blocks ch fr (B1 @ B2)) \<and> free_frames s' = free_frames s \<union> set fs \<and>
           tables s' (root s) = tables s (root s) \<and>
           (\<forall>a. page_base a \<notin> tables s (root s) \<longrightarrow> page_base a - hhdm_offset s \<notin> free_frames s \<union> set fs \<longrightarrow>
                mem s' a = mem s a)"
proof -
  note d = heap_relD [OF rel] and dj = blocks_remove(2) [OF rel B]
  from kfree_large_spec [OF rel [unfolded B]] obtain s' where
    k: "kfree (q + 24) s = Some s'" and rel': "heap_rel s' ch fr (B1 @ B2)"
    and ff: "free_frames s' = free_frames s \<union> set fs" and vf: "vmm_frame s s'"
    and tb: "tables s' (root s) = tables s (root s)"
    and as: "\<forall>w. aspace s' (root s) w = (if \<exists>j < length fs. w = vidx (vpage q j) then 0 else aspace s (root s) w)"
    and m: "\<forall>a. page_base a \<notin> tables s (root s) \<longrightarrow> page_base a - hhdm_offset s \<notin> free_frames s \<union> set fs \<longrightarrow>
                 mem s' a = mem s a" by blast
  have "keeps s s' (blocks ch fr (B1 @ B2))"
    unfolding blocks_def
  proof (rule keepsI [OF rel vmm_frame_same_machine [OF vf]])
    show "mem s' (p + of_nat x) = mem s (p + of_nat x)" if p: "(p, k) \<in> live ch fr" "x < unat k" for p k x
    proof -
      have sl: "slab_size k" using p(1) by (simp add: live_def)
      note pg = live_address(4,5) [OF rel p]
      have "page_base (p + of_nat x) - hhdm_offset s \<notin> set fs"
        using d(9) [OF sl pg(2)] by (auto simp: B block_frames_def)
      then show ?thesis using m pg(1) slab_okD(5) [OF slabs_slab_ok [OF d(4) sl pg(2)]] by blast
    qed
    show "set (B1 @ B2) \<subseteq> set B" by (auto simp: B)
    show "aspace s' (root s) (vidx (vpage v j)) = aspace s (root s) (vidx (vpage v j))"
      if v: "(v, gs) \<in> set (B1 @ B2)" "j < length gs" for v gs j
    proof -
      have "(v, gs) \<in> set B" "root s' = root s" using v(1) vmm_frame_root [OF vf] by (auto simp: B)
      then show ?thesis using heap_relD(7) [OF rel' v(1)] d(7) v(2) by (simp add: page_block_def)
    qed
    show "mem s' a = mem s a" if f: "(v, gs) \<in> set (B1 @ B2)" "f \<in> set gs" "page_base a = f + hhdm_offset s"
      for v gs f a
    proof -
      have "f \<in> set (block_frames (B1 @ B2))" "f \<in> set (block_frames B)"
        using f(1,2) by (force simp: B block_frames_def)+
      moreover have "f \<notin> set fs" using dj calculation(1) by blast
      ultimately show ?thesis using m block_frame(2,3) [OF rel, of f] f(3) by simp
    qed
  qed simp
  then show ?thesis using k rel' vf ff tb m by blast
qed

text \<open>The physical pages behind a block: none of its own for a block of a slab, and one for each page of a block of pages.\<close>

definition backing_frames :: "'a heap_scheme \<Rightarrow> u64 \<Rightarrow> nat \<Rightarrow> u64 set" where
  "backing_frames s q n =
     (if direct q then {} else (\<lambda>j. page_base (aspace s (root s) (vidx (vpage q j)))) ` {..<n div 4096})"

lemma backing_page_block:
  assumes rel: "heap_rel s ch fr B" and b: "(q, fs) \<in> set B"
  shows "backing_frames s q (4096 * length fs) = set fs" "card (set fs) = length fs" "set fs \<inter> free_frames s = {}" "\<not> direct q"
proof -
  show nd: "\<not> direct q" using heap_relD(7) [OF rel b] by (auto simp: page_block_def direct_def)
  have "backing_frames s q (4096 * length fs) = (\<lambda>j. fs ! j) ` {..<length fs}"
    using nd page_block_entry [OF rel b] by (auto simp: backing_frames_def image_iff)
  also have "\<dots> = set fs" by (auto simp: set_conv_nth)
  finally show "backing_frames s q (4096 * length fs) = set fs" .
  have "fs \<in> set (map snd B)" using b by force
  then have "distinct fs" "set fs \<subseteq> set (block_frames B)"
    using heap_relD(8) [OF rel] unfolding block_frames_def distinct_concat_iff by auto
  then show "card (set fs) = length fs" "set fs \<inter> free_frames s = {}"
    using block_frame(2) [OF rel] by (auto simp: distinct_card)
qed

lemma kfree_view:
  assumes hv: "heap_view s L" and q: "(q, n) \<in> L"
  shows "\<exists>s'. kfree (q + 24) s = Some s' \<and> heap_view s' (L - {(q, n)}) \<and> keeps s s' (L - {(q, n)}) \<and>
              free_frames s' = free_frames s \<union> backing_frames s q n \<and>
              card (free_frames s') = card (free_frames s) + (if direct q then 0 else n div 4096)"
proof -
  from hv obtain ch fr B where rel: "heap_rel s ch fr B" and L: "L = blocks ch fr B"
    by (auto simp: heap_view_def)
  from q consider k where "(q, k) \<in> live ch fr" "n = unat k"
    | fs where "(q, fs) \<in> set B" "n = 4096 * length fs" by (auto simp: L blocks_def)
  then show ?thesis
  proof cases
    case 1
    then have "direct q" using live_address(1) [OF rel 1(1) slab_size_24(3)] by (simp add: live_def)
    moreover from kfree_small_contract [OF rel 1(1)] obtain s' fr' where
      "kfree (q + 24) s = Some s'" "heap_rel s' ch fr' B" "blocks ch fr' B = L - {(q, n)}" "keeps s s' (blocks ch fr' B)"
      "free_frames s' = free_frames s" using L 1(2) by blast
    ultimately show ?thesis using heap_viewI [of s' ch fr' B] by (auto simp: backing_frames_def)
  next
    case 2
    obtain B1 B2 where B: "B = B1 @ (q, fs) # B2" using split_list [OF 2(1)] by blast
    note b = backing_page_block [OF rel 2(1)]
    from kfree_pages_contract [OF rel B] obtain s' where
      s': "kfree (q + 24) s = Some s'" "heap_rel s' ch fr (B1 @ B2)" "keeps s s' (blocks ch fr (B1 @ B2))"
      "free_frames s' = free_frames s \<union> set fs" by blast
    have "finite (free_frames s)" using pmm.finite_frames [OF pages_ok_pmm [OF heap_relD(1) [OF rel]]] .
    then have "card (free_frames s') = card (free_frames s) + length fs"
      using b(2,3) unfolding s'(4) by (subst card_Un_disjoint) auto
    then show ?thesis using s' b(1,4) heap_viewI [OF s'(2)] blocks_remove(1) [OF rel B] L 2(2) by simp
  qed
qed

lemma kfree_contract:
  assumes "heap_view s L" and "(q, n) \<in> L"
  shows "\<exists>s'. kfree (q + 24) s = Some s' \<and> heap_view s' (L - {(q, n)}) \<and> keeps s s' (L - {(q, n)})"
  using kfree_view [OF assms] by blast

section \<open>Initialisation\<close>

lemma caches_update [simp]:
  "free_frames (s\<lparr>caches := x\<rparr>) = free_frames s"
  "managed_frames (s\<lparr>caches := x\<rparr>) = managed_frames s"
  "pmm_ok (s\<lparr>caches := x\<rparr>) = pmm_ok s"
  "tables (s\<lparr>caches := x\<rparr>) r = tables s r"
  "root (s\<lparr>caches := x\<rparr>) = root s"
  by (simp_all add: free_frames_def free_set_def managed_frames_def pmm_ok_def pmm_inv_def tables_def
      vmm_get_current_def phys_to_virt_def)

lemma pages_ok_caches [simp]: "pages_ok (s\<lparr>caches := x\<rparr>) = pages_ok s"
  by (simp add: pages_ok_def vmm_inv_def hhdm_ok_def pt_tree_def hhdm_low_def)

text \<open>A cache whose only slab is new: all its objects are free.\<close>

definition fresh_cache :: "'a vmm_scheme \<Rightarrow> slab_cache \<Rightarrow> bool" where
  "fresh_cache s c \<longleftrightarrow>
     first_slab c \<noteq> NULL \<and> slab_ok s (obj_size c) (first_slab c) (slots (obj_size c) (first_slab c)) \<and>
     mem s (first_slab c + 16) = NULL"

lemma fresh_cache_step:
  assumes "fresh_cache s c" "pages_ok s" "heap_step s s' {}"
  shows "fresh_cache s' c"
proof -
  let ?b = "first_slab c"
  have sl: "slab_ok s (obj_size c) ?b (slots (obj_size c) ?b)" using assms(1) by (simp add: fresh_cache_def)
  note d = slab_okD [OF sl]
  have m: "mem s' a = mem s a" if "page_base a = ?b" for a
    using heap_stepD(7) [OF assms(3), of a] that d(4) by simp
  have "slab_ok s' (obj_size c) ?b (slots (obj_size c) ?b)"
    by (rule slab_ok_cong [OF sl m heap_stepD(4,5) [OF assms(3)]])
      (use d(4,5) heap_stepD(3) [OF assms(3)] heap_step_pages(2) [OF assms(2,3)] in auto)
  then show ?thesis using assms(1) m slab_fields(3) [OF d(2)] by (simp add: fresh_cache_def)
qed

lemma fresh_cache_caches [simp]: "fresh_cache (s\<lparr>caches := x\<rparr>) c = fresh_cache s c"
  by (simp add: fresh_cache_def slab_ok_def)

text \<open>What the heap leaves alone while it is set up: the page tables and all pages that were in use before.\<close>

definition used_kept :: "'a vmm_scheme \<Rightarrow> 'a vmm_scheme \<Rightarrow> bool" where
  "used_kept s s' \<longleftrightarrow>
     hhdm_offset s' = hhdm_offset s \<and> tables s' (root s') = tables s (root s) \<and> free_frames s' \<subseteq> free_frames s \<and>
     (\<forall>a. page_base a - hhdm_offset s \<notin> free_frames s \<longrightarrow> mem s' a = mem s a)"

lemma used_kept_trans: "used_kept s s1 \<Longrightarrow> used_kept s1 s2 \<Longrightarrow> used_kept s s2"
  unfolding used_kept_def by fastforce

lemma used_kept_step: "pages_ok s \<Longrightarrow> heap_step s s' {} \<Longrightarrow> used_kept s (s'\<lparr>caches := c\<rparr>)"
  using heap_step_pages(2) [of s s' "{}"] heap_stepD [of s s' "{}"] by (simp add: used_kept_def)

lemma vmm_frame_caches: "vmm_frame s s' \<Longrightarrow> vmm_frame (s\<lparr>caches := c\<rparr>) (s'\<lparr>caches := c\<rparr>)"
  by (elim vmm_frameE) (simp add: vmm_frame_def)

lemma heap_init_loop_spec:
  assumes "pages_ok s" "\<forall>n \<in> set szs. slab_size n" "length szs \<le> card (free_frames s)"
    "length (caches s) = i + length szs" "\<forall>c \<in> set (take i (caches s)). fresh_cache s c"
  shows "\<exists>s'. heap_init_loop i szs s = Some s' \<and> pages_ok s' \<and> total_pages s' = total_pages s \<and>
              kernel_heap_vaddr s' = kernel_heap_vaddr s \<and> length (caches s') = length (caches s) \<and>
              map obj_size (caches s') = map obj_size (take i (caches s)) @ szs \<and>
              (\<forall>c \<in> set (caches s'). fresh_cache s' c) \<and>
              card (free_frames s) = card (free_frames s') + length szs \<and> used_kept s s' \<and>
              take i (caches s') = take i (caches s) \<and>
              (\<forall>c \<in> set (drop i (caches s')). first_slab c - hhdm_offset s \<in> free_frames s) \<and>
              vmm_frame (s\<lparr>caches := caches s'\<rparr>) s'"
  using assms
proof (induction szs arbitrary: i s)
  case Nil
  then show ?case by (simp add: used_kept_def vmm_frame_def)
next
  case (Cons n szs)
  have n: "slab_size n" using Cons.prems(2) by simp
  have "free_frames s \<noteq> {}" using Cons.prems(3) by auto
  moreover from create_slab_spec [OF Cons.prems(1) n] obtain b s1 where
    c: "create_slab n s = Some (b, s1)" and st: "heap_step s s1 {}"
    and c0: "b = NULL \<longrightarrow> free_frames s = {} \<and> mem s1 = mem s"
    and c1: "b \<noteq> NULL \<longrightarrow> b - hhdm_offset s \<in> free_frames s \<and> slab_ok s1 n b (slots n b) \<and>
               mem s1 (b + 16) = NULL \<and> free_frames s1 = free_frames s - {b - hhdm_offset s}"
    by blast
  ultimately have b: "b \<noteq> NULL" "slab_ok s1 n b (slots n b)" "mem s1 (b + 16) = NULL"
    "b - hhdm_offset s \<in> free_frames s" "free_frames s1 = free_frames s - {b - hhdm_offset s}" by auto
  let ?c = "\<lparr>obj_size = n, first_slab = b\<rparr>"
  let ?s2 = "s1\<lparr>caches := (caches s1)[i := ?c]\<rparr>"
  note k = vmm_frame_heap [OF heap_stepD(1) [OF st]]
  have ok1: "pages_ok s1" by (rule heap_step_pages(1) [OF Cons.prems(1) st]) simp
  have tk: "take (Suc i) (caches ?s2) = take i (caches s) @ [?c]"
    using Cons.prems(4) k(1) by (simp add: take_Suc_conv_app_nth)
  have fresh: "\<forall>c \<in> set (take (Suc i) (caches ?s2)). fresh_cache ?s2 c"
  proof -
    have "fresh_cache s1 ?c" using b by (simp add: fresh_cache_def)
    then show ?thesis unfolding tk using Cons.prems(1,5) fresh_cache_step [OF _ _ st] by auto
  qed
  have cd: "card (free_frames s1) = card (free_frames s) - 1"
    using b(4,5) pmm.finite_frames [OF pages_ok_pmm [OF Cons.prems(1)]] by simp
  have card: "length szs \<le> card (free_frames ?s2)" using cd Cons.prems(3) by simp
  have "\<exists>s'. heap_init_loop (Suc i) szs ?s2 = Some s' \<and> pages_ok s' \<and> total_pages s' = total_pages ?s2 \<and>
          kernel_heap_vaddr s' = kernel_heap_vaddr ?s2 \<and> length (caches s') = length (caches ?s2) \<and>
          map obj_size (caches s') = map obj_size (take (Suc i) (caches ?s2)) @ szs \<and>
          (\<forall>c \<in> set (caches s'). fresh_cache s' c) \<and> card (free_frames ?s2) = card (free_frames s') + length szs \<and>
          used_kept ?s2 s' \<and> take (Suc i) (caches s') = take (Suc i) (caches ?s2) \<and>
          (\<forall>c \<in> set (drop (Suc i) (caches s')). first_slab c - hhdm_offset ?s2 \<in> free_frames ?s2) \<and>
          vmm_frame (?s2\<lparr>caches := caches s'\<rparr>) s'"
    by (rule Cons.IH [OF _ _ card _ fresh]) (use ok1 Cons.prems k in auto)
  then obtain s' where s': "heap_init_loop (Suc i) szs ?s2 = Some s'" "pages_ok s'" "total_pages s' = total_pages s"
    "kernel_heap_vaddr s' = kernel_heap_vaddr s" "length (caches s') = length (caches s)"
    "map obj_size (caches s') = map obj_size (take i (caches s)) @ n # szs" "\<forall>c \<in> set (caches s'). fresh_cache s' c"
    "card (free_frames s1) = card (free_frames s') + length szs" "used_kept ?s2 s'"
    and tk': "take (Suc i) (caches s') = take i (caches s) @ [?c]"
    and new: "\<forall>c \<in> set (drop (Suc i) (caches s')). first_slab c - hhdm_offset s \<in> free_frames s1"
    and vf: "vmm_frame (?s2\<lparr>caches := caches s'\<rparr>) s'"
    using k heap_stepD(4) [OF st] unfolding tk by auto
  have len: "i < length (caches s')" using s'(5) Cons.prems(4) by simp
  have "take i (caches s') @ [caches s' ! i] = take i (caches s) @ [?c]" using tk' len by (simp add: take_Suc_conv_app_nth)
  then have ti: "take i (caches s') = take i (caches s)" "caches s' ! i = ?c" by auto
  have "\<forall>c \<in> set (drop i (caches s')). first_slab c - hhdm_offset s \<in> free_frames s"
    using new b(4,5) ti(2) by (auto simp: Cons_nth_drop_Suc [OF len, symmetric])
  moreover have "vmm_frame (s\<lparr>caches := caches s'\<rparr>) s'"
    using vmm_frame_trans [OF vmm_frame_caches [OF heap_stepD(1) [OF st]]] vf by simp
  ultimately show ?case
    using c b(1) cd Cons.prems(3) s' ti(1) used_kept_trans [OF used_kept_step [OF Cons.prems(1) st]] by simp
qed

lemma heap_log [simp]:
  "caches (log_event l n s) = caches s" "kernel_heap_vaddr (log_event l n s) = kernel_heap_vaddr s"
  "total_pages (log_event l n s) = total_pages s" "root (log_event l n s) = root s"
  "tables (log_event l n s) r = tables s r" "aspace (log_event l n s) r = aspace s r"
  by (simp_all add: log_event_def vmm_get_current_def phys_to_virt_def tables_def)
    (rule ext, simp add: aspace_def split: option.split)

lemma heap_rel_log: "heap_rel s ch fr B \<Longrightarrow> heap_rel (log_event l n s) ch fr B"
  unfolding heap_rel_def pages_ok_def vmm_inv_def hhdm_ok_def pt_tree_def hhdm_low_def slabs_ok_def
    chain_def slab_ok_def page_block_def by simp

lemma heap_view_log: "heap_view s L \<Longrightarrow> heap_view (log_event l n s) L"
  unfolding heap_view_def using heap_rel_log by blast

lemma filter_by_key: "distinct (map f xs) \<Longrightarrow> c \<in> set xs \<Longrightarrow> filter (\<lambda>d. f d = f c) xs = [c]"
proof (induction xs)
  case (Cons a xs)
  have "f d \<noteq> f a" if "d \<in> set xs" for d using Cons.prems(1) that by (auto simp: image_iff)
  then show ?case using Cons by (auto simp: filter_empty_conv)
qed simp

text \<open>The heap after its initialisation, with the slabs in pages that were free before.\<close>

lemma heap_init_fresh:
  assumes "pages_ok s" "total_pages s \<le> 2 ^ 40" "length (caches s) = 6"
    "kernel_heap_vaddr s = KERNEL_HEAP_BASE" "6 \<le> card (free_frames s)"
  shows "\<exists>s' ch fr. heap_init s = Some s' \<and> heap_rel s' ch fr [] \<and> live ch fr = {} \<and>
              (\<forall>n. \<forall>b \<in> set (ch n). b - hhdm_offset s \<in> free_frames s) \<and> (\<forall>c \<in> set (caches s'). first_slab c \<noteq> NULL) \<and>
              kernel_heap_vaddr s' = KERNEL_HEAP_BASE \<and> card (free_frames s) = card (free_frames s') + 6 \<and> used_kept s s' \<and>
              vmm_frame (s\<lparr>caches := caches s'\<rparr>) s'"
proof -
  have "\<forall>n \<in> set slab_sizes. slab_size n" by (simp add: slab_size_def)
  from heap_init_loop_spec [of s slab_sizes 0, OF assms(1) this] assms obtain s1 where
    i: "heap_init_loop 0 slab_sizes s = Some s1" and ok: "pages_ok s1" and tp: "total_pages s1 \<le> 2 ^ 40"
    and kv: "kernel_heap_vaddr s1 = KERNEL_HEAP_BASE" and sz: "map obj_size (caches s1) = slab_sizes"
    and fresh: "\<forall>c \<in> set (caches s1). fresh_cache s1 c" and cd: "card (free_frames s) = card (free_frames s1) + 6"
    and uk: "used_kept s s1" and new: "\<forall>c \<in> set (caches s1). first_slab c - hhdm_offset s \<in> free_frames s"
    and vf: "vmm_frame (s\<lparr>caches := caches s1\<rparr>) s1" by (auto simp: slab_sizes_def)
  let ?ch = "\<lambda>n. map first_slab (filter (\<lambda>c. obj_size c = n) (caches s1))"
  let ?fr = "\<lambda>b. slots (mem s1 b) b"
  have sl: "slab_ok s1 (obj_size c) (first_slab c) (?fr (first_slab c))" if "c \<in> set (caches s1)" for c
    using fresh that slab_okD(6) by (fastforce simp: fresh_cache_def)
  have one: "?ch (obj_size c) = [first_slab c]" if c: "c \<in> set (caches s1)" for c
  proof -
    have "distinct (map obj_size (caches s1))" unfolding sz by (simp add: slab_sizes_def)
    then have "filter (\<lambda>d. obj_size d = obj_size c) (caches s1) = [c]"
      using c by (rule filter_by_key)
    then show ?thesis by simp
  qed
  have lv: "live ?ch ?fr = {}"
  proof -
    have "p \<in> set (?fr b)" if "b \<in> set (?ch n)" "p \<in> set (slots n b)" for n b p
      using that sl slab_okD(6) by fastforce
    then show ?thesis by (auto simp: live_def live1_def)
  qed
  moreover have "chain s1 (obj_size c) (first_slab c) (?ch (obj_size c)) ?fr" if "c \<in> set (caches s1)" for c
    unfolding one [OF that] chain_def using sl [OF that] fresh that by (auto simp: fresh_cache_def)
  ultimately have "heap_rel s1 ?ch ?fr []"
    using ok tp sz kv
    by (simp add: heap_rel_def slabs_ok_def block_frames_def) (simp add: KERNEL_HEAP_BASE_def page_aligned_def)
  from heap_rel_log [OF this] have "heap_rel (log_info ''HEAP'' s1) ?ch ?fr []" .
  moreover have "\<forall>n. \<forall>b \<in> set (?ch n). b - hhdm_offset s \<in> free_frames s" using new by auto
  moreover have "\<forall>c \<in> set (caches s1). first_slab c \<noteq> NULL" using fresh by (simp add: fresh_cache_def)
  moreover have "used_kept s (log_info ''HEAP'' s1)" using uk by (simp add: used_kept_def)
  moreover have "vmm_frame (s\<lparr>caches := caches s1\<rparr>) (log_info ''HEAP'' s1)"
    by (rule vmm_frame_trans [OF vf]) (simp add: vmm_frame_def log_event_def)
  ultimately show ?thesis using i kv cd lv
    by (intro exI [of _ "log_info ''HEAP'' s1"] exI [of _ ?ch] exI [of _ ?fr]) (simp add: heap_init_def)
qed

lemma heap_init_spec:
  assumes "pages_ok s" "total_pages s \<le> 2 ^ 40" "length (caches s) = 6"
    "kernel_heap_vaddr s = KERNEL_HEAP_BASE" "6 \<le> card (free_frames s)"
  shows "\<exists>s'. heap_init s = Some s' \<and> heap_view s' {} \<and> (\<forall>c \<in> set (caches s'). first_slab c \<noteq> NULL) \<and>
              kernel_heap_vaddr s' = KERNEL_HEAP_BASE \<and> card (free_frames s) = card (free_frames s') + 6 \<and> used_kept s s'"
proof -
  from heap_init_fresh [OF assms] obtain s' ch fr where
    "heap_init s = Some s'" "heap_rel s' ch fr []" "live ch fr = {}" "\<forall>c \<in> set (caches s'). first_slab c \<noteq> NULL"
    "kernel_heap_vaddr s' = KERNEL_HEAP_BASE" "card (free_frames s) = card (free_frames s') + 6" "used_kept s s'" by blast
  moreover from this(2,3) have "heap_view s' {}" using heap_viewI [of s' ch fr "[]"] by (simp add: blocks_def)
  ultimately show ?thesis by blast
qed

section \<open>The interface to the clients\<close>

lemma block_facts:
  assumes rel: "heap_rel s ch fr B" and q: "(q, n) \<in> blocks ch fr B"
  shows "24 < n" "q + 24 \<noteq> NULL"
proof -
  from q consider k where "(q, k) \<in> live ch fr" "n = unat k"
    | fs where "(q, fs) \<in> set B" "n = 4096 * length fs" by (auto simp: blocks_def)
  then have "24 < n \<and> q + 24 \<noteq> NULL"
  proof cases
    case 1
    then have "slab_size k" by (simp add: live_def)
    then show ?thesis using live_address(2) [OF rel 1(1) slab_size_24(1)] slab_size_24(1) 1(2) by simp
  next
    case 2
    have pb: "0 < length fs" using heap_relD(7) [OF rel 2(1)] by (simp add: page_block_def)
    have "KERNEL_HEAP_BASE \<le> q + of_nat 24"
      by (rule page_block_bytes(2) [OF heap_relD(7) [OF rel 2(1)]]) (use pb in linarith)
    then have "q + 24 \<noteq> NULL" by (auto simp: KERNEL_HEAP_BASE_def)
    moreover have "24 < n" using pb 2(2) by linarith
    ultimately show ?thesis by simp
  qed
  then show "24 < n" "q + 24 \<noteq> NULL" by auto
qed

lemma kmalloc_between:
  assumes "map obj_size (caches s) = slab_sizes" and "1000 < sz" and "sz \<le> 1024"
  shows "kmalloc sz s = Some (NULL, s)"
proof -
  have z: "1000 < unat sz" "unat sz \<le> 1024" using assms(2,3) by (simp_all add: word_less_nat_alt word_le_nat_alt)
  then have u: "unat (sz + 24) = unat sz + 24" by (simp add: unat_word_ariths)
  have "\<not> sz + 24 \<le> n" if "n \<in> set slab_sizes" for n
  proof -
    have "unat n \<le> 1024" using that by (auto simp: slab_sizes_def)
    then show ?thesis using u z(1) by (simp add: word_le_nat_alt)
  qed
  then have "\<not> sz + 24 \<le> obj_size c" if "c \<in> set (caches s)" for c
    using that assms(1) by (metis image_eqI list.set_map)
  then have "find (\<lambda>c. sz + 24 \<le> obj_size c) (caches s) = None" by (simp add: find_None_iff)
  moreover have "\<not> sz > SLAB_1024" "sz \<noteq> 0" using assms(3) z(1) by (auto simp: SLAB_1024_def)
  ultimately show ?thesis by (simp add: kmalloc_def kmalloc_small_def)
qed

lemma kmalloc_contract:
  assumes hv: "heap_view s L" and sz: "0 < sz" "kmalloc_room sz s"
  shows "\<exists>p s'. kmalloc sz s = Some (p, s') \<and> keeps s s' L \<and>
     (if p = NULL
      then heap_view s' L \<and>
        (1000 < sz \<and> sz \<le> 1024 \<or> sz \<le> 1000 \<and> (free_frames s = {} \<or> (\<exists>c \<in> set (caches s). first_slab c = NULL)))
      else \<not> (1000 < sz \<and> sz \<le> 1024) \<and> (\<exists>n. unat sz + 24 \<le> n \<and> (p - 24, n) \<notin> L \<and> heap_view s' (insert (p - 24, n) L)))"
proof (cases "sz \<le> 1000")
  case True
  then have ng: "\<not> 1000 < sz" by simp
  from kmalloc_small_contract [OF hv sz(1) True] obtain p s' where
    k: "kmalloc sz s = Some (p, s')" "keeps s s' L" and out: "if p = NULL
      then heap_view s' L \<and> (free_frames s = {} \<or> (\<exists>c \<in> set (caches s). first_slab c = NULL))
      else \<exists>n. unat sz + 24 \<le> n \<and> (p - 24, n) \<notin> L \<and> heap_view s' (insert (p - 24, n) L) \<and>
               load64 (p - 8) s' = Some sz \<and> direct (p - 24)" by blast
  show ?thesis by (rule exI [of _ p], rule exI [of _ s']) (use k out ng True in \<open>auto split: if_splits\<close>)
next
  case False
  then have g: "1000 < sz" by simp
  show ?thesis
  proof (cases "sz \<le> 1024")
    case True
    obtain ch fr B where "heap_rel s ch fr B" using hv by (auto simp: heap_view_def)
    then have "map obj_size (caches s) = slab_sizes" by (rule slabs_okD(1) [OF heap_relD(4)])
    from kmalloc_between [OF this g True] show ?thesis using hv g True by (auto simp: keeps_def)
  next
    case False
    then have l: "1024 < sz" by simp
    from kmalloc_large_contract [OF hv l sz(2)] obtain s' where
      k: "kmalloc sz s = Some (kernel_heap_vaddr s + 24, s')" "keeps s s' L"
      "(kernel_heap_vaddr s, 4096 * pages_for sz) \<notin> L"
      "heap_view s' (insert (kernel_heap_vaddr s, 4096 * pages_for sz) L)" by blast
    then obtain ch fr B where "heap_rel s' ch fr B" "(kernel_heap_vaddr s, 4096 * pages_for sz) \<in> blocks ch fr B"
      by (auto simp: heap_view_def)
    from block_facts(2) [OF this] have "kernel_heap_vaddr s + 24 \<noteq> NULL" .
    moreover have "unat sz + 24 \<le> 4096 * pages_for sz" unfolding pages_for_def by linarith
    ultimately show ?thesis using k False by auto
  qed
qed

text \<open>What a caller sees: the pointers it was given, each with its usable bytes.\<close>

definition client_view :: "'a heap_scheme \<Rightarrow> (u64 \<times> nat) set \<Rightarrow> bool" where
  "client_view s C \<longleftrightarrow> (\<exists>L. heap_view s L \<and> C = (\<lambda>(q, n). (q + 24, n - 24)) ` L)"

locale kernel_heap =
  fixes alloc :: "u64 \<Rightarrow> 's \<Rightarrow> (u64 \<times> 's) option"
    and release :: "u64 \<Rightarrow> 's \<Rightarrow> 's option"
    and view :: "'s \<Rightarrow> (u64 \<times> nat) set \<Rightarrow> bool"
    and room :: "u64 \<Rightarrow> 's \<Rightarrow> bool"
  assumes alloc: "view s C \<Longrightarrow> 0 < sz \<Longrightarrow> room sz s \<Longrightarrow>
      \<exists>p s'. alloc sz s = Some (p, s') \<and>
             (p = NULL \<and> view s' C \<or> p \<noteq> NULL \<and> (\<exists>n. unat sz \<le> n \<and> (p, n) \<notin> C \<and> view s' (insert (p, n) C)))"
    and release: "view s C \<Longrightarrow> (p, n) \<in> C \<Longrightarrow> \<exists>s'. release p s = Some s' \<and> view s' (C - {(p, n)})"
    and apart: "view s C \<Longrightarrow> (p, n) \<in> C \<Longrightarrow> (q, m) \<in> C \<Longrightarrow> (p, n) \<noteq> (q, m) \<Longrightarrow>
      block_bytes p n \<inter> block_bytes q m = {}"
    and inhabited: "view s C \<Longrightarrow> (p, n) \<in> C \<Longrightarrow> 0 < n \<and> p \<noteq> NULL"
begin

lemma address_unique:
  assumes "view s C" "(p, n) \<in> C" "(p, m) \<in> C"
  shows "n = m"
proof (rule ccontr)
  assume "n \<noteq> m"
  then have "block_bytes p n \<inter> block_bytes p m = {}" using apart [OF assms] by simp
  moreover have "p + of_nat 0 \<in> block_bytes p n" "p + of_nat 0 \<in> block_bytes p m"
    using inhabited [OF assms(1,2)] inhabited [OF assms(1,3)] unfolding block_bytes_def by blast+
  ultimately show False by blast
qed

lemma alloc_fresh:
  assumes "view s C" "0 < sz" "room sz s" "alloc sz s = Some (p, s')" "p \<noteq> NULL"
  shows "\<exists>n. unat sz \<le> n \<and> view s' (insert (p, n) C) \<and> p \<notin> fst ` C \<and>
             (\<forall>(q, m) \<in> C. block_bytes p n \<inter> block_bytes q m = {})"
proof -
  obtain n where n: "unat sz \<le> n" "(p, n) \<notin> C" "view s' (insert (p, n) C)"
    using alloc [OF assms(1-3)] assms(4,5) by auto
  have "p \<notin> fst ` C" using address_unique [OF n(3), of p n] n(2) by force
  moreover have "block_bytes p n \<inter> block_bytes q m = {}" if "(q, m) \<in> C" for q m
    using apart [OF n(3), of p n q m] that n(2) by auto
  ultimately show ?thesis using n by (intro exI [of _ n]) auto
qed

lemma alloc_release:
  assumes "view s C" "0 < sz" "room sz s" "alloc sz s = Some (p, s')" "p \<noteq> NULL"
  shows "\<exists>s''. release p s' = Some s'' \<and> view s'' C"
proof -
  obtain n where n: "(p, n) \<notin> C" "view s' (insert (p, n) C)"
    using alloc [OF assms(1-3)] assms(4,5) by auto
  then show ?thesis using release [OF n(2), of p n] by simp
qed

end

lemma client_view_inj: "heap_view s L \<Longrightarrow> inj_on (\<lambda>(q, n). (q + 24, n - 24)) L"
  unfolding heap_view_def using block_facts(1) by (force simp: inj_on_def)

interpretation heap: kernel_heap kmalloc kfree client_view kmalloc_room
proof unfold_locales
  fix s :: "'a heap_scheme" and C sz
  assume "client_view s C" "0 < sz" "kmalloc_room sz s"
  then obtain L where hv: "heap_view s L" and C: "C = (\<lambda>(q, n). (q + 24, n - 24)) ` L"
    by (auto simp: client_view_def)
  from kmalloc_contract [OF hv \<open>0 < sz\<close> \<open>kmalloc_room sz s\<close>] obtain p s' where
    k: "kmalloc sz s = Some (p, s')" and c: "if p = NULL
      then heap_view s' L \<and>
        (1000 < sz \<and> sz \<le> 1024 \<or> sz \<le> 1000 \<and> (free_frames s = {} \<or> (\<exists>c \<in> set (caches s). first_slab c = NULL)))
      else \<not> (1000 < sz \<and> sz \<le> 1024) \<and> (\<exists>n. unat sz + 24 \<le> n \<and> (p - 24, n) \<notin> L \<and> heap_view s' (insert (p - 24, n) L))"
    by blast
  have out: "if p = NULL then heap_view s' L
      else \<exists>n. unat sz + 24 \<le> n \<and> (p - 24, n) \<notin> L \<and> heap_view s' (insert (p - 24, n) L)"
    using c by (simp split: if_splits)
  have "\<exists>n. unat sz \<le> n \<and> (p, n) \<notin> C \<and> client_view s' (insert (p, n) C)" if pn: "p \<noteq> NULL"
  proof -
    obtain n where n: "unat sz + 24 \<le> n" "(p - 24, n) \<notin> L" "heap_view s' (insert (p - 24, n) L)"
      using out pn by auto
    have "(p, n - 24) \<notin> C"
      using inj_onD [OF client_view_inj [OF n(3)], of "(p - 24, n)"] n(2) by (force simp: C)
    moreover have "insert (p, n - 24) C = (\<lambda>(q, n). (q + 24, n - 24)) ` insert (p - 24, n) L" by (simp add: C)
    ultimately show ?thesis using n by (intro exI [of _ "n - 24"]) (auto simp: client_view_def)
  qed
  then show "\<exists>p s'. kmalloc sz s = Some (p, s') \<and>
      (p = NULL \<and> client_view s' C \<or>
       p \<noteq> NULL \<and> (\<exists>n. unat sz \<le> n \<and> (p, n) \<notin> C \<and> client_view s' (insert (p, n) C)))"
    using k out C by (auto simp: client_view_def split: if_splits)
next
  fix s :: "'a heap_scheme" and C p n
  assume "client_view s C" and p: "(p, n) \<in> C"
  then obtain L where hv: "heap_view s L" and C: "C = (\<lambda>(q, n). (q + 24, n - 24)) ` L"
    by (auto simp: client_view_def)
  obtain q m where q: "(q, m) \<in> L" "p = q + 24" "n = m - 24" using p by (auto simp: C)
  from kfree_contract [OF hv q(1)] obtain s' where "kfree p s = Some s'" "heap_view s' (L - {(q, m)})"
    using q(2) by blast
  moreover have "(\<lambda>(q, n). (q + 24, n - 24)) ` (L - {(q, m)}) = C - {(p, n)}"
    using inj_on_image_set_diff [OF client_view_inj [OF hv], of L "{(q, m)}"] q by (simp add: C)
  ultimately show "\<exists>s'. kfree p s = Some s' \<and> client_view s' (C - {(p, n)})"
    by (metis client_view_def)
next
  fix s :: "'a heap_scheme" and C p n
  assume "client_view s C" and p: "(p, n) \<in> C"
  then obtain L where hv: "heap_view s L" and C: "C = (\<lambda>(q, n). (q + 24, n - 24)) ` L"
    by (auto simp: client_view_def)
  obtain ch fr B where rel: "heap_rel s ch fr B" and L: "L = blocks ch fr B" using hv by (auto simp: heap_view_def)
  obtain a k where a: "(a, k) \<in> L" "p = a + 24" "n = k - 24" using p by (auto simp: C)
  then show "0 < n \<and> p \<noteq> NULL" using block_facts [OF rel, of a k] unfolding L by simp
  fix q m
  assume q: "(q, m) \<in> C" "(p, n) \<noteq> (q, m)"
  obtain b l where b: "(b, l) \<in> L" "q = b + 24" "m = l - 24" using q(1) by (auto simp: C)
  have "block_bytes (x + 24) (y - 24) \<subseteq> block_bytes x y" for x y
  proof
    fix z
    assume "z \<in> block_bytes (x + 24) (y - 24)"
    then obtain i where i: "i < y - 24" "z = x + 24 + of_nat i" by (auto simp: block_bytes_def)
    then have "24 + i < y" "z = x + of_nat (24 + i)" by simp_all
    then show "z \<in> block_bytes x y" unfolding block_bytes_def by blast
  qed
  moreover have "(a, k) \<noteq> (b, l)" using q(2) a(2,3) b(2,3) by auto
  then have "block_bytes a k \<inter> block_bytes b l = {}"
    using blocks_disjoint [OF rel] a(1) b(1) unfolding L by blast
  ultimately show "block_bytes p n \<inter> block_bytes q m = {}" unfolding a(2,3) b(2,3) by blast
qed

section \<open>Zeroed blocks\<close>

lemma unat_and_7: "unat (a AND 7 :: u64) = unat a mod 8"
proof -
  have m: "(7 :: u64) = mask 3" by (simp add: mask_eq_exp_minus_1)
  have "a AND 7 = a mod 8" unfolding m by (simp add: take_bit_eq_mask [symmetric] take_bit_eq_mod)
  then show ?thesis by (simp add: unat_mod)
qed

lemma unat_cell_of: "unat (cell_of a) = unat a - unat a mod 8"
proof -
  have "cell_of a + (a AND 7) = cell_of a OR (a AND 7)"
    unfolding cell_of_def by (rule disjunctive_add_eq_or) (simp add: bit_eq_iff bit_simps)
  also have "\<dots> = a" unfolding cell_of_def by (rule bit_eqI) (auto simp: bit_simps)
  finally have "cell_of a = a - (a AND 7)" by (simp add: eq_diff_eq)
  moreover have "a AND 7 \<le> a" by (rule word_and_le2)
  ultimately show ?thesis by (simp add: unat_sub unat_and_7)
qed

lemma unat_slot:
  assumes "slab_size n" "page_aligned b" "k < nslots n" "y < unat n"
  shows "unat (slot n b k + of_nat y) = unat b + (24 + k * unat n + y)"
proof -
  have o: "24 + k * unat n + y < 4096" by (rule slot_bound [OF assms(1,3,4)])
  have "slot n b k + of_nat y = at b (24 + k * unat n + y)" by (simp add: slot_def)
  then show ?thesis using unat_page_offset [OF assms(2) of_nat_less_page [OF o]] unat_small [OF o] by metis
qed

lemma slot_aligned:
  assumes "slab_size n" "page_aligned b" "p \<in> set (slots n b)" "x < unat n"
  shows "cell_of (p + of_nat x) = p + of_nat (x - x mod 8)"
proof -
  obtain k where k: "p = slot n b k" "k < nslots n" using assms(3) by (auto simp: slots_def)
  let ?o = "24 + k * unat n"
  have u: "unat (p + of_nat y) = unat b + (?o + y)" if "y < unat n" for y
    unfolding k(1) by (rule unat_slot [OF assms(1,2) k(2) that])
  have "8 dvd unat n" using slab_size_cases(1) [OF assms(1)] by auto
  moreover have "4096 dvd unat b" using assms(2) by (simp add: page_aligned_iff mod_eq_0_iff_dvd)
  then have "8 dvd unat b" by (rule dvd_trans [rotated]) simp
  ultimately have "8 dvd unat b + ?o" by (intro dvd_add dvd_mult) simp_all
  then have "(unat b + ?o + x) mod 8 = x mod 8" by (metis mod_add_left_eq mod_0_imp_dvd dvd_imp_mod_0 add_0)
  moreover have "x - x mod 8 < unat n" using assms(4) by simp
  ultimately have "unat (cell_of (p + of_nat x)) = unat (p + of_nat (x - x mod 8))"
    unfolding unat_cell_of u [OF assms(4)] u [OF \<open>x - x mod 8 < unat n\<close>]
    by (simp add: add.assoc [symmetric])
  then show ?thesis by (simp only: word_unat_eq_iff)
qed

lemma live_buffer:
  assumes rel: "heap_rel s ch fr B" and q: "(q, n) \<in> live ch fr" and k: "24 + k \<le> unat n"
  shows "buffer (q + 24) k"
proof -
  obtain b where b: "slab_size n" "b \<in> set (ch n)" "q \<in> set (slots n b)" using q by (rule liveE)
  have al: "page_aligned b" by (rule slab_okD(2) [OF slabs_slab_ok [OF heap_relD(4) [OF rel] b(1,2)]])
  obtain j where j: "q = slot n b j" "j < nslots n" using b(3) by (auto simp: slots_def)
  note u = unat_slot [OF b(1) al j(2), folded j(1)]
  have "unat (q + of_nat 24) = unat q + 24" using u [of 24] u [of 0] slab_size_24(1,3) [OF b(1)] by simp
  moreover have "unat (q + of_nat (unat n - 1)) = unat q + (unat n - 1)"
    using u [of "unat n - 1"] u [of 0] slab_size_24(3) [OF b(1)] by simp
  moreover have "direct (q + of_nat (unat n - 1))"
    by (rule live_address(1) [OF rel q]) (use slab_size_24(3) [OF b(1)] in simp)
  then have "unat (q + of_nat (unat n - 1)) < unat KERNEL_HEAP_BASE" by (simp add: direct_def word_less_nat_alt)
  ultimately show ?thesis using k by (simp add: buffer_def)
qed

lemma live_overwrite:
  assumes rel: "heap_rel s ch fr B" and q: "(q, n) \<in> live ch fr" and k: "24 + k \<le> unat n"
    and ow: "overwritten s s' (q + 24) k xs"
  shows "object_update s s' q n" "mem s' q = mem s q"
proof -
  have so: "slabs_ok s ch fr" by (rule heap_relD(4) [OF rel])
  obtain b where b: "slab_size n" "b \<in> set (ch n)" "q \<in> set (slots n b)" using q by (rule liveE)
  have al: "page_aligned b" by (rule slab_okD(2) [OF slabs_slab_ok [OF so b(1,2)]])
  have c: "\<exists>y. 24 \<le> y \<and> y < unat n \<and> cell_of z = q + of_nat y" if zb: "in_buf (q + 24) k z" for z
  proof -
    obtain i where i: "i < k" "z = q + 24 + of_nat i" using zb by (auto simp: in_buf_def)
    then have z: "z = q + of_nat (24 + i)" by simp
    have "cell_of z = q + of_nat (24 + i - (24 + i) mod 8)"
      unfolding z by (rule slot_aligned [OF b(1) al b(3)]) (use i(1) k in simp)
    moreover have "(24 + i) mod 8 = i mod 8" "i mod 8 \<le> i" by (presburger, simp)
    then have "24 \<le> 24 + i - (24 + i) mod 8" "24 + i - (24 + i) mod 8 < unat n" using i(1) k by auto
    ultimately show ?thesis by blast
  qed
  have other: "mem s' a = mem s a" if "\<And>y. 24 \<le> y \<Longrightarrow> y < unat n \<Longrightarrow> a \<noteq> q + of_nat y" for a
  proof -
    have "\<forall>z. in_buf (q + 24) k z \<longrightarrow> a \<noteq> cell_of z" using c that by metis
    then show ?thesis using ow by (simp add: overwritten_def)
  qed
  have "s' = s\<lparr>mem := mem s'\<rparr>" using ow by (simp add: overwritten_def)
  then show "object_update s s' q n" using other by (auto simp: object_update_def)
  show "mem s' q = mem s q"
  proof (rule other)
    fix y
    assume "24 \<le> y" "y < unat n"
    then show "q \<noteq> q + of_nat y" using live_inject [OF so q q, of 0 y] by auto
  qed
qed

text \<open>A block below the heap range comes from a slab.\<close>

lemma direct_block_live:
  assumes "heap_view s L" "(q, n) \<in> L" "direct q"
  shows "\<exists>ch fr B m. heap_rel s ch fr B \<and> L = blocks ch fr B \<and> (q, m) \<in> live ch fr \<and> n = unat m"
proof -
  from assms(1) obtain ch fr B where rel: "heap_rel s ch fr B" and L: "L = blocks ch fr B"
    by (auto simp: heap_view_def)
  have "\<not> (q, fs) \<in> set B" for fs
    using heap_relD(7) [OF rel, of q fs] assms(3) by (auto simp: page_block_def direct_def)
  then obtain m where "(q, m) \<in> live ch fr" "n = unat m" using assms(2) by (auto simp: L blocks_def)
  then show ?thesis using rel L by blast
qed

text \<open>A write into a live object keeps all other blocks.\<close>

lemma live_write_keeps:
  assumes rel: "heap_rel s ch fr B" and q: "(q, m) \<in> live ch fr" and u: "object_update s s' q m"
  shows "keeps s s' (blocks ch fr B - {(q, unat m)})"
proof -
  obtain b where b: "slab_size m" "b \<in> set (ch m)" "q \<in> set (slots m b)" "q \<notin> set (fr b)"
    using q by (rule liveE)
  have so: "slabs_ok s ch fr" by (rule heap_relD(4) [OF rel])
  note sl = slabs_slab_ok [OF so b(1,2)]
  have st: "heap_step s s' {b}" by (rule slab_write(3) [OF sl b(3,4) u heap_relD(1) [OF rel]])
  have T: "{b} \<inter> tables s (root s) = {}" using slab_okD(5) [OF sl] by simp
  have "keeps s s' ((\<lambda>(p, n). (p, unat n)) ` (live ch fr - {(q, m)}) \<union> (\<lambda>(v, fs). (v, 4096 * length fs)) ` set B)"
  proof (rule keepsI [OF rel vmm_frame_same_machine [OF heap_stepD(1) [OF st]]])
    show "mem s' (p + of_nat x) = mem s (p + of_nat x)"
      if p: "(p, l) \<in> live ch fr - {(q, m)}" "x < unat l" for p l x
      using u live_inject [OF so _ q p(2), of p] p(1) unfolding object_update_def by blast
    show "aspace s' (root s) (vidx (vpage v i)) = aspace s (root s) (vidx (vpage v i))" for v i
      by (simp add: heap_step_pages(3) [OF heap_relD(1) [OF rel] st T])
    show "mem s' a = mem s a" if "(v, gs) \<in> set B" "f \<in> set gs" "page_base a = f + hhdm_offset s" for v gs f a
    proof (rule heap_stepD(7) [OF st])
      have f: "f \<in> set (block_frames B)" using that(1,2) by (force simp: block_frames_def)
      show "page_base a \<notin> {b}" using heap_relD(9) [OF rel b(1,2)] f that(3) by auto
      show "page_base a - hhdm_offset s \<notin> free_frames s" using that(3) block_frame(2) [OF rel f] by simp
    qed
  qed auto
  moreover have "blocks ch fr B - {(q, unat m)} =
      (\<lambda>(p, n). (p, unat n)) ` (live ch fr - {(q, m)}) \<union> (\<lambda>(v, fs). (v, 4096 * length fs)) ` set B"
    using small_not_pages [OF rel q] by (auto simp: blocks_def word_unat_eq_iff [symmetric])
  ultimately show ?thesis by simp
qed

text \<open>Filling a block of pages with zeros, behind its header.\<close>

lemma page_block_mmu:
  assumes rel: "heap_rel s ch fr B" and b: "(v, fs) \<in> set B" and x: "x < 4096 * length fs"
  shows "mmu s (v + of_nat x) = Some (at (fs ! (x div 4096) + hhdm_offset s) (x mod 4096))"
    "x div 4096 < length fs" "page_aligned (fs ! (x div 4096) + hhdm_offset s)"
    "fs ! (x div 4096) + hhdm_offset s \<notin> tables s (root s)"
proof -
  note d = heap_relD [OF rel] and pb = heap_relD(7) [OF rel b]
  show j: "x div 4096 < length fs" using x by (simp add: less_mult_imp_div_less mult.commute)
  then have f: "fs ! (x div 4096) \<in> set (block_frames B)" using b nth_mem [OF j] by (force simp: block_frames_def)
  show "page_aligned (fs ! (x div 4096) + hhdm_offset s)" by (rule frame_aligned [OF d(1) block_frame(1) [OF rel f]])
  show "fs ! (x div 4096) + hhdm_offset s \<notin> tables s (root s)" by (rule block_frame(3) [OF rel f])
  have "mmu s (at (vpage v (x div 4096)) (x mod 4096)) = Some (at (fs ! (x div 4096) + hhdm_offset s) (x mod 4096))"
    by (rule mmu_vpage [OF page_block_range [OF pb]]) (use j pb d(3) in \<open>auto simp: page_block_def\<close>)
  then show "mmu s (v + of_nat x) = Some (at (fs ! (x div 4096) + hhdm_offset s) (x mod 4096))"
    by (simp only: block_address [of v x])
qed

lemma cell_of_at:
  assumes "page_aligned b" "y < 4096"
  shows "cell_of (at b y) = at b (y - y mod 8)"
proof -
  have u: "unat (at b z) = unat b + z" if "z < 4096" for z
    using unat_page_offset [OF assms(1), of "of_nat z"] of_nat_less_page [OF that] unat_small [OF that] by simp
  have "4096 dvd unat b" using assms(1) by (simp add: page_aligned_iff mod_eq_0_iff_dvd)
  then have "8 dvd unat b" by (rule dvd_trans [rotated]) simp
  then have "(unat b + y) mod 8 = y mod 8" by (metis mod_add_left_eq dvd_imp_mod_0 add_0)
  moreover have "y - y mod 8 < 4096" using assms(2) by simp
  ultimately have "unat (cell_of (at b y)) = unat (at b (y - y mod 8))" unfolding unat_cell_of u [OF assms(2)] u [OF \<open>y - y mod 8 < 4096\<close>] by simp
  then show ?thesis by (simp only: word_unat_eq_iff)
qed

lemma zero_byte_step:
  assumes rel: "heap_rel s ch fr B" and b: "(v, fs) \<in> set B" and x: "24 \<le> x" "x < 4096 * length fs"
  shows "\<exists>m. store8 (v + of_nat x) 0 s = Some (s\<lparr>mem := m\<rparr>) \<and> heap_rel (s\<lparr>mem := m\<rparr>) ch fr B \<and>
     load8 (v + of_nat x) (s\<lparr>mem := m\<rparr>) = Some 0 \<and>
     (\<forall>a. load8 a s = Some 0 \<longrightarrow> load8 a (s\<lparr>mem := m\<rparr>) = Some 0) \<and>
     (\<forall>a. page_base a - hhdm_offset s \<notin> set fs \<longrightarrow> m a = mem s a) \<and>
     aspace (s\<lparr>mem := m\<rparr>) (root s) = aspace s (root s)"
proof -
  note p = page_block_mmu [OF rel b x(2)] and d = heap_relD [OF rel]
  let ?j = "x div 4096" and ?h = "hhdm_offset s"
  define c where "c = at (fs ! ?j + ?h) (x mod 4096)"
  define m where "m = (mem s)(cell_of c := set_byte (mem s (cell_of c)) (byte_pos c) 0)"
  have pc: "page_base (cell_of c) = fs ! ?j + ?h"
    unfolding page_base_cell_of c_def by (rule page_base_at [OF p(3)]) simp
  have s': "s\<lparr>mem := m\<rparr> = mem_write (cell_of c) (set_byte (mem s (cell_of c)) (byte_pos c) 0) s" by (simp add: m_def mem_write_def)
  have T: "page_base (cell_of c) \<notin> tables s (root s)" unfolding pc by (rule p(4))
  have mm: "mmu (s\<lparr>mem := m\<rparr>) a = mmu s a" for a unfolding s' by (rule mem_write_mmu(1) [OF d(1) T])
  have bt: "byte (s\<lparr>mem := m\<rparr>) a = (if a = c then 0 else byte s a)" for a
    using byte_address [of a c] get_byte_set_byte [OF byte_pos_less byte_pos_less, of _ c 0 a]
    by (cases "cell_of a = cell_of c") (auto simp: byte_def m_def)
  have ld: "load8 a (s\<lparr>mem := m\<rparr>) = map_option (byte (s\<lparr>mem := m\<rparr>)) (mmu s a)" "load8 a s = map_option (byte s) (mmu s a)" for a
    unfolding load8_def mm byte_def by (cases "mmu s a"; simp)+
  have run: "store8 (v + of_nat x) 0 s = Some (s\<lparr>mem := m\<rparr>)"
    unfolding store8_def p(1) s' c_def by simp
  have hdf: "hd fs = fs ! 0" "0 < length fs" using page_block_hd [OF d(7) [OF b]] by simp_all
  have hal: "page_aligned (hd fs + ?h)"
    using page_block_mmu(3) [OF rel b, of 0] hdf by simp
  have ne: "cell_of c \<noteq> at (hd fs + ?h) z" if z: "z = 0 \<or> z = 8" for z
  proof
    assume e: "cell_of c = at (hd fs + ?h) z"
    have "at (fs ! ?j + ?h) (x mod 4096 - x mod 4096 mod 8) = at (hd fs + ?h) z"
      using e unfolding c_def by (simp only: cell_of_at [OF p(3)] mod_less_divisor zero_less_numeral)
    then have q: "fs ! ?j + ?h = hd fs + ?h" "x mod 4096 - x mod 4096 mod 8 = z"
      using at_inject [OF p(3) hal, of "x mod 4096 - x mod 4096 mod 8" z] z by auto
    have "fs \<in> set (map snd B)" using b by force
    then have "distinct fs" using d(8) unfolding block_frames_def distinct_concat_iff by blast
    then have "?j = 0" using q(1) p(2) hdf by (simp add: nth_eq_iff_index_eq)
    then have "x mod 4096 = x" by simp
    then have "x - x mod 8 = z" using q(2) by simp
    moreover have "x mod 8 < 8" by simp
    ultimately show False using z x(1) by linarith
  qed
  have rel': "heap_rel (s\<lparr>mem := m\<rparr>) ch fr B"
    unfolding s' by (rule heap_rel_block_cell [OF rel b p(2) pc]) (use ne [of 0] ne [of 8] in simp_all)
  have "m a = mem s a" if "page_base a - ?h \<notin> set fs" for a
    using that pc nth_mem [OF p(2)] by (auto simp: m_def)
  moreover have "aspace (s\<lparr>mem := m\<rparr>) (root s) = aspace s (root s)"
    unfolding s' using heap_step_pages(3) [OF d(1) heap_step_write [OF pages_ok_pmm [OF d(1)]]] T by simp
  moreover have "load8 (v + of_nat x) (s\<lparr>mem := m\<rparr>) = Some 0" unfolding ld p(1) by (simp add: bt c_def)
  moreover have "load8 a (s\<lparr>mem := m\<rparr>) = Some 0" if "load8 a s = Some 0" for a using that unfolding ld by (auto simp: bt)
  ultimately show ?thesis using run rel' by blast
qed

definition zeroed :: "'a heap_scheme \<Rightarrow> (u64 \<Rightarrow> u64 list) \<Rightarrow> (u64 \<Rightarrow> u64 list) \<Rightarrow> (u64 \<times> u64 list) list \<Rightarrow> u64 list \<Rightarrow> u64 \<Rightarrow> nat \<Rightarrow>
    'a heap_scheme \<Rightarrow> bool" where
  "zeroed s ch fr B fs p k t \<longleftrightarrow> (\<exists>m. t = s\<lparr>mem := m\<rparr>) \<and> heap_rel t ch fr B \<and> (\<forall>i < k. load8 (p + of_nat i) t = Some 0) \<and>
     (\<forall>a. page_base a - hhdm_offset s \<notin> set fs \<longrightarrow> mem t a = mem s a) \<and> aspace t (root s) = aspace s (root s)"

lemma zero_fill:
  assumes rel: "heap_rel s ch fr B" and b: "(v, fs) \<in> set B" and n: "24 + unat n \<le> 4096 * length fs"
  shows "\<exists>s'. memset (v + 24) 0 n s = Some (v + 24, s') \<and> zeroed s ch fr B fs (v + 24) (unat n) s'"
proof -
  have "\<exists>s'. for_u64 0 n (\<lambda>i s. store8 (v + 24 + i) (ucast (0 :: u32)) s) s = Some s' \<and> zeroed s ch fr B fs (v + 24) (unat n) s'"
  proof (rule for_u64_rule [where I = "\<lambda>k. zeroed s ch fr B fs (v + 24) (unat k)"])
    show "zeroed s ch fr B fs (v + 24) (unat (0 :: u64)) s" using rel by (auto simp: zeroed_def intro: exI [of _ "mem s"])
    show "0 \<le> n" by simp
  next
    fix k :: u64 and t
    assume k: "k < n" and z: "zeroed s ch fr B fs (v + 24) (unat k) t"
    have lt: "24 + unat k < 4096 * length fs" using k n by (simp add: word_less_nat_alt)
    obtain m0 where m0: "t = s\<lparr>mem := m0\<rparr>" using z by (auto simp: zeroed_def)
    then have h: "hhdm_offset t = hhdm_offset s" "root t = root s" by (simp_all add: root_mem_update)
    have a: "v + 24 + k = v + of_nat (24 + unat k)" "v + 24 + of_nat (unat k) = v + of_nat (24 + unat k)" by simp_all
    have relt: "heap_rel t ch fr B" using z by (simp add: zeroed_def)
    from zero_byte_step [OF relt b _ lt] obtain m where m: "store8 (v + of_nat (24 + unat k)) 0 t = Some (t\<lparr>mem := m\<rparr>)"
      "heap_rel (t\<lparr>mem := m\<rparr>) ch fr B" "load8 (v + of_nat (24 + unat k)) (t\<lparr>mem := m\<rparr>) = Some 0"
      "\<And>a. load8 a t = Some 0 \<Longrightarrow> load8 a (t\<lparr>mem := m\<rparr>) = Some 0"
      "\<And>a. page_base a - hhdm_offset s \<notin> set fs \<Longrightarrow> m a = mem t a"
      "aspace (t\<lparr>mem := m\<rparr>) (root s) = aspace t (root s)" unfolding h by auto
    have "load8 (v + 24 + of_nat i) (t\<lparr>mem := m\<rparr>) = Some 0" if "i < unat (k + 1)" for i
    proof (cases "i = unat k")
      case True
      then show ?thesis using m(3) unfolding a(2) [symmetric] by simp
    next
      case False
      then have "i < unat k" using that unat_succ_less [OF k] by simp
      then show ?thesis using z m(4) by (simp add: zeroed_def)
    qed
    then have "zeroed s ch fr B fs (v + 24) (unat (k + 1)) (t\<lparr>mem := m\<rparr>)"
      using z m(2,5,6) m0 unfolding zeroed_def by auto
    then show "\<exists>t'. store8 (v + 24 + k) (ucast (0 :: u32)) t = Some t' \<and> zeroed s ch fr B fs (v + 24) (unat (k + 1)) t'"
      using m(1) unfolding a by simp
  qed
  then show ?thesis by (auto simp: memset_def)
qed

lemma zeroed_keeps:
  assumes rel: "heap_rel s ch fr ((v, fs) # B)" and z: "zeroed s ch fr ((v, fs) # B) fs p n s'"
  shows "keeps s s' (blocks ch fr B)"
proof -
  note d = heap_relD [OF rel]
  obtain m where s': "s' = s\<lparr>mem := m\<rparr>" using z by (auto simp: zeroed_def)
  have me: "mem s' a = mem s a" if "page_base a - hhdm_offset s \<notin> set fs" for a using z that by (simp add: zeroed_def)
  show ?thesis
    unfolding blocks_def
  proof (rule keepsI [OF rel])
    show "same_machine s s'" by (simp add: s' same_machine_def root_mem_update)
    show "mem s' (q + of_nat x) = mem s (q + of_nat x)" if q: "(q, k) \<in> live ch fr" "x < unat k" for q k x
    proof -
      have "slab_size k" using q(1) by (simp add: live_def)
      then have "page_base (q + of_nat x) - hhdm_offset s \<notin> set fs"
        using d(9) [OF _ live_address(5) [OF rel q]] by (auto simp: block_frames_def)
      then show ?thesis by (rule me)
    qed
    show "mem s' a = mem s a" if "(w, gs) \<in> set B" "f \<in> set gs" "page_base a = f + hhdm_offset s" for w gs f a
    proof (rule me)
      have "f \<notin> set fs" using d(8) that(1,2) by (force simp: block_frames_def)
      then show "page_base a - hhdm_offset s \<notin> set fs" using that(3) by simp
    qed
    show "aspace s' (root s) (vidx (vpage w j)) = aspace s (root s) (vidx (vpage w j))" for w j using z by (simp add: zeroed_def)
  qed auto
qed

lemma kcalloc_small:
  assumes hv: "heap_view s L" and sz: "0 < count * sz" "count * sz \<le> 1000"
  shows "\<exists>p s'. kcalloc count sz s = Some (p, s') \<and> keeps s s' L \<and>
     (if p = NULL then heap_view s' L \<and> (free_frames s = {} \<or> (\<exists>c \<in> set (caches s). first_slab c = NULL))
      else (\<forall>i < unat (count * sz). load8 (p + of_nat i) s' = Some 0) \<and>
           (\<exists>n. unat (count * sz) + 24 \<le> n \<and> (p - 24, n) \<notin> L \<and> heap_view s' (insert (p - 24, n) L)))"
proof -
  let ?z = "count * sz"
  from kmalloc_small_contract [OF hv sz] obtain p s1 where k: "kmalloc ?z s = Some (p, s1)" "keeps s s1 L"
    and out: "if p = NULL
      then heap_view s1 L \<and> (free_frames s = {} \<or> (\<exists>c \<in> set (caches s). first_slab c = NULL))
      else \<exists>n. unat ?z + 24 \<le> n \<and> (p - 24, n) \<notin> L \<and> heap_view s1 (insert (p - 24, n) L) \<and>
               load64 (p - 8) s1 = Some ?z \<and> direct (p - 24)" by blast
  show ?thesis
  proof (cases "p = NULL")
    case True
    then show ?thesis using k out by (simp add: kcalloc_def)
  next
    case False
    then obtain n where n: "unat ?z + 24 \<le> n" "(p - 24, n) \<notin> L" "heap_view s1 (insert (p - 24, n) L)"
      "direct (p - 24)" using out by auto
    from direct_block_live [OF n(3) _ n(4)] obtain ch fr B m where rel: "heap_rel s1 ch fr B"
      and L: "insert (p - 24, n) L = blocks ch fr B" and m: "(p - 24, m) \<in> live ch fr" "n = unat m" by blast
    have km: "24 + unat ?z \<le> unat m" using n(1) m(2) by simp
    have buf: "buffer p (unat ?z)" using live_buffer [OF rel m(1) km] by simp
    from memset_spec [OF buf, of 0 s1] obtain s2 where
      ms: "memset p 0 ?z s1 = Some (p, s2)" "overwritten s1 s2 p (unat ?z) (replicate (unat ?z) 0)" by auto
    have ow: "object_update s1 s2 (p - 24) m" "mem s2 (p - 24) = mem s1 (p - 24)"
      using live_overwrite [OF rel m(1) km, of s2 "replicate (unat ?z) 0"] ms(2) by simp_all
    have "heap_rel s2 ch fr B"
      using heap_rel_write [OF rel m(1) ow(1)] ow(2) slabs_okD(3) [OF heap_relD(4) [OF rel] m(1)] by simp
    then have "heap_view s2 (insert (p - 24, n) L)" unfolding L by (rule heap_viewI)
    moreover have "load8 (p + of_nat i) s2 = Some 0" if "i < unat ?z" for i
    proof -
      have "bytes_at s2 p (unat ?z) ! i = 0" using ms(2) that by (simp add: overwritten_def)
      then show ?thesis using that unat_buffer(2) [OF buf that] by (simp add: bytes_at_def)
    qed
    moreover have "kcalloc count sz s = Some (p, s2)" using k False ms(1) by (simp add: kcalloc_def)
    moreover have "blocks ch fr B - {(p - 24, unat m)} = L" using L n(2) m(2) by auto
    then have "keeps s s2 L" using keeps_trans [OF k(2)] live_write_keeps [OF rel m(1) ow(1)] by simp
    ultimately show ?thesis using False n(1,2) by auto
  qed
qed

lemma kcalloc_large:
  assumes hv: "heap_view s L" and sz: "1024 < count * sz" "kmalloc_room (count * sz) s"
  shows "\<exists>p s' n. kcalloc count sz s = Some (p, s') \<and> keeps s s' L \<and> p \<noteq> NULL \<and>
     (\<forall>i < unat (count * sz). load8 (p + of_nat i) s' = Some 0) \<and>
     unat (count * sz) + 24 \<le> n \<and> (p - 24, n) \<notin> L \<and> heap_view s' (insert (p - 24, n) L)"
proof -
  let ?z = "count * sz" and ?v = "kernel_heap_vaddr s"
  from hv obtain ch fr B where rel: "heap_rel s ch fr B" and L: "L = blocks ch fr B"
    by (auto simp: heap_view_def)
  from kmalloc_large_rel [OF rel sz] obtain s1 fs where
    run: "kmalloc ?z s = Some (?v + 24, s1)" and rel1: "heap_rel s1 ch fr ((?v, fs) # B)"
    and ba: "block_added s s1 (pages_for ?z) fs" by blast
  have len: "length fs = pages_for ?z" using ba by (simp add: block_added_def)
  have le: "24 + unat ?z \<le> 4096 * length fs" unfolding len pages_for_def by linarith
  have "(?v, fs) \<in> set ((?v, fs) # B)" by simp
  from zero_fill [OF rel1 this le] obtain s2 where ms: "memset (?v + 24) 0 ?z s1 = Some (?v + 24, s2)"
    and z: "zeroed s1 ch fr ((?v, fs) # B) fs (?v + 24) (unat ?z) s2" by blast
  have bl: "blocks ch fr ((?v, fs) # B) = insert (?v, 4096 * length fs) L" by (auto simp: blocks_def L)
  have rel2: "heap_rel s2 ch fr ((?v, fs) # B)" using z by (simp add: zeroed_def)
  have nn: "?v + 24 \<noteq> NULL" using block_facts(2) [OF rel2] bl by blast
  have "(?v, 4096 * length fs) \<notin> L" using kmalloc_large_contract [OF hv sz] by (auto simp: len)
  moreover have "heap_view s2 (insert (?v, 4096 * length fs) L)" using heap_viewI [OF rel2] unfolding bl .
  moreover have "keeps s s2 L"
    using keeps_trans [OF block_added_keeps [OF rel rel1 ba] zeroed_keeps [OF rel1 z]] unfolding L .
  moreover have "kcalloc count sz s = Some (?v + 24, s2)" using run ms nn by (simp add: kcalloc_def)
  moreover have "\<forall>i < unat ?z. load8 (?v + 24 + of_nat i) s2 = Some 0" using z by (simp add: zeroed_def)
  ultimately show ?thesis using nn le by (intro exI [of _ "?v + 24"] exI [of _ s2] exI [of _ "4096 * length fs"]) simp
qed

section \<open>Properties\<close>

text \<open>A machine with 64 pages, of which 2 to 63 are free, before \<^verbatim>\<open>heap_init\<close>.\<close>

definition sample_heap :: heap where
  "sample_heap = \<lparr>klog = [], bitmap = 0x03 # replicate 7 0, bitmap_ptr = 0, total_pages = 64, free_pages = 62,
                  bitmap_size = 8, hhdm_offset = 0x100000, mem = (\<lambda>_. 0), cr3 = 0x1000, invlpg = [],
                  caches = replicate 6 \<lparr>obj_size = 0, first_slab = 0\<rparr>,
                  kernel_heap_vaddr = KERNEL_HEAP_BASE\<rparr>"

lemma sample_heap_free: "free_set sample_heap = {2..<64}"
proof -
  have "page_used (0x03 # replicate 7 0) i \<longleftrightarrow> i < 2" if "i < 64" for i
  proof (cases "i < 8")
    case True
    then consider "i = 0" | "i = 1" | "i = 2" | "i = 3" | "i = 4" | "i = 5" | "i = 6" | "i = 7"
      by linarith
    then show ?thesis by cases (simp_all add: page_used_def)
  next
    case False
    then obtain k where "i div 8 = Suc k" using div_le_mono [of 8 i 8] by (cases "i div 8") auto
    moreover have "i div 8 < 8" using that by simp
    ultimately show ?thesis using False by (simp add: page_used_def)
  qed
  then show ?thesis by (auto simp: free_set_def sample_heap_def)
qed

lemma sample_heap_ok: "pmm_ok sample_heap"
  unfolding pmm_ok_def pmm_inv_def sample_heap_free by (simp add: sample_heap_def)

lemma sample_heap_card: "card (free_frames sample_heap) = 62"
proof -
  have "inj_on (\<lambda>i. of_nat i * PAGE_SIZE) {2..<64 :: nat}"
  proof (rule inj_onI)
    fix i j :: nat
    assume ij: "i \<in> {2..<64}" "j \<in> {2..<64}" and e: "of_nat i * PAGE_SIZE = of_nat j * PAGE_SIZE"
    have "4096 * i = unat (of_nat i * PAGE_SIZE)" by (rule unat_frame [symmetric]) (use ij in simp)
    also have "\<dots> = unat (of_nat j * PAGE_SIZE)" unfolding e by (rule refl)
    also have "\<dots> = 4096 * j" by (rule unat_frame) (use ij in simp)
    finally show "i = j" by simp
  qed
  then show ?thesis
    using sample_heap_ok unfolding pmm_ok_def by (simp add: free_frames_image sample_heap_free card_image)
qed

lemma sample_heap_pages: "pages_ok sample_heap"
proof -
  have T: "tbl h (\<lambda>_. 0) r p = Some a \<Longrightarrow> p = [] \<and> a = r" for h r p a
    by (cases p) auto
  have r: "root sample_heap = 0x101000"
    by (simp add: vmm_get_current_def phys_to_virt_def sample_heap_def page_base_def)
  have small: "unat (at (f + 0x100000) k) = unat f + 0x100000 + k" "unat f < 262144"
    if "f \<in> managed_frames sample_heap" "k < 4096" for f k
  proof -
    have "unat f div 4096 < 64" using that(1) by (simp add: managed_frames_def sample_heap_def)
    then show f: "unat f < 262144" by simp
    then show "unat (at (f + 0x100000) k) = unat f + 0x100000 + k"
      using that(2) unat_small [OF that(2)] by (simp add: unat_word_ariths)
  qed
  have hh: "hhdm_offset sample_heap = 0x100000" by (simp add: sample_heap_def)
  have "hhdm_low sample_heap"
    unfolding hhdm_low_def hh direct_def word_less_nat_alt
    using small by (fastforce simp: KERNEL_HEAP_BASE_def)
  moreover have "f + 0x100000 \<noteq> NULL" if "f \<in> managed_frames sample_heap" for f
    using small(1) [OF that, of 0] by auto
  then have "hhdm_ok sample_heap" unfolding hhdm_ok_def hh by (simp add: page_aligned_def)
  moreover have "pt_tree sample_heap 0x101000"
  proof -
    have "0x1000 \<notin> free_frames sample_heap" by (simp add: free_frames_def sample_heap_free)
    then show ?thesis
      unfolding pt_tree_def by (auto simp: hh sample_heap_def page_aligned_def dest!: T)
  qed
  ultimately show ?thesis using sample_heap_ok r by (simp add: pages_ok_def vmm_inv_def)
qed

text \<open>The sample machine after \<^verbatim>\<open>heap_init\<close>.\<close>

lemma sample_heap_ready:
  "\<exists>s :: heap. heap_view s {} \<and> 56 \<le> card (free_frames s) \<and> kernel_heap_vaddr s = KERNEL_HEAP_BASE \<and>
              (\<forall>c \<in> set (caches s). first_slab c \<noteq> NULL) \<and> used_kept sample_heap s"
  using heap_init_spec [OF sample_heap_pages] sample_heap_card by (auto simp: sample_heap_def)

lemma room_sample: "56 \<le> card (free_frames s) \<Longrightarrow> kernel_heap_vaddr s = KERNEL_HEAP_BASE \<Longrightarrow> kmalloc_room 5000 s"
  by (simp add: kmalloc_room_def pages_for_def KERNEL_HEAP_BASE_def)

text \<open>
  C1. \<^verbatim>\<open>kmalloc\<close> of 1 to 1024 bytes, or of more with four free pages for each page of the block and room in the address space:
  it returns and keeps the contents of every live block. It gives \<^verbatim>\<open>NULL\<close> for 1001 to 1024 bytes, always, and
  for up to 1000 bytes only when no page is left (or a cache never got its first slab), with the set of
  live blocks unchanged; otherwise the heap has exactly one more block, which spans the request and
  its header, and starts 24 bytes before the pointer returned.
\<close>

theorem kmalloc_new_block:
  assumes "heap_view s L" and "0 < sz" and "kmalloc_room sz s"
  shows "\<exists>p s'. kmalloc sz s = Some (p, s') \<and> keeps s s' L \<and>
     (if p = NULL
      then heap_view s' L \<and>
        (1000 < sz \<and> sz \<le> 1024 \<or> sz \<le> 1000 \<and> (free_frames s = {} \<or> (\<exists>c \<in> set (caches s). first_slab c = NULL)))
      else \<not> (1000 < sz \<and> sz \<le> 1024) \<and> (\<exists>n. unat sz + 24 \<le> n \<and> (p - 24, n) \<notin> L \<and> heap_view s' (insert (p - 24, n) L)))"
  using assms by (rule kmalloc_contract)

theorem kmalloc_new_block_witness:
  "\<exists>s :: heap. \<exists>p s' n. kmalloc 5000 s = Some (p, s') \<and> 5024 \<le> n \<and> heap_view s' {(p - 24, n)}"
proof -
  obtain s :: heap where s: "heap_view s {}" "56 \<le> card (free_frames s)" "kernel_heap_vaddr s = KERNEL_HEAP_BASE"
    using sample_heap_ready by blast
  have "free_frames s \<noteq> {}" using s(2) by auto
  then show ?thesis
    using kmalloc_new_block [OF s(1) _ room_sample [OF s(2,3)]] by (auto split: if_splits)
qed

text \<open>
  C8. \<^verbatim>\<open>kfree\<close> of a live block, from a slab or of pages: it returns, exactly that block is gone and the
  contents of every other live block are kept. Freeing a block of a slab changes no physical page; freeing a block of pages makes
  exactly the physical pages free to which its pages were mapped, one for each page of the block.
\<close>

theorem kfree_block:
  assumes "heap_view s L" and "(q, n) \<in> L"
  shows "\<exists>s'. kfree (q + 24) s = Some s' \<and> heap_view s' (L - {(q, n)}) \<and> keeps s s' (L - {(q, n)}) \<and>
              free_frames s' = free_frames s \<union> backing_frames s q n \<and>
              card (free_frames s') = card (free_frames s) + (if direct q then 0 else n div 4096)"
  using assms by (rule kfree_view)

theorem kfree_block_witness:
  "\<exists>s q n. \<exists>s' :: heap. heap_view s {(q, n)} \<and> kfree (q + 24) s = Some s' \<and> heap_view s' {} \<and>
     card (free_frames s') = card (free_frames s) + 2"
proof -
  obtain s :: heap where s: "heap_view s {}" "56 \<le> card (free_frames s)" "kernel_heap_vaddr s = KERNEL_HEAP_BASE"
    using sample_heap_ready by blast
  have "1024 < (5000 :: u64)" by simp
  from kmalloc_large_contract [OF s(1) this room_sample [OF s(2,3)]] obtain s1 :: heap where
    h: "heap_view s1 {(KERNEL_HEAP_BASE, 4096 * 2)}" by (auto simp: s(3) pages_for_def)
  have nd: "\<not> direct KERNEL_HEAP_BASE" by (simp add: direct_def)
  have "\<exists>s'. kfree (KERNEL_HEAP_BASE + 24) s1 = Some s' \<and> heap_view s' {} \<and> card (free_frames s') = card (free_frames s1) + 2"
    using kfree_block [OF h, of KERNEL_HEAP_BASE "4096 * 2"] nd by auto
  then show ?thesis using h by blast
qed

text \<open>
  C23. A block that is allocated and freed again leaves the caller's view of the heap as it was: the
  same pointers with the same usable sizes. Live blocks never share a byte and a new pointer is never
  one that is still in use.
\<close>

theorem kmalloc_kfree_roundtrip:
  assumes "client_view s C" and "0 < sz" and "kmalloc_room sz s" and "kmalloc sz s = Some (p, s')"
    and "p \<noteq> NULL"
  shows "(\<exists>s''. kfree p s' = Some s'' \<and> client_view s'' C) \<and> p \<notin> fst ` C \<and>
         (\<exists>n. unat sz \<le> n \<and> client_view s' (insert (p, n) C) \<and>
              (\<forall>(q, m) \<in> C. block_bytes p n \<inter> block_bytes q m = {}))"
  using heap.alloc_release [OF assms] heap.alloc_fresh [OF assms] by blast

theorem kmalloc_kfree_roundtrip_witness:
  "\<exists>s :: heap. \<exists>p s' s''. kmalloc 5000 s = Some (p, s') \<and> kfree p s' = Some s'' \<and> client_view s'' {}"
proof -
  obtain s :: heap where s: "heap_view s {}" "56 \<le> card (free_frames s)" "kernel_heap_vaddr s = KERNEL_HEAP_BASE"
    using sample_heap_ready by blast
  have "1024 < (5000 :: u64)" by simp
  from kmalloc_large_contract [OF s(1) this room_sample [OF s(2,3)]] s(3) obtain s' where
    k: "kmalloc 5000 s = Some (KERNEL_HEAP_BASE + 24, s')" by auto
  have "client_view s {}" using s(1) by (auto simp: client_view_def)
  then show ?thesis
    using kmalloc_kfree_roundtrip [OF _ _ room_sample [OF s(2,3)] k, of "{}"] k
    by (auto simp: KERNEL_HEAP_BASE_def)
qed

text \<open>
  C29. Freeing a slab block twice in a row is detected: the second \<^verbatim>\<open>kfree\<close> finds no magic number (the
  cell now holds an even address) and only logs an error.
\<close>

theorem kfree_double_detected:
  assumes "heap_view s L" and "(q, n) \<in> L" and "direct q"
  shows "\<exists>s'. kfree (q + 24) s = Some s' \<and> kfree (q + 24) s' = Some (log_error ''KFREE'' s')"
  using direct_block_live [OF assms] kfree_small_spec by blast

theorem kfree_double_detected_witness:
  "\<exists>s :: heap. \<exists>p s' s'' s3. kmalloc 8 s = Some (p, s') \<and> kfree p s' = Some s'' \<and>
      kfree p s'' = Some s3 \<and> (LOG_ERROR, ''KFREE'') \<in> set (klog s3)"
proof -
  obtain s :: heap where s: "heap_view s {}" "56 \<le> card (free_frames s)"
    "\<forall>c \<in> set (caches s). first_slab c \<noteq> NULL" using sample_heap_ready by blast
  from s(2) have ff: "free_frames s \<noteq> {}" by auto
  from kmalloc_small_contract [OF s(1), of 8] ff s(3) obtain p s1 n where
    k: "kmalloc 8 s = Some (p, s1)" "heap_view s1 {(p - 24, n)}" "direct (p - 24)" by (auto split: if_splits)
  from kfree_double_detected [OF k(2) _ k(3)] obtain s2 where
    "kfree p s1 = Some s2" "kfree p s2 = Some (log_error ''KFREE'' s2)" by auto
  moreover have "(LOG_ERROR, ''KFREE'') \<in> set (klog (log_error ''KFREE'' s2))" by simp
  ultimately show ?thesis using k(1) by blast
qed

text \<open>
  C30. \<^verbatim>\<open>kmalloc\<close> of 1001 to 1024 bytes always fails: the request counts as slab-sized, but with its
  header it fits no cache.
\<close>

theorem kmalloc_gap:
  assumes "map obj_size (caches s) = slab_sizes" and "1000 < sz" and "sz \<le> 1024"
  shows "kmalloc sz s = Some (NULL, s)"
  using assms by (rule kmalloc_between)

theorem kmalloc_gap_witness:
  "kmalloc 1010 (sample_heap\<lparr>caches := map (\<lambda>n. \<lparr>obj_size = n, first_slab = 0\<rparr>) slab_sizes\<rparr>) =
   Some (NULL, sample_heap\<lparr>caches := map (\<lambda>n. \<lparr>obj_size = n, first_slab = 0\<rparr>) slab_sizes\<rparr>)"
  by (rule kmalloc_gap) (simp_all add: slab_sizes_def)

text \<open>
  A request within 23 bytes of the end of the 64-bit range wraps around when the header is added:
  \<^verbatim>\<open>kmalloc\<close> succeeds and returns a block of a single page.
\<close>

lemma kmalloc_size_wraps:
  assumes "heap_view s L" and "18446744073709551593 \<le> sz" and "4 \<le> card (free_frames s)"
    and "unat (kernel_heap_vaddr s) + 4096 < 2 ^ 64"
  shows "\<exists>s'. kmalloc sz s = Some (kernel_heap_vaddr s + 24, s') \<and>
              heap_view s' (insert (kernel_heap_vaddr s, 4096) L)"
proof -
  from assms(1) obtain ch fr B where rel: "heap_rel s ch fr B" and L: "L = blocks ch fr B"
    by (auto simp: heap_view_def)
  have z: "18446744073709551593 \<le> unat sz" using assms(2) by (simp add: word_le_nat_alt)
  then have "unat (sz + 24 + 4095) = unat sz + 24 + 4095 - 2 ^ 64"
    using unat_u64_less [of sz] by (simp add: unat_word_ariths le_mod_geq)
  then have "unat ((sz + 24 + 4095) div 4096) = 1" using z unat_u64_less [of sz] by (simp add: unat_div)
  then obtain s' fs where "kmalloc_large sz (sz + 24) s = Some (kernel_heap_vaddr s + 24, s')"
    "heap_rel s' ch fr ((kernel_heap_vaddr s, fs) # B)" "length fs = 1"
    using kmalloc_large_spec [OF rel refl, of "sz + 24" sz] assms(3,4) by (auto simp: block_added_def)
  moreover have "SLAB_1024 < sz" "sz \<noteq> 0" using z by (auto simp: SLAB_1024_def word_less_nat_alt)
  ultimately show ?thesis
    using heap_viewI [of s' ch fr "(kernel_heap_vaddr s, fs) # B"] by (auto simp: kmalloc_def L blocks_def)
qed

text \<open>
  C31. \<^verbatim>\<open>kcalloc\<close> of 1 to 1024 bytes, or of more with four free pages for each page of the block and room in the address space, from a slab or of
  pages: it returns, and keeps the contents of every live block. It gives \<^verbatim>\<open>NULL\<close> where \<^verbatim>\<open>kmalloc\<close> does, for 1001 to 1024 bytes and for
  up to 1000 bytes only when no page is left, with the live blocks unchanged; otherwise there is exactly one more block, and every requested byte of it
  reads as zero. The size is the product modulo \<open>2\<^sup>6\<^sup>4\<close>: the code does not check the multiplication.
\<close>

theorem kcalloc_zeroed:
  assumes "heap_view s L" and "0 < count * sz" and "kmalloc_room (count * sz) s"
  shows "\<exists>p s'. kcalloc count sz s = Some (p, s') \<and> keeps s s' L \<and>
     (if p = NULL
      then heap_view s' L \<and> (1000 < count * sz \<and> count * sz \<le> 1024 \<or>
        count * sz \<le> 1000 \<and> (free_frames s = {} \<or> (\<exists>c \<in> set (caches s). first_slab c = NULL)))
      else \<not> (1000 < count * sz \<and> count * sz \<le> 1024) \<and>
           (\<forall>i < unat (count * sz). load8 (p + of_nat i) s' = Some 0) \<and>
           (\<exists>n. unat (count * sz) + 24 \<le> n \<and> (p - 24, n) \<notin> L \<and> heap_view s' (insert (p - 24, n) L)))"
proof -
  consider "count * sz \<le> 1000" | "1000 < count * sz" "count * sz \<le> 1024" | "1024 < count * sz" by (meson not_le)
  then show ?thesis
  proof cases
    case 1
    then obtain p s' where "kcalloc count sz s = Some (p, s')" "keeps s s' L"
      "if p = NULL then heap_view s' L \<and> (free_frames s = {} \<or> (\<exists>c \<in> set (caches s). first_slab c = NULL))
       else (\<forall>i < unat (count * sz). load8 (p + of_nat i) s' = Some 0) \<and>
            (\<exists>n. unat (count * sz) + 24 \<le> n \<and> (p - 24, n) \<notin> L \<and> heap_view s' (insert (p - 24, n) L))"
      using kcalloc_small [OF assms(1,2)] by blast
    moreover have "\<not> 1000 < count * sz" using 1 by simp
    ultimately show ?thesis using 1 by (intro exI [of _ p] exI [of _ s']) (simp split: if_splits)
  next
    case 2
    obtain ch fr B where "heap_rel s ch fr B" using assms(1) by (auto simp: heap_view_def)
    then have "map obj_size (caches s) = slab_sizes" by (rule slabs_okD(1) [OF heap_relD(4)])
    from kmalloc_between [OF this 2] have "kcalloc count sz s = Some (NULL, s)" by (simp add: kcalloc_def)
    then show ?thesis using assms(1) 2 by (intro exI [of _ NULL] exI [of _ s]) (simp add: keeps_def case_prod_beta)
  next
    case 3
    from kcalloc_large [OF assms(1) this assms(3)] obtain p s' n where
      "kcalloc count sz s = Some (p, s')" "keeps s s' L" "p \<noteq> NULL" "\<forall>i < unat (count * sz). load8 (p + of_nat i) s' = Some 0"
      "unat (count * sz) + 24 \<le> n" "(p - 24, n) \<notin> L" "heap_view s' (insert (p - 24, n) L)" by blast
    then show ?thesis using 3 by (intro exI [of _ p] exI [of _ s']) auto
  qed
qed

theorem kcalloc_zeroed_witness:
  "\<exists>s :: heap. (\<exists>p s'. kcalloc 0x2000000000000001 8 s = Some (p, s') \<and> p \<noteq> NULL \<and> (\<forall>i < 8. load8 (p + of_nat i) s' = Some 0)) \<and>
     (\<exists>p s'. kcalloc 50 100 s = Some (p, s') \<and> p \<noteq> NULL \<and> (\<forall>i < 5000. load8 (p + of_nat i) s' = Some 0))"
proof -
  obtain s :: heap where s: "heap_view s {}" "56 \<le> card (free_frames s)" "kernel_heap_vaddr s = KERNEL_HEAP_BASE"
    "\<forall>c \<in> set (caches s). first_slab c \<noteq> NULL" using sample_heap_ready by blast
  have ff: "free_frames s \<noteq> {}" using s(2) by auto
  have e: "0x2000000000000001 * 8 = (8 :: u64)" "50 * 100 = (5000 :: u64)" by simp_all
  have r: "kmalloc_room 8 s" by (simp add: kmalloc_room_def)
  have "\<exists>p s'. kcalloc 0x2000000000000001 8 s = Some (p, s') \<and> p \<noteq> NULL \<and> (\<forall>i < 8. load8 (p + of_nat i) s' = Some 0)"
    using kcalloc_zeroed [OF s(1), of "0x2000000000000001" 8, unfolded e(1), OF _ r] ff s(4) by (auto split: if_splits)
  moreover have "\<exists>p s'. kcalloc 50 100 s = Some (p, s') \<and> p \<noteq> NULL \<and> (\<forall>i < 5000. load8 (p + of_nat i) s' = Some 0)"
    using kcalloc_zeroed [OF s(1), of 50 100, unfolded e(2), OF _ room_sample [OF s(2,3)]] ff s(4) by (auto split: if_splits)
  ultimately show ?thesis by blast
qed

end
