(* ===== verification/HeapClient.thy ===== *)
theory HeapClient
  imports KernelHeap
begin

text \<open>
  The heap as the file system uses it: small blocks, with the number of free pages counted, so that an
  allocation is known to succeed, and with memory that the heap keeps off, such as the modules the boot
  loader leaves.
\<close>

section \<open>A heap with spare pages\<close>

text \<open>
  \<open>heap_ready k s L R\<close>: a well-formed heap with the blocks \<open>L\<close>, at least \<open>k\<close> free pages, a first slab in
  every cache, and no part of it in the pages \<open>R\<close>.
\<close>

definition spare_page :: "'a heap_scheme \<Rightarrow> (u64 \<Rightarrow> u64 list) \<Rightarrow> (u64 \<times> u64 list) list \<Rightarrow> u64 \<Rightarrow> bool" where
  "spare_page s ch B b \<longleftrightarrow>
     b - hhdm_offset s \<notin> free_frames s \<and> b \<notin> tables s (root s) \<and> b - hhdm_offset s \<notin> set (block_frames B) \<and>
     (\<forall>n. slab_size n \<longrightarrow> b \<notin> set (ch n))"

definition heap_ready :: "nat \<Rightarrow> 'a heap_scheme \<Rightarrow> (u64 \<times> nat) set \<Rightarrow> u64 set \<Rightarrow> bool" where
  "heap_ready k s L R \<longleftrightarrow>
     (\<forall>c \<in> set (caches s). first_slab c \<noteq> NULL) \<and> k \<le> card (free_frames s) \<and>
     (\<exists>ch fr B. heap_rel s ch fr B \<and> L = blocks ch fr B \<and> (\<forall>b \<in> R. spare_page s ch B b))"

lemma heap_readyE:
  assumes "heap_ready k s L R"
  obtains ch fr B where "heap_rel s ch fr B" "L = blocks ch fr B" "\<forall>b \<in> R. spare_page s ch B b"
    "\<forall>c \<in> set (caches s). first_slab c \<noteq> NULL" "k \<le> card (free_frames s)"
  using assms unfolding heap_ready_def by blast

lemma heap_readyI:
  "heap_rel s ch fr B \<Longrightarrow> L = blocks ch fr B \<Longrightarrow> \<forall>b \<in> R. spare_page s ch B b \<Longrightarrow>
   \<forall>c \<in> set (caches s). first_slab c \<noteq> NULL \<Longrightarrow> k \<le> card (free_frames s) \<Longrightarrow> heap_ready k s L R"
  unfolding heap_ready_def by blast

lemma heap_ready_view: "heap_ready k s L R \<Longrightarrow> heap_view s L"
  by (auto simp: heap_ready_def heap_view_def)

lemma heap_ready_mono: "heap_ready k s L R \<Longrightarrow> j \<le> k \<Longrightarrow> heap_ready j s L R"
  by (auto simp: heap_ready_def)

lemma takes_one_card:
  assumes "takes_one s s'" "finite (free_frames s')"
  shows "card (free_frames s) \<le> Suc (card (free_frames s'))"
proof -
  obtain f where "free_frames s \<subseteq> insert f (free_frames s')" using assms(1) by (auto simp: takes_one_def)
  then have "card (free_frames s) \<le> card (insert f (free_frames s'))" using assms(2) by (intro card_mono) auto
  also have "\<dots> \<le> Suc (card (free_frames s'))" by (rule card_insert_le_m1) auto
  finally show ?thesis .
qed

text \<open>What an allocation or a release leaves alone.\<close>

definition heap_same :: "'a heap_scheme \<Rightarrow> 'a heap_scheme \<Rightarrow> (u64 \<times> nat) set \<Rightarrow> u64 set \<Rightarrow> bool" where
  "heap_same s s' L R \<longleftrightarrow>
     keeps s s' L \<and> vmm_frame s s' \<and> (\<forall>a. page_base a \<in> R \<longrightarrow> mem s' a = mem s a)"

lemma spare_page_step:
  assumes rel: "heap_rel s ch fr B" and st: "heap_step s s' P" and P: "\<forall>b \<in> P. \<exists>n. slab_size n \<and> b \<in> set (ch n)"
    and new: "\<And>n b. slab_size n \<Longrightarrow> b \<in> set (ch' n) \<Longrightarrow> b \<in> set (ch n) \<or> b - hhdm_offset s \<in> free_frames s"
    and b: "spare_page s ch B b"
  shows "spare_page s' ch' B b" "page_base a = b \<Longrightarrow> mem s' a = mem s a"
proof -
  have "P \<inter> tables s (root s) = {}" using P slab_okD(5) slabs_slab_ok [OF heap_relD(4) [OF rel]] by blast
  from heap_step_pages(2) [OF heap_relD(1) [OF rel] st this] show "spare_page s' ch' B b"
    using b new [of _ b] heap_stepD(3,4) [OF st] unfolding spare_page_def by auto
  have "b \<notin> P" using b P unfolding spare_page_def by blast
  then show "page_base a = b \<Longrightarrow> mem s' a = mem s a" using heap_stepD(7) [OF st] b by (auto simp: spare_page_def)
qed

lemma kmalloc_ready:
  assumes r: "heap_ready (Suc k) s L R" and sz: "0 < sz" "sz \<le> 1000"
  shows "\<exists>p s' n. kmalloc sz s = Some (p, s') \<and> p \<noteq> NULL \<and> direct (p - 24) \<and> unat sz + 24 \<le> n \<and>
           (p - 24, n) \<notin> L \<and> heap_ready k s' (insert (p - 24, n) L) R \<and> heap_same s s' L R"
proof -
  from r obtain ch fr B where rel: "heap_rel s ch fr B" and L: "L = blocks ch fr B"
    and R: "\<forall>b \<in> R. spare_page s ch B b"
    and fs: "\<forall>c \<in> set (caches s). first_slab c \<noteq> NULL" and k: "Suc k \<le> card (free_frames s)"
    by (auto simp: heap_ready_def)
  have ne: "free_frames s \<noteq> {}" using k by auto
  have hv: "heap_view s L" using rel L by (auto simp: heap_view_def)
  have u: "unat sz \<le> 1000" using sz(2) by (simp add: word_le_nat_alt)
  have u24: "unat (sz + 24) = unat sz + 24" using u by (simp add: unat_word_ariths)
  have t: "sz + 24 \<le> 1024" using u u24 by (simp add: word_le_nat_alt)
  from kmalloc_small_spec [OF rel t, of sz] obtain p s' ch' fr' where
    ks: "kmalloc_small sz (sz + 24) s = Some (p, s')" and rel': "heap_rel s' ch' fr' B"
    and res: "small_result s ch fr sz (sz + 24) p s' ch' fr'" by blast
  have run: "kmalloc sz s = Some (p, s')"
  proof -
    have "\<not> sz > SLAB_1024" using u by (simp add: SLAB_1024_def word_less_nat_alt)
    then show ?thesis using ks sz(1) by (simp add: kmalloc_def word_gt_0)
  qed
  from kmalloc_small_contract [OF hv sz] run have kp: "keeps s s' L" by auto
  from res obtain P where st: "heap_step s s' P" and P: "\<forall>b \<in> P. \<exists>n. slab_size n \<and> b \<in> set (ch n)"
    and new: "\<And>n b. slab_size n \<Longrightarrow> b \<in> set (ch' n) \<Longrightarrow> b \<in> set (ch n) \<or> b - hhdm_offset s \<in> free_frames s"
    and one: "takes_one s s'"
    and out: "if p = NULL then live ch' fr' = live ch fr \<and> (free_frames s = {} \<or> (\<exists>c \<in> set (caches s). first_slab c = NULL))
      else \<exists>n. slab_size n \<and> sz + 24 \<le> n \<and> (p - 24, n) \<notin> live ch fr \<and>
             live ch' fr' = insert (p - 24, n) (live ch fr) \<and> mem s' (p - 8) = sz"
    unfolding small_result_def by blast
  have pn: "p \<noteq> NULL" using out ne fs by auto
  then obtain n where n: "slab_size n" "sz + 24 \<le> n" "live ch' fr' = insert (p - 24, n) (live ch fr)"
    and nn: "(p - 24, n) \<notin> live ch fr" using out by auto
  have nl: "(p - 24, n) \<in> live ch' fr'" using n(3) by simp
  have d: "direct (p - 24)" using live_address(1) [OF rel' nl slab_size_24(3) [OF n(1)]] by simp
  have vf: "vmm_frame s s'" by (rule heap_stepD(1) [OF st])
  have L': "blocks ch' fr' B = insert (p - 24, unat n) L" by (auto simp: L blocks_def n(3))
  have "(p - 24, fs) \<notin> set B" for fs
    using heap_relD(7) [OF rel, of "p - 24" fs] d by (auto simp: page_block_def direct_def)
  then have "(p - 24, unat n) \<notin> L" using nn by (auto simp: L blocks_def word_unat_eq_iff [symmetric])
  moreover have "heap_ready k s' (insert (p - 24, unat n) L) R"
    unfolding heap_ready_def
  proof (intro conjI exI)
    show "\<forall>c \<in> set (caches s'). first_slab c \<noteq> NULL" using fs vmm_frame_heap(1) [OF vf] by simp
    have "finite (free_frames s')" by (simp add: free_frames_image finite_free_set)
    from takes_one_card [OF one this] k show "k \<le> card (free_frames s')" by simp
    show "heap_rel s' ch' fr' B" by (rule rel')
    show "insert (p - 24, unat n) L = blocks ch' fr' B" using L' by simp
    show "\<forall>b \<in> R. spare_page s' ch' B b" using R spare_page_step(1) [OF rel st P new] by blast
  qed
  moreover have "heap_same s s' L R"
    unfolding heap_same_def
    using kp vf R spare_page_step(2) [OF rel st P new] by auto
  moreover have "unat sz + 24 \<le> unat n" using n(2) u24 by (simp add: word_le_nat_alt)
  ultimately show ?thesis using run pn d by blast
qed

lemma kfree_ready:
  assumes r: "heap_ready k s L R" and p: "(p - 24, n) \<in> L" "direct (p - 24)"
  shows "\<exists>s'. kfree p s = Some s' \<and> heap_ready k s' (L - {(p - 24, n)}) R \<and>
              heap_same s s' (L - {(p - 24, n)}) R"
proof -
  from r obtain ch fr B where rel: "heap_rel s ch fr B" and L: "L = blocks ch fr B"
    and R: "\<forall>b \<in> R. spare_page s ch B b"
    and fs: "\<forall>c \<in> set (caches s). first_slab c \<noteq> NULL" and k: "k \<le> card (free_frames s)"
    by (auto simp: heap_ready_def)
  have hv: "heap_view s L" using rel L by (auto simp: heap_view_def)
  have nB: "(p - 24, fs) \<notin> set B" for fs
    using heap_relD(7) [OF rel, of "p - 24" fs] p(2) by (auto simp: page_block_def direct_def)
  obtain m where m: "(p - 24, m) \<in> live ch fr" "n = unat m"
    using p(1) nB by (auto simp: L blocks_def)
  from kfree_small_spec [OF rel m(1)] obtain s' fr' where
    run: "kfree p s = Some s'" and rel': "heap_rel s' ch fr' B" and lv: "live ch fr' = live ch fr - {(p - 24, m)}"
    and ff: "free_frames s' = free_frames s" and st: "heap_step s s' {page_base (p - 24)}" by auto
  from kfree_contract [OF hv p(1)] run have kp: "keeps s s' (L - {(p - 24, n)})" by auto
  have vf: "vmm_frame s s'" by (rule heap_stepD(1) [OF st])
  have "blocks ch fr' B = L - {(p - 24, n)}"
    using nB m(2) by (auto simp: L blocks_def lv word_unat_eq_iff [symmetric])
  moreover have P: "\<forall>b \<in> {page_base (p - 24)}. \<exists>n. slab_size n \<and> b \<in> set (ch n)"
    using live_address(5) [OF rel m(1), of 0] slab_size_24(3) [of m] m(1) by (auto simp: live_def)
  note sp = spare_page_step [OF rel st P, of ch]
  ultimately have "heap_ready k s' (L - {(p - 24, n)}) R"
    using fs vmm_frame_heap(1) [OF vf] k ff R sp(1) by (intro heap_readyI [OF rel']) auto
  moreover have "heap_same s s' (L - {(p - 24, n)}) R"
    unfolding heap_same_def using kp vf R sp(2) by auto
  ultimately show ?thesis using run by blast
qed

text \<open>Blocks of pages: allocation, release, and a write behind the first page.\<close>

lemma kmalloc_large_ready:
  assumes r: "heap_ready (k + 4 * pages_for sz) s L R" and sz: "1024 < sz" "unat sz + 4119 < 2 ^ 64"
    and sp: "unat (kernel_heap_vaddr s) + 4096 * pages_for sz < 2 ^ 64"
  defines "v \<equiv> kernel_heap_vaddr s"
  shows "\<exists>s'. kmalloc sz s = Some (v + 24, s') \<and> heap_ready k s' (insert (v, 4096 * pages_for sz) L) R \<and>
     (v, 4096 * pages_for sz) \<notin> L \<and> keeps s s' L \<and> (\<forall>a. page_base a \<in> R \<longrightarrow> mem s' a = mem s a) \<and>
     vmm_frame (s\<lparr>kernel_heap_vaddr := v + of_nat (pages_for sz) * 4096\<rparr>) s'"
proof -
  obtain ch fr B where rel: "heap_rel s ch fr B" and L: "L = blocks ch fr B" and R: "\<forall>b \<in> R. spare_page s ch B b"
    and fs: "\<forall>c \<in> set (caches s). first_slab c \<noteq> NULL" and k: "k + 4 * pages_for sz \<le> card (free_frames s)"
    by (rule heap_readyE [OF r], rule that)
  have room: "kmalloc_room sz s" using sz sp k by (simp add: kmalloc_room_def)
  from kmalloc_large_rel [OF rel sz(1) room] obtain s' gs where
    run: "kmalloc sz s = Some (v + 24, s')" and rel': "heap_rel s' ch fr ((v, gs) # B)"
    and ba: "block_added s s' (pages_for sz) gs" unfolding v_def by blast
  have len: "length gs = pages_for sz" and gs: "set gs \<subseteq> free_frames s" and ff: "free_frames s' \<subseteq> free_frames s"
    and cd: "card (free_frames s) \<le> card (free_frames s') + 4 * pages_for sz"
    and vf: "vmm_frame (s\<lparr>kernel_heap_vaddr := v + of_nat (pages_for sz) * 4096\<rparr>) s'"
    and tb: "\<forall>a \<in> tables s' (root s). a \<in> tables s (root s) \<or> a - hhdm_offset s \<in> free_frames s"
    and m: "\<And>a. page_base a \<notin> tables s (root s) \<Longrightarrow> page_base a - hhdm_offset s \<notin> free_frames s \<Longrightarrow> mem s' a = mem s a"
    using ba by (auto simp: block_added_def v_def)
  have sm: "root s' = root s" "hhdm_offset s' = hhdm_offset s" using block_added_machine [OF ba] by (auto simp: same_machine_def)
  have "\<forall>b \<in> R. spare_page s' ch ((v, gs) # B) b"
    using R ff gs tb sm unfolding spare_page_def by (auto simp: block_frames_def)
  moreover have "insert (v, 4096 * pages_for sz) L = blocks ch fr ((v, gs) # B)" by (auto simp: L blocks_def len)
  moreover have "caches s' = caches s" using vmm_frame_heap(1) [OF vf] by simp
  ultimately have "heap_ready k s' (insert (v, 4096 * pages_for sz) L) R"
    using fs k cd by (intro heap_readyI [OF rel']) auto
  moreover have "mem s' a = mem s a" if "page_base a \<in> R" for a
    using m [of a] R that by (auto simp: spare_page_def)
  moreover have "(v, 4096 * pages_for sz) \<notin> L"
    using kmalloc_large_contract [OF heap_ready_view [OF r] sz(1) room] by (auto simp: v_def)
  ultimately show ?thesis using run block_added_keeps [OF rel rel' [unfolded v_def] ba] vf L by auto
qed

lemma page_blockE:
  assumes "heap_rel s ch fr B" "(v, n) \<in> blocks ch fr B" "\<not> direct v"
  obtains fs where "(v, fs) \<in> set B" "n = 4096 * length fs"
proof -
  have "direct v" if "(v, k) \<in> live ch fr" for k
    using live_address(1) [OF assms(1) that, of 0] slab_size_24(3) [of k] that by (simp add: live_def)
  then show thesis using assms(2,3) that by (auto simp: blocks_def)
qed

lemma kfree_pages_ready:
  assumes r: "heap_ready k s L R" and q: "(q, n) \<in> L" "\<not> direct q"
  shows "\<exists>s'. kfree (q + 24) s = Some s' \<and> heap_ready k s' (L - {(q, n)}) R \<and> heap_same s s' (L - {(q, n)}) R"
proof -
  obtain ch fr B where rel: "heap_rel s ch fr B" and L: "L = blocks ch fr B" and R: "\<forall>b \<in> R. spare_page s ch B b"
    and fs: "\<forall>c \<in> set (caches s). first_slab c \<noteq> NULL" and k: "k \<le> card (free_frames s)"
    by (rule heap_readyE [OF r], rule that)
  obtain gs where g: "(q, gs) \<in> set B" "n = 4096 * length gs" by (rule page_blockE [OF rel q(1) [unfolded L] q(2)])
  obtain B1 B2 where B: "B = B1 @ (q, gs) # B2" using split_list [OF g(1)] by blast
  from kfree_pages_contract [OF rel B] obtain s' where
    run: "kfree (q + 24) s = Some s'" and rel': "heap_rel s' ch fr (B1 @ B2)" and vf: "vmm_frame s s'"
    and kp: "keeps s s' (blocks ch fr (B1 @ B2))" and ff: "free_frames s' = free_frames s \<union> set gs"
    and tb: "tables s' (root s) = tables s (root s)"
    and m: "\<And>a. page_base a \<notin> tables s (root s) \<Longrightarrow> page_base a - hhdm_offset s \<notin> free_frames s \<union> set gs \<Longrightarrow>
                mem s' a = mem s a" by blast
  note sm = vmm_frame_root [OF vf] vmm_frame_fields(1) [OF vf]
  have L': "blocks ch fr (B1 @ B2) = L - {(q, n)}" using blocks_remove(1) [OF rel B] L g(2) by simp
  have "\<forall>b \<in> R. spare_page s' ch (B1 @ B2) b"
    using R ff tb sm unfolding spare_page_def B by (auto simp: block_frames_def)
  moreover have "card (free_frames s) \<le> card (free_frames s')"
    unfolding ff by (rule card_mono) (use pmm.finite_frames [OF pages_ok_pmm [OF heap_relD(1) [OF rel]]] in auto)
  ultimately have "heap_ready k s' (L - {(q, n)}) R"
    using fs k vmm_frame_heap(1) [OF vf] L' by (intro heap_readyI [OF rel']) auto
  moreover have "mem s' a = mem s a" if "page_base a \<in> R" for a
    using m [of a] R that unfolding spare_page_def B by (auto simp: block_frames_def)
  ultimately show ?thesis using run kp vf unfolding L' by (auto simp: heap_same_def)
qed

lemma block_write_keeps:
  assumes rel: "heap_rel s ch fr B" and b: "(v, fs) \<in> set B" "0 < j" "j < length fs"
    and st: "heap_step s s' {fs ! j + hhdm_offset s}" and ff: "free_frames s' = free_frames s"
  shows "keeps s s' (blocks ch fr B - {(v, 4096 * length fs)})"
proof -
  note d = heap_relD [OF rel] and h = heap_stepD [OF st] and w = heap_rel_block_write [OF rel b st ff]
  obtain B1 B2 where B: "B = B1 @ (v, fs) # B2" using split_list [OF b(1)] by blast
  note dj = blocks_remove(2) [OF rel B]
  have f: "fs ! j \<in> set fs" "fs ! j \<in> set (block_frames B)" using b by (auto simp: B block_frames_def)
  have "keeps s s' (blocks ch fr (B1 @ B2))"
    unfolding blocks_def
  proof (rule keepsI [OF rel vmm_frame_same_machine [OF h(1)]])
    show "mem s' (p + of_nat x) = mem s (p + of_nat x)" if p: "(p, k) \<in> live ch fr" "x < unat k" for p k x
    proof -
      have sl: "slab_size k" using p(1) by (simp add: live_def)
      note pg = live_address(4,5) [OF rel p]
      have "page_base (p + of_nat x) \<noteq> fs ! j + hhdm_offset s" using d(9) [OF sl pg(2)] f(2) by auto
      then show ?thesis using h(7) pg(1) by simp
    qed
    show "mem s' a = mem s a" if g: "(u, gs) \<in> set (B1 @ B2)" "f \<in> set gs" "page_base a = f + hhdm_offset s" for u gs f a
    proof -
      have "f \<in> set (block_frames (B1 @ B2))" "f \<in> set (block_frames B)" using g(1,2) by (force simp: B block_frames_def)+
      moreover from this(1) have "f \<noteq> fs ! j" using dj f(1) by auto
      ultimately show ?thesis using h(7) [of a] g(3) block_frame(2) [OF rel, of f] by simp
    qed
  qed (use w(3) in \<open>auto simp: B\<close>)
  then show ?thesis using blocks_remove(1) [OF rel B] by simp
qed

lemma page_block_store:
  assumes r: "heap_ready k s L R" and q: "(v, n) \<in> L" "\<not> direct v" and x: "4096 \<le> x" "x < n"
  shows "\<exists>s'. store64 (v + of_nat x) w s = Some s' \<and> heap_ready k s' L R \<and> heap_same s s' (L - {(v, n)}) R \<and>
              load64 (v + of_nat x) s' = Some w"
proof -
  obtain ch fr B where rel: "heap_rel s ch fr B" and L: "L = blocks ch fr B" and R: "\<forall>b \<in> R. spare_page s ch B b"
    and fsl: "\<forall>c \<in> set (caches s). first_slab c \<noteq> NULL" and k: "k \<le> card (free_frames s)"
    by (rule heap_readyE [OF r], rule that)
  note d = heap_relD [OF rel]
  obtain fs where b: "(v, fs) \<in> set B" "n = 4096 * length fs" by (rule page_blockE [OF rel q(1) [unfolded L] q(2)])
  define j where "j = x div 4096"
  have j: "0 < j" "j < length fs" using x b(2) by (auto simp: j_def less_mult_imp_div_less mult.commute div_greater_zero_iff)
  let ?f = "fs ! j" and ?h = "hhdm_offset s"
  define c where "c = at (?f + ?h) (x mod 4096)"
  have f: "?f \<in> set (block_frames B)" using b(1) nth_mem [OF j(2)] by (force simp: block_frames_def)
  have pc: "page_base c = ?f + ?h"
    unfolding c_def by (rule page_base_at [OF frame_aligned [OF d(1) block_frame(1) [OF rel f]]]) simp
  note pb = d(7) [OF b(1)]
  have "mmu s (at (vpage v j) (x mod 4096)) = Some c"
    unfolding c_def by (rule mmu_vpage [OF page_block_range [OF pb]]) (use j pb d(3) in \<open>auto simp: page_block_def\<close>)
  then have run: "store64 (v + of_nat x) w s = Some (mem_write c w s)"
    by (simp only: block_address [of v x] store64_def j_def bind.bind_lunit)
  let ?s = "mem_write c w s"
  have st: "heap_step s ?s {?f + ?h}" using heap_step_write [OF pages_ok_pmm [OF d(1)], of c w] pc by simp
  have ff: "free_frames ?s = free_frames s" by (simp add: mem_write_def)
  note w = heap_rel_block_write [OF rel b(1) j st ff] and h = heap_stepD [OF st]
  have "\<forall>b \<in> R. spare_page ?s ch B b" using R ff w(2) h(4,6) by (auto simp: spare_page_def)
  then have "heap_ready k ?s L R" using fsl k ff vmm_frame_heap(1) [OF h(1)] by (intro heap_readyI [OF w(1) L]) auto
  moreover have "?f + ?h \<notin> R" using R f by (auto simp: spare_page_def)
  then have "heap_same s ?s (L - {(v, n)}) R"
    using block_write_keeps [OF rel b(1) j st ff] h(1) L b(2) pc by (auto simp: heap_same_def mem_write_def)
  moreover have "load64 (v + of_nat x) ?s = Some w"
    using page_block_load64 [OF rel b(1), of x ?s] x(2) b(2) w(3) h(6) vmm_frame_same_machine [OF h(1)]
    by (simp add: c_def j_def mem_write_def)
  ultimately show ?thesis using run by blast
qed

text \<open>The client writes into one of its blocks.\<close>

lemma heap_ready_write:
  assumes r: "heap_ready k s L R" and p: "(p - 24, n) \<in> L" "direct (p - 24)" and j: "24 + j \<le> n"
    and ow: "overwritten s s' p j xs"
  shows "heap_ready k s' L R" "heap_same s s' (L - {(p - 24, n)}) R"
proof -
  from r obtain ch fr B where rel: "heap_rel s ch fr B" and L: "L = blocks ch fr B"
    and R: "\<forall>b \<in> R. spare_page s ch B b"
    and fs: "\<forall>c \<in> set (caches s). first_slab c \<noteq> NULL" and k: "k \<le> card (free_frames s)"
    by (auto simp: heap_ready_def)
  have nB: "(p - 24, fs) \<notin> set B" for fs
    using heap_relD(7) [OF rel, of "p - 24" fs] p(2) by (auto simp: page_block_def direct_def)
  obtain m where m: "(p - 24, m) \<in> live ch fr" "n = unat m" using p(1) nB by (auto simp: L blocks_def)
  obtain b where b: "slab_size m" "b \<in> set (ch m)" "p - 24 \<in> set (slots m b)" "p - 24 \<notin> set (fr b)"
    using m(1) by (rule liveE)
  have so: "slabs_ok s ch fr" by (rule heap_relD(4) [OF rel])
  note sl = slabs_slab_ok [OF so b(1,2)]
  have u: "object_update s s' (p - 24) m" "mem s' (p - 24) = mem s (p - 24)"
    using live_overwrite [OF rel m(1), of j s' xs] ow j m(2) by simp_all
  have st: "heap_step s s' {b}" by (rule slab_write(3) [OF sl b(3,4) u(1) heap_relD(1) [OF rel]])
  have vf: "vmm_frame s s'" by (rule heap_stepD(1) [OF st])
  have ff: "free_frames s' = free_frames s" 
  proof -
    obtain w where "s' = s\<lparr>mem := w\<rparr>" using u(1) unfolding object_update_def by blast
    then show ?thesis by simp
  qed
  have rel': "heap_rel s' ch fr B"
    using heap_rel_write [OF rel m(1) u(1)] u(2) slabs_okD(3) [OF so m(1)] by simp
  have P: "\<forall>b \<in> {b}. \<exists>n. slab_size n \<and> b \<in> set (ch n)" using b(1,2) by blast
  note sp = spare_page_step [OF rel st P, of ch]
  show "heap_ready k s' L R"
    using fs vmm_frame_heap(1) [OF vf] k ff R sp(1) by (intro heap_readyI [OF rel' L]) auto
  have "keeps s s' (L - {(p - 24, n)})" using live_write_keeps [OF rel m(1) u(1)] unfolding L m(2) .
  then show "heap_same s s' (L - {(p - 24, n)}) R"
    unfolding heap_same_def using vf R sp(2) by auto
qed

text \<open>Bytes of a block that is kept.\<close>

lemma keeps_bytes:
  assumes r: "heap_ready k s L R" and p: "(p - 24, n) \<in> L" "direct (p - 24)" and j: "24 + j \<le> n"
    and same: "keeps s s' M" "(p - 24, n) \<in> M"
  shows "bytes_at s' p j = bytes_at s p j" "buffer p j"
proof -
  from direct_block_live [OF heap_ready_view [OF r] p] obtain ch fr B m where
    rel: "heap_rel s ch fr B" and m: "(p - 24, m) \<in> live ch fr" "n = unat m" by blast
  show "buffer p j" using live_buffer [OF rel m(1), of j] j m(2) by simp
  obtain b where b: "slab_size m" "b \<in> set (ch m)" "p - 24 \<in> set (slots m b)" using m(1) by (rule liveE)
  have al: "page_aligned b" by (rule slab_okD(2) [OF slabs_slab_ok [OF heap_relD(4) [OF rel] b(1,2)]])
  have "mem s' (cell_of (p + of_nat i)) = mem s (cell_of (p + of_nat i))" if i: "i < j" for i
  proof -
    have lt: "24 + i < unat m" using i j m(2) by simp
    let ?a = "p - 24 + of_nat (24 + i - (24 + i) mod 8)"
    have c: "cell_of (p + of_nat i) = ?a" using slot_aligned [OF b(1) al b(3) lt] by simp
    have x: "24 + i - (24 + i) mod 8 < unat m" using lt by simp
    have "load64 ?a s' = load64 ?a s" using same x m(2) unfolding keeps_def by blast
    then show ?thesis
      unfolding c live_load64 [OF rel m(1) x, of s'] live_load64 [OF rel m(1) x, of s] by simp
  qed
  then show "bytes_at s' p j = bytes_at s p j" by (simp add: bytes_at_def byte_def)
qed

lemma block_unique:
  assumes "heap_view s L" "(q, m) \<in> L" "(q, n) \<in> L"
  shows "m = n"
proof (rule ccontr)
  assume "m \<noteq> n"
  from assms(1) obtain ch fr B where rel: "heap_rel s ch fr B" and L: "L = blocks ch fr B"
    by (auto simp: heap_view_def)
  have "q + of_nat 0 \<in> block_bytes q m \<inter> block_bytes q n"
    using block_facts(1) [OF rel, of q m] block_facts(1) [OF rel, of q n] assms(2,3) L
    unfolding block_bytes_def by (intro IntI imageI) auto
  then show False using blocks_disjoint [OF rel, of q m q n] assms(2,3) L \<open>m \<noteq> n\<close> by auto
qed

text \<open>Blocks keep off the pages \<open>R\<close>.\<close>

lemma heap_ready_off:
  assumes r: "heap_ready k s L R" and p: "(p - 24, n) \<in> L" "direct (p - 24)" and j: "24 + j \<le> n"
  shows "buffer p j" "i < j \<Longrightarrow> page_base (p + of_nat i) \<notin> R"
proof -
  from r obtain ch fr B where rel: "heap_rel s ch fr B" and L: "L = blocks ch fr B"
    and R: "\<forall>b \<in> R. spare_page s ch B b"
    by (auto simp: heap_ready_def)
  have "(p - 24, fs) \<notin> set B" for fs
    using heap_relD(7) [OF rel, of "p - 24" fs] p(2) by (auto simp: page_block_def direct_def)
  then obtain m where m: "(p - 24, m) \<in> live ch fr" "n = unat m" using p(1) by (auto simp: L blocks_def)
  show "buffer p j" using live_buffer [OF rel m(1), of j] j m(2) by simp
  assume "i < j"
  then have "page_base (p - 24 + of_nat (24 + i)) \<in> set (ch m)"
    using j m(2) by (intro live_address(5) [OF rel m(1)]) simp
  then show "page_base (p + of_nat i) \<notin> R" using R m(1) by (auto simp: live_def spare_page_def)
qed

text \<open>Memory in the pages \<open>R\<close>.\<close>

definition off_heap :: "u64 set \<Rightarrow> u64 \<Rightarrow> nat \<Rightarrow> bool" where
  "off_heap R a n \<longleftrightarrow> buffer a n \<and> (\<forall>i < n. page_base (a + of_nat i) \<in> R)"

lemma off_heap_same:
  assumes "off_heap R a n" "heap_same s s' M R"
  shows "bytes_at s' a n = bytes_at s a n"
  using assms by (simp add: off_heap_def heap_same_def bytes_at_def byte_def page_base_cell_of)

lemma off_heap_apart:
  assumes "buffer p j" "buffer a j" and "\<And>i. i < j \<Longrightarrow> page_base (p + of_nat i) \<notin> R"
    and "\<And>i. i < j \<Longrightarrow> page_base (a + of_nat i) \<in> R"
  shows "unat p + j \<le> unat a \<or> unat a + j \<le> unat p"
proof (rule ccontr)
  assume "\<not> ?thesis"
  then have n: "unat a < unat p + j" "unat p < unat a + j" by auto
  show False
  proof (cases "unat p \<le> unat a")
    case True
    let ?i = "unat a - unat p"
    have "unat (p + of_nat ?i) = unat a" using unat_buffer(1) [OF assms(1), of ?i] n True by simp
    then have "p + of_nat ?i = a" by (simp add: word_unat_eq_iff)
    then show False using assms(3) [of ?i] assms(4) [of 0] n True by simp
  next
    case False
    let ?i = "unat p - unat a"
    have "unat (a + of_nat ?i) = unat p" using unat_buffer(1) [OF assms(2), of ?i] n False by simp
    then have "a + of_nat ?i = p" by (simp add: word_unat_eq_iff)
    then show False using assms(4) [of ?i] assms(3) [of 0] n False by simp
  qed
qed

section \<open>The heap does not depend on the state of its clients\<close>

definition heap_eq :: "'a heap_scheme \<Rightarrow> 'b heap_scheme \<Rightarrow> bool" where
  "heap_eq s s' \<longleftrightarrow>
     bitmap s' = bitmap s \<and> total_pages s' = total_pages s \<and> free_pages s' = free_pages s \<and>
     hhdm_offset s' = hhdm_offset s \<and> mem s' = mem s \<and> cr3 s' = cr3 s \<and> caches s' = caches s \<and>
     kernel_heap_vaddr s' = kernel_heap_vaddr s"

lemma heap_eq_frames:
  assumes "heap_eq s s'"
  shows "free_frames s' = free_frames s" "managed_frames s' = managed_frames s" "pmm_ok s' = pmm_ok s"
    "tables s' r = tables s r" "aspace s' r v = aspace s r v" "root s' = root s"
  using assms
  by (simp_all add: heap_eq_def free_frames_def free_set_def managed_frames_def pmm_ok_def pmm_inv_def tables_def
      aspace_def vmm_get_current_def phys_to_virt_def split: option.split)

lemma heap_eq_rel: "heap_eq s s' \<Longrightarrow> heap_rel s ch fr B \<Longrightarrow> heap_rel s' ch fr B"
  unfolding heap_rel_def pages_ok_def vmm_inv_def hhdm_ok_def pt_tree_def hhdm_low_def slabs_ok_def
    chain_def slab_ok_def page_block_def
  by (simp add: heap_eq_frames [of s s']) (simp add: heap_eq_def)

lemma heap_ready_eq:
  assumes "heap_eq s s'" "heap_ready k s L R"
  shows "heap_ready k s' L R"
  using assms(2)
proof (rule heap_readyE)
  fix ch fr B
  assume "heap_rel s ch fr B" "L = blocks ch fr B" "\<forall>b \<in> R. spare_page s ch B b"
    "\<forall>c \<in> set (caches s). first_slab c \<noteq> NULL" "k \<le> card (free_frames s)"
  moreover have "caches s' = caches s" "hhdm_offset s' = hhdm_offset s" using assms(1) by (simp_all add: heap_eq_def)
  ultimately show ?thesis
    using heap_eq_rel [OF assms(1)] heap_eq_frames [OF assms(1)]
    by (intro heap_readyI [of s' ch fr B]) (auto simp: spare_page_def)
qed

text \<open>Memory outside the heap may be written.\<close>

lemma heap_ready_outside:
  assumes r: "heap_ready k s L R" and m: "\<And>a. page_base a \<notin> R \<Longrightarrow> m a = mem s a"
  shows "heap_ready k (s\<lparr>mem := m\<rparr>) L R" "keeps s (s\<lparr>mem := m\<rparr>) L"
proof -
  obtain ch fr B where rel: "heap_rel s ch fr B" and L: "L = blocks ch fr B" and R: "\<forall>b \<in> R. spare_page s ch B b"
    and fs: "\<forall>c \<in> set (caches s). first_slab c \<noteq> NULL" and k: "k \<le> card (free_frames s)"
    by (rule heap_readyE [OF r], rule that)
  let ?s = "s\<lparr>mem := m\<rparr>"
  have st: "heap_step s ?s R" using m pages_ok_pmm [OF heap_relD(1) [OF rel]] by (simp add: heap_step_def vmm_frame_def)
  have T: "R \<inter> tables s (root s) = {}" using R by (auto simp: spare_page_def)
  have rel': "heap_rel ?s ch fr B"
    by (rule heap_rel_step [OF rel st T]) (use R in \<open>auto simp: spare_page_def\<close>)
  have "tables ?s (root ?s) = tables s (root s)" by (rule heap_step_pages(2) [OF heap_relD(1) [OF rel] st T])
  then show "heap_ready k ?s L R"
    using R fs k by (intro heap_readyI [OF rel' L]) (auto simp: spare_page_def)
  show "keeps s ?s L"
    unfolding L
  proof (rule keepsI_all [OF rel vmm_frame_same_machine [OF heap_stepD(1) [OF st]]])
    show "mem ?s (q + of_nat x) = mem s (q + of_nat x)" if "(q, n) \<in> live ch fr" "x < unat n" for q n x
      using live_address(5) [OF rel that] that(1) R m by (auto simp: spare_page_def live_def)
    show "aspace ?s (root s) (vidx (vpage v i)) = aspace s (root s) (vidx (vpage v i))" for v i
      by (simp add: heap_step_pages(3) [OF heap_relD(1) [OF rel] st T])
    show "mem ?s a = mem s a" if "f \<in> set (block_frames B)" "page_base a = f + hhdm_offset s" for f a
    proof -
      have "f + hhdm_offset s \<notin> R" using that(1) R by (auto simp: spare_page_def)
      then show ?thesis using m [of a] that(2) by simp
    qed
  qed
qed

section \<open>Initialisation, and pages for devices\<close>

text \<open>After \<^verbatim>\<open>heap_init\<close> the heap keeps off all pages that were in use before.\<close>

lemma heap_init_ready:
  assumes "pages_ok s" "total_pages s \<le> 2 ^ 40" "length (caches s) = 6" "kernel_heap_vaddr s = KERNEL_HEAP_BASE"
    "k + 6 \<le> card (free_frames s)" and R: "\<forall>b \<in> R. b - hhdm_offset s \<notin> free_frames s \<and> b \<notin> tables s (root s)"
  shows "\<exists>s'. heap_init s = Some s' \<and> heap_ready k s' {} R \<and> kernel_heap_vaddr s' = KERNEL_HEAP_BASE \<and>
     used_kept s s' \<and> vmm_frame (s\<lparr>caches := caches s'\<rparr>) s'"
proof -
  have "6 \<le> card (free_frames s)" using assms(5) by simp
  from heap_init_fresh [OF assms(1-4) this] obtain s' ch fr where
    i: "heap_init s = Some s'" and rel: "heap_rel s' ch fr []" and lv: "live ch fr = {}"
    and new: "\<forall>n. \<forall>b \<in> set (ch n). b - hhdm_offset s \<in> free_frames s" and fs: "\<forall>c \<in> set (caches s'). first_slab c \<noteq> NULL"
    and rest: "kernel_heap_vaddr s' = KERNEL_HEAP_BASE" "card (free_frames s) = card (free_frames s') + 6" "used_kept s s'"
      "vmm_frame (s\<lparr>caches := caches s'\<rparr>) s'" by blast
  have "\<forall>b \<in> R. spare_page s' ch [] b"
    using R new rest(3) by (auto simp: spare_page_def used_kept_def block_frames_def)
  then have "heap_ready k s' {} R"
    using fs rest(2) assms(5) lv by (intro heap_readyI [OF rel]) (auto simp: blocks_def)
  then show ?thesis using i rest by blast
qed

text \<open>Another page is mapped while the heap has no blocks of pages, as for the registers of the interrupt controllers.\<close>

lemma vmm_map_ready:
  assumes r: "heap_ready (k + 3) s L R" and L: "\<forall>(q, n) \<in> L. direct q"
  shows "\<exists>s'. vmm_map (root s) v p fl s = Some s' \<and> heap_ready k s' L R \<and> heap_same s s' {} R"
proof -
  obtain ch fr B where rel: "heap_rel s ch fr B" and B: "L = blocks ch fr B" and R: "\<forall>b \<in> R. spare_page s ch B b"
    and fs: "\<forall>c \<in> set (caches s). first_slab c \<noteq> NULL" and k: "k + 3 \<le> card (free_frames s)"
    by (rule heap_readyE [OF r], rule that)
  note d = heap_relD [OF rel]
  have "(v, gs) \<notin> set B" for v gs
  proof
    assume b: "(v, gs) \<in> set B"
    then have "(v, 4096 * length gs) \<in> L" unfolding B blocks_def by (intro UnI2 image_eqI [of _ _ "(v, gs)"]) auto
    then show False using L d(7) [OF b] by (auto simp: page_block_def direct_def)
  qed
  then have nil: "B = []" by (metis list.set_intros(1) neq_Nil_conv surj_pair)
  have "3 \<le> card (free_frames s)" using k by simp
  from vmm_map_room [OF d(2) this, of v p fl] obtain s' where
    m: "vmm_map (root s) v p fl s = Some s'" and st: "vmm_step (root s) s s'"
    and cd: "card (free_frames s) \<le> card (free_frames s') + 3" by blast
  note t = vmm_stepD [OF st]
  note h = vmm_frame_root [OF t(2)] vmm_frame_heap [OF t(2)]
  have ok: "pages_ok s'" using t(1) d(1) h(1) t(4,5) by (simp add: pages_ok_def hhdm_low_def)
  have off: "b - hhdm_offset s \<notin> free_frames s' \<and> b \<notin> tables s' (root s) \<and> (page_base a = b \<longrightarrow> mem s' a = mem s a)"
    if "b - hhdm_offset s \<notin> free_frames s" "b \<notin> tables s (root s)" for a b
    using that t(3,6,7) by blast
  have rel': "heap_rel s' ch fr B"
  proof (rule heap_rel_cong [OF rel ok t(2)])
    fix n b a assume "slab_size n" "b \<in> set (ch n)"
    from slabs_slab_ok [OF d(4) this] show "b - hhdm_offset s \<notin> free_frames s' \<and> b \<notin> tables s' (root s) \<and>
        (page_base a = b \<longrightarrow> mem s' a = mem s a)" using off [of b a] slab_okD(4,5) by blast
  qed (simp_all add: nil block_frames_def)
  have "\<forall>b \<in> R. spare_page s' ch B b" using R off t(4) h(1) by (auto simp: spare_page_def)
  then have "heap_ready k s' L R" using fs h(2) cd k by (intro heap_readyI [OF rel' B]) auto
  moreover have "mem s' a = mem s a" if "page_base a \<in> R" for a using R off [of "page_base a" a] that by (auto simp: spare_page_def)
  ultimately show ?thesis using m t(2) by (auto simp: heap_same_def keeps_def)
qed

section \<open>Physical page 0\<close>

text \<open>The page allocator never hands out physical page 0: its window in the direct map is not part of the heap.\<close>

lemma page_zero_off_heap:
  assumes hv: "heap_view s L" and fs: "\<forall>c \<in> set (caches s). first_slab c \<noteq> NULL"
    and k: "k \<le> card (free_frames s)" "free_frames s \<noteq> {}" and tb: "hhdm_offset s \<notin> tables s (root s)"
  shows "heap_ready k s L {hhdm_offset s}"
    and "i + n \<le> 4096 \<Longrightarrow> off_heap {hhdm_offset s} (hhdm_offset s + of_nat i) n"
proof -
  let ?h = "hhdm_offset s"
  from hv obtain ch fr B where rel: "heap_rel s ch fr B" and L: "L = blocks ch fr B" by (auto simp: heap_view_def)
  have inv: "pmm_ok s" "hhdm_ok s" "hhdm_low s"
    using heap_relD(1) [OF rel] by (auto simp: pages_ok_def vmm_inv_def)
  have nf: "0 \<notin> free_frames s" using inv(1) by (simp add: free_frames_def pmm_ok_def)
  have "?h \<notin> set (ch m)" if m: "slab_size m" for m
    using slabs_slab_ok [OF heap_relD(4) [OF rel] m, of ?h] slab_okD(3) [of s m ?h] by (auto simp: managed_frames_def)
  moreover have "0 \<notin> set (block_frames B)" using block_frame(1) [OF rel, of 0] by (auto simp: managed_frames_def)
  ultimately show "heap_ready k s L {?h}"
    using fs k(1) nf tb by (intro heap_readyI [OF rel L]) (auto simp: spare_page_def)
  have al: "page_aligned ?h" using inv(2) by (simp add: hhdm_ok_def)
  obtain p where p: "p \<in> free_frames s" using k(2) by blast
  have "unat p div 4096 \<noteq> 0" using p inv(1) unfolding free_frames_def pmm_ok_def by (metis (mono_tags) mem_Collect_eq)
  then have "(4096 :: u64) \<in> managed_frames s"
    using p by (simp add: free_frames_def free_set_def managed_frames_def page_aligned_def)
  then have nz: "4096 + ?h \<noteq> 0" and dir: "direct (4096 + ?h)"
    using inv(2,3) unfolding hhdm_ok_def hhdm_low_def by (blast, force)
  have "unat ?h mod 4096 = 0" using al by (simp add: page_aligned_iff)
  then obtain q where q: "unat ?h = 4096 * q" by auto
  then have "q < 4503599627370496" using unat_u64_less [of ?h] by simp
  moreover have "q \<noteq> 4503599627370495"
  proof
    assume "q = 4503599627370495"
    then have "unat (4096 + ?h) = 0" using q by (simp add: unat_word_ariths)
    then show False using nz by (simp add: unat_eq_zero)
  qed
  ultimately have "unat (4096 + ?h) = 4096 + unat ?h" using q by (simp add: unat_word_ariths)
  then have b: "unat ?h + 4096 \<le> unat KERNEL_HEAP_BASE" using dir by (simp add: direct_def word_less_nat_alt)
  assume i: "i + n \<le> 4096"
  have "buffer ?h (i + n)" using b i by (simp add: buffer_def)
  then have "buffer (?h + of_nat i) n" using i b heap_base_bound
    by (simp add: buffer_def unat_word_ariths unat_of_nat)
  moreover have "page_base (?h + of_nat i + of_nat j) = ?h" if "j < n" for j
    using page_base_at [OF al, of "i + j"] that i by (simp add: add.assoc)
  ultimately show "off_heap {?h} (?h + of_nat i) n" by (simp add: off_heap_def)
qed

text \<open>The machine \<open>s\<close> with the heap of \<open>h\<close>.\<close>

definition with_heap :: "heap \<Rightarrow> 'a heap_scheme \<Rightarrow> 'a heap_scheme" where
  "with_heap h s = s\<lparr>bitmap := bitmap h, total_pages := total_pages h, free_pages := free_pages h,
     hhdm_offset := hhdm_offset h, mem := mem h, cr3 := cr3 h, caches := caches h, kernel_heap_vaddr := kernel_heap_vaddr h\<rparr>"

lemma with_heap_eq: "heap_eq h (with_heap h s)"
  by (simp add: with_heap_def heap_eq_def)

end
