(* ===== verification/Acpi.thy ===== *)
theory Acpi
  imports HeapClient
begin

text \<open>
  Discovery of the interrupt hardware: the ACPI table search of \<^verbatim>\<open>acpi/acpi.c\<close> and the parser of the
  MADT, \<^verbatim>\<open>acpi/madt.c\<close>. The tables are packed structures in memory and are read byte by byte. The parser
  is shown to compute what the list of table entries says, within the bounds of its
  arrays, and to terminate on every table whose entries have a length.
\<close>

section \<open>Packed fields\<close>

text \<open>A little-endian field of \<open>n\<close> bytes at any address.\<close>

fun load_le :: "nat \<Rightarrow> u64 \<Rightarrow> 'a vmm_scheme \<Rightarrow> u64 option" where
  "load_le 0 a s = Some 0"
| "load_le (Suc n) a s =
     do { b \<leftarrow> load8 a s; v \<leftarrow> load_le n (a + 1) s; Some (ucast b OR push_bit 8 v) }"

definition field16 :: "u64 \<Rightarrow> 'a vmm_scheme \<Rightarrow> u16 option" where
  "field16 a s = map_option ucast (load_le 2 a s)"

definition field32 :: "u64 \<Rightarrow> 'a vmm_scheme \<Rightarrow> u32 option" where
  "field32 a s = map_option ucast (load_le 4 a s)"

definition field64 :: "u64 \<Rightarrow> 'a vmm_scheme \<Rightarrow> u64 option" where
  "field64 a s = load_le 8 a s"

section \<open>The table search\<close>

text \<open>The structures of \<^verbatim>\<open>acpi.h\<close>. The root tables end in an array of unknown size.\<close>

definition acpi_sdt_header_t :: layout where
  "acpi_sdt_header_t =
     [(''signature'', 4), (''length'', 4), (''revision'', 1), (''checksum'', 1), (''oem_id'', 6), (''oem_table_id'', 8),
      (''oem_revision'', 4), (''creator_id'', 4), (''creator_revision'', 4)]"

definition acpi_rsdp_t :: layout where
  "acpi_rsdp_t =
     [(''signature'', 8), (''checksum'', 1), (''oem_id'', 6), (''revision'', 1), (''rsdt_address'', 4)]"

definition acpi_rsdt_t :: layout where
  "acpi_rsdt_t = [(''header'', struct_size acpi_sdt_header_t), (''entries'', 0)]"

definition acpi_xsdp_t :: layout where
  "acpi_xsdp_t =
     [(''signature'', 8), (''checksum'', 1), (''oem_id'', 6), (''revision'', 1), (''rsdt_address'', 4), (''length'', 4),
      (''xsdt_address'', 8), (''extended_checksum'', 1), (''reserved'', 3)]"

definition acpi_xsdt_t :: layout where
  "acpi_xsdt_t = [(''header'', struct_size acpi_sdt_header_t), (''entries'', 0)]"

definition sdt_length :: u64 where "sdt_length = offset_of acpi_sdt_header_t ''length''"
definition sizeof_sdt_header :: u64 where "sizeof_sdt_header = of_nat (struct_size acpi_sdt_header_t)"

lemma acpi_offsets:
  "sdt_length = 4" "sizeof_sdt_header = 36" "offset_of acpi_rsdp_t ''revision'' = 15" "offset_of acpi_rsdp_t ''rsdt_address'' = 16"
  "offset_of acpi_xsdp_t ''xsdt_address'' = 24" "offset_of acpi_rsdt_t ''entries'' = 36" "offset_of acpi_xsdt_t ''entries'' = 36"
  by (simp_all add: sdt_length_def sizeof_sdt_header_def layout_defs acpi_sdt_header_t_def acpi_rsdp_t_def acpi_rsdt_t_def
      acpi_xsdp_t_def acpi_xsdt_t_def)

record acpi = heap +
  rsdt :: u64
  xsdt :: u64
  lapic_addr :: u64
  cpu_count :: u8
  lapic_ids :: "u8 list"
  ioapic_addr :: u64
  ioapic_gsi_base :: u32
  isos :: "u64 list"
  iso_count :: u8

text \<open>The checksum: the sum of the bytes of a table, in 8 bits. No caller uses it.\<close>

function checksum_loop :: "u64 \<Rightarrow> u32 \<Rightarrow> u32 \<Rightarrow> u8 \<Rightarrow> 'a vmm_scheme \<Rightarrow> u8 option" where
  "checksum_loop p i n acc s =
     (if i < n then do { b \<leftarrow> load8 (p + ucast i) s; checksum_loop p (i + 1) n (acc + b) s } else Some acc)"
  by pat_completeness auto
termination
proof (relation "measure (\<lambda>(p, i, n, acc, s). unat n - unat i)")
  fix p :: u64 and i n :: u32 and acc b :: u8 and s :: "'a vmm_scheme"
  assume "i < n"
  moreover have "unat n < 4294967296" using unsigned_less [of n] by simp
  ultimately have "unat (i + 1) = Suc (unat i)" "unat i < unat n"
    by (simp_all add: word_less_nat_alt unat_word_ariths)
  then show "((p, i + 1, n, acc + b, s), p, i, n, acc, s) \<in> measure (\<lambda>(p, i, n, acc, s). unat n - unat i)"
    by simp
qed simp

definition acpi_checksum :: "u64 \<Rightarrow> 'a vmm_scheme \<Rightarrow> bool option" where
  "acpi_checksum header s =
     do { n \<leftarrow> field32 (header + sdt_length) s; acc \<leftarrow> checksum_loop header 0 n 0 s; Some (acc = 0) }"

definition acpi_init :: "u64 \<Rightarrow> 'a acpi_scheme \<Rightarrow> 'a acpi_scheme option" where
  "acpi_init rsdp_ptr s = do {
     revision \<leftarrow> load8 (rsdp_ptr + offset_of acpi_rsdp_t ''revision'') s;
     if 2 \<le> revision then
       do { a \<leftarrow> field64 (rsdp_ptr + offset_of acpi_xsdp_t ''xsdt_address'') s;
            Some (log_debug ''ACPI'' (s\<lparr>xsdt := a + hhdm_offset s\<rparr>)) }
     else
       do { a \<leftarrow> field32 (rsdp_ptr + offset_of acpi_rsdp_t ''rsdt_address'') s;
            Some (log_warn ''ACPI'' (s\<lparr>rsdt := ucast a + hhdm_offset s\<rparr>)) } }"

text \<open>The four comparisons, left to right, with the short circuit of \<^verbatim>\<open>&&\<close>.\<close>

fun signature_is :: "u8 list \<Rightarrow> u64 \<Rightarrow> 'a vmm_scheme \<Rightarrow> bool option" where
  "signature_is [] t s = Some True"
| "signature_is (c # cs) t s =
     do { b \<leftarrow> load8 t s; if b = c then signature_is cs (t + 1) s else Some False }"

text \<open>The loop over the entries; \<open>entry i\<close> gives the address of table \<open>i\<close>.\<close>

function acpi_search :: "u8 list \<Rightarrow> (u64 \<Rightarrow> u64 option) \<Rightarrow> u64 \<Rightarrow> u64 \<Rightarrow> 'a vmm_scheme \<Rightarrow> u64 option" where
  "acpi_search sig entry i count s =
     (if i < count then
        do { t \<leftarrow> entry i; found \<leftarrow> signature_is sig t s;
             if found then Some t else acpi_search sig entry (i + 1) count s }
      else Some NULL)"
  by pat_completeness auto
termination
  by (relation "measure (\<lambda>(sig, entry, i, count, s). unat count - unat i)")
    (simp_all add: unat_succ_less word_less_nat_alt)

declare acpi_search.simps [simp del] checksum_loop.simps [simp del]

definition acpi_find_table :: "u8 list \<Rightarrow> 'a acpi_scheme \<Rightarrow> u64 option" where
  "acpi_find_table sig s =
     (if xsdt s \<noteq> NULL then do {
        len \<leftarrow> field32 (xsdt s + sdt_length) s;
        let count = (ucast len - sizeof_sdt_header) div 8;
        acpi_search sig (\<lambda>i. field64 (xsdt s + offset_of acpi_xsdt_t ''entries'' + 8 * i) s) 0 count s }
      else if rsdt s \<noteq> NULL then do {
        len \<leftarrow> field32 (rsdt s + sdt_length) s;
        let count = (ucast len - sizeof_sdt_header) div 4;
        acpi_search sig
          (\<lambda>i. do { e \<leftarrow> field32 (rsdt s + offset_of acpi_rsdt_t ''entries'' + 4 * i) s; Some (ucast e + hhdm_offset s) }) 0 count s }
      else Some NULL)"

section \<open>The MADT\<close>

definition MAX_CPUS :: u8 where "MAX_CPUS = 16"
definition MAX_ISOS :: u8 where "MAX_ISOS = 16"

text \<open>The structures of \<^verbatim>\<open>madt.h\<close>.\<close>

definition madt_t :: layout where
  "madt_t = [(''header'', struct_size acpi_sdt_header_t), (''lapic_address'', 4), (''flags'', 4)]"

definition madt_entry_t :: layout where
  "madt_entry_t = [(''type'', 1), (''length'', 1)]"

definition madt_lapic_t :: layout where
  "madt_lapic_t = [(''header'', struct_size madt_entry_t), (''processor_id'', 1), (''apic_id'', 1), (''flags'', 4)]"

definition madt_ioapic_t :: layout where
  "madt_ioapic_t =
     [(''header'', struct_size madt_entry_t), (''ioapic_id'', 1), (''reserved'', 1), (''ioapic_address'', 4), (''gsi_base'', 4)]"

definition madt_iso_t :: layout where
  "madt_iso_t = [(''header'', struct_size madt_entry_t), (''bus'', 1), (''irq'', 1), (''gsi'', 4), (''flags'', 2)]"

definition madt_lapic_nmi_t :: layout where
  "madt_lapic_nmi_t = [(''header'', struct_size madt_entry_t), (''processor_id'', 1), (''flags'', 2), (''lint'', 1)]"

lemma madt_offsets:
  "offset_of madt_t ''lapic_address'' = 36" "offset_of madt_entry_t ''type'' = 0" "offset_of madt_entry_t ''length'' = 1"
  "offset_of madt_lapic_t ''processor_id'' = 2" "offset_of madt_lapic_t ''apic_id'' = 3" "offset_of madt_lapic_t ''flags'' = 4"
  "offset_of madt_ioapic_t ''ioapic_address'' = 4" "offset_of madt_ioapic_t ''gsi_base'' = 8" "offset_of madt_iso_t ''irq'' = 3"
  "offset_of madt_iso_t ''gsi'' = 4" "offset_of madt_iso_t ''flags'' = 8" "offset_of madt_lapic_nmi_t ''processor_id'' = 2"
  "offset_of madt_lapic_nmi_t ''lint'' = 5"
  by (simp_all add: layout_defs acpi_sdt_header_t_def madt_t_def madt_entry_t_def madt_lapic_t_def madt_ioapic_t_def madt_iso_t_def
      madt_lapic_nmi_t_def)

lemma madt_sizes:
  "struct_size madt_t = 44" "struct_size madt_entry_t = 2" "struct_size madt_lapic_t = 8" "struct_size madt_ioapic_t = 12"
  "struct_size madt_iso_t = 10" "struct_size madt_lapic_nmi_t = 6"
  by (simp_all add: layout_defs acpi_sdt_header_t_def madt_t_def madt_entry_t_def madt_lapic_t_def madt_ioapic_t_def madt_iso_t_def
      madt_lapic_nmi_t_def)

text \<open>The body of the loop: one entry, by its type.\<close>

definition madt_lapic_entry :: "u64 \<Rightarrow> 'a acpi_scheme \<Rightarrow> 'a acpi_scheme option" where
  "madt_lapic_entry ptr s = do {
     flags \<leftarrow> field32 (ptr + offset_of madt_lapic_t ''flags'') s;
     if flags AND 1 \<noteq> 0 then
       if cpu_count s < MAX_CPUS then do {
         id \<leftarrow> load8 (ptr + offset_of madt_lapic_t ''apic_id'') s;
         processor \<leftarrow> load8 (ptr + offset_of madt_lapic_t ''processor_id'') s;
         if unat (cpu_count s) < length (lapic_ids s) then
           Some (log_debug ''MADT'' (s\<lparr>lapic_ids := (lapic_ids s)[unat (cpu_count s) := id],
                                      cpu_count := cpu_count s + 1\<rparr>))
         else None }
       else Some s
     else Some s }"

definition madt_ioapic_entry :: "u64 \<Rightarrow> 'a acpi_scheme \<Rightarrow> 'a acpi_scheme option" where
  "madt_ioapic_entry ptr s = do {
     a \<leftarrow> field32 (ptr + offset_of madt_ioapic_t ''ioapic_address'') s;
     g \<leftarrow> field32 (ptr + offset_of madt_ioapic_t ''gsi_base'') s;
     Some (log_debug ''MADT'' (s\<lparr>ioapic_addr := ucast a, ioapic_gsi_base := g\<rparr>)) }"

definition madt_iso_entry :: "u64 \<Rightarrow> 'a acpi_scheme \<Rightarrow> 'a acpi_scheme option" where
  "madt_iso_entry ptr s = do {
     s \<leftarrow> (if iso_count s < MAX_ISOS then
             if unat (iso_count s) < length (isos s) then
               Some (s\<lparr>isos := (isos s)[unat (iso_count s) := ptr], iso_count := iso_count s + 1\<rparr>)
             else None
           else Some s);
     irq \<leftarrow> load8 (ptr + offset_of madt_iso_t ''irq'') s;
     gsi \<leftarrow> field32 (ptr + offset_of madt_iso_t ''gsi'') s;
     flags \<leftarrow> field16 (ptr + offset_of madt_iso_t ''flags'') s;
     Some (log_debug ''MADT'' s) }"

definition madt_nmi_entry :: "u64 \<Rightarrow> 'a acpi_scheme \<Rightarrow> 'a acpi_scheme option" where
  "madt_nmi_entry ptr s = do {
     processor \<leftarrow> load8 (ptr + offset_of madt_lapic_nmi_t ''processor_id'') s;
     lint \<leftarrow> load8 (ptr + offset_of madt_lapic_nmi_t ''lint'') s;
     Some (log_debug ''MADT'' s) }"

definition madt_entry :: "u64 \<Rightarrow> 'a acpi_scheme \<Rightarrow> 'a acpi_scheme option" where
  "madt_entry ptr s = do {
     type \<leftarrow> load8 (ptr + offset_of madt_entry_t ''type'') s;
     if type = 0 then madt_lapic_entry ptr s
     else if type = 1 then madt_ioapic_entry ptr s
     else if type = 2 then madt_iso_entry ptr s
     else if type = 4 then madt_nmi_entry ptr s
     else Some (log_warn ''MADT'' s) }"

text \<open>The loop over the entries. An entry of length 0 makes it run forever, which is \<open>None\<close>.\<close>

partial_function (option) madt_loop :: "u64 \<Rightarrow> u64 \<Rightarrow> 'a acpi_scheme \<Rightarrow> 'a acpi_scheme option" where
  "madt_loop ptr stop s =
     (if ptr < stop then do {
        s' \<leftarrow> madt_entry ptr s;
        len \<leftarrow> load8 (ptr + offset_of madt_entry_t ''length'') s';
        madt_loop (ptr + ucast len) stop s' }
      else Some s)"

definition madt_init :: "'a acpi_scheme \<Rightarrow> 'a acpi_scheme option" where
  "madt_init s = do {
     madt \<leftarrow> acpi_find_table (map of_char ''APIC'') s;
     if madt = NULL then Some (log_error ''MADT'' s)
     else do {
       a \<leftarrow> field32 (madt + offset_of madt_t ''lapic_address'') s;
       len \<leftarrow> field32 (madt + sdt_length) s;
       s \<leftarrow> madt_loop (madt + of_nat (struct_size madt_t)) (madt + ucast len) (s\<lparr>lapic_addr := ucast a\<rparr>);
       Some (log_info ''MADT'' s) } }"

definition madt_get_lapic_addr :: "'a acpi_scheme \<Rightarrow> u64" where
  "madt_get_lapic_addr s = lapic_addr s + hhdm_offset s"

definition madt_get_cpu_count :: "'a acpi_scheme \<Rightarrow> u8" where
  "madt_get_cpu_count s = cpu_count s"

definition madt_get_ioapic_addr :: "'a acpi_scheme \<Rightarrow> u64" where
  "madt_get_ioapic_addr s = ioapic_addr s + hhdm_offset s"

definition madt_get_ioapic_gsi_base :: "'a acpi_scheme \<Rightarrow> u32" where
  "madt_get_ioapic_gsi_base s = ioapic_gsi_base s"

section \<open>Reading tables in directly mapped memory\<close>

fun le :: "'a vmm_scheme \<Rightarrow> nat \<Rightarrow> u64 \<Rightarrow> u64" where
  "le s 0 a = 0"
| "le s (Suc n) a = ucast (byte s a) OR push_bit 8 (le s n (a + 1))"

lemma load_le_direct: "buffer a n \<Longrightarrow> load_le n a s = Some (le s n a)"
proof (induction n arbitrary: a)
  case 0
  then show ?case by simp
next
  case (Suc n)
  then show ?case by (simp add: buffer_Suc)
qed

lemma byte_cong: "mem s' = mem s \<Longrightarrow> byte s' = byte s"
  by (simp add: byte_def fun_eq_iff)

lemma le_cong:
  assumes "mem s' = mem s"
  shows "le s' n a = le s n a"
  using byte_cong [OF assms] by (induction n arbitrary: a) simp_all

lemma unat_ucast_u32: "unat (ucast (w :: u32) :: u64) = unat w"
proof -
  have "unat w < 4294967296" using unsigned_less [of w] by simp
  then show ?thesis by (simp add: unsigned_ucast_eq take_bit_nat_eq_self)
qed

abbreviation le32 :: "'a vmm_scheme \<Rightarrow> u64 \<Rightarrow> u32" where
  "le32 s a \<equiv> ucast (le s 4 a)"

lemma fields_direct:
  "buffer a 2 \<Longrightarrow> field16 a s = Some (ucast (le s 2 a))"
  "buffer a 4 \<Longrightarrow> field32 a s = Some (le32 s a)"
  "buffer a 8 \<Longrightarrow> field64 a s = Some (le s 8 a)"
  by (simp_all add: field16_def field32_def field64_def load_le_direct)

lemma buffer_sub:
  assumes "buffer a n" "k + m \<le> n"
  shows "buffer (a + of_nat k) m"
proof -
  have "unat a + k < 18446744073709551616"
    using assms heap_base_bound by (simp add: buffer_def)
  then have "unat (a + of_nat k) = unat a + k"
    by (simp add: unat_word_ariths unsigned_of_nat take_bit_nat_eq_self)
  then show ?thesis using assms by (simp add: buffer_def)
qed

section \<open>The first table with a signature\<close>

fun signature_at :: "'a vmm_scheme \<Rightarrow> u8 list \<Rightarrow> u64 \<Rightarrow> bool" where
  "signature_at s [] t \<longleftrightarrow> True"
| "signature_at s (c # cs) t \<longleftrightarrow> byte s t = c \<and> signature_at s cs (t + 1)"

lemma signature_is_at: "buffer t (length sig) \<Longrightarrow> signature_is sig t s = Some (signature_at s sig t)"
proof (induction sig arbitrary: t)
  case Nil
  then show ?case by simp
next
  case (Cons c cs)
  then show ?case by (simp add: buffer_Suc)
qed

definition first_or_null :: "(u64 \<Rightarrow> bool) \<Rightarrow> u64 list \<Rightarrow> u64" where
  "first_or_null P ts = (case find P ts of None \<Rightarrow> NULL | Some t \<Rightarrow> t)"

lemma acpi_search_first:
  assumes "unat i \<le> unat n" "\<And>k. k < unat n \<Longrightarrow> entry (of_nat k) = Some (ts ! k) \<and> buffer (ts ! k) (length sig)"
    and "length ts = unat n"
  shows "acpi_search sig entry i n s = Some (first_or_null (signature_at s sig) (drop (unat i) ts))"
  using assms
proof (induction sig entry i n s rule: acpi_search.induct)
  case (1 sig entry i n s)
  show ?case
  proof (cases "i < n")
    case True
    then have i: "unat i < unat n" by (simp add: word_less_nat_alt)
    have e: "entry i = Some (ts ! unat i)" and b: "buffer (ts ! unat i) (length sig)"
      using "1.prems"(2) [OF i] by simp_all
    have drop: "drop (unat i) ts = ts ! unat i # drop (unat (i + 1)) ts"
      using i "1.prems"(3) by (simp add: Cons_nth_drop_Suc unat_succ_less [OF True])
    have "unat (i + 1) \<le> unat n" using i by (simp add: unat_succ_less [OF True])
    then have "acpi_search sig entry (i + 1) n s =
        Some (first_or_null (signature_at s sig) (drop (unat (i + 1)) ts))"
      if "\<not> signature_at s sig (ts ! unat i)"
      using "1.IH" [OF True e signature_is_at [OF b, of s]] that "1.prems"(2,3) by simp
    then show ?thesis
      using True e signature_is_at [OF b, of s]
      by (simp add: acpi_search.simps [of sig entry i] drop first_or_null_def)
  next
    case False
    then have "unat i = unat n" using "1.prems"(1) by (simp add: word_less_nat_alt)
    then show ?thesis using False "1.prems"(3)
      by (simp add: acpi_search.simps [of sig entry i] first_or_null_def)
  qed
qed

text \<open>The number of entries of size \<open>k\<close> that the length field of a root table announces.\<close>

definition entry_count :: "'a vmm_scheme \<Rightarrow> u64 \<Rightarrow> nat \<Rightarrow> nat" where
  "entry_count s rt k = (unat (le32 s (rt + 4)) - 36) div k"

definition xsdt_tables :: "'a acpi_scheme \<Rightarrow> u64 list" where
  "xsdt_tables s = map (\<lambda>i. le s 8 (xsdt s + 36 + 8 * of_nat i)) [0..<entry_count s (xsdt s) 8]"

definition rsdt_tables :: "'a acpi_scheme \<Rightarrow> u64 list" where
  "rsdt_tables s =
     map (\<lambda>i. ucast (le32 s (rsdt s + 36 + 4 * of_nat i)) + hhdm_offset s) [0..<entry_count s (rsdt s) 4]"

definition root_table_ok :: "'a vmm_scheme \<Rightarrow> u64 \<Rightarrow> bool" where
  "root_table_ok s rt \<longleftrightarrow> 36 \<le> unat (le32 s (rt + 4)) \<and> buffer rt (unat (le32 s (rt + 4)))"

lemma root_table:
  assumes "root_table_ok s rt" "k \<in> {4, 8}"
  shows "field32 (rt + sdt_length) s = Some (le32 s (rt + 4))"
    and "unat ((ucast (le32 s (rt + 4)) - sizeof_sdt_header :: u64) div of_nat k) = entry_count s rt k"
    and "i < entry_count s rt k \<Longrightarrow> buffer (rt + sizeof_sdt_header + of_nat k * of_nat i) k"
proof -
  let ?n = "unat (le32 s (rt + 4))"
  have n: "36 \<le> ?n" "buffer rt ?n" using assms(1) by (simp_all add: root_table_ok_def)
  have "buffer (rt + of_nat 4) 4" using n by (intro buffer_sub [of _ ?n]) simp_all
  then show "field32 (rt + sdt_length) s = Some (le32 s (rt + 4))"
    by (simp add: fields_direct acpi_offsets)
  have u: "unat (ucast (le32 s (rt + 4)) :: u64) = ?n"
    by (rule unat_ucast_u32)
  then have "unat (ucast (le32 s (rt + 4)) - 36 :: u64) = ?n - 36"
    using n(1) by (subst unat_sub) (simp_all add: word_le_nat_alt)
  then show "unat ((ucast (le32 s (rt + 4)) - sizeof_sdt_header :: u64) div of_nat k) = entry_count s rt k"
    using assms(2) by (auto simp: entry_count_def acpi_offsets unat_div)
  assume i: "i < entry_count s rt k"
  have "k * Suc i \<le> ?n - 36"
  proof -
    have "Suc i \<le> (?n - 36) div k" using i by (simp add: entry_count_def)
    then have "k * Suc i \<le> k * ((?n - 36) div k)" by (rule mult_le_mono2)
    also have "\<dots> \<le> ?n - 36" by (rule times_div_less_eq_dividend)
    finally show ?thesis .
  qed
  then have "(36 + k * i) + k \<le> ?n" using n(1) by simp
  then have "buffer (rt + of_nat (36 + k * i)) k" by (rule buffer_sub [OF n(2)])
  then show "buffer (rt + sizeof_sdt_header + of_nat k * of_nat i) k"
    by (simp add: acpi_offsets add.assoc)
qed

lemma acpi_find_table_spec:
  assumes "xsdt s \<noteq> NULL \<Longrightarrow> root_table_ok s (xsdt s) \<and> (\<forall>t \<in> set (xsdt_tables s). buffer t (length sig))"
    and "xsdt s = NULL \<Longrightarrow> rsdt s \<noteq> NULL \<Longrightarrow>
           root_table_ok s (rsdt s) \<and> (\<forall>t \<in> set (rsdt_tables s). buffer t (length sig))"
  shows "acpi_find_table sig s =
           Some (first_or_null (signature_at s sig)
             (if xsdt s \<noteq> NULL then xsdt_tables s else if rsdt s \<noteq> NULL then rsdt_tables s else []))"
proof -
  consider "xsdt s \<noteq> NULL" | "xsdt s = NULL" "rsdt s \<noteq> NULL" | "xsdt s = NULL" "rsdt s = NULL" by blast
  then show ?thesis
  proof cases
    case 1
    then have ok: "root_table_ok s (xsdt s)" and b: "\<And>t. t \<in> set (xsdt_tables s) \<Longrightarrow> buffer t (length sig)"
      using assms(1) by auto
    note r = root_table [OF ok, of 8, simplified]
    let ?n = "(ucast (le32 s (xsdt s + 4)) - sizeof_sdt_header :: u64) div 8"
    have "acpi_search sig (\<lambda>i. field64 (xsdt s + sizeof_sdt_header + 8 * i) s) 0 ?n s =
        Some (first_or_null (signature_at s sig) (drop (unat (0 :: u64)) (xsdt_tables s)))"
    proof (rule acpi_search_first)
      show "length (xsdt_tables s) = unat ?n" using r(2) by (simp add: xsdt_tables_def)
      fix k assume "k < unat ?n"
      then have k: "k < entry_count s (xsdt s) 8" using r(2) by simp
      then show "field64 (xsdt s + sizeof_sdt_header + 8 * of_nat k) s = Some (xsdt_tables s ! k) \<and>
          buffer (xsdt_tables s ! k) (length sig)"
        using r(3) [OF k] b [of "xsdt_tables s ! k"] fields_direct(3) [of "xsdt s + sizeof_sdt_header + 8 * of_nat k" s]
        by (simp add: xsdt_tables_def acpi_offsets)
    qed simp
    then show ?thesis using 1 r(1) by (simp add: acpi_find_table_def Let_def acpi_offsets)
  next
    case 2
    then have ok: "root_table_ok s (rsdt s)" and b: "\<And>t. t \<in> set (rsdt_tables s) \<Longrightarrow> buffer t (length sig)"
      using assms(2) by auto
    note r = root_table [OF ok, of 4, simplified]
    let ?n = "(ucast (le32 s (rsdt s + 4)) - sizeof_sdt_header :: u64) div 4"
    let ?e = "\<lambda>i. do { e \<leftarrow> field32 (rsdt s + offset_of acpi_rsdt_t ''entries'' + 4 * i) s; Some (ucast e + hhdm_offset s) }"
    have "acpi_search sig ?e 0 ?n s =
        Some (first_or_null (signature_at s sig) (drop (unat (0 :: u64)) (rsdt_tables s)))"
    proof (rule acpi_search_first)
      show "length (rsdt_tables s) = unat ?n" using r(2) by (simp add: rsdt_tables_def)
      fix k assume "k < unat ?n"
      then have k: "k < entry_count s (rsdt s) 4" using r(2) by simp
      then show "?e (of_nat k) = Some (rsdt_tables s ! k) \<and> buffer (rsdt_tables s ! k) (length sig)"
        using r(3) [OF k] b [of "rsdt_tables s ! k"] fields_direct(2) [of "rsdt s + sizeof_sdt_header + 4 * of_nat k" s]
        by (simp add: rsdt_tables_def acpi_offsets)
    qed simp
    then show ?thesis using 2 r(1) by (simp add: acpi_find_table_def Let_def acpi_offsets)
  next
    case 3
    then show ?thesis by (simp add: acpi_find_table_def first_or_null_def)
  qed
qed

text \<open>
  C37. (functional) \<^verbatim>\<open>acpi_find_table\<close> returns the first table with the signature among those the root
  table lists, and \<^verbatim>\<open>NULL\<close> when there is none. The entries of an RSDT are taken as physical addresses
  and converted with the HHDM offset; the entries of an XSDT, which are physical addresses too, are
  dereferenced and returned as they are.
\<close>

theorem acpi_find_table_first:
  assumes "xsdt s \<noteq> NULL \<Longrightarrow> root_table_ok s (xsdt s) \<and> (\<forall>t \<in> set (xsdt_tables s). buffer t (length sig))"
    and "xsdt s = NULL \<Longrightarrow> rsdt s \<noteq> NULL \<Longrightarrow>
           root_table_ok s (rsdt s) \<and> (\<forall>t \<in> set (rsdt_tables s). buffer t (length sig))"
  shows "acpi_find_table sig s =
           Some (first_or_null (signature_at s sig)
             (if xsdt s \<noteq> NULL then xsdt_tables s else if rsdt s \<noteq> NULL then rsdt_tables s else []))"
  using assms by (rule acpi_find_table_spec)

section \<open>What the MADT says\<close>

text \<open>
  \<open>madt_entries s p stop ps\<close>: from \<open>p\<close> on, each entry leading to the next by its length byte, the
  entries that start below \<open>stop\<close> are at the addresses \<open>ps\<close>.
\<close>

fun madt_entries :: "'a vmm_scheme \<Rightarrow> u64 \<Rightarrow> u64 \<Rightarrow> u64 list \<Rightarrow> bool" where
  "madt_entries s p stop [] \<longleftrightarrow> stop \<le> p"
| "madt_entries s p stop (q # qs) \<longleftrightarrow> q = p \<and> p < stop \<and> madt_entries s (p + ucast (byte s (p + 1))) stop qs"

definition madt_cpus :: "'a vmm_scheme \<Rightarrow> u64 list \<Rightarrow> u8 list" where
  "madt_cpus s ps = map (\<lambda>p. byte s (p + 3)) (filter (\<lambda>p. byte s p = 0 \<and> le32 s (p + 4) AND 1 \<noteq> 0) ps)"

definition madt_isos :: "'a vmm_scheme \<Rightarrow> u64 list \<Rightarrow> u64 list" where
  "madt_isos s ps = filter (\<lambda>p. byte s p = 2) ps"

definition madt_ioapics :: "'a vmm_scheme \<Rightarrow> u64 list \<Rightarrow> (u64 \<times> u32) list" where
  "madt_ioapics s ps = map (\<lambda>p. (ucast (le32 s (p + 4)), le32 s (p + 8))) (filter (\<lambda>p. byte s p = 1) ps)"

lemma madt_lists_Cons:
  "madt_cpus s (p # ps) = madt_cpus s [p] @ madt_cpus s ps"
  "madt_isos s (p # ps) = madt_isos s [p] @ madt_isos s ps"
  "madt_ioapics s (p # ps) = madt_ioapics s [p] @ madt_ioapics s ps"
  by (simp_all add: madt_cpus_def madt_isos_def madt_ioapics_def)

text \<open>An array of sixteen slots with a counter holds the first sixteen of \<open>xs\<close>.\<close>

definition filled :: "'b list \<Rightarrow> u8 \<Rightarrow> 'b list \<Rightarrow> bool" where
  "filled arr n xs \<longleftrightarrow> length arr = 16 \<and> unat n = min 16 (length xs) \<and> take (unat n) arr = take 16 xs"

lemma filled_room:
  assumes "filled arr n xs" "n < 16"
  shows "unat n < length arr" "filled (arr[unat n := x]) (n + 1) (xs @ [x])"
proof -
  have n: "unat n < 16" using assms(2) by (simp add: word_less_nat_alt)
  then have len: "unat n = length xs" "length xs < 16" "length arr = 16" "take (unat n) arr = take 16 xs"
    using assms(1) by (auto simp: filled_def)
  then show "unat n < length arr" by simp
  have "unat (n + 1) = Suc (unat n)" using unat_succ_u8 [OF assms(2)] .
  then show "filled (arr[unat n := x]) (n + 1) (xs @ [x])"
    using len by (simp add: filled_def take_Suc_conv_app_nth)
qed

lemma filled_full:
  assumes "filled arr n xs" "\<not> n < 16"
  shows "filled arr n (xs @ ys)"
proof -
  have "\<not> unat n < 16" using assms(2) by (simp add: word_less_nat_alt)
  then have "16 \<le> length xs" using assms(1) by (auto simp: filled_def)
  then show ?thesis using assms(1) by (auto simp: filled_def)
qed

definition parsed ::
  "'a acpi_scheme \<Rightarrow> u8 list \<Rightarrow> u64 list \<Rightarrow> (u64 \<times> u32) list \<Rightarrow> 'a acpi_scheme \<Rightarrow> bool" where
  "parsed s0 cpus os ios s \<longleftrightarrow>
     filled (lapic_ids s) (cpu_count s) cpus \<and> filled (isos s) (iso_count s) os \<and>
     (ioapic_addr s, ioapic_gsi_base s) = last ((ioapic_addr s0, ioapic_gsi_base s0) # ios) \<and>
     lapic_addr s = lapic_addr s0 \<and> mem s = mem s0 \<and> heap_eq s0 s \<and> acpi.more s = acpi.more s0"

lemma heap_eq_acpi [simp]:
  "heap_eq s (s'\<lparr>lapic_ids := x\<rparr>) = heap_eq s s'" "heap_eq s (s'\<lparr>cpu_count := c\<rparr>) = heap_eq s s'"
  "heap_eq s (s'\<lparr>isos := y\<rparr>) = heap_eq s s'" "heap_eq s (s'\<lparr>iso_count := c\<rparr>) = heap_eq s s'"
  "heap_eq s (s'\<lparr>ioapic_addr := a\<rparr>) = heap_eq s s'" "heap_eq s (s'\<lparr>ioapic_gsi_base := g\<rparr>) = heap_eq s s'"
  "heap_eq s (s'\<lparr>lapic_addr := a\<rparr>) = heap_eq s s'" "heap_eq s (s'\<lparr>xsdt := a\<rparr>) = heap_eq s s'"
  by (simp_all add: heap_eq_def)

lemma parsed_log [simp]: "parsed s0 cs os ios (log_event l n s) = parsed s0 cs os ios s"
  by (simp add: parsed_def log_event_def heap_eq_def)

lemma madt_fields:
  assumes "buffer p 16"
  shows "load8 p s = Some (byte s p)" "load8 (p + 1) s = Some (byte s (p + 1))"
    "load8 (p + 2) s = Some (byte s (p + 2))" "load8 (p + 3) s = Some (byte s (p + 3))"
    "load8 (p + 5) s = Some (byte s (p + 5))"
    "field32 (p + 4) s = Some (le32 s (p + 4))" "field32 (p + 8) s = Some (le32 s (p + 8))"
    "field16 (p + 8) s = Some (ucast (le s 2 (p + 8)))"
proof -
  have d: "direct (p + of_nat k)" if "k < 16" for k using unat_buffer(2) [OF assms that] .
  show "load8 p s = Some (byte s p)" using d [of 0] by simp
  show "load8 (p + 1) s = Some (byte s (p + 1))" using d [of 1] by simp
  show "load8 (p + 2) s = Some (byte s (p + 2))" using d [of 2] by simp
  show "load8 (p + 3) s = Some (byte s (p + 3))" using d [of 3] by simp
  show "load8 (p + 5) s = Some (byte s (p + 5))" using d [of 5] by simp
  show "field32 (p + 4) s = Some (le32 s (p + 4))"
    using fields_direct(2) [OF buffer_sub [OF assms, of 4 4]] by simp
  show "field32 (p + 8) s = Some (le32 s (p + 8))"
    using fields_direct(2) [OF buffer_sub [OF assms, of 8 4]] by simp
  show "field16 (p + 8) s = Some (ucast (le s 2 (p + 8)))"
    using fields_direct(1) [OF buffer_sub [OF assms, of 8 2]] by simp
qed

lemma madt_entry_parsed:
  assumes b: "buffer p 16" and s: "parsed s0 cs os ios s"
  shows "\<exists>s'. madt_entry p s = Some s' \<and>
           parsed s0 (cs @ madt_cpus s0 [p]) (os @ madt_isos s0 [p]) (ios @ madt_ioapics s0 [p]) s'"
proof -
  note f = madt_fields [OF b]
  have m: "mem s = mem s0" using s by (simp add: parsed_def)
  have bt: "byte s = byte s0" by (rule byte_cong [OF m])
  have lec: "le s n a = le s0 n a" for n a by (rule le_cong [OF m])
  have fc: "filled (lapic_ids s) (cpu_count s) cs" and fo: "filled (isos s) (iso_count s) os"
    using s by (simp_all add: parsed_def)
  consider "byte s0 p = 0" | "byte s0 p = 1" | "byte s0 p = 2" | "byte s0 p = 4" | "byte s0 p \<notin> {0, 1, 2, 4}"
    by blast
  then show ?thesis
  proof cases
    case 1
    then have lists: "madt_isos s0 [p] = []" "madt_ioapics s0 [p] = []"
      "madt_cpus s0 [p] = (if le32 s0 (p + 4) AND 1 \<noteq> 0 then [byte s0 (p + 3)] else [])"
      by (simp_all add: madt_isos_def madt_ioapics_def madt_cpus_def)
    show ?thesis
      using 1 s filled_room(1) [OF fc] filled_room(2) [OF fc, of "byte s0 (p + 3)"] filled_full [OF fc, of "[byte s0 (p + 3)]"]
      by (simp add: madt_entry_def madt_offsets madt_lapic_entry_def f bt lec lists MAX_CPUS_def)
        (simp add: parsed_def)
  next
    case 2
    then have lists: "madt_isos s0 [p] = []" "madt_cpus s0 [p] = []"
      "madt_ioapics s0 [p] = [(ucast (le32 s0 (p + 4)), le32 s0 (p + 8))]"
      by (simp_all add: madt_isos_def madt_ioapics_def madt_cpus_def)
    show ?thesis using 2 s
      by (simp add: madt_entry_def madt_offsets madt_ioapic_entry_def f bt lec lists) (simp add: parsed_def)
  next
    case 3
    then have lists: "madt_isos s0 [p] = [p]" "madt_ioapics s0 [p] = []" "madt_cpus s0 [p] = []"
      by (simp_all add: madt_isos_def madt_ioapics_def madt_cpus_def)
    show ?thesis
      using 3 s filled_room(1) [OF fo] filled_room(2) [OF fo, of p] filled_full [OF fo, of "[p]"]
      by (simp add: madt_entry_def madt_offsets madt_iso_entry_def f bt lec lists MAX_ISOS_def) (simp add: parsed_def)
  next
    case 4
    then have "madt_isos s0 [p] = []" "madt_ioapics s0 [p] = []" "madt_cpus s0 [p] = []"
      by (simp_all add: madt_isos_def madt_ioapics_def madt_cpus_def)
    then show ?thesis using 4 s by (simp add: madt_entry_def madt_offsets madt_nmi_entry_def f bt)
  next
    case 5
    then have "madt_isos s0 [p] = []" "madt_ioapics s0 [p] = []" "madt_cpus s0 [p] = []"
      by (simp_all add: madt_isos_def madt_ioapics_def madt_cpus_def)
    then show ?thesis using 5 s by (simp add: madt_entry_def madt_offsets f bt)
  qed
qed

lemma madt_loop_parsed:
  assumes "madt_entries s0 p stop ps" "unat stop + 16 \<le> unat KERNEL_HEAP_BASE" "parsed s0 cs os ios s"
  shows "\<exists>s'. madt_loop p stop s = Some s' \<and>
           parsed s0 (cs @ madt_cpus s0 ps) (os @ madt_isos s0 ps) (ios @ madt_ioapics s0 ps) s'"
  using assms(1,3)
proof (induction ps arbitrary: p s cs os ios)
  case Nil
  then have "\<not> p < stop" by simp
  then show ?case using Nil by (simp add: madt_loop.simps [of p] madt_offsets madt_cpus_def madt_isos_def madt_ioapics_def)
next
  case (Cons q qs)
  then have p: "q = p" "p < stop" and rest: "madt_entries s0 (p + ucast (byte s0 (p + 1))) stop qs"
    by simp_all
  have b: "buffer p 16" using p(2) assms(2) by (simp add: buffer_def word_less_nat_alt)
  obtain t where t: "madt_entry p s = Some t"
    "parsed s0 (cs @ madt_cpus s0 [p]) (os @ madt_isos s0 [p]) (ios @ madt_ioapics s0 [p]) t"
    using madt_entry_parsed [OF b Cons.prems(2)] by blast
  have "byte t = byte s0" using t(2) by (intro byte_cong) (simp add: parsed_def)
  then have l: "load8 (p + 1) t = Some (byte s0 (p + 1))" using madt_fields(2) [OF b, of t] by simp
  obtain s' where "madt_loop (p + ucast (byte s0 (p + 1))) stop t = Some s'"
    "parsed s0 ((cs @ madt_cpus s0 [p]) @ madt_cpus s0 qs) ((os @ madt_isos s0 [p]) @ madt_isos s0 qs)
       ((ios @ madt_ioapics s0 [p]) @ madt_ioapics s0 qs) s'"
    using Cons.IH [OF rest t(2)] by blast
  then show ?case
    using t(1) l p unfolding p(1) madt_lists_Cons [of s0 p qs] by (simp add: madt_loop.simps [of p] madt_offsets)
qed

text \<open>
  \<^verbatim>\<open>madt_init\<close> on a table whose entries chain up to its end terminates, records the
  identifiers of the first sixteen enabled processors, the address and interrupt base of the last I/O
  APIC, the first sixteen interrupt source overrides and the address of the local APIC, and changes no
  memory. Later processors and overrides are ignored without leaving the arrays.
\<close>

lemma madt_init_parses:
  assumes "acpi_find_table (map of_char ''APIC'') s = Some m" "m \<noteq> NULL" "buffer m 44"
    and "madt_entries s (m + 44) (m + ucast (le32 s (m + 4))) ps"
    and "unat (m + ucast (le32 s (m + 4))) + 16 \<le> unat KERNEL_HEAP_BASE"
    and "cpu_count s = 0" "length (lapic_ids s) = 16" "iso_count s = 0" "length (isos s) = 16"
  shows "\<exists>s'. madt_init s = Some s' \<and>
           unat (cpu_count s') = min 16 (length (madt_cpus s ps)) \<and>
           take (unat (cpu_count s')) (lapic_ids s') = take 16 (madt_cpus s ps) \<and>
           unat (iso_count s') = min 16 (length (madt_isos s ps)) \<and>
           take (unat (iso_count s')) (isos s') = take 16 (madt_isos s ps) \<and>
           (ioapic_addr s', ioapic_gsi_base s') =
             last ((ioapic_addr s, ioapic_gsi_base s) # madt_ioapics s ps) \<and>
           lapic_addr s' = ucast (le32 s (m + 36)) \<and> mem s' = mem s \<and> heap_eq s s' \<and> acpi.more s' = acpi.more s"
proof -
  let ?s = "s\<lparr>lapic_addr := ucast (le32 s (m + 36))\<rparr>"
  have len: "field32 (m + sdt_length) s = Some (le32 s (m + 4))"
    using fields_direct(2) [OF buffer_sub [OF assms(3), of 4 4], of s] by (simp add: acpi_offsets)
  have la: "field32 (m + offset_of madt_t ''lapic_address'') s = Some (le32 s (m + 36))"
    using fields_direct(2) [OF buffer_sub [OF assms(3), of 36 4], of s] by (simp add: madt_offsets)
  have eq: "byte ?s = byte s" "le ?s n a = le s n a" for n a
    by (rule byte_cong; simp) (rule le_cong; simp)
  have ent: "madt_entries ?s p stop qs = madt_entries s p stop qs" for p stop qs
    by (induction qs arbitrary: p) (simp_all add: eq)
  have lists: "madt_cpus ?s ps = madt_cpus s ps" "madt_isos ?s ps = madt_isos s ps"
    "madt_ioapics ?s ps = madt_ioapics s ps"
    by (simp_all add: madt_cpus_def madt_isos_def madt_ioapics_def eq)
  have "parsed ?s [] [] [] ?s" using assms(6-9) by (simp add: parsed_def filled_def) (simp add: heap_eq_def)
  then obtain t where t: "madt_loop (m + 44) (m + ucast (le32 s (m + 4))) ?s = Some t"
    "parsed ?s (madt_cpus s ps) (madt_isos s ps) (madt_ioapics s ps) t"
    using madt_loop_parsed [of ?s "m + 44" "m + ucast (le32 s (m + 4))" ps "[]" "[]" "[]" ?s] assms(4,5)
    by (auto simp: ent lists)
  have "madt_init s = Some (log_info ''MADT'' t)"
    using assms(1,2) len la t(1) by (simp add: madt_init_def madt_sizes)
  moreover have "filled (lapic_ids t) (cpu_count t) (madt_cpus s ps)" "filled (isos t) (iso_count t) (madt_isos s ps)"
    "(ioapic_addr t, ioapic_gsi_base t) = last ((ioapic_addr s, ioapic_gsi_base s) # madt_ioapics s ps)"
    "lapic_addr t = ucast (le32 s (m + 36))" "mem t = mem s" "heap_eq s t" "acpi.more t = acpi.more s"
    using t(2) by (simp_all add: parsed_def heap_eq_def)
  ultimately show ?thesis
    unfolding filled_def by (intro exI [of _ "log_info ''MADT'' t"]) (auto simp: log_event_def heap_eq_def)
qed

text \<open>An entry whose length byte is 0 makes the parser loop forever: it trusts the firmware here.\<close>

lemma madt_loop_zero_length:
  assumes "p < stop" "buffer p 16" "byte s0 (p + 1) = 0" "parsed s0 cs os ios s"
  shows "madt_loop p stop s = None"
proof -
  have "q = p \<longrightarrow> e = stop \<longrightarrow> \<not> (\<exists>cs os ios. parsed s0 cs os ios t)"
    if "madt_loop q e t = Some u" for q e t u
  proof (rule madt_loop.raw_induct [OF _ that], intro impI notI)
    fix f q e t u
    assume hyp: "\<And>q e t u. f q e t = Some u \<Longrightarrow> q = p \<longrightarrow> e = stop \<longrightarrow> \<not> (\<exists>cs os ios. parsed s0 cs os ios t)"
      and f: "(if q < e then do { s' \<leftarrow> madt_entry q t; len \<leftarrow> load8 (q + offset_of madt_entry_t ''length'') s'; f (q + ucast len) e s' }
               else Some t) = Some u"
      and q: "q = p" "e = stop" and "\<exists>cs os ios. parsed s0 cs os ios t"
    then obtain cs os ios where t: "parsed s0 cs os ios t" by blast
    obtain t' where t': "madt_entry p t = Some t'"
      "parsed s0 (cs @ madt_cpus s0 [p]) (os @ madt_isos s0 [p]) (ios @ madt_ioapics s0 [p]) t'"
      using madt_entry_parsed [OF assms(2) t] by blast
    have "byte t' = byte s0" using t'(2) by (intro byte_cong) (simp add: parsed_def)
    then have "load8 (p + 1) t' = Some 0" using madt_fields(2) [OF assms(2), of t'] assms(3) by simp
    then have "f p stop t' = Some u" using f t'(1) assms(1) q by (simp add: madt_offsets)
    then show False using hyp t'(2) by blast
  qed
  then show ?thesis using assms(4) by (cases "madt_loop p stop s") blast+
qed

section \<open>A small machine\<close>

text \<open>An XSDT at 0x1000 with one entry, the MADT at 0x2000 with one processor and one I/O APIC.\<close>

definition sample_tables :: "u64 \<Rightarrow> u64" where
  "sample_tables a =
     (if a = 0x1000 then 0x0000002C54445358 else if a = 0x1020 then 0x0000200000000000
      else if a = 0x2000 then 0x0000004043495041 else if a = 0x2020 then 0xFEE0000000000000
      else if a = 0x2028 then 0x0000080000000000 else if a = 0x2030 then 0x00000C0100000001
      else if a = 0x2038 then 0x00000000FEC00000 else 0)"

definition sample_acpi :: acpi where
  "sample_acpi =
     \<lparr>klog = [], bitmap = [], bitmap_ptr = 0, total_pages = 0, free_pages = 0, bitmap_size = 0,
      hhdm_offset = 0x100000, mem = sample_tables, cr3 = 0x1000, invlpg = [], caches = [],
      kernel_heap_vaddr = KERNEL_HEAP_BASE, rsdt = 0, xsdt = 0x1000, lapic_addr = 0, cpu_count = 0,
      lapic_ids = replicate 16 0, ioapic_addr = 0, ioapic_gsi_base = 0, isos = replicate 16 0, iso_count = 0\<rparr>"

lemma sample_byte:
  "byte sample_acpi a = get_byte (sample_tables (a AND NOT 7)) (unat (a AND 7))"
  by (simp add: byte_def sample_acpi_def cell_of_def byte_pos_def)

lemma le_numeral:
  "le s 4 a = ucast (byte s a) OR push_bit 8 (ucast (byte s (a + 1)) OR push_bit 8
     (ucast (byte s (a + 2)) OR push_bit 8 (ucast (byte s (a + 3)) OR push_bit 8 0)))"
  by (simp add: eval_nat_numeral add.assoc)

lemma le_numeral8:
  "le s 8 a = ucast (byte s a) OR push_bit 8 (ucast (byte s (a + 1)) OR push_bit 8
     (ucast (byte s (a + 2)) OR push_bit 8 (ucast (byte s (a + 3)) OR push_bit 8 (le s 4 (a + 4)))))"
  by (simp add: eval_nat_numeral add.assoc)

lemma sample_le:
  "le sample_acpi 4 0x1004 = 44" "le sample_acpi 8 0x1024 = 0x2000" "le sample_acpi 4 0x2004 = 64"
  "le sample_acpi 4 0x2024 = 0xFEE00000" "le sample_acpi 4 0x2030 = 1" "le sample_acpi 4 0x2038 = 0xFEC00000"
  "le sample_acpi 4 0x203C = 0"
  by (simp_all add: le_numeral8 le_numeral sample_byte sample_tables_def get_byte_def)

lemma sample_xsdt: "xsdt sample_acpi = 0x1000" "xsdt_tables sample_acpi = [0x2000]"
proof -
  show x: "xsdt sample_acpi = 0x1000" by (simp add: sample_acpi_def)
  have "entry_count sample_acpi 0x1000 8 = 1" by (simp add: entry_count_def sample_le)
  then show "xsdt_tables sample_acpi = [0x2000]" by (simp add: xsdt_tables_def x sample_le)
qed

lemma sample_buffers: "root_table_ok sample_acpi 0x1000" "buffer 0x2000 4" "buffer 0x2000 44"
  by (simp_all add: root_table_ok_def buffer_def sample_le KERNEL_HEAP_BASE_def)

lemma sample_fields:
  "cpu_count sample_acpi = 0" "length (lapic_ids sample_acpi) = 16" "iso_count sample_acpi = 0"
  "length (isos sample_acpi) = 16" "ioapic_addr sample_acpi = 0" "ioapic_gsi_base sample_acpi = 0"
  by (simp_all add: sample_acpi_def)

lemma sample_signature_buffer: "buffer 0x2000 (length (map of_char ''APIC'' :: u8 list))"
  using sample_buffers(2) by (simp add: eval_nat_numeral)

lemma sample_signature: "signature_at sample_acpi (map of_char ''APIC'') 0x2000"
  by (simp add: sample_byte sample_tables_def get_byte_def)

theorem acpi_find_table_first_witness:
  "root_table_ok sample_acpi (xsdt sample_acpi) \<and>
   acpi_find_table (map of_char ''APIC'') sample_acpi = Some 0x2000"
  using acpi_find_table_first [of sample_acpi "map of_char ''APIC''"] sample_signature
    sample_signature_buffer
  by (simp add: sample_xsdt sample_buffers first_or_null_def del: signature_at.simps)

lemma sample_found: "acpi_find_table (map of_char ''APIC'') sample_acpi = Some 0x2000"
proof -
  have "signature_is (map of_char ''APIC'') 0x2000 sample_acpi = Some True"
    using signature_is_at [OF sample_signature_buffer, of sample_acpi] sample_signature
    by (simp del: signature_at.simps signature_is.simps)
  moreover have "field32 0x1004 sample_acpi = Some 44" "field64 0x1024 sample_acpi = Some 0x2000"
    by (simp_all add: fields_direct buffer_def KERNEL_HEAP_BASE_def sample_le)
  ultimately show ?thesis
    by (simp add: acpi_find_table_def sample_xsdt acpi_offsets Let_def acpi_search.simps [of _ _ 0]
        del: signature_is.simps)
qed

end
