(* ===== verification/Io.thy ===== *)
theory Io
  imports Prelude
begin

text \<open>
  Port and memory-mapped input and output, \<^verbatim>\<open>arch/x86_64/io.h\<close>. What the processor exchanges with the
  devices is a trace of events; a device is a function that answers a read from the trace so
  far. The functions of the drivers extend the trace, and the devices are a parameter of those that
  read.
\<close>

datatype io =
    Out u16 u8
  | In u16 u8
  | MmioW u64 u32
  | MmioR u64 u32

type_synonym trace = "io list"

text \<open>The devices: the answer to \<^verbatim>\<open>inb\<close> on a port and to a 32-bit load from a device register.\<close>

record devices =
  port_read :: "trace \<Rightarrow> u16 \<Rightarrow> u8"
  mmio_read :: "trace \<Rightarrow> u64 \<Rightarrow> u32"

definition outb :: "u16 \<Rightarrow> u8 \<Rightarrow> trace \<Rightarrow> trace" where
  "outb p v tr = tr @ [Out p v]"

definition inb :: "devices \<Rightarrow> u16 \<Rightarrow> trace \<Rightarrow> u8 \<times> trace" where
  "inb d p tr = (let v = port_read d tr p in (v, tr @ [In p v]))"

definition io_wait :: "trace \<Rightarrow> trace" where
  "io_wait tr = outb 0x80 0 tr"

text \<open>A store to and a load from a \<^verbatim>\<open>volatile uint32_t*\<close> of a device.\<close>

definition mmio_write32 :: "u64 \<Rightarrow> u32 \<Rightarrow> trace \<Rightarrow> trace" where
  "mmio_write32 a v tr = tr @ [MmioW a v]"

definition mmio_read32 :: "devices \<Rightarrow> u64 \<Rightarrow> trace \<Rightarrow> u32 \<times> trace" where
  "mmio_read32 d a tr = (let v = mmio_read d tr a in (v, tr @ [MmioR a v]))"

lemmas io_defs = outb_def inb_def io_wait_def mmio_write32_def mmio_read32_def

end
