(* ===== verification/Pic.thy ===== *)
theory Pic
  imports Io
begin

text \<open>
  The legacy interrupt controllers, \<^verbatim>\<open>arch/x86_64/pic.c\<close>. The driver writes the initialisation words
  in order and keeps the interrupt masks; what the words do is given by an automaton of the 8259A
  that reads the trace, so the properties are about the state the controllers end in.
\<close>

section \<open>The driver\<close>

definition PIC1_COMMAND :: u16 where "PIC1_COMMAND = 0x20"
definition PIC1_DATA :: u16 where "PIC1_DATA = 0x21"
definition PIC2_COMMAND :: u16 where "PIC2_COMMAND = 0xA0"
definition PIC2_DATA :: u16 where "PIC2_DATA = 0xA1"
definition PIC_EOI :: u8 where "PIC_EOI = 0x20"
definition ICW1_ICW4 :: u8 where "ICW1_ICW4 = 0x01"
definition ICW1_INIT :: u8 where "ICW1_INIT = 0x10"
definition ICW4_8086 :: u8 where "ICW4_8086 = 0x01"

lemmas pic_ports = PIC1_COMMAND_def PIC1_DATA_def PIC2_COMMAND_def PIC2_DATA_def
lemmas pic_words = PIC_EOI_def ICW1_ICW4_def ICW1_INIT_def ICW4_8086_def

definition pic_init :: "devices \<Rightarrow> trace \<Rightarrow> trace" where
  "pic_init d tr =
     (let (mask1, tr) = inb d PIC1_DATA tr;
          (mask2, tr) = inb d PIC2_DATA tr;
          offset1 = 0x20;
          offset2 = 0x28;
          tr = io_wait (outb PIC1_COMMAND (ICW1_INIT OR ICW1_ICW4) tr);
          tr = io_wait (outb PIC2_COMMAND (ICW1_INIT OR ICW1_ICW4) tr);
          tr = io_wait (outb PIC1_DATA offset1 tr);
          tr = io_wait (outb PIC2_DATA offset2 tr);
          tr = io_wait (outb PIC1_DATA 0x04 tr);
          tr = io_wait (outb PIC2_DATA 0x02 tr);
          tr = io_wait (outb PIC1_DATA ICW4_8086 tr);
          tr = io_wait (outb PIC2_DATA ICW4_8086 tr);
          tr = outb PIC1_DATA mask1 tr
      in outb PIC2_DATA mask2 tr)"

definition pic_sendEOI :: "u8 \<Rightarrow> trace \<Rightarrow> trace" where
  "pic_sendEOI irq tr =
     (let tr = (if 8 \<le> irq then outb PIC2_COMMAND PIC_EOI tr else tr)
      in outb PIC1_COMMAND PIC_EOI tr)"

text \<open>The shift \<^verbatim>\<open>1 << irq\<close> is an \<^verbatim>\<open>int\<close>, narrowed to \<^verbatim>\<open>uint8_t\<close> when it is stored.\<close>

definition pic_mask :: "devices \<Rightarrow> u8 \<Rightarrow> trace \<Rightarrow> trace" where
  "pic_mask d irq tr =
     (let (port, irq) = (if irq < 8 then (PIC1_DATA, irq) else (PIC2_DATA, irq - 8));
          (old, tr) = inb d port tr;
          val = old OR push_bit (unat irq) 1
      in outb port val tr)"

definition pic_unmask :: "devices \<Rightarrow> u8 \<Rightarrow> trace \<Rightarrow> trace" where
  "pic_unmask d irq tr =
     (let (port, irq) = (if irq < 8 then (PIC1_DATA, irq) else (PIC2_DATA, irq - 8));
          (old, tr) = inb d port tr;
          val = old AND NOT (push_bit (unat irq) 1)
      in outb port val tr)"

definition pic_disable :: "trace \<Rightarrow> trace" where
  "pic_disable tr =
     outb 0x23 0x01 (outb 0x22 0x70 (outb PIC2_DATA 0xFF (outb PIC1_DATA 0xFF tr)))"

section \<open>The 8259A\<close>

text \<open>
  A controller is waiting for initialisation words or in operation. The command byte with bit 4
  set starts the initialisation; the next three bytes on the data port are the vector offset, the
  cascade wiring and the mode; after that a byte on the data port is the interrupt mask. A write to
  the command port with bits 3 and 4 clear and bit 5 set ends the interrupt in service.
\<close>

datatype pic_phase = Want_ICW2 | Want_ICW3 | Want_ICW4 | Operating

record pic8259 =
  phase :: pic_phase
  voffset :: u8
  cascade :: u8
  mode :: u8
  imr :: u8
  eois :: nat

definition pic_command :: "u8 \<Rightarrow> pic8259 \<Rightarrow> pic8259" where
  "pic_command v p =
     (if v AND 0x10 \<noteq> 0 then p\<lparr>phase := Want_ICW2, imr := 0\<rparr>
      else if v AND 0x20 \<noteq> 0 then p\<lparr>eois := eois p + 1\<rparr> else p)"

definition pic_data :: "u8 \<Rightarrow> pic8259 \<Rightarrow> pic8259" where
  "pic_data v p =
     (case phase p of
        Want_ICW2 \<Rightarrow> p\<lparr>voffset := v, phase := Want_ICW3\<rparr>
      | Want_ICW3 \<Rightarrow> p\<lparr>cascade := v, phase := Want_ICW4\<rparr>
      | Want_ICW4 \<Rightarrow> p\<lparr>mode := v, phase := Operating\<rparr>
      | Operating \<Rightarrow> p\<lparr>imr := v\<rparr>)"

fun pic_event :: "u16 \<Rightarrow> io \<Rightarrow> pic8259 \<Rightarrow> pic8259" where
  "pic_event base (Out p v) s =
     (if p = base then pic_command v s else if p = base + 1 then pic_data v s else s)"
| "pic_event base _ s = s"

definition pic_after :: "u16 \<Rightarrow> pic8259 \<Rightarrow> trace \<Rightarrow> pic8259" where
  "pic_after base p tr = fold (pic_event base) tr p"

lemma pic_after_simps [simp]:
  "pic_after base p [] = p"
  "pic_after base p (tr @ es) = fold (pic_event base) es (pic_after base p tr)"
  by (simp_all add: pic_after_def)

text \<open>The data ports of the two controllers read back their masks.\<close>

definition pics_answer :: "devices \<Rightarrow> pic8259 \<Rightarrow> pic8259 \<Rightarrow> bool" where
  "pics_answer d p1 p2 \<longleftrightarrow>
     (\<forall>tr. port_read d tr PIC1_DATA = imr (pic_after PIC1_COMMAND p1 tr) \<and>
           port_read d tr PIC2_DATA = imr (pic_after PIC2_COMMAND p2 tr))"

lemma pic_event_ports [simp]:
  "pic_event PIC1_COMMAND (Out PIC1_COMMAND v) p = pic_command v p"
  "pic_event PIC1_COMMAND (Out PIC1_DATA v) p = pic_data v p"
  "pic_event PIC1_COMMAND (Out PIC2_COMMAND v) p = p"
  "pic_event PIC1_COMMAND (Out PIC2_DATA v) p = p"
  "pic_event PIC1_COMMAND (Out 0x80 v) p = p"
  "pic_event PIC2_COMMAND (Out PIC2_COMMAND v) p = pic_command v p"
  "pic_event PIC2_COMMAND (Out PIC2_DATA v) p = pic_data v p"
  "pic_event PIC2_COMMAND (Out PIC1_COMMAND v) p = p"
  "pic_event PIC2_COMMAND (Out PIC1_DATA v) p = p"
  "pic_event PIC2_COMMAND (Out 0x80 v) p = p"
  by (simp_all add: pic_ports)

declare pic_event.simps(1) [simp del]

lemma pic_init_each:
  assumes "pics_answer d p1 p2"
  shows "pic_after PIC1_COMMAND p1 (pic_init d tr) =
           (pic_after PIC1_COMMAND p1 tr)\<lparr>phase := Operating, voffset := 32, cascade := 4, mode := 1\<rparr>"
    and "pic_after PIC2_COMMAND p2 (pic_init d tr) =
           (pic_after PIC2_COMMAND p2 tr)\<lparr>phase := Operating, voffset := 40, cascade := 2, mode := 1\<rparr>"
proof -
  have m1: "port_read d tr PIC1_DATA = imr (pic_after PIC1_COMMAND p1 tr)" for tr
    using assms by (simp add: pics_answer_def)
  have m2: "port_read d tr PIC2_DATA = imr (pic_after PIC2_COMMAND p2 tr)" for tr
    using assms by (simp add: pics_answer_def)
  show "pic_after PIC1_COMMAND p1 (pic_init d tr) =
      (pic_after PIC1_COMMAND p1 tr)\<lparr>phase := Operating, voffset := 32, cascade := 4, mode := 1\<rparr>"
    unfolding pic_init_def io_defs Let_def prod.case m1
    by (simp add: pic_command_def pic_data_def pic_words)
  show "pic_after PIC2_COMMAND p2 (pic_init d tr) =
      (pic_after PIC2_COMMAND p2 tr)\<lparr>phase := Operating, voffset := 40, cascade := 2, mode := 1\<rparr>"
    unfolding pic_init_def io_defs Let_def prod.case m2
    by (simp add: pic_command_def pic_data_def pic_words)
qed

text \<open>
  C33. (functional) From any state of the two controllers \<^verbatim>\<open>pic_init\<close> leaves both in operation
  with the interrupts of the first at vectors 32 to 39 and of the second at 40 to 47, the cascade on
  line 2, in 8086 mode, and with the interrupt masks they had before.
\<close>

theorem pic_init_remaps:
  assumes "pics_answer d p1 p2"
  shows "pic_after PIC1_COMMAND p1 (pic_init d tr) =
           (pic_after PIC1_COMMAND p1 tr)\<lparr>phase := Operating, voffset := 32, cascade := 4, mode := 1\<rparr> \<and>
         pic_after PIC2_COMMAND p2 (pic_init d tr) =
           (pic_after PIC2_COMMAND p2 tr)\<lparr>phase := Operating, voffset := 40, cascade := 2, mode := 1\<rparr>"
  using pic_init_each [OF assms] by blast

text \<open>Controllers as the firmware leaves them, with some interrupts masked.\<close>

definition sample_pic :: "u8 \<Rightarrow> pic8259" where
  "sample_pic m = \<lparr>phase = Operating, voffset = 8, cascade = 0, mode = 0, imr = m, eois = 0\<rparr>"

definition sample_pics :: devices where
  "sample_pics =
     \<lparr>port_read = (\<lambda>tr p. if p = PIC1_DATA then imr (pic_after PIC1_COMMAND (sample_pic 0xB8) tr)
                          else imr (pic_after PIC2_COMMAND (sample_pic 0x8E) tr)),
      mmio_read = (\<lambda>tr a. 0)\<rparr>"

lemma sample_pics_answer: "pics_answer sample_pics (sample_pic 0xB8) (sample_pic 0x8E)"
  by (simp add: pics_answer_def sample_pics_def pic_ports)

theorem pic_init_remaps_witness:
  "pics_answer sample_pics (sample_pic 0xB8) (sample_pic 0x8E) \<and>
   pic_after PIC1_COMMAND (sample_pic 0xB8) (pic_init sample_pics []) =
     \<lparr>phase = Operating, voffset = 32, cascade = 4, mode = 1, imr = 0xB8, eois = 0\<rparr>"
  using pic_init_remaps [OF sample_pics_answer, of "[]"] sample_pics_answer
  by (simp add: sample_pic_def)

section \<open>Masks and end of interrupt\<close>

lemma pic_mask_bit:
  assumes "pics_answer d p1 p2" "phase (pic_after PIC1_COMMAND p1 tr) = Operating" "irq < 8"
  shows "imr (pic_after PIC1_COMMAND p1 (pic_mask d irq tr)) =
           set_bit (unat irq) (imr (pic_after PIC1_COMMAND p1 tr))"
    and "imr (pic_after PIC1_COMMAND p1 (pic_unmask d irq tr)) =
           unset_bit (unat irq) (imr (pic_after PIC1_COMMAND p1 tr))"
  using assms
  by (simp_all add: pics_answer_def pic_mask_def pic_unmask_def io_defs pic_data_def Let_def
      set_bit_eq_or unset_bit_eq_and_not)

text \<open>After \<^verbatim>\<open>pic_disable\<close> both controllers mask all their interrupts.\<close>

lemma pic_disable_masks:
  assumes "phase (pic_after PIC1_COMMAND p1 tr) = Operating" "phase (pic_after PIC2_COMMAND p2 tr) = Operating"
  shows "imr (pic_after PIC1_COMMAND p1 (pic_disable tr)) = 0xFF"
    and "imr (pic_after PIC2_COMMAND p2 (pic_disable tr)) = 0xFF"
proof -
  have other: "pic_event PIC1_COMMAND (Out 0x22 v) p = p" "pic_event PIC1_COMMAND (Out 0x23 v) p = p"
    "pic_event PIC2_COMMAND (Out 0x22 v) p = p" "pic_event PIC2_COMMAND (Out 0x23 v) p = p" for v p
    by (simp_all add: pic_event.simps(1) pic_ports)
  show "imr (pic_after PIC1_COMMAND p1 (pic_disable tr)) = 0xFF"
    "imr (pic_after PIC2_COMMAND p2 (pic_disable tr)) = 0xFF"
    using assms by (simp_all add: pic_disable_def io_defs pic_data_def other)
qed

lemma pic_sendEOI_acknowledges:
  "eois (pic_after PIC1_COMMAND p1 (pic_sendEOI irq tr)) = eois (pic_after PIC1_COMMAND p1 tr) + 1"
  "eois (pic_after PIC2_COMMAND p2 (pic_sendEOI irq tr)) =
     eois (pic_after PIC2_COMMAND p2 tr) + (if 8 \<le> irq then 1 else 0)"
  by (simp_all add: pic_sendEOI_def io_defs pic_command_def pic_words Let_def)

end
