(* ===== verification/Descriptors.thy ===== *)
theory Descriptors
  imports Pic
begin

text \<open>
  The descriptor tables of the processor, \<^verbatim>\<open>arch/x86_64/gdt.c\<close> \<^verbatim>\<open>arch/x86_64/gdt.asm\<close> and \<^verbatim>\<open>arch/x86_64/idt.c\<close>: the segment
  descriptors with the task state segment, and the interrupt gates. The properties read the entries
  the way the processor does, by reassembling addresses that the code stores in pieces.
\<close>

section \<open>Segment descriptors\<close>

record gdt_entry =
  limit_low :: u16
  base_low :: u16
  base_mid :: u8
  access :: u8
  granularity :: u8
  base_high :: u8

text \<open>\<^verbatim>\<open>struct tss_entry\<close>, 104 bytes; \<^verbatim>\<open>reserved\<close> fields are never touched and stay zero.\<close>

record tss_entry =
  rsp0 :: u64
  rsp1 :: u64
  rsp2 :: u64
  ist_stacks :: "u64 list"
  iopb_offset :: u16

definition sizeof_tss :: u32 where
  "sizeof_tss = 4 + 3 * 8 + 8 + 7 * 8 + 4 + 4 + 2 + 2"

record gdtr =
  gdtr_limit :: u16
  gdtr_base :: u64

definition GDT_PRESENT :: u8 where "GDT_PRESENT = 0x80"
definition GDT_KERNEL :: u8 where "GDT_KERNEL = 0x00"
definition GDT_USER :: u8 where "GDT_USER = 0x60"
definition GDT_S :: u8 where "GDT_S = 0x10"
definition GDT_EX :: u8 where "GDT_EX = 0x08"
definition GDT_RW :: u8 where "GDT_RW = 0x02"
definition GDT_CODE :: u8 where "GDT_CODE = GDT_S OR GDT_EX"
definition GDT_DATA :: u8 where "GDT_DATA = GDT_S OR GDT_RW"
definition GDT_GRANULARITY :: u8 where "GDT_GRANULARITY = 0x80"
definition GDT_LONGMODE :: u8 where "GDT_LONGMODE = 0x20"

lemmas gdt_bits = GDT_PRESENT_def GDT_KERNEL_def GDT_USER_def GDT_S_def GDT_EX_def GDT_RW_def
  GDT_CODE_def GDT_DATA_def GDT_GRANULARITY_def GDT_LONGMODE_def

text \<open>
  The static objects of \<^verbatim>\<open>gdt.c\<close> and the registers of the processor that \<^verbatim>\<open>gdt_load\<close> and \<^verbatim>\<open>ltr\<close>
  set; \<open>data_sels\<close> holds \<^verbatim>\<open>ds\<close>, \<^verbatim>\<open>es\<close>, \<^verbatim>\<open>fs\<close>, \<^verbatim>\<open>gs\<close> and \<^verbatim>\<open>ss\<close>. \<open>gdt_addr\<close> and \<open>tss_addr\<close> are the addresses the linker gives to \<^verbatim>\<open>gdt\<close> and \<^verbatim>\<open>tss\<close>.
\<close>

record segments =
  gdt :: "gdt_entry list"
  gdt_addr :: u64
  tss :: tss_entry
  tss_addr :: u64
  gdtr_reg :: gdtr
  task_reg :: u16
  code_sel :: u16
  data_sels :: "u16 list"

definition zero_entry :: gdt_entry where
  "zero_entry = \<lparr>limit_low = 0, base_low = 0, base_mid = 0, access = 0, granularity = 0, base_high = 0\<rparr>"

definition gdt_set_entry :: "nat \<Rightarrow> u8 \<Rightarrow> u8 \<Rightarrow> segments \<Rightarrow> segments option" where
  "gdt_set_entry i acc gran s =
     (if i < length (gdt s) then
        Some (s\<lparr>gdt := (gdt s)[i := \<lparr>limit_low = 0xFFFF, base_low = 0, base_mid = 0, access = acc,
                                    granularity = gran, base_high = 0\<rparr>]\<rparr>)
      else None)"

text \<open>
  The upper half of the task state descriptor takes the place of entry 6: its first four bytes are
  bits 32 to 63 of the address, which fall on \<^verbatim>\<open>limit_low\<close> and \<^verbatim>\<open>base_low\<close>; the other four are zero.
\<close>

definition tss_upper :: "u32 \<Rightarrow> gdt_entry" where
  "tss_upper v = zero_entry\<lparr>limit_low := ucast v, base_low := ucast (drop_bit 16 v)\<rparr>"

text \<open>
  How the processor reads a descriptor: the address and the limit of a segment, the limit counted in pages when the granularity bit
  is set, the 64-bit address of a 16-byte system descriptor, and the attributes of a segment.
\<close>

definition segment_base :: "gdt_entry \<Rightarrow> u32" where
  "segment_base e = ucast (base_low e) OR push_bit 16 (ucast (base_mid e)) OR push_bit 24 (ucast (base_high e))"

definition system_base :: "gdt_entry \<Rightarrow> gdt_entry \<Rightarrow> u64" where
  "system_base lo hi =
     ucast (base_low lo) OR push_bit 16 (ucast (base_mid lo)) OR push_bit 24 (ucast (base_high lo)) OR
     push_bit 32 (ucast (limit_low hi)) OR push_bit 48 (ucast (base_low hi))"

definition system_limit :: "gdt_entry \<Rightarrow> u32" where
  "system_limit lo = ucast (limit_low lo) OR push_bit 16 (ucast (granularity lo AND 0x0F))"

definition segment_limit :: "gdt_entry \<Rightarrow> nat" where
  "segment_limit e =
     (if granularity e AND 0x80 = 0 then unat (system_limit e) else unat (system_limit e) * 4096 + 4095)"

definition dpl :: "gdt_entry \<Rightarrow> nat" where
  "dpl e = unat (drop_bit 5 (access e) AND 3)"

definition long_code :: "gdt_entry \<Rightarrow> bool" where
  "long_code e \<longleftrightarrow> access e AND 0x98 = 0x98 \<and> granularity e AND 0x60 = 0x20"

definition writable_data :: "gdt_entry \<Rightarrow> bool" where
  "writable_data e \<longleftrightarrow> access e AND 0x9A = 0x92"

text \<open>
  \<^verbatim>\<open>gdt_load\<close>: the table register, then the code segment by a far return, then the data segments. Loading a selector reads its
  descriptor from the table; a selector outside the table, or of a segment of the wrong kind, faults.
\<close>

definition descriptor :: "u16 \<Rightarrow> segments \<Rightarrow> gdt_entry option" where
  "descriptor sel s =
     (let i = unat (drop_bit 3 sel)
      in if gdtr_base (gdtr_reg s) = gdt_addr s \<and> 8 * i + 7 \<le> unat (gdtr_limit (gdtr_reg s)) \<and> i < length (gdt s)
         then Some (gdt s ! i) else None)"

definition load_cs :: "u16 \<Rightarrow> segments \<Rightarrow> segments option" where
  "load_cs sel s = do { e \<leftarrow> descriptor sel s; if long_code e then Some (s\<lparr>code_sel := sel\<rparr>) else None }"

definition load_data :: "nat \<Rightarrow> u16 \<Rightarrow> segments \<Rightarrow> segments option" where
  "load_data i sel s = do {
     e \<leftarrow> descriptor sel s;
     if writable_data e then Some (s\<lparr>data_sels := (data_sels s)[i := sel]\<rparr>) else None }"

definition gdt_load :: "gdtr \<Rightarrow> segments \<Rightarrow> segments option" where
  "gdt_load ptr s = do {
     let s = s\<lparr>gdtr_reg := ptr\<rparr>;
     s \<leftarrow> load_cs 0x08 s;
     s \<leftarrow> load_data 0 0x10 s;
     s \<leftarrow> load_data 1 0x10 s;
     s \<leftarrow> load_data 2 0x10 s;
     s \<leftarrow> load_data 3 0x10 s;
     load_data 4 0x10 s }"

text \<open>
  \<^verbatim>\<open>ltr\<close>: the selector must name a descriptor of 16 bytes within the table that is an available 64-bit task state segment and
  present; otherwise the instruction faults. The processor marks the descriptor busy in the table.
\<close>

definition load_tr :: "u16 \<Rightarrow> segments \<Rightarrow> segments option" where
  "load_tr sel s = do {
     lo \<leftarrow> descriptor sel s;
     hi \<leftarrow> descriptor (sel + 8) s;
     if access lo AND 0x9F = 0x89 \<and> access hi AND 0x1F = 0 then
       Some (s\<lparr>gdt := (gdt s)[unat (drop_bit 3 sel) := lo\<lparr>access := access lo OR 0x02\<rparr>], task_reg := sel\<rparr>)
     else None }"

definition gdt_init :: "segments \<Rightarrow> segments option" where
  "gdt_init s = do {
     s \<leftarrow> gdt_set_entry 0 0x00 0x00 s;
     s \<leftarrow> gdt_set_entry 1 (GDT_PRESENT OR GDT_KERNEL OR GDT_CODE) (GDT_GRANULARITY OR GDT_LONGMODE) s;
     s \<leftarrow> gdt_set_entry 2 (GDT_PRESENT OR GDT_KERNEL OR GDT_DATA) 0x00 s;
     s \<leftarrow> gdt_set_entry 3 (GDT_PRESENT OR GDT_USER OR GDT_CODE) (GDT_GRANULARITY OR GDT_LONGMODE) s;
     s \<leftarrow> gdt_set_entry 4 (GDT_PRESENT OR GDT_USER OR GDT_DATA) 0x00 s;
     let tss_base = tss_addr s;
         tss_limit = sizeof_tss - 1;
         low = \<lparr>limit_low = ucast (tss_limit AND 0xFFFF),
                base_low = ucast (tss_base AND 0xFFFF),
                base_mid = ucast (drop_bit 16 tss_base AND 0xFF),
                access = 0x89,
                granularity = ucast (drop_bit 16 tss_limit AND 0x0F),
                base_high = ucast (drop_bit 24 tss_base AND 0xFF)\<rparr>;
         up = tss_upper (ucast (drop_bit 32 tss_base));
         ptr = \<lparr>gdtr_limit = of_nat (8 * length (gdt s)) - 1, gdtr_base = gdt_addr s\<rparr>;
         s = s\<lparr>gdt := (gdt s)[5 := low, 6 := up]\<rparr>
     in if 6 < length (gdt s) then do { s \<leftarrow> gdt_load ptr s; load_tr 0x28 s } else None }"

definition gdt_update_tss_rsp :: "u64 \<Rightarrow> segments \<Rightarrow> segments" where
  "gdt_update_tss_rsp rsp s = s\<lparr>tss := (tss s)\<lparr>rsp0 := rsp\<rparr>\<rparr>"

text \<open>An address cut into pieces and put together again.\<close>

lemma take_bit_join: "take_bit n a OR push_bit n (take_bit m (drop_bit n a)) = take_bit (n + m) (a :: u64)"
  by (rule bit_word_eqI) (auto simp: bit_simps)

lemma take_bit_join3:
  "take_bit n a OR (push_bit n (take_bit m (drop_bit n a)) OR b) = take_bit (n + m) (a :: u64) OR b"
  by (simp flip: or.assoc add: take_bit_join)

lemma ucast_u16_u64: "ucast (ucast (w :: u64) :: u16) = take_bit 16 w"
  by (rule bit_word_eqI) (auto simp: bit_simps)

lemma ucast_u8_u64: "ucast (ucast (w :: u64) :: u8) = take_bit 8 w"
  by (rule bit_word_eqI) (auto simp: bit_simps)

lemma ucast_u32_u64: "ucast (ucast (w :: u64) :: u32) = take_bit 32 w"
  by (rule bit_word_eqI) (auto simp: bit_simps)

lemma ucast_u32_u16_u64: "ucast (ucast (ucast (w :: u64) :: u32) :: u16) = take_bit 16 w"
  by (rule bit_word_eqI) (auto simp: bit_simps)

lemma ucast_drop_u32_u16_u64:
  "ucast (ucast (drop_bit 16 (ucast (w :: u64) :: u32)) :: u16) = take_bit 16 (drop_bit 16 w)"
  by (rule bit_word_eqI) (auto simp: bit_simps)

lemma and_byte_masks:
  "(w :: u64) AND 0xFFFFFFFF = take_bit 32 w" "w AND 0xFFFF = take_bit 16 w" "w AND 0xFF = take_bit 8 w"
  by (simp_all add: take_bit_eq_mask mask_eq_exp_minus_1)

lemmas ucast_pieces = ucast_u16_u64 ucast_u8_u64 ucast_u32_u64 ucast_u32_u16_u64
  ucast_drop_u32_u16_u64 and_byte_masks

definition zero_tss :: tss_entry where
  "zero_tss = \<lparr>rsp0 = 0, rsp1 = 0, rsp2 = 0, ist_stacks = replicate 7 0, iopb_offset = 0\<rparr>"

lemma list5: "length xs = 5 \<Longrightarrow> xs[0 := a, Suc 0 := b, 2 := c, 3 := d, 4 := e] = [a, b, c, d, e]"
  by (intro nth_equalityI) (auto simp: less_Suc_eq numeral_eq_Suc)

lemma gdt_load_flat:
  assumes "gdtr_base ptr = gdt_addr s" "23 \<le> unat (gdtr_limit ptr)" "3 \<le> length (gdt s)" "long_code (gdt s ! 1)"
    "writable_data (gdt s ! 2)" "length (data_sels s) = 5"
  shows "gdt_load ptr s = Some (s\<lparr>gdtr_reg := ptr, code_sel := 0x08, data_sels := replicate 5 0x10\<rparr>)"
  using assms by (simp add: gdt_load_def load_cs_def load_data_def descriptor_def list5) (simp add: numeral_eq_Suc)

lemma gdt_init_spec:
  assumes "length (gdt s) = 7" "length (data_sels s) = 5"
  shows "\<exists>s'. gdt_init s = Some s' \<and>
           length (gdt s') = 7 \<and> access (gdt s' ! 0) = 0 \<and>
           long_code (gdt s' ! 1) \<and> dpl (gdt s' ! 1) = 0 \<and> segment_base (gdt s' ! 1) = 0 \<and> segment_limit (gdt s' ! 1) = 0x0FFFFFFF \<and>
           writable_data (gdt s' ! 2) \<and> dpl (gdt s' ! 2) = 0 \<and> segment_base (gdt s' ! 2) = 0 \<and> segment_limit (gdt s' ! 2) = 0xFFFF \<and>
           long_code (gdt s' ! 3) \<and> dpl (gdt s' ! 3) = 3 \<and> segment_base (gdt s' ! 3) = 0 \<and> segment_limit (gdt s' ! 3) = 0x0FFFFFFF \<and>
           writable_data (gdt s' ! 4) \<and> dpl (gdt s' ! 4) = 3 \<and> segment_base (gdt s' ! 4) = 0 \<and> segment_limit (gdt s' ! 4) = 0xFFFF \<and>
           system_base (gdt s' ! 5) (gdt s' ! 6) = tss_addr s \<and> segment_limit (gdt s' ! 5) = 103 \<and> access (gdt s' ! 5) = 0x8B \<and>
           gdtr_reg s' = \<lparr>gdtr_limit = 55, gdtr_base = gdt_addr s\<rparr> \<and> task_reg s' = 0x28 \<and>
           code_sel s' = 0x08 \<and> data_sels s' = replicate 5 0x10 \<and> tss s' = tss s"
proof -
  have base: "system_base
      \<lparr>limit_low = l, base_low = ucast (a AND 0xFFFF), base_mid = ucast (drop_bit 16 a AND 0xFF), access = c,
       granularity = g, base_high = ucast (drop_bit 24 a AND 0xFF)\<rparr>
      (tss_upper (ucast (drop_bit 32 a))) = a" for a :: u64 and l :: u16 and c g :: u8
    by (simp add: system_base_def tss_upper_def ucast_pieces take_bit_join3 take_bit_join or.assoc
        take_bit_word_eq_self)
  show ?thesis
    using assms base [of _ "tss_addr s"]
    by (simp add: gdt_init_def gdt_set_entry_def sizeof_tss_def Let_def gdt_bits gdt_load_flat load_tr_def descriptor_def
        tss_upper_def zero_entry_def long_code_def writable_data_def dpl_def system_limit_def segment_limit_def segment_base_def)
qed

text \<open>
  C34. (functional) \<^verbatim>\<open>gdt_init\<close> fills a table of seven entries: a null descriptor; at selector 0x08 64-bit code and at
  0x10 writable data of ring 0, and at 0x18 and 0x20 the same for ring 3 (so 0x1B, which the
  scheduler tests for, is user code), all four with base 0, the code segments with the limit 0x0FFFFFFF and the data
  segments with the limit 0xFFFF (which 64-bit mode ignores); and at 0x28 a 64-bit task state descriptor, which gives back the address and
  the size of the task state segment. The processor is told the address and size of the table, loads its segment registers
  from it without a fault, and takes the task state segment, whose descriptor becomes busy.
\<close>

theorem gdt_init_descriptors:
  assumes "length (gdt s) = 7" "length (data_sels s) = 5"
  shows "\<exists>s'. gdt_init s = Some s' \<and>
           length (gdt s') = 7 \<and> access (gdt s' ! 0) = 0 \<and>
           long_code (gdt s' ! 1) \<and> dpl (gdt s' ! 1) = 0 \<and> segment_base (gdt s' ! 1) = 0 \<and> segment_limit (gdt s' ! 1) = 0x0FFFFFFF \<and>
           writable_data (gdt s' ! 2) \<and> dpl (gdt s' ! 2) = 0 \<and> segment_base (gdt s' ! 2) = 0 \<and> segment_limit (gdt s' ! 2) = 0xFFFF \<and>
           long_code (gdt s' ! 3) \<and> dpl (gdt s' ! 3) = 3 \<and> segment_base (gdt s' ! 3) = 0 \<and> segment_limit (gdt s' ! 3) = 0x0FFFFFFF \<and>
           writable_data (gdt s' ! 4) \<and> dpl (gdt s' ! 4) = 3 \<and> segment_base (gdt s' ! 4) = 0 \<and> segment_limit (gdt s' ! 4) = 0xFFFF \<and>
           system_base (gdt s' ! 5) (gdt s' ! 6) = tss_addr s \<and> segment_limit (gdt s' ! 5) = 103 \<and> access (gdt s' ! 5) = 0x8B \<and>
           gdtr_reg s' = \<lparr>gdtr_limit = 55, gdtr_base = gdt_addr s\<rparr> \<and> task_reg s' = 0x28 \<and>
           code_sel s' = 0x08 \<and> data_sels s' = replicate 5 0x10 \<and> tss s' = tss s"
  using assms by (rule gdt_init_spec)

definition sample_segments :: segments where
  "sample_segments =
     \<lparr>gdt = replicate 7 zero_entry, gdt_addr = 0xffffffff80010000, tss = zero_tss,
      tss_addr = 0xffffffff80010040, gdtr_reg = \<lparr>gdtr_limit = 0, gdtr_base = 0\<rparr>, task_reg = 0,
      code_sel = 0x28, data_sels = replicate 5 0x30\<rparr>"

theorem gdt_init_descriptors_witness:
  "length (gdt sample_segments) = 7 \<and>
   (\<exists>s'. gdt_init sample_segments = Some s' \<and> system_base (gdt s' ! 5) (gdt s' ! 6) = 0xffffffff80010040 \<and>
      access (gdt s' ! 5) = 0x8B \<and> segment_base (gdt s' ! 1) = 0 \<and> segment_limit (gdt s' ! 2) = 0xFFFF)"
proof -
  have len: "length (gdt sample_segments) = 7" "length (data_sels sample_segments) = 5" by (simp_all add: sample_segments_def)
  show ?thesis using gdt_init_descriptors [OF len] len by (auto simp: sample_segments_def)
qed

section \<open>Interrupt gates\<close>

record idt_entry =
  isr_low :: u16
  kernel_cs :: u16
  ist :: u8
  attributes :: u8
  isr_mid :: u16
  isr_high :: u32
  reserved :: u32

definition IDT_SIZE :: nat where "IDT_SIZE = 256"

record idtr =
  idtr_limit :: u16
  idtr_base :: u64

text \<open>
  The table, its address, and the register that \<^verbatim>\<open>lidt\<close> loads. The stub tables come from
  \<^verbatim>\<open>isr.asm\<close>: \<open>isr_stub_table\<close> and \<open>irq_stub_table\<close> are the addresses of the stubs.
\<close>

record gates =
  idt :: "idt_entry list"
  idt_addr :: u64
  idtr_reg :: idtr

definition idt_set_entry :: "u8 \<Rightarrow> u64 \<Rightarrow> u8 \<Rightarrow> gates \<Rightarrow> gates option" where
  "idt_set_entry vector handler flags s =
     (let addr = handler in
      if unat vector < length (idt s) then
        Some (s\<lparr>idt := (idt s)[unat vector :=
          \<lparr>isr_low = ucast (addr AND 0xFFFF), kernel_cs = 0x08, ist = 0, attributes = flags,
           isr_mid = ucast (drop_bit 16 addr AND 0xFFFF),
           isr_high = ucast (drop_bit 32 addr AND 0xFFFFFFFF), reserved = 0\<rparr>]\<rparr>)
      else None)"

text \<open>The loop \<^verbatim>\<open>for (uint8_t i = 0; i < n; i++)\<close> over one of the stub tables, from \<open>i\<close> on.\<close>

function idt_fill :: "u8 \<Rightarrow> u8 \<Rightarrow> u64 list \<Rightarrow> u8 \<Rightarrow> gates \<Rightarrow> gates option" where
  "idt_fill base n stubs i s =
     (if i < n then
        if unat i < length stubs then
          do { s \<leftarrow> idt_set_entry (base + i) (stubs ! unat i) 0x8E s; idt_fill base n stubs (i + 1) s }
        else None
      else Some s)"
  by pat_completeness auto
termination
proof (relation "measure (\<lambda>(base, n, stubs, i, s). unat n - unat i)")
  fix n i base :: u8 and stubs and s s' :: gates
  assume "i < n"
  then have "unat (i + 1) = Suc (unat i)" "unat i < unat n"
    by (simp_all add: unat_succ_u8) (simp add: word_less_nat_alt)
  then show "((base, n, stubs, i + 1, s'), base, n, stubs, i, s)
      \<in> measure (\<lambda>(base, n, stubs, i, s). unat n - unat i)"
    by simp
qed simp

declare idt_fill.simps [simp del]

definition idt_init :: "devices \<Rightarrow> u64 list \<Rightarrow> u64 list \<Rightarrow> trace \<Rightarrow> gates \<Rightarrow> (trace \<times> gates) option" where
  "idt_init d isr_stub_table irq_stub_table tr s = do {
     let s_ptr = \<lparr>idtr_limit = of_nat (16 * length (idt s)) - 1, idtr_base = idt_addr s\<rparr>;
     s \<leftarrow> idt_fill 0 32 isr_stub_table 0 s;
     let tr = pic_init d tr;
     s \<leftarrow> idt_fill 32 16 irq_stub_table 0 s;
     Some (tr, s\<lparr>idtr_reg := s_ptr\<rparr>) }"

text \<open>How the processor reads a gate.\<close>

definition gate_target :: "idt_entry \<Rightarrow> u64" where
  "gate_target e = ucast (isr_low e) OR push_bit 16 (ucast (isr_mid e)) OR push_bit 32 (ucast (isr_high e))"

definition interrupt_gate :: "u64 \<Rightarrow> idt_entry \<Rightarrow> bool" where
  "interrupt_gate a e \<longleftrightarrow> gate_target e = a \<and> kernel_cs e = 0x08 \<and> ist e = 0 \<and> attributes e = 0x8E"

lemma idt_set_entry_gate:
  assumes "length (idt s) = IDT_SIZE"
  shows "\<exists>e. idt_set_entry v a 0x8E s = Some (s\<lparr>idt := (idt s)[unat v := e]\<rparr>) \<and> interrupt_gate a e"
proof -
  have "unat v < length (idt s)" using unsigned_less [of v] assms by (simp add: IDT_SIZE_def)
  moreover have "interrupt_gate a
      \<lparr>isr_low = ucast (a AND 0xFFFF), kernel_cs = 0x08, ist = 0, attributes = 0x8E,
       isr_mid = ucast (drop_bit 16 a AND 0xFFFF), isr_high = ucast (drop_bit 32 a AND 0xFFFFFFFF), reserved = 0\<rparr>"
    by (simp add: interrupt_gate_def gate_target_def ucast_pieces take_bit_join3 take_bit_join or.assoc
        take_bit_word_eq_self)
  ultimately show ?thesis unfolding idt_set_entry_def Let_def by auto
qed

text \<open>The gates \<open>base + i\<close> to \<open>base + n - 1\<close> are filled and no other entry changes.\<close>

lemma idt_fill_gates:
  assumes "i \<le> n" "unat base + unat n \<le> 256" "unat n \<le> length stubs" "length (idt s) = IDT_SIZE"
  shows "\<exists>es. idt_fill base n stubs i s = Some (s\<lparr>idt := es\<rparr>) \<and> length es = IDT_SIZE \<and>
           (\<forall>k < 256. if unat base + unat i \<le> k \<and> k < unat base + unat n
              then interrupt_gate (stubs ! (k - unat base)) (es ! k) else es ! k = idt s ! k)"
  using assms
proof (induction base n stubs i s rule: idt_fill.induct)
  case (1 base n stubs i s)
  show ?case
  proof (cases "i < n")
    case False
    then have "i = n" using "1.prems"(1) by simp
    then have "idt_fill base n stubs i s = Some (s\<lparr>idt := idt s\<rparr>)"
      by (simp add: idt_fill.simps [of base n stubs n s])
    then show ?thesis using "1.prems"(4) \<open>i = n\<close> by (intro exI [of _ "idt s"]) auto
  next
    case True
    have un: "unat (i + 1) = Suc (unat i)" and lt: "unat i < unat n"
      using True unat_succ_u8 [OF True] by (simp_all add: word_less_nat_alt)
    then have le: "i + 1 \<le> n" by (simp add: word_le_nat_alt)
    have ub: "unat (base + i) = unat base + unat i"
      using "1.prems"(2) lt by (simp add: unat_word_ariths)
    obtain e where e: "idt_set_entry (base + i) (stubs ! unat i) 0x8E s =
        Some (s\<lparr>idt := (idt s)[unat base + unat i := e]\<rparr>)" "interrupt_gate (stubs ! unat i) e"
      using idt_set_entry_gate [OF "1.prems"(4), of "base + i" "stubs ! unat i"] unfolding ub by blast
    let ?s = "s\<lparr>idt := (idt s)[unat base + unat i := e]\<rparr>"
    have len: "unat i < length stubs" using lt "1.prems"(3) by linarith
    have "length (idt ?s) = IDT_SIZE" using "1.prems"(4) by simp
    then obtain es where es: "idt_fill base n stubs (i + 1) ?s = Some (?s\<lparr>idt := es\<rparr>)" "length es = IDT_SIZE"
      and gates: "\<forall>k < 256. if unat base + unat (i + 1) \<le> k \<and> k < unat base + unat n
        then interrupt_gate (stubs ! (k - unat base)) (es ! k) else es ! k = idt ?s ! k"
      using "1.IH" [OF True len e(1) le "1.prems"(2,3)] by blast
    have "if unat base + unat i \<le> k \<and> k < unat base + unat n
        then interrupt_gate (stubs ! (k - unat base)) (es ! k) else es ! k = idt s ! k" if "k < 256" for k
      using gates that e(2) lt "1.prems"(2,4) unfolding un
      by (cases "k = unat base + unat i") (auto simp: IDT_SIZE_def split: if_splits)
    moreover have "idt_fill base n stubs i s = Some (s\<lparr>idt := es\<rparr>)"
      using True len e(1) es(1) by (simp add: idt_fill.simps [of base n stubs i s])
    ultimately show ?thesis using es(2) by blast
  qed
qed

lemma idt_init_spec:
  assumes "length (idt s) = 256" "length isrs = 32" "length irqs = 16"
  shows "\<exists>s'. idt_init d isrs irqs tr s = Some (pic_init d tr, s') \<and>
           (\<forall>k < 32. interrupt_gate (isrs ! k) (idt s' ! k)) \<and>
           (\<forall>k < 16. interrupt_gate (irqs ! k) (idt s' ! (32 + k))) \<and>
           (\<forall>k < 256. 48 \<le> k \<longrightarrow> idt s' ! k = idt s ! k) \<and>
           idtr_reg s' = \<lparr>idtr_limit = 4095, idtr_base = idt_addr s\<rparr>"
proof -
  obtain es where es: "idt_fill 0 32 isrs 0 s = Some (s\<lparr>idt := es\<rparr>)" "length es = IDT_SIZE"
    and first: "\<forall>k < 256. if unat (0 :: u8) + unat (0 :: u8) \<le> k \<and> k < unat (0 :: u8) + unat (32 :: u8)
       then interrupt_gate (isrs ! (k - unat (0 :: u8))) (es ! k) else es ! k = idt s ! k"
    using idt_fill_gates [of 0 32 0 isrs s] assms by (auto simp: IDT_SIZE_def)
  have pre: "(0 :: u8) \<le> 16" "unat (32 :: u8) + unat (16 :: u8) \<le> 256" "unat (16 :: u8) \<le> length irqs"
    "length (idt (s\<lparr>idt := es\<rparr>)) = IDT_SIZE"
    using assms(3) es(2) by simp_all
  obtain fs where fs': "idt_fill 32 16 irqs 0 (s\<lparr>idt := es\<rparr>) = Some (s\<lparr>idt := es, idt := fs\<rparr>)"
    and second: "\<forall>k < 256. if unat (32 :: u8) + unat (0 :: u8) \<le> k \<and> k < unat (32 :: u8) + unat (16 :: u8)
       then interrupt_gate (irqs ! (k - unat (32 :: u8))) (fs ! k) else fs ! k = idt (s\<lparr>idt := es\<rparr>) ! k"
    using idt_fill_gates [OF pre] by blast
  have fs: "idt_fill 32 16 irqs 0 (s\<lparr>idt := es\<rparr>) = Some (s\<lparr>idt := fs\<rparr>)" using fs' by simp
  have "interrupt_gate (irqs ! k) (fs ! (32 + k))" if "k < 16" for k
    using second [rule_format, of "32 + k"] that by simp
  moreover have "interrupt_gate (isrs ! k) (fs ! k)" if "k < 32" for k
    using first [rule_format, of k] second [rule_format, of k] that by simp
  moreover have "fs ! k = idt s ! k" if "k < 256" "48 \<le> k" for k
    using first [rule_format, of k] second [rule_format, of k] that by simp
  ultimately show ?thesis using es(1) fs assms(1) by (simp add: idt_init_def Let_def)
qed

text \<open>
  C35. (roundtrip) After \<^verbatim>\<open>idt_init\<close> the gate of each of the vectors 0 to 31 leads to its exception
  stub and of 32 to 47 to its interrupt stub (the address survives being stored in three
  pieces), each an interrupt gate through the kernel code segment; the other entries are as before, the
  processor is told the address and size of the table, and the interrupt controllers were set
  up on the way.
\<close>

theorem idt_init_gates:
  assumes "length (idt s) = 256" "length isrs = 32" "length irqs = 16"
  shows "\<exists>s'. idt_init d isrs irqs tr s = Some (pic_init d tr, s') \<and>
           (\<forall>k < 32. interrupt_gate (isrs ! k) (idt s' ! k)) \<and>
           (\<forall>k < 16. interrupt_gate (irqs ! k) (idt s' ! (32 + k))) \<and>
           (\<forall>k < 256. 48 \<le> k \<longrightarrow> idt s' ! k = idt s ! k) \<and>
           idtr_reg s' = \<lparr>idtr_limit = 4095, idtr_base = idt_addr s\<rparr>"
  using assms by (rule idt_init_spec)

definition sample_gates :: gates where
  "sample_gates =
     \<lparr>idt = replicate 256 \<lparr>isr_low = 0, kernel_cs = 0, ist = 0, attributes = 0, isr_mid = 0, isr_high = 0, reserved = 0\<rparr>,
      idt_addr = 0xffffffff80020000, idtr_reg = \<lparr>idtr_limit = 0, idtr_base = 0\<rparr>\<rparr>"

theorem idt_init_gates_witness:
  "\<exists>s'. idt_init sample_pics (replicate 32 0xffffffff80001000) (replicate 16 0xffffffff80002000) [] sample_gates
      = Some (pic_init sample_pics [], s') \<and>
    interrupt_gate 0xffffffff80001000 (idt s' ! 14) \<and> interrupt_gate 0xffffffff80002000 (idt s' ! 33)"
proof -
  have "length (idt sample_gates) = 256" by (simp add: sample_gates_def)
  then obtain s' where s': "idt_init sample_pics (replicate 32 0xffffffff80001000) (replicate 16 0xffffffff80002000)
      [] sample_gates = Some (pic_init sample_pics [], s')"
    "\<forall>k < 32. interrupt_gate (replicate 32 0xffffffff80001000 ! k) (idt s' ! k)"
    "\<forall>k < 16. interrupt_gate (replicate 16 0xffffffff80002000 ! k) (idt s' ! (32 + k))"
    using idt_init_gates [of sample_gates "replicate 32 0xffffffff80001000" "replicate 16 0xffffffff80002000" sample_pics "[]"]
    by auto
  have "interrupt_gate 0xffffffff80001000 (idt s' ! 14)" using s'(2) [rule_format, of 14] by simp
  moreover have "interrupt_gate 0xffffffff80002000 (idt s' ! 33)" using s'(3) [rule_format, of 1] by simp
  ultimately show ?thesis using s'(1) by blast
qed

end
