(* ===== verification/Apic.thy ===== *)
theory Apic
  imports Acpi Descriptors
begin

text \<open>
  The interrupt controllers of the processor and the chipset and the timer:
  \<^verbatim>\<open>arch/x86_64/apic/lapic.c\<close>, \<^verbatim>\<open>ioapic.c\<close> and \<^verbatim>\<open>lapic_timer.c\<close>. Registers are memory-mapped; the drivers
  extend the trace of the theory \<open>Io\<close>. The I/O APIC is judged by the redirection table that its
  index and window registers build up, the timer by the values it is programmed with.
\<close>

section \<open>Local APIC\<close>

definition LAPIC_ID :: u32 where "LAPIC_ID = 0x020"
definition LAPIC_VERSION :: u32 where "LAPIC_VERSION = 0x030"
definition LAPIC_TPR :: u32 where "LAPIC_TPR = 0x080"
definition LAPIC_EOI :: u32 where "LAPIC_EOI = 0x0B0"
definition LAPIC_SVR :: u32 where "LAPIC_SVR = 0x0F0"
definition LAPIC_TIMER :: u32 where "LAPIC_TIMER = 0x320"
definition LAPIC_TIMER_INIT :: u32 where "LAPIC_TIMER_INIT = 0x380"
definition LAPIC_TIMER_CURR :: u32 where "LAPIC_TIMER_CURR = 0x390"
definition LAPIC_TIMER_DIV :: u32 where "LAPIC_TIMER_DIV = 0x3E0"
definition LAPIC_SVR_ENABLE :: u32 where "LAPIC_SVR_ENABLE = 0x100"
definition LAPIC_TIMER_PERIODIC :: u32 where "LAPIC_TIMER_PERIODIC = 0x20000"
definition LAPIC_TIMER_MASKED :: u32 where "LAPIC_TIMER_MASKED = 0x10000"

lemmas lapic_regs = LAPIC_ID_def LAPIC_VERSION_def LAPIC_TPR_def LAPIC_EOI_def LAPIC_SVR_def
  LAPIC_TIMER_def LAPIC_TIMER_INIT_def LAPIC_TIMER_CURR_def LAPIC_TIMER_DIV_def LAPIC_SVR_ENABLE_def
  LAPIC_TIMER_PERIODIC_def LAPIC_TIMER_MASKED_def

record apic = acpi +
  io_trace :: trace
  lapic_base :: u64
  ioapic_base :: u64
  lapic_freq :: u64

abbreviation io :: "(trace \<Rightarrow> trace) \<Rightarrow> 'a apic_scheme \<Rightarrow> 'a apic_scheme" where
  "io f s \<equiv> s\<lparr>io_trace := f (io_trace s)\<rparr>"

definition io_in :: "(trace \<Rightarrow> 'v \<times> trace) \<Rightarrow> 'a apic_scheme \<Rightarrow> 'v \<times> 'a apic_scheme" where
  "io_in f s = (let (v, tr) = f (io_trace s) in (v, s\<lparr>io_trace := tr\<rparr>))"

definition lapic_read :: "devices \<Rightarrow> u32 \<Rightarrow> 'a apic_scheme \<Rightarrow> u32 \<times> 'a apic_scheme" where
  "lapic_read d reg s = io_in (mmio_read32 d (lapic_base s + ucast reg)) s"

definition lapic_write :: "u32 \<Rightarrow> u32 \<Rightarrow> 'a apic_scheme \<Rightarrow> 'a apic_scheme" where
  "lapic_write reg val s = io (mmio_write32 (lapic_base s + ucast reg) val) s"

definition lapic_init :: "devices \<Rightarrow> 'a apic_scheme \<Rightarrow> 'a apic_scheme option" where
  "lapic_init d s = do {
     let s = s\<lparr>lapic_base := madt_get_lapic_addr s\<rparr>;
     let pml4 = vmm_get_current s;
     s \<leftarrow> vmm_map pml4 (lapic_base s) (lapic_base s - hhdm_offset s) VMM_KERNEL s;
     let (svr, s) = lapic_read d LAPIC_SVR s;
     let s = lapic_write LAPIC_SVR (svr OR LAPIC_SVR_ENABLE OR 0xFF) s;
     let s = lapic_write 0x350 0x00010000 s;
     let s = lapic_write 0x360 0x00010400 s;
     let s = lapic_write LAPIC_TPR 0 s;
     let (id, s) = lapic_read d LAPIC_ID s;
     let (version, s) = lapic_read d LAPIC_VERSION s;
     Some (log_info ''LAPIC'' s) }"

definition lapic_eoi :: "'a apic_scheme \<Rightarrow> 'a apic_scheme" where
  "lapic_eoi s = lapic_write LAPIC_EOI 0 s"

definition lapic_id :: "devices \<Rightarrow> 'a apic_scheme \<Rightarrow> u32 \<times> 'a apic_scheme" where
  "lapic_id d s = (let (v, s) = lapic_read d LAPIC_ID s in (drop_bit 24 v, s))"

definition lapic_timer_start :: "u8 \<Rightarrow> u32 \<Rightarrow> 'a apic_scheme \<Rightarrow> 'a apic_scheme" where
  "lapic_timer_start vector count s =
     lapic_write LAPIC_TIMER_INIT count
       (lapic_write LAPIC_TIMER (LAPIC_TIMER_PERIODIC OR ucast vector)
         (lapic_write LAPIC_TIMER_DIV 0x3 s))"

definition lapic_timer_stop :: "'a apic_scheme \<Rightarrow> 'a apic_scheme" where
  "lapic_timer_stop s = lapic_write LAPIC_TIMER LAPIC_TIMER_MASKED (lapic_write LAPIC_TIMER_INIT 0 s)"

section \<open>I/O APIC\<close>

definition IOAPIC_REGSEL :: u64 where "IOAPIC_REGSEL = 0x00"
definition IOAPIC_IOWIN :: u64 where "IOAPIC_IOWIN = 0x10"
definition IOAPIC_VER :: u8 where "IOAPIC_VER = 0x01"
definition IOAPIC_REDTBL :: u8 where "IOAPIC_REDTBL = 0x10"
definition IOAPIC_MASKED :: u64 where "IOAPIC_MASKED = 0x10000"

definition ioapic_read :: "devices \<Rightarrow> u8 \<Rightarrow> 'a apic_scheme \<Rightarrow> u32 \<times> 'a apic_scheme" where
  "ioapic_read d reg s =
     io_in (mmio_read32 d (ioapic_base s + IOAPIC_IOWIN))
       (io (mmio_write32 (ioapic_base s + IOAPIC_REGSEL) (ucast reg)) s)"

definition ioapic_write :: "u8 \<Rightarrow> u32 \<Rightarrow> 'a apic_scheme \<Rightarrow> 'a apic_scheme" where
  "ioapic_write reg val s =
     io (mmio_write32 (ioapic_base s + IOAPIC_IOWIN) val)
       (io (mmio_write32 (ioapic_base s + IOAPIC_REGSEL) (ucast reg)) s)"

text \<open>The register number is computed in \<^verbatim>\<open>int\<close> and narrowed to \<^verbatim>\<open>uint8_t\<close> by the call.\<close>

definition ioapic_read_redir :: "devices \<Rightarrow> u8 \<Rightarrow> 'a apic_scheme \<Rightarrow> u64 \<times> 'a apic_scheme" where
  "ioapic_read_redir d entry s =
     (let (lo, s) = ioapic_read d (IOAPIC_REDTBL + entry * 2) s;
          (hi, s) = ioapic_read d (IOAPIC_REDTBL + entry * 2 + 1) s
      in (ucast lo OR push_bit 32 (ucast hi), s))"

definition ioapic_write_redir :: "u8 \<Rightarrow> u64 \<Rightarrow> 'a apic_scheme \<Rightarrow> 'a apic_scheme" where
  "ioapic_write_redir entry val s =
     ioapic_write (IOAPIC_REDTBL + entry * 2 + 1) (ucast (drop_bit 32 val))
       (ioapic_write (IOAPIC_REDTBL + entry * 2) (ucast (val AND 0xFFFFFFFF)) s)"

definition ioapic_redirect :: "u8 \<Rightarrow> u8 \<Rightarrow> u32 \<Rightarrow> 'a apic_scheme \<Rightarrow> 'a apic_scheme" where
  "ioapic_redirect irq vector flags s = ioapic_write_redir irq (ucast (ucast vector OR flags :: u32)) s"

definition ioapic_mask :: "devices \<Rightarrow> u8 \<Rightarrow> 'a apic_scheme \<Rightarrow> 'a apic_scheme" where
  "ioapic_mask d irq s =
     (let (entry, s) = ioapic_read_redir d irq s in ioapic_write_redir irq (entry OR IOAPIC_MASKED) s)"

definition ioapic_unmask :: "devices \<Rightarrow> u8 \<Rightarrow> 'a apic_scheme \<Rightarrow> 'a apic_scheme" where
  "ioapic_unmask d irq s =
     (let (entry, s) = ioapic_read_redir d irq s in ioapic_write_redir irq (entry AND NOT IOAPIC_MASKED) s)"

text \<open>The loop \<^verbatim>\<open>for (uint8_t i = 0; i <= max_redir; i++)\<close>; it never ends when \<open>max_redir\<close> is 255.\<close>

partial_function (option) ioapic_mask_all :: "u8 \<Rightarrow> u8 \<Rightarrow> 'a apic_scheme \<Rightarrow> 'a apic_scheme option" where
  "ioapic_mask_all i max_redir s =
     (if i \<le> max_redir then ioapic_mask_all (i + 1) max_redir (ioapic_write_redir i IOAPIC_MASKED s)
      else Some s)"

definition ioapic_init :: "devices \<Rightarrow> 'a apic_scheme \<Rightarrow> 'a apic_scheme option" where
  "ioapic_init d s = do {
     let s = s\<lparr>ioapic_base := madt_get_ioapic_addr s\<rparr>;
     let pml4 = vmm_get_current s;
     s \<leftarrow> vmm_map pml4 (ioapic_base s) (ioapic_base s - hhdm_offset s) VMM_KERNEL s;
     let (ver, s) = ioapic_read d IOAPIC_VER s;
     let max_redir = ucast (drop_bit 16 ver AND 0xFF);
     let s = log_info ''IOAPIC'' s;
     ioapic_mask_all 0 max_redir s }"

section \<open>Timer\<close>

definition PIT_CHANNEL0 :: u16 where "PIT_CHANNEL0 = 0x40"
definition PIT_CMD :: u16 where "PIT_CMD = 0x43"
definition PIT_FREQ :: nat where "PIT_FREQ = 1193182"
definition LAPIC_TIMER_VECTOR :: u32 where "LAPIC_TIMER_VECTOR = 32"

text \<open>Not called; the product is computed in \<^verbatim>\<open>uint32_t\<close> and only 16 bits reach the device.\<close>

definition pit_sleep_ms :: "u32 \<Rightarrow> 'a apic_scheme \<Rightarrow> 'a apic_scheme" where
  "pit_sleep_ms ms s =
     (let divisor = (of_nat PIT_FREQ * ms) div 1000
      in io (outb PIT_CHANNEL0 (ucast (drop_bit 8 divisor AND 0xFF)))
           (io (outb PIT_CHANNEL0 (ucast (divisor AND 0xFF))) (io (outb PIT_CMD 0x30) s)))"

text \<open>Latch and read the counter, as \<^verbatim>\<open>pit_read\<close> and the calibration loop do.\<close>

definition pit_read :: "devices \<Rightarrow> 'a apic_scheme \<Rightarrow> u16 \<times> 'a apic_scheme" where
  "pit_read d s =
     (let s = io (outb PIT_CMD 0x00) s;
          (lo, s) = io_in (inb d PIT_CHANNEL0) s;
          (hi, s) = io_in (inb d PIT_CHANNEL0) s
      in (push_bit 8 (ucast hi) OR ucast lo, s))"

text \<open>The loop waits until a reading is above the one before; it may wait forever.\<close>

partial_function (option) calibrate_wait :: "devices \<Rightarrow> u16 \<Rightarrow> 'a apic_scheme \<Rightarrow> 'a apic_scheme option" where
  "calibrate_wait d previous s =
     (case pit_read d s of
        (now, s') \<Rightarrow> if previous < now then Some s' else calibrate_wait d now s')"

definition lapic_timer_calibrate :: "devices \<Rightarrow> 'a apic_scheme \<Rightarrow> 'a apic_scheme option" where
  "lapic_timer_calibrate d s = do {
     let s = lapic_write LAPIC_TIMER_DIV 0x3 s;
     let s = lapic_write LAPIC_TIMER LAPIC_TIMER_MASKED s;
     let s = lapic_write LAPIC_TIMER_INIT 0xFFFFFFFF s;
     let pit_ticks = (of_nat ((PIT_FREQ * 10) div 1000) :: u16);
     let s = io (outb PIT_CMD 0x30) s;
     let s = io (outb PIT_CHANNEL0 (ucast (pit_ticks AND 0xFF))) s;
     let s = io (outb PIT_CHANNEL0 (ucast (drop_bit 8 pit_ticks AND 0xFF))) s;
     s \<leftarrow> calibrate_wait d 0xFFFF s;
     let (now, s) = lapic_read d LAPIC_TIMER_CURR s;
     let ticks = 0xFFFFFFFF - now;
     let s = lapic_write LAPIC_TIMER_INIT 0 s;
     Some (log_info ''LAPIC'' (s\<lparr>lapic_freq := ucast ticks * 16 * 100\<rparr>)) }"

definition lapic_timer_init :: "devices \<Rightarrow> 'a apic_scheme \<Rightarrow> 'a apic_scheme option" where
  "lapic_timer_init d s = do {
     s \<leftarrow> lapic_timer_calibrate d s;
     let count = ucast (lapic_freq s div 16 div 1000);
     let s = lapic_write LAPIC_TIMER_DIV 0x3 s;
     let s = lapic_write LAPIC_TIMER (LAPIC_TIMER_PERIODIC OR LAPIC_TIMER_VECTOR) s;
     Some (lapic_write LAPIC_TIMER_INIT count s) }"

section \<open>The redirection table\<close>

text \<open>
  The registers of an I/O APIC at \<open>base\<close>: a store to the first address selects a register, a store to
  the window writes it, and a load from the window reads it.
\<close>

record ioapic_device =
  selected :: u8
  registers :: "u8 \<Rightarrow> u32"

fun ioapic_event :: "u64 \<Rightarrow> io \<Rightarrow> ioapic_device \<Rightarrow> ioapic_device" where
  "ioapic_event base (MmioW a v) x =
     (if a = base then x\<lparr>selected := ucast v\<rparr>
      else if a = base + 0x10 then x\<lparr>registers := (registers x)(selected x := v)\<rparr> else x)"
| "ioapic_event base _ x = x"

definition ioapic_after :: "u64 \<Rightarrow> ioapic_device \<Rightarrow> trace \<Rightarrow> ioapic_device" where
  "ioapic_after base x tr = fold (ioapic_event base) tr x"

definition ioapic_answers :: "devices \<Rightarrow> u64 \<Rightarrow> ioapic_device \<Rightarrow> bool" where
  "ioapic_answers d base x \<longleftrightarrow>
     (\<forall>tr. mmio_read d tr (base + 0x10) =
        registers (ioapic_after base x tr) (selected (ioapic_after base x tr)))"

definition redirection :: "ioapic_device \<Rightarrow> u8 \<Rightarrow> u64" where
  "redirection x e = ucast (registers x (0x10 + e * 2)) OR push_bit 32 (ucast (registers x (0x11 + e * 2)))"

text \<open>The device behind a kernel state.\<close>

abbreviation ioapic_of :: "ioapic_device \<Rightarrow> 'a apic_scheme \<Rightarrow> ioapic_device" where
  "ioapic_of x s \<equiv> ioapic_after (ioapic_base s) x (io_trace s)"

lemma ioapic_after_append [simp]:
  "ioapic_after base x (tr @ es) = fold (ioapic_event base) es (ioapic_after base x tr)"
  by (simp add: ioapic_after_def)

lemmas ioapic_defs = IOAPIC_REGSEL_def IOAPIC_IOWIN_def IOAPIC_VER_def IOAPIC_REDTBL_def IOAPIC_MASKED_def

lemma ucast_u8_u32_u8 [simp]: "ucast (ucast (r :: u8) :: u32) = r"
  by (rule bit_word_eqI) (auto simp: bit_simps)

lemma ioapic_write_registers:
  "registers (ioapic_of x (ioapic_write reg v s)) = (registers (ioapic_of x s))(reg := v)"
  "ioapic_base (ioapic_write reg v s) = ioapic_base s"
  by (simp_all add: ioapic_write_def io_defs ioapic_defs)

lemma ioapic_read_registers:
  assumes "ioapic_answers d (ioapic_base s) x"
  shows "fst (ioapic_read d reg s) = registers (ioapic_of x s) reg"
    and "registers (ioapic_of x (snd (ioapic_read d reg s))) = registers (ioapic_of x s)"
    and "ioapic_base (snd (ioapic_read d reg s)) = ioapic_base s"
  using assms by (simp_all add: ioapic_read_def io_in_def io_defs ioapic_defs Let_def ioapic_answers_def)

text \<open>For entries below 120 the register numbers fit in a byte and do not collide.\<close>

lemma redir_registers:
  assumes "e < 120"
  shows "unat (0x10 + e * 2 :: u8) = 16 + 2 * unat e" "unat (0x11 + e * 2 :: u8) = 17 + 2 * unat e"
proof -
  have "unat e < 120" using assms by (simp add: word_less_nat_alt)
  then show "unat (0x10 + e * 2) = 16 + 2 * unat e" "unat (0x11 + e * 2) = 17 + 2 * unat e"
    by (simp_all add: unat_word_ariths)
qed

lemma redir_registers_neq:
  assumes "e < 120" "f < 120"
  shows "(0x10 + e * 2 :: u8) \<noteq> 0x11 + f * 2" "(0x10 + e * 2 :: u8) = 0x10 + f * 2 \<longleftrightarrow> e = f"
    "(0x11 + e * 2 :: u8) = 0x11 + f * 2 \<longleftrightarrow> e = f"
proof -
  note r = redir_registers [OF assms(1)] redir_registers [OF assms(2)]
  have "16 + 2 * unat e \<noteq> 17 + 2 * unat f" by presburger
  then show "(0x10 + e * 2 :: u8) \<noteq> 0x11 + f * 2" by (metis r(1,4))
  show "(0x10 + e * 2 :: u8) = 0x10 + f * 2 \<longleftrightarrow> e = f"
  proof
    assume "(0x10 + e * 2 :: u8) = 0x10 + f * 2"
    then have "16 + 2 * unat e = 16 + 2 * unat f" by (metis r(1,3))
    then show "e = f" by (simp add: word_unat_eq_iff)
  qed simp
  show "(0x11 + e * 2 :: u8) = 0x11 + f * 2 \<longleftrightarrow> e = f"
  proof
    assume "(0x11 + e * 2 :: u8) = 0x11 + f * 2"
    then have "17 + 2 * unat e = 17 + 2 * unat f" by (metis r(2,4))
    then show "e = f" by (simp add: word_unat_eq_iff)
  qed simp
qed

lemma redtbl_succ: "(0x10 + e * 2 + 1 :: u8) = 0x11 + e * 2"
  by simp

lemma ioapic_write_redir_table:
  assumes "irq < 120" "e < 120"
  shows "redirection (ioapic_of x (ioapic_write_redir irq val s)) e =
           (if e = irq then val else redirection (ioapic_of x s) e)"
proof -
  have val: "ucast (ucast (val AND 0xFFFFFFFF) :: u32) OR push_bit 32 (ucast (ucast (drop_bit 32 val) :: u32)) = val"
    by (simp add: ucast_pieces take_bit_join take_bit_word_eq_self)
  note neq = redir_registers_neq [OF assms(2) assms(1)] redir_registers_neq(1) [OF assms]
  have regs: "registers (ioapic_of x (ioapic_write_redir irq val s)) =
      (registers (ioapic_of x s))(0x10 + irq * 2 := ucast (val AND 0xFFFFFFFF),
                                  0x11 + irq * 2 := ucast (drop_bit 32 val))"
    unfolding ioapic_write_redir_def IOAPIC_REDTBL_def redtbl_succ by (simp only: ioapic_write_registers(1))
  show ?thesis unfolding redirection_def regs using neq val by auto
qed

lemma ioapic_write_redir_base [simp]: "ioapic_base (ioapic_write_redir irq val s) = ioapic_base s"
  by (simp add: ioapic_write_redir_def ioapic_write_registers)

lemma ioapic_read_redir_table:
  assumes "ioapic_answers d (ioapic_base s) x"
  shows "fst (ioapic_read_redir d irq s) = redirection (ioapic_of x s) irq"
    and "registers (ioapic_of x (snd (ioapic_read_redir d irq s))) = registers (ioapic_of x s)"
    and "ioapic_base (snd (ioapic_read_redir d irq s)) = ioapic_base s"
proof -
  let ?s1 = "snd (ioapic_read d (IOAPIC_REDTBL + irq * 2) s)"
  note r1 = ioapic_read_registers [OF assms, of "IOAPIC_REDTBL + irq * 2"]
  have a1: "ioapic_answers d (ioapic_base ?s1) x" using assms r1(3) by simp
  note r2 = ioapic_read_registers [OF a1, of "IOAPIC_REDTBL + irq * 2 + 1"]
  show "fst (ioapic_read_redir d irq s) = redirection (ioapic_of x s) irq"
    using r1 r2 unfolding ioapic_read_redir_def redirection_def
    by (simp add: case_prod_beta IOAPIC_REDTBL_def)
  show "registers (ioapic_of x (snd (ioapic_read_redir d irq s))) = registers (ioapic_of x s)"
    "ioapic_base (snd (ioapic_read_redir d irq s)) = ioapic_base s"
    using r1(2,3) r2(2,3) by (simp_all add: ioapic_read_redir_def case_prod_beta)
qed

lemma ioapic_redirection_each:
  assumes "ioapic_answers d (ioapic_base s) x" "irq < 120" "e < 120"
  shows "redirection (ioapic_of x (ioapic_redirect irq vector flags s)) e =
           (if e = irq then ucast vector OR ucast flags else redirection (ioapic_of x s) e)"
    and "redirection (ioapic_of x (ioapic_mask d irq s)) e =
           (if e = irq then set_bit 16 (redirection (ioapic_of x s) e) else redirection (ioapic_of x s) e)"
    and "redirection (ioapic_of x (ioapic_unmask d irq s)) e =
           (if e = irq then unset_bit 16 (redirection (ioapic_of x s) e) else redirection (ioapic_of x s) e)"
proof -
  let ?s = "snd (ioapic_read_redir d irq s)"
  note r = ioapic_read_redir_table [OF assms(1), of irq]
  have tab: "redirection (ioapic_of x ?s) = redirection (ioapic_of x s)"
    using r(2) by (simp add: redirection_def fun_eq_iff)
  have "ucast (ucast vector OR flags :: u32) = (ucast vector OR ucast flags :: u64)"
    by (rule bit_word_eqI) (auto simp: bit_simps dest: bit_imp_le_length)
  then show "redirection (ioapic_of x (ioapic_redirect irq vector flags s)) e =
      (if e = irq then ucast vector OR ucast flags else redirection (ioapic_of x s) e)"
    using ioapic_write_redir_table [OF assms(2,3), where val = "ucast (ucast vector OR flags :: u32)" and s = s and x = x]
    by (simp add: ioapic_redirect_def)
  have m: "IOAPIC_MASKED = push_bit 16 1" by (simp add: IOAPIC_MASKED_def)
  show "redirection (ioapic_of x (ioapic_mask d irq s)) e =
      (if e = irq then set_bit 16 (redirection (ioapic_of x s) e) else redirection (ioapic_of x s) e)"
    using ioapic_write_redir_table [OF assms(2,3), where s = ?s and x = x] r(1) tab
    by (simp add: ioapic_mask_def case_prod_beta set_bit_eq_or m del: ioapic_write_redir_base)
  show "redirection (ioapic_of x (ioapic_unmask d irq s)) e =
      (if e = irq then unset_bit 16 (redirection (ioapic_of x s) e) else redirection (ioapic_of x s) e)"
    using ioapic_write_redir_table [OF assms(2,3), where s = ?s and x = x] r(1) tab
    by (simp add: ioapic_unmask_def case_prod_beta unset_bit_eq_and_not m del: ioapic_write_redir_base)
qed

text \<open>
  C38. (functional) On an I/O APIC whose window reads back what was written, for the entries below 120:
  \<^verbatim>\<open>ioapic_redirect\<close> makes the entry the vector and flags, \<^verbatim>\<open>ioapic_mask\<close> sets bit 16 of it and
  nothing else, \<^verbatim>\<open>ioapic_unmask\<close> clears that bit and nothing else, and no other entry changes.
\<close>

theorem ioapic_redirection_table:
  assumes "ioapic_answers d (ioapic_base s) x" "irq < 120" "e < 120"
  shows "redirection (ioapic_of x (ioapic_redirect irq vector flags s)) e =
           (if e = irq then ucast vector OR ucast flags else redirection (ioapic_of x s) e) \<and>
         redirection (ioapic_of x (ioapic_mask d irq s)) e =
           (if e = irq then set_bit 16 (redirection (ioapic_of x s) e) else redirection (ioapic_of x s) e) \<and>
         redirection (ioapic_of x (ioapic_unmask d irq s)) e =
           (if e = irq then unset_bit 16 (redirection (ioapic_of x s) e) else redirection (ioapic_of x s) e)"
  using ioapic_redirection_each [OF assms] by blast

text \<open>
  An I/O APIC with nothing but its version register, an interval timer that reads low and high in turn,
  and a local APIC timer that counted 60000 ticks.
\<close>

definition sample_ioapic :: ioapic_device where
  "sample_ioapic = \<lparr>selected = 0, registers = (\<lambda>r. if r = 1 then 0x00170020 else 0)\<rparr>"

definition sample_devices :: devices where
  "sample_devices =
     \<lparr>port_read = (\<lambda>tr p. if even (length (filter (\<lambda>e. e = Out PIT_CMD 0) tr)) then 0 else 0xFF),
      mmio_read = (\<lambda>tr a. if a = 0x100010
        then registers (ioapic_after 0x100000 sample_ioapic tr) (selected (ioapic_after 0x100000 sample_ioapic tr))
        else 0xFFFF159F)\<rparr>"

definition sample_apic :: apic where
  "sample_apic =
     \<lparr>klog = [], bitmap = [], bitmap_ptr = 0, total_pages = 0, free_pages = 0, bitmap_size = 0,
      hhdm_offset = 0, mem = (\<lambda>_. 0), cr3 = 0, invlpg = [], caches = [],
      kernel_heap_vaddr = KERNEL_HEAP_BASE, rsdt = 0, xsdt = 0, lapic_addr = 0, cpu_count = 0,
      lapic_ids = [], ioapic_addr = 0x100000, ioapic_gsi_base = 0, isos = [], iso_count = 0,
      io_trace = [], lapic_base = 0xFEE00000, ioapic_base = 0x100000, lapic_freq = 0\<rparr>"

lemma sample_ioapic_answers: "ioapic_answers sample_devices (ioapic_base sample_apic) sample_ioapic"
  by (simp add: ioapic_answers_def sample_devices_def sample_apic_def)

theorem ioapic_redirection_table_witness:
  "redirection (ioapic_of sample_ioapic (ioapic_redirect 1 33 0 sample_apic)) 1 = 33 \<and>
   redirection (ioapic_of sample_ioapic (ioapic_mask sample_devices 1 sample_apic)) 1 = 0x10000"
proof -
  have z: "redirection (ioapic_of sample_ioapic sample_apic) 1 = 0"
    by (simp add: redirection_def sample_apic_def sample_ioapic_def ioapic_after_def)
  show ?thesis
    using ioapic_redirection_table [OF sample_ioapic_answers, of 1 1 33 0] z
    by (simp add: set_bit_eq_or)
qed

section \<open>Initialisation\<close>

lemma ioapic_mask_all_table:
  assumes "m < 120" "unat i \<le> Suc (unat m)"
  shows "\<exists>s'. ioapic_mask_all i m s = Some s' \<and> ioapic_base s' = ioapic_base s \<and>
           (\<forall>e < 120. redirection (ioapic_of x s') e =
              (if i \<le> e \<and> e \<le> m then IOAPIC_MASKED else redirection (ioapic_of x s) e))"
  using assms(2)
proof (induction "Suc (unat m) - unat i" arbitrary: i s)
  case 0
  then have "\<not> i \<le> m" by (simp add: word_le_nat_alt)
  then show ?case by (auto simp: ioapic_mask_all.simps [of i] dest: order_trans)
next
  case (Suc k)
  have m: "unat m < 120" using assms(1) by (simp add: word_less_nat_alt)
  have im: "i \<le> m" using Suc.hyps(2) by (simp add: word_le_nat_alt)
  then have i: "unat i \<le> unat m" by (simp add: word_le_nat_alt)
  then have i120: "i < 120" using m by (simp add: word_less_nat_alt)
  then have ui: "unat (i + 1) = Suc (unat i)" by (rule unat_succ_u8)
  have k: "k = Suc (unat m) - unat (i + 1)" using Suc.hyps(2) ui i by simp
  let ?s = "ioapic_write_redir i IOAPIC_MASKED s"
  obtain s' where s': "ioapic_mask_all (i + 1) m ?s = Some s'" "ioapic_base s' = ioapic_base s"
    "\<forall>e < 120. redirection (ioapic_of x s') e =
       (if i + 1 \<le> e \<and> e \<le> m then IOAPIC_MASKED else redirection (ioapic_of x ?s) e)"
    using Suc.hyps(1) [of "i + 1" ?s] k ui i by auto
  have "redirection (ioapic_of x s') e =
      (if i \<le> e \<and> e \<le> m then IOAPIC_MASKED else redirection (ioapic_of x s) e)" if e: "e < 120" for e
  proof -
    have "i + 1 \<le> e \<longleftrightarrow> i \<le> e \<and> e \<noteq> i"
      using ui by (auto simp: word_le_nat_alt word_unat_eq_iff)
    then show ?thesis
      using s'(3) [rule_format, OF e] ioapic_write_redir_table [OF i120 e, where val = IOAPIC_MASKED and s = s and x = x] im by auto
  qed
  then show ?case using s'(1,2) im by (simp add: ioapic_mask_all.simps [of i])
qed

text \<open>With 256 entries announced the counter wraps around and the loop never ends.\<close>

lemma ioapic_mask_all_diverges: "ioapic_mask_all i 255 s = None"
proof -
  have "m \<noteq> 255" if "ioapic_mask_all i m s = Some s'" for i m and s s' :: "'a apic_scheme"
  proof (rule ioapic_mask_all.raw_induct [OF _ that])
    fix f i m and s s' :: "'a apic_scheme"
    assume hyp: "\<And>i m s s'. f i m s = Some s' \<Longrightarrow> m \<noteq> 255"
      and f: "(if i \<le> m then f (i + 1) m (ioapic_write_redir i IOAPIC_MASKED s) else Some s) = Some s'"
    have "i \<le> 255" using unat_u8_less [of i] by (simp add: word_le_nat_alt)
    then show "m \<noteq> 255" using f hyp by (metis (full_types))
  qed
  then show ?thesis by (cases "ioapic_mask_all i 255 s") auto
qed

section \<open>Calibration\<close>

text \<open>The successive readings of the counter, from the trace on, and the traces between them.\<close>

definition pit_latch :: "devices \<Rightarrow> trace \<Rightarrow> u16 \<times> trace" where
  "pit_latch d tr =
     (let tr = outb PIT_CMD 0x00 tr; (lo, tr) = inb d PIT_CHANNEL0 tr; (hi, tr) = inb d PIT_CHANNEL0 tr
      in (push_bit 8 (ucast hi) OR ucast lo, tr))"

primrec pit_trace :: "devices \<Rightarrow> trace \<Rightarrow> nat \<Rightarrow> trace" where
  "pit_trace d tr 0 = tr"
| "pit_trace d tr (Suc n) = pit_trace d (snd (pit_latch d tr)) n"

definition pit_reading :: "devices \<Rightarrow> trace \<Rightarrow> nat \<Rightarrow> u16" where
  "pit_reading d tr n = fst (pit_latch d (pit_trace d tr n))"

lemma pit_read_latch: "pit_read d s = (fst (pit_latch d (io_trace s)), s\<lparr>io_trace := snd (pit_latch d (io_trace s))\<rparr>)"
  by (simp add: pit_read_def pit_latch_def io_in_def inb_def outb_def Let_def)

lemma pit_reading_Suc [simp]: "pit_reading d tr (Suc n) = pit_reading d (snd (pit_latch d tr)) n"
  by (simp add: pit_reading_def)

text \<open>The wait ends as soon as a reading exceeds its predecessor.\<close>

lemma calibrate_wait_ends:
  assumes "previous < pit_reading d (io_trace s) 0 \<or>
           (\<exists>k < n. pit_reading d (io_trace s) k < pit_reading d (io_trace s) (Suc k))"
  shows "\<exists>tr. calibrate_wait d previous s = Some (s\<lparr>io_trace := tr\<rparr>)"
  using assms
proof (induction n arbitrary: previous s)
  case 0
  then show ?case by (auto simp: calibrate_wait.simps [of d previous] pit_read_latch pit_reading_def)
next
  case (Suc n)
  let ?s = "s\<lparr>io_trace := snd (pit_latch d (io_trace s))\<rparr>"
  let ?now = "pit_reading d (io_trace s) 0"
  show ?case
  proof (cases "previous < ?now")
    case True
    then show ?thesis by (auto simp: calibrate_wait.simps [of d previous] pit_read_latch pit_reading_def)
  next
    case False
    then obtain k where k: "k < Suc n" "pit_reading d (io_trace s) k < pit_reading d (io_trace s) (Suc k)"
      using Suc.prems by auto
    then have "?now < pit_reading d (io_trace ?s) 0 \<or>
        (\<exists>k < n. pit_reading d (io_trace ?s) k < pit_reading d (io_trace ?s) (Suc k))"
      by (cases k) auto
    then obtain tr where "calibrate_wait d ?now ?s = Some (?s\<lparr>io_trace := tr\<rparr>)"
      using Suc.IH by blast
    then have "calibrate_wait d previous s = Some (s\<lparr>io_trace := tr\<rparr>)"
      using False by (simp add: calibrate_wait.simps [of d previous] pit_read_latch pit_reading_def)
    then show ?thesis by blast
  qed
qed

lemma calibrate_wait_exact:
  assumes "\<not> previous < pit_reading d (io_trace s) 0" "pit_reading d (io_trace s) k < pit_reading d (io_trace s) (Suc k)"
    "\<And>j. j < k \<Longrightarrow> \<not> pit_reading d (io_trace s) j < pit_reading d (io_trace s) (Suc j)"
  shows "calibrate_wait d previous s = Some (s\<lparr>io_trace := pit_trace d (io_trace s) (Suc (Suc k))\<rparr>)"
  using assms
proof (induction k arbitrary: previous s)
  case 0
  let ?s = "s\<lparr>io_trace := snd (pit_latch d (io_trace s))\<rparr>"
  have "calibrate_wait d previous s = calibrate_wait d (pit_reading d (io_trace s) 0) ?s"
    using 0(1) by (simp add: calibrate_wait.simps [of d previous] pit_read_latch pit_reading_def)
  also have "\<dots> = Some (s\<lparr>io_trace := pit_trace d (io_trace s) (Suc (Suc 0))\<rparr>)"
    using 0(2) by (subst calibrate_wait.simps) (simp add: pit_read_latch pit_reading_def)
  finally show ?case .
next
  case (Suc k)
  let ?s = "s\<lparr>io_trace := snd (pit_latch d (io_trace s))\<rparr>"
  have "calibrate_wait d previous s = calibrate_wait d (pit_reading d (io_trace s) 0) ?s"
    using Suc.prems(1) by (simp add: calibrate_wait.simps [of d previous] pit_read_latch pit_reading_def)
  also have "\<dots> = Some (?s\<lparr>io_trace := pit_trace d (io_trace ?s) (Suc (Suc k))\<rparr>)"
  proof (rule Suc.IH)
    show "\<not> pit_reading d (io_trace s) 0 < pit_reading d (io_trace ?s) 0" using Suc.prems(3) [of 0] by simp
    show "pit_reading d (io_trace ?s) k < pit_reading d (io_trace ?s) (Suc k)" using Suc.prems(2) by simp
    show "\<not> pit_reading d (io_trace ?s) j < pit_reading d (io_trace ?s) (Suc j)" if "j < k" for j
      using Suc.prems(3) [of "Suc j"] that by simp
  qed
  finally show ?case by simp
qed

text \<open>
  The interval timer as it is documented: programmed with \<open>n\<close>, it counts down with each of its ticks and goes on from 0 with 0xFFFF.
  \<open>el k\<close> is the number of ticks up to the \<open>k\<close>-th reading after the trace \<open>tr\<close>; less than a whole round passes between two readings.
\<close>

definition pit_counts :: "devices \<Rightarrow> trace \<Rightarrow> nat \<Rightarrow> (nat \<Rightarrow> nat) \<Rightarrow> bool" where
  "pit_counts d tr n el \<longleftrightarrow>
     el 0 \<le> n \<and> (\<forall>k. el k \<le> el (Suc k) \<and> el (Suc k) < el k + 65536) \<and> (\<exists>k. n < el k) \<and>
     (\<forall>k. pit_reading d tr k = of_nat n - of_nat (el k))"

lemma unat_of_nat_small: "m < 65536 \<Longrightarrow> unat (of_nat m :: u16) = m"
  by (simp add: unsigned_of_nat take_bit_nat_eq_self)

lemma unat_counter: "e \<le> n \<Longrightarrow> n < 65536 \<Longrightarrow> unat (of_nat n - of_nat e :: u16) = n - e"
  by (simp flip: of_nat_diff add: unsigned_of_nat take_bit_nat_eq_self)

lemma unat_counter_wrapped:
  assumes "n < e" "e < n + 65536"
  shows "unat (of_nat n - of_nat e :: u16) = n + 65536 - e"
proof -
  have "of_nat n - of_nat e = (of_nat (n + 65536) - of_nat e :: u16)" by simp
  also have "\<dots> = of_nat (n + 65536 - e)" using assms(2) by (simp add: of_nat_diff del: of_nat_add)
  finally have "unat (of_nat n - of_nat e :: u16) = unat (of_nat (n + 65536 - e) :: u16)" by (rule arg_cong)
  also have "\<dots> = n + 65536 - e" by (rule unat_of_nat_small) (use assms in simp)
  finally show ?thesis .
qed

lemma pit_counts_wrap:
  assumes p: "pit_counts d tr n el" and n: "n < 65536"
  obtains k where "el k \<le> n" "n < el (Suc k)" "pit_reading d tr k < pit_reading d tr (Suc k)"
    "\<And>j. j < k \<Longrightarrow> \<not> pit_reading d tr j < pit_reading d tr (Suc j)"
proof -
  have el0: "el 0 \<le> n" and el: "\<And>k. el k \<le> el (Suc k)" "\<And>k. el (Suc k) < el k + 65536" and ex: "\<exists>k. n < el k"
    and rd: "\<And>k. pit_reading d tr k = of_nat n - of_nat (el k)"
    using p unfolding pit_counts_def by blast+
  have r: "unat (pit_reading d tr k) = n - el k" if "el k \<le> n" for k
    unfolding rd by (rule unat_counter [OF that n])
  define m where "m = (LEAST k. n < el k)"
  have m: "n < el m" unfolding m_def by (rule LeastI_ex) (rule ex)
  have below: "el j \<le> n" if "j < m" for j using not_less_Least [of j "\<lambda>k. n < el k"] that unfolding m_def by simp
  obtain k where k: "m = Suc k" using m el0 by (cases m) auto
  have b: "el k \<le> n" "n < el (Suc k)" using below [of k] m k by simp_all
  have "unat (pit_reading d tr (Suc k)) = n + 65536 - el (Suc k)"
    unfolding rd by (rule unat_counter_wrapped) (use b el(2) [of k] in simp_all)
  then have "pit_reading d tr k < pit_reading d tr (Suc k)"
    using r [OF b(1)] b el(2) [of k] by (simp add: word_less_nat_alt del: pit_reading_Suc)
  moreover have "\<not> pit_reading d tr j < pit_reading d tr (Suc j)" if "j < k" for j
    using r [OF below [of j]] r [OF below [of "Suc j"]] that k el(1) [of j]
    by (simp add: word_less_nat_alt diff_le_mono2 del: pit_reading_Suc)
  ultimately show ?thesis using that [of k] b by blast
qed

lemma ucast_le_u32: "unat (w :: u64) < 4294967296 \<Longrightarrow> unat (ucast w :: u32) = unat w"
  by (simp add: unsigned_ucast_eq take_bit_nat_eq_self)

lemma timer_count: "unat (ucast ((ucast (ticks :: u32) * 16 * 100 :: u64) div 16 div 1000) :: u32) = unat ticks div 10"
proof -
  have t: "unat ticks < 4294967296" using unsigned_less [of ticks] by simp
  have "unat (ucast ticks * 16 * 100 :: u64) = unat ticks * 1600"
    using t by (simp add: unat_word_ariths unat_ucast_u32)
  then have "unat ((ucast ticks * 16 * 100 :: u64) div 16 div 1000) = unat ticks * 1600 div 16 div 1000"
    by (simp add: unat_div)
  also have "\<dots> = unat ticks div 10" by (simp add: div_mult2_eq [symmetric])
  finally have eq: "unat ((ucast ticks * 16 * 100 :: u64) div 16 div 1000) = unat ticks div 10" .
  then show ?thesis using t by (subst ucast_le_u32) simp_all
qed

text \<open>The accesses with which the calibration starts.\<close>

definition calibration_start :: "u64 \<Rightarrow> trace" where
  "calibration_start base =
     [MmioW (base + 0x3E0) 3, MmioW (base + 0x320) 0x10000, MmioW (base + 0x380) 0xFFFFFFFF,
      Out 0x43 0x30, Out 0x40 (of_nat (1193182 * 10 div 1000 mod 256)), Out 0x40 (of_nat (1193182 * 10 div 1000 div 256))]"

text \<open>
  C39. (termination) If the programmable interval timer counts as documented, \<^verbatim>\<open>lapic_timer_init\<close> returns. It starts the local APIC timer with the
  divider 16 and the largest count, masked, and programs the interval timer with 11931, that is ten milliseconds at 1193182 Hz; it reads the interval timer until the
  first reading after the count has run out, and no longer, and then the local APIC timer. Its last three writes put the local
  APIC timer in periodic mode on vector 32 with the same divider and, as initial count, exactly a tenth of the ticks counted
  in between: one millisecond. The detour over \<^verbatim>\<open>lapic_freq\<close> loses nothing to overflow or rounding.
\<close>

theorem lapic_timer_init_millisecond:
  assumes "pit_counts d (io_trace s @ calibration_start (lapic_base s)) 11931 el"
  shows "\<exists>s' k tr now count. lapic_timer_init d s = Some s' \<and> el k \<le> 11931 \<and> 11931 < el (Suc k) \<and>
           tr = pit_trace d (io_trace s @ calibration_start (lapic_base s)) (Suc (Suc k)) \<and>
           now = mmio_read d tr (lapic_base s + 0x390) \<and>
           io_trace s' = tr @ [MmioR (lapic_base s + 0x390) now, MmioW (lapic_base s + 0x380) 0,
             MmioW (lapic_base s + 0x3E0) 3, MmioW (lapic_base s + 0x320) 0x20020, MmioW (lapic_base s + 0x380) count] \<and>
           unat count = unat (0xFFFFFFFF - now) div 10 \<and>
           lapic_freq s' = ucast (0xFFFFFFFF - now) * 1600"
proof -
  define s0 where "s0 = s\<lparr>io_trace := io_trace s @ calibration_start (lapic_base s)\<rparr>"
  obtain k where k: "el k \<le> 11931" "11931 < el (Suc k)" "pit_reading d (io_trace s0) k < pit_reading d (io_trace s0) (Suc k)"
    "\<And>j. j < k \<Longrightarrow> \<not> pit_reading d (io_trace s0) j < pit_reading d (io_trace s0) (Suc j)"
    by (rule pit_counts_wrap [OF assms]) (simp_all add: s0_def)
  have "\<not> 0xFFFF < pit_reading d (io_trace s0) 0" using unsigned_less [of "pit_reading d (io_trace s0) 0", where ?'a = nat] by (simp add: word_less_nat_alt)
  note w = calibrate_wait_exact [OF this k(3,4)]
  define tr where "tr = pit_trace d (io_trace s0) (Suc (Suc k))"
  define now where "now = mmio_read d tr (lapic_base s + 0x390)"
  have cal: "lapic_timer_calibrate d s =
      Some (log_info ''LAPIC'' (s\<lparr>io_trace := tr @ [MmioR (lapic_base s + 0x390) now, MmioW (lapic_base s + 0x380) 0],
        lapic_freq := ucast (0xFFFFFFFF - now) * 16 * 100\<rparr>))"
    using w unfolding tr_def [symmetric]
    by (simp add: lapic_timer_calibrate_def lapic_write_def lapic_read_def io_in_def io_defs lapic_regs Let_def
        PIT_CMD_def PIT_CHANNEL0_def PIT_FREQ_def s0_def now_def calibration_start_def)
  define count :: u32 where "count = ucast (ucast (0xFFFFFFFF - now) * 16 * 100 div 16 div 1000 :: u64)"
  have count: "unat count = unat (0xFFFFFFFF - now) div 10"
    unfolding count_def by (rule timer_count)
  define s' where "s' = log_info ''LAPIC''
    (s\<lparr>io_trace := tr @ [MmioR (lapic_base s + 0x390) now, MmioW (lapic_base s + 0x380) 0,
        MmioW (lapic_base s + 0x3E0) 3, MmioW (lapic_base s + 0x320) 0x20020, MmioW (lapic_base s + 0x380) count],
       lapic_freq := ucast (0xFFFFFFFF - now) * 1600\<rparr>)"
  have "lapic_timer_init d s = Some s'"
    unfolding lapic_timer_init_def cal
    by (simp add: lapic_write_def io_defs lapic_regs Let_def LAPIC_TIMER_VECTOR_def log_event_def s'_def count_def
        mult.assoc mult.commute)
  moreover have "io_trace s' = tr @ [MmioR (lapic_base s + 0x390) now, MmioW (lapic_base s + 0x380) 0,
      MmioW (lapic_base s + 0x3E0) 3, MmioW (lapic_base s + 0x320) 0x20020, MmioW (lapic_base s + 0x380) count]"
    "lapic_freq s' = ucast (0xFFFFFFFF - now) * 1600"
    by (simp_all add: s'_def log_event_def)
  moreover have "tr = pit_trace d (io_trace s @ calibration_start (lapic_base s)) (Suc (Suc k))" by (simp add: tr_def s0_def)
  ultimately show ?thesis using count k(1,2) now_def by blast
qed

lemma sample_latch:
  "pit_latch sample_devices tr =
     (if even (length (filter (\<lambda>e. e = Out PIT_CMD 0) tr))
      then (0xFFFF, tr @ [Out PIT_CMD 0, In PIT_CHANNEL0 0xFF, In PIT_CHANNEL0 0xFF])
      else (0, tr @ [Out PIT_CMD 0, In PIT_CHANNEL0 0, In PIT_CHANNEL0 0]))"
  by (simp add: pit_latch_def sample_devices_def io_defs Let_def push_bit_eq_mult)

lemma sample_pit: "\<exists>k. pit_reading sample_devices tr k < pit_reading sample_devices tr (Suc k)"
proof (cases "even (length (filter (\<lambda>e. e = Out PIT_CMD 0) tr))")
  case True
  then have "pit_reading sample_devices tr (Suc 0) < pit_reading sample_devices tr (Suc (Suc 0))"
    by (simp add: pit_reading_def sample_latch)
  then show ?thesis by blast
next
  case False
  then have "pit_reading sample_devices tr 0 < pit_reading sample_devices tr 1"
    by (simp add: pit_reading_def sample_latch)
  then show ?thesis by (intro exI [of _ 0]) simp
qed

text \<open>An interval timer that counts as documented, with 6000 ticks between two readings.\<close>

definition counting_value :: "trace \<Rightarrow> u16" where
  "counting_value tr = 11931 - of_nat (6000 * (length (filter (\<lambda>e. e = Out PIT_CMD 0) tr) - 1))"

definition counting_devices :: devices where
  "counting_devices =
     \<lparr>port_read = (\<lambda>tr p. if last tr = Out PIT_CMD 0 then ucast (counting_value tr) else ucast (drop_bit 8 (counting_value tr))),
      mmio_read = (\<lambda>tr a. 0xFFFF159F)\<rparr>"

lemma bytes_of_u16: "push_bit 8 (ucast (ucast (drop_bit 8 (v :: u16)) :: u8)) OR ucast (ucast v :: u8) = v"
  by (rule bit_word_eqI) (auto simp: bit_simps)

lemma counting_latch:
  "fst (pit_latch counting_devices tr) = 11931 - of_nat (6000 * length (filter (\<lambda>e. e = Out PIT_CMD 0) tr))"
  "length (filter (\<lambda>e. e = Out PIT_CMD 0) (snd (pit_latch counting_devices tr))) = Suc (length (filter (\<lambda>e. e = Out PIT_CMD 0) tr))"
  by (simp_all add: pit_latch_def counting_devices_def counting_value_def io_defs Let_def bytes_of_u16)

lemma counting_reading:
  "pit_reading counting_devices tr k = 11931 - of_nat (6000 * (length (filter (\<lambda>e. e = Out PIT_CMD 0) tr) + k))"
proof (induction k arbitrary: tr)
  case 0
  show ?case by (simp add: pit_reading_def counting_latch(1))
next
  case (Suc k)
  show ?case by (simp only: pit_reading_Suc Suc counting_latch(2) add_Suc add_Suc_right)
qed

lemma counting_pit: "pit_counts counting_devices ([] @ calibration_start b) 11931 (\<lambda>k. 6000 * k)"
proof -
  have "length (filter (\<lambda>e. e = Out PIT_CMD 0) (calibration_start b)) = 0"
    by (simp add: calibration_start_def PIT_CMD_def)
  then have "pit_reading counting_devices (calibration_start b) k = of_nat 11931 - of_nat (6000 * k)" for k
    unfolding counting_reading by simp
  moreover have "\<exists>k::nat. 11931 < 6000 * k" by (rule exI [of _ 2]) simp
  ultimately show ?thesis unfolding pit_counts_def append_Nil by simp
qed

theorem lapic_timer_init_millisecond_witness:
  "\<exists>s'. lapic_timer_init counting_devices sample_apic = Some s' \<and>
     io_trace s' = pit_trace counting_devices (calibration_start 0xFEE00000) 3 @
       [MmioR 0xFEE00390 0xFFFF159F, MmioW 0xFEE00380 0, MmioW 0xFEE003E0 3, MmioW 0xFEE00320 0x20020, MmioW 0xFEE00380 6000] \<and>
     lapic_freq s' = 96000000"
proof -
  have b: "lapic_base sample_apic = 0xFEE00000" "io_trace sample_apic = []" by (simp_all add: sample_apic_def)
  have m: "mmio_read counting_devices t a = 0xFFFF159F" for t a by (simp add: counting_devices_def)
  have e: "ucast (0xFFFFFFFF - 0xFFFF159F :: u32) * 1600 = (96000000 :: u64)" by simp
  have c: "unat (0xFFFFFFFF - 0xFFFF159F :: u32) div 10 = unat (6000 :: u32)" by simp
  obtain s' k count where *: "lapic_timer_init counting_devices sample_apic = Some s'" "6000 * k \<le> 11931" "11931 < 6000 * Suc k"
      "io_trace s' = pit_trace counting_devices (calibration_start 0xFEE00000) (Suc (Suc k)) @
         [MmioR 0xFEE00390 0xFFFF159F, MmioW 0xFEE00380 0, MmioW 0xFEE003E0 3, MmioW 0xFEE00320 0x20020, MmioW 0xFEE00380 count]"
      "unat count = unat (6000 :: u32)" "lapic_freq s' = 96000000"
    using lapic_timer_init_millisecond [of counting_devices sample_apic, unfolded b, OF counting_pit]
    unfolding append_Nil m e c by auto
  have "k = 1" "count = 6000" using *(2,3,5) by (simp_all only: word_unat_eq_iff) simp
  then show ?thesis using *(1,4,6) by (simp add: numeral_3_eq_3 del: pit_trace.simps)
qed

end
