(* ===== verification/Threads.thy ===== *)
theory Threads
  imports Apic
begin

text \<open>
  Processes and threads: \<^verbatim>\<open>scheduler/process.c\<close> and the creation and destruction of threads in
  \<^verbatim>\<open>scheduler/thread.c\<close>. The structures are kept in typed stores indexed by their addresses, which come
  from \<^verbatim>\<open>kmalloc\<close>; an access through an address without a structure is undefined. The stacks are
  blocks of the modelled memory.
\<close>

section \<open>Structures\<close>

text \<open>\<^verbatim>\<open>registers_t\<close>, the registers that the interrupt stub saves.\<close>

record registers =
  r_r15 :: u64
  r_r14 :: u64
  r_r13 :: u64
  r_r12 :: u64
  r_r11 :: u64
  r_r10 :: u64
  r_r9 :: u64
  r_r8 :: u64
  r_rbp :: u64
  r_rdi :: u64
  r_rsi :: u64
  r_rdx :: u64
  r_rcx :: u64
  r_rbx :: u64
  r_rax :: u64
  r_vector :: u64
  r_error_code :: u64
  r_rip :: u64
  r_cs :: u64
  r_rflags :: u64
  r_rsp :: u64
  r_ss :: u64

definition zero_registers :: registers where
  "zero_registers =
     \<lparr>r_r15 = 0, r_r14 = 0, r_r13 = 0, r_r12 = 0, r_r11 = 0, r_r10 = 0, r_r9 = 0, r_r8 = 0, r_rbp = 0,
      r_rdi = 0, r_rsi = 0, r_rdx = 0, r_rcx = 0, r_rbx = 0, r_rax = 0, r_vector = 0, r_error_code = 0,
      r_rip = 0, r_cs = 0, r_rflags = 0, r_rsp = 0, r_ss = 0\<rparr>"

datatype thread_state = THREAD_READY | THREAD_RUNNING | THREAD_BLOCKED | THREAD_DEAD

datatype process_state = PROCESS_RUNNING | PROCESS_DEAD

record thread =
  th_id :: u64
  th_state :: thread_state
  th_context :: registers
  th_stack :: u64
  wake_tick :: u64
  quantum :: u8
  kernel_stack_top :: u64
  th_process :: u64
  th_next :: u64

text \<open>The name is the string in the array, without its terminator.\<close>

record process =
  pid :: u64
  p_name :: "u8 list"
  p_state :: process_state
  p_next :: u64

text \<open>
  The state of the scheduler and of its clients: the structures, the counters, the static variables of
  \<^verbatim>\<open>scheduler.c\<close>, the tick counter of \<^verbatim>\<open>isr.c\<close> and the segment state that holds the TSS.
  \<open>idle_thread\<close>, \<open>idle_process\<close>, \<open>thread_exit_code\<close> and \<open>idle_code\<close> are the addresses that the linker gives to the
  static objects and to the functions \<^verbatim>\<open>thread_exit\<close> and \<^verbatim>\<open>idle_fn\<close>.
\<close>

record sched = apic +
  threads :: "u64 \<Rightarrow> thread option"
  processes :: "u64 \<Rightarrow> process option"
  next_pid :: u64
  next_tid :: u64
  run_queue :: u64
  current :: u64
  locked :: u8
  timer_ticks :: u64
  segs :: segments
  idle_thread :: u64
  idle_process :: u64
  thread_exit_code :: u64
  idle_code :: u64

definition sizeof_process :: u64 where "sizeof_process = 88"
definition sizeof_thread :: u64 where "sizeof_thread = 240"
definition THREAD_STACK_SIZE :: u64 where "THREAD_STACK_SIZE = 4096"
definition SCHEDULER_QUANTUM :: u8 where "SCHEDULER_QUANTUM = 10"

section \<open>Processes\<close>

text \<open>The loop \<^verbatim>\<open>while (name[i] && i < 63)\<close> from \<open>i\<close> on: the characters it copies.\<close>

function copy_name :: "u64 \<Rightarrow> nat \<Rightarrow> 'a vmm_scheme \<Rightarrow> u8 list option" where
  "copy_name name i s = do {
     c \<leftarrow> load8 (name + of_nat i) s;
     if c \<noteq> 0 \<and> i < 63 then do { cs \<leftarrow> copy_name name (Suc i) s; Some (c # cs) } else Some [] }"
  by pat_completeness auto
termination by (relation "measure (\<lambda>(name, i, s). 63 - i)") auto

declare copy_name.simps [simp del]

definition process_create :: "u64 \<Rightarrow> 'a sched_scheme \<Rightarrow> (u64 \<times> 'a sched_scheme) option" where
  "process_create name s = do {
     (proc, s) \<leftarrow> kmalloc sizeof_process s;
     if proc = NULL then Some (NULL, log_error ''PROCESS'' s)
     else do {
       cs \<leftarrow> copy_name name 0 s;
       let p = \<lparr>pid = next_pid s, p_name = cs, p_state = PROCESS_RUNNING, p_next = NULL\<rparr>;
       Some (proc, log_debug ''PROCESS''
         (s\<lparr>processes := (processes s)(proc \<mapsto> p), next_pid := next_pid s + 1\<rparr>)) } }"

definition process_destroy :: "u64 \<Rightarrow> 'a sched_scheme \<Rightarrow> 'a sched_scheme option" where
  "process_destroy proc s =
     (if proc = NULL then Some s
      else do {
        p \<leftarrow> processes s proc;
        let s = s\<lparr>processes := (processes s)(proc \<mapsto> p\<lparr>p_state := PROCESS_DEAD\<rparr>)\<rparr>;
        s \<leftarrow> kfree proc s;
        Some (s\<lparr>processes := (processes s)(proc := None)\<rparr>) })"

section \<open>Threads\<close>

definition zero_thread :: thread where
  "zero_thread =
     \<lparr>th_id = 0, th_state = THREAD_READY, th_context = zero_registers, th_stack = 0, wake_tick = 0,
      quantum = 0, kernel_stack_top = 0, th_process = 0, th_next = 0\<rparr>"

text \<open>The context of a new kernel thread.\<close>

definition initial_context :: "u64 \<Rightarrow> u64 \<Rightarrow> registers \<Rightarrow> registers" where
  "initial_context entry sp c =
     c\<lparr>r_rip := entry, r_rsp := sp, r_rbp := 0, r_rbx := 0, r_cs := 0x08, r_ss := 0x10, r_rflags := 0x202,
       r_r12 := 0, r_r13 := 0, r_r14 := 0, r_r15 := 0\<rparr>"

definition thread_create :: "u64 \<Rightarrow> u64 \<Rightarrow> 'a sched_scheme \<Rightarrow> (u64 \<times> 'a sched_scheme) option" where
  "thread_create proc entry s = do {
     (thread, s) \<leftarrow> kmalloc sizeof_thread s;
     if thread = NULL then Some (NULL, log_error ''THREAD'' s)
     else do {
       let s = s\<lparr>threads := (threads s)(thread \<mapsto> zero_thread)\<rparr>;
       (stack, s) \<leftarrow> kmalloc THREAD_STACK_SIZE s;
       if stack = NULL then do {
         s \<leftarrow> kfree thread (log_error ''THREAD'' s);
         Some (NULL, s\<lparr>threads := (threads s)(thread := None)\<rparr>) }
       else do {
         let top = stack + THREAD_STACK_SIZE;
         let sp = (top AND NOT 0xF) - 8;
         let th = zero_thread\<lparr>th_id := next_tid s, th_state := THREAD_READY, th_process := proc,
                              quantum := SCHEDULER_QUANTUM, th_stack := stack, th_next := NULL,
                              wake_tick := 0, kernel_stack_top := top\<rparr>;
         let s = s\<lparr>next_tid := next_tid s + 1\<rparr>;
         s \<leftarrow> store64 sp (thread_exit_code s) s;
         let th = th\<lparr>th_context := initial_context entry sp (th_context th)\<rparr>;
         Some (thread, log_debug ''THREAD'' (s\<lparr>threads := (threads s)(thread \<mapsto> th)\<rparr>)) } } }"

definition thread_destroy :: "u64 \<Rightarrow> 'a sched_scheme \<Rightarrow> 'a sched_scheme option" where
  "thread_destroy thread s =
     (if thread = NULL then Some s
      else do {
        th \<leftarrow> threads s thread;
        s \<leftarrow> kfree (th_stack th) s;
        s \<leftarrow> kfree thread s;
        Some (log_debug ''THREAD'' (s\<lparr>threads := (threads s)(thread := None)\<rparr>)) })"

text \<open>A write to fields of the thread at \<open>p\<close>.\<close>

definition set_thread :: "u64 \<Rightarrow> (thread \<Rightarrow> thread) \<Rightarrow> 'a sched_scheme \<Rightarrow> 'a sched_scheme option" where
  "set_thread p f s = do { t \<leftarrow> threads s p; Some (s\<lparr>threads := (threads s)(p \<mapsto> f t)\<rparr>) }"

end
