(* ===== verification/Scheduler.thy ===== *)
theory Scheduler
  imports Threads
begin

text \<open>
  The scheduler, \<^verbatim>\<open>scheduler/scheduler.c\<close>: a run queue of thread structures linked by their \<^verbatim>\<open>next\<close> fields
  and the timer interrupt that wakes, reaps and switches threads. The three loops over the queue follow
  the links; a broken or cyclic queue makes them undefined or endless (\<open>None\<close>). The code is shown to
  implement a scheduler on lists.
\<close>

section \<open>The code\<close>

definition idle_context :: "u64 \<Rightarrow> u64 \<Rightarrow> registers \<Rightarrow> registers" where
  "idle_context rip rsp c =
     c\<lparr>r_rip := rip, r_rsp := rsp, r_rbp := 0, r_rbx := 0, r_cs := 0x08, r_ss := 0x10, r_rflags := 0x202,
       r_r12 := 0, r_r13 := 0, r_r14 := 0, r_r15 := 0\<rparr>"

text \<open>\<open>rsp\<close> is the stack pointer that \<^verbatim>\<open>scheduler_init\<close> reads from the processor.\<close>

definition scheduler_init :: "u64 \<Rightarrow> 'a sched_scheme \<Rightarrow> 'a sched_scheme option" where
  "scheduler_init rsp s = do {
     p \<leftarrow> processes s (idle_process s);
     let s = s\<lparr>processes := (processes s)(idle_process s \<mapsto> p\<lparr>pid := 0, p_state := PROCESS_RUNNING\<rparr>)\<rparr>;
     s \<leftarrow> set_thread (idle_thread s)
       (\<lambda>t. t\<lparr>th_id := 0xFFFFFFFFFFFFFFFF, th_state := THREAD_READY, th_process := idle_process s,
              quantum := SCHEDULER_QUANTUM, th_next := NULL, wake_tick := 0,
              th_context := idle_context (idle_code s) rsp (th_context t)\<rparr>) s;
     Some (log_info ''SCHED'' (s\<lparr>current := idle_thread s\<rparr>)) }"

definition scheduler_lock :: "'a sched_scheme \<Rightarrow> 'a sched_scheme" where
  "scheduler_lock s = s\<lparr>locked := 1\<rparr>"

definition scheduler_unlock :: "'a sched_scheme \<Rightarrow> 'a sched_scheme" where
  "scheduler_unlock s = s\<lparr>locked := 0\<rparr>"

definition scheduler_current :: "'a sched_scheme \<Rightarrow> u64" where
  "scheduler_current s = current s"

definition scheduler_add_thread :: "u64 \<Rightarrow> 'a sched_scheme \<Rightarrow> 'a sched_scheme option" where
  "scheduler_add_thread thread s = do {
     s \<leftarrow> set_thread thread (\<lambda>t. t\<lparr>th_next := run_queue s\<rparr>) s;
     Some (s\<lparr>run_queue := thread\<rparr>) }"

text \<open>The first loop of the tick: threads whose time has come become ready.\<close>

definition wake :: "u64 \<Rightarrow> thread \<Rightarrow> thread" where
  "wake ticks t =
     (if th_state t = THREAD_BLOCKED \<and> wake_tick t \<le> ticks then t\<lparr>th_state := THREAD_READY\<rparr> else t)"

partial_function (option) wake_loop :: "u64 \<Rightarrow> 'a sched_scheme \<Rightarrow> 'a sched_scheme option" where
  "wake_loop p s =
     (if p = NULL then Some s
      else do { t \<leftarrow> threads s p;
                wake_loop (th_next t) (s\<lparr>threads := (threads s)(p \<mapsto> wake (timer_ticks s) t)\<rparr>) })"

text \<open>The second loop: dead threads are unlinked and destroyed.\<close>

partial_function (option) reap_loop :: "u64 \<Rightarrow> u64 \<Rightarrow> 'a sched_scheme \<Rightarrow> 'a sched_scheme option" where
  "reap_loop prev p s =
     (if p = NULL then Some s
      else do {
        t \<leftarrow> threads s p;
        if th_state t = THREAD_DEAD then do {
          s1 \<leftarrow> (if prev \<noteq> NULL then set_thread prev (\<lambda>x. x\<lparr>th_next := th_next t\<rparr>) s
                 else Some (s\<lparr>run_queue := th_next t\<rparr>));
          s2 \<leftarrow> thread_destroy p s1;
          reap_loop prev (th_next t) s2 }
        else reap_loop p (th_next t) s })"

text \<open>The third loop: the first ready thread is unlinked; \<open>NULL\<close> when there is none.\<close>

partial_function (option) pick_loop :: "u64 \<Rightarrow> u64 \<Rightarrow> 'a sched_scheme \<Rightarrow> (u64 \<times> 'a sched_scheme) option" where
  "pick_loop prev p s =
     (if p = NULL then Some (NULL, s)
      else do {
        t \<leftarrow> threads s p;
        if th_state t = THREAD_READY then do {
          s1 \<leftarrow> (if prev \<noteq> NULL then set_thread prev (\<lambda>x. x\<lparr>th_next := th_next t\<rparr>) s
                 else Some (s\<lparr>run_queue := th_next t\<rparr>));
          Some (p, s1) }
        else pick_loop p (th_next t) s })"

text \<open>The registers copied from the interrupt frame to the context and back.\<close>

definition save_context :: "registers \<Rightarrow> registers \<Rightarrow> registers" where
  "save_context frame c =
     c\<lparr>r_rip := r_rip frame, r_rsp := r_rsp frame, r_rbp := r_rbp frame, r_cs := r_cs frame,
       r_ss := r_ss frame, r_rflags := r_rflags frame, r_rax := r_rax frame, r_rbx := r_rbx frame,
       r_rcx := r_rcx frame, r_rdx := r_rdx frame, r_rsi := r_rsi frame, r_rdi := r_rdi frame,
       r_r8 := r_r8 frame, r_r9 := r_r9 frame, r_r10 := r_r10 frame, r_r11 := r_r11 frame,
       r_r12 := r_r12 frame, r_r13 := r_r13 frame, r_r14 := r_r14 frame, r_r15 := r_r15 frame\<rparr>"

definition load_context :: "registers \<Rightarrow> registers \<Rightarrow> registers" where
  "load_context c frame =
     frame\<lparr>r_rip := r_rip c, r_rsp := r_rsp c, r_rbp := r_rbp c, r_rax := r_rax c, r_rbx := r_rbx c,
       r_rcx := r_rcx c, r_rdx := r_rdx c, r_rsi := r_rsi c, r_rdi := r_rdi c, r_ss := r_ss c,
       r_cs := r_cs c, r_rflags := r_rflags c,
       r_r8 := r_r8 c, r_r9 := r_r9 c, r_r10 := r_r10 c, r_r11 := r_r11 c,
       r_r12 := r_r12 c, r_r13 := r_r13 c, r_r14 := r_r14 c, r_r15 := r_r15 c\<rparr>"

text \<open>The current thread goes back to the front of the queue, unless it is dead, and is saved.\<close>

definition put_back :: "registers \<Rightarrow> 'a sched_scheme \<Rightarrow> 'a sched_scheme option" where
  "put_back frame s = do {
     t \<leftarrow> threads s (current s);
     let t' = (if th_state t = THREAD_RUNNING
               then t\<lparr>th_state := THREAD_READY, quantum := SCHEDULER_QUANTUM\<rparr> else t);
     s \<leftarrow> (if th_state t = THREAD_DEAD then Some s
           else do { s \<leftarrow> set_thread (current s) (\<lambda>_. t'\<lparr>th_next := run_queue s\<rparr>) s;
                     Some (s\<lparr>run_queue := current s\<rparr>) });
     set_thread (current s) (\<lambda>x. x\<lparr>th_context := save_context frame (th_context x)\<rparr>) s }"

definition switch_to :: "u64 \<Rightarrow> registers \<Rightarrow> 'a sched_scheme \<Rightarrow> (registers \<times> 'a sched_scheme) option" where
  "switch_to nxt frame s = do {
     s \<leftarrow> set_thread nxt (\<lambda>t. t\<lparr>th_state := THREAD_RUNNING, quantum := SCHEDULER_QUANTUM\<rparr>) s;
     let s = s\<lparr>current := nxt\<rparr>;
     t \<leftarrow> threads s nxt;
     let s = (if r_cs (th_context t) = 0x1B
              then s\<lparr>segs := gdt_update_tss_rsp (kernel_stack_top t) (segs s)\<rparr> else s);
     Some (load_context (th_context t) frame, s) }"

text \<open>The first half of the tick, up to the decrement of the quantum.\<close>

definition tick_charge :: "'a sched_scheme \<Rightarrow> 'a sched_scheme option" where
  "tick_charge s = do {
     s \<leftarrow> wake_loop (run_queue s) s;
     s \<leftarrow> reap_loop NULL (run_queue s) s;
     set_thread (current s) (\<lambda>t. if 0 < quantum t then t\<lparr>quantum := quantum t - 1\<rparr> else t) s }"

definition scheduler_tick_irq :: "registers \<Rightarrow> 'a sched_scheme \<Rightarrow> (registers \<times> 'a sched_scheme) option" where
  "scheduler_tick_irq frame s =
     (if current s = NULL \<or> locked s \<noteq> 0 then Some (frame, s)
      else do {
        s \<leftarrow> tick_charge s;
        t \<leftarrow> threads s (current s);
        if 0 < quantum t then Some (frame, s)
        else do {
          (nxt, s) \<leftarrow> pick_loop NULL (run_queue s) s;
          let nxt = (if nxt = NULL then idle_thread s else nxt);
          s \<leftarrow> (if current s \<noteq> idle_thread s then put_back frame s else Some s);
          switch_to nxt frame s } })"

section \<open>The queue as a list\<close>

definition nexts :: "'a sched_scheme \<Rightarrow> u64 \<Rightarrow> u64 option" where
  "nexts s p = map_option th_next (threads s p)"

abbreviation queue :: "'a sched_scheme \<Rightarrow> u64 list \<Rightarrow> bool" where
  "queue s q \<equiv> linked (nexts s) (run_queue s) q"

lemma nexts_upd:
  "nexts (s\<lparr>threads := (threads s)(p \<mapsto> t)\<rparr>) = (nexts s)(p := Some (th_next t))"
  by (auto simp: nexts_def)

lemma nexts_cong: "threads s' = threads s \<Longrightarrow> nexts s' = nexts s"
  by (simp add: nexts_def fun_eq_iff)

lemma linked_thread:
  assumes "linked (nexts s) p q" "a \<in> set q"
  shows "\<exists>t. threads s a = Some t"
  using linked_nodes [OF assms] by (auto simp: nexts_def)

lemma linked_head:
  assumes "linked (nexts s) p (a # q)"
  shows "\<exists>t. threads s a = Some t \<and> p = a \<and> a \<noteq> NULL \<and> linked (nexts s) (th_next t) q \<and> a \<notin> set q"
  using assms linked_distinct [OF assms] by (auto simp: nexts_def [of s a])

lemma wake_next [simp]: "th_next (wake n t) = th_next t"
  by (simp add: wake_def)

text \<open>Unlinking the node after \<open>l\<close>.\<close>

lemma linked_unlink:
  assumes "linked nx p (bs @ l # n # cs)" "nx n = Some m"
  shows "linked (nx(l := Some m)) p (bs @ l # cs)"
proof -
  have d: "distinct (bs @ l # n # cs)" by (rule linked_distinct [OF assms(1)])
  have "lseg nx p bs l" "l \<noteq> NULL" "linked nx m cs"
    using assms by (auto simp: linked_append)
  then show ?thesis using d by (auto simp: linked_append intro!: exI [of _ l])
qed

definition waked :: "u64 \<Rightarrow> u64 set \<Rightarrow> (u64 \<Rightarrow> thread option) \<Rightarrow> u64 \<Rightarrow> thread option" where
  "waked ticks Q T p = (if p \<in> Q then map_option (wake ticks) (T p) else T p)"

lemma wake_loop_list:
  "linked (nexts s) p q \<Longrightarrow>
   wake_loop p s = Some (s\<lparr>threads := waked (timer_ticks s) (set q) (threads s)\<rparr>)"
proof (induction q arbitrary: p s)
  case Nil
  then show ?case by (simp add: wake_loop.simps [of NULL] waked_def)
next
  case (Cons a q)
  then obtain t where t: "threads s a = Some t" and p: "p = a" "a \<noteq> NULL"
    and rest: "linked (nexts s) (th_next t) q" and a: "a \<notin> set q"
    using linked_head by blast
  let ?s = "s\<lparr>threads := (threads s)(a \<mapsto> wake (timer_ticks s) t)\<rparr>"
  have "linked (nexts ?s) (th_next t) q" using rest a by (simp add: nexts_upd)
  then have "wake_loop (th_next t) ?s = Some (?s\<lparr>threads := waked (timer_ticks ?s) (set q) (threads ?s)\<rparr>)"
    by (rule Cons.IH)
  moreover have "waked (timer_ticks ?s) (set q) (threads ?s) = waked (timer_ticks s) (set (a # q)) (threads s)"
    using t a by (auto simp: waked_def fun_eq_iff)
  ultimately show ?case using p t by (simp add: wake_loop.simps [of a])
qed

lemma reap_loop_alive:
  "linked (nexts s) p q \<Longrightarrow> \<forall>a \<in> set q. \<forall>t. threads s a = Some t \<longrightarrow> th_state t \<noteq> THREAD_DEAD \<Longrightarrow>
   reap_loop prev p s = Some s"
proof (induction q arbitrary: prev p)
  case Nil
  then show ?case by (simp add: reap_loop.simps [of prev NULL])
next
  case (Cons a q)
  obtain t where t: "threads s a = Some t" and rest: "linked (nexts s) (th_next t) q"
    using linked_head [OF Cons.prems(1)] by blast
  from rest have "reap_loop a (th_next t) s = Some s" using Cons.IH Cons.prems(2) by simp
  then show ?case using Cons.prems t by (simp add: reap_loop.simps [of prev a])
qed

definition ready :: "'a sched_scheme \<Rightarrow> u64 \<Rightarrow> bool" where
  "ready s p \<longleftrightarrow> (\<exists>t. threads s p = Some t \<and> th_state t = THREAD_READY)"

lemma pick_loop_none:
  "linked (nexts s) p q \<Longrightarrow> \<forall>a \<in> set q. \<not> ready s a \<Longrightarrow> pick_loop prev p s = Some (NULL, s)"
proof (induction q arbitrary: prev p)
  case Nil
  then show ?case by (simp add: pick_loop.simps [of prev NULL])
next
  case (Cons a q)
  obtain t where t: "threads s a = Some t" and rest: "linked (nexts s) (th_next t) q"
    using linked_head [OF Cons.prems(1)] by blast
  from rest have "pick_loop a (th_next t) s = Some (NULL, s)" using Cons.IH Cons.prems(2) by simp
  then show ?case using Cons.prems t by (simp add: pick_loop.simps [of prev a] ready_def)
qed

lemma pick_loop_some:
  assumes "threads s n = Some tn" "th_state tn = THREAD_READY"
  shows "linked (nexts s) p (bs @ n # cs) \<Longrightarrow> \<forall>a \<in> set bs. \<not> ready s a \<Longrightarrow> prev = NULL \<or> prev \<noteq> n \<Longrightarrow>
   pick_loop prev p s = do {
     s' \<leftarrow> (let l = (if bs = [] then prev else last bs) in
            if l \<noteq> NULL then set_thread l (\<lambda>x. x\<lparr>th_next := th_next tn\<rparr>) s
            else Some (s\<lparr>run_queue := th_next tn\<rparr>));
     Some (n, s') }"
proof (induction bs arbitrary: prev p)
  case Nil
  then have "p = n" "n \<noteq> NULL" by simp_all
  then show ?case using assms by (simp add: pick_loop.simps [of prev n] Let_def)
next
  case (Cons a bs)
  obtain t where t: "threads s a = Some t" and a: "a \<noteq> NULL" "p = a" "a \<notin> set (bs @ n # cs)"
    and rest: "linked (nexts s) (th_next t) (bs @ n # cs)"
    using linked_head [of s p a "bs @ n # cs"] Cons.prems(1) by auto
  note ih = Cons.IH [OF rest, of a]
  have "th_state t \<noteq> THREAD_READY" using Cons.prems(2) t by (simp add: ready_def)
  then have "pick_loop prev p s = pick_loop a (th_next t) s"
    using a t by (simp add: pick_loop.simps [of prev a])
  then show ?case using ih a Cons.prems(2) linked_nodes [OF Cons.prems(1)] by (simp add: Let_def)
qed

section \<open>A scheduler on lists\<close>

text \<open>
  The abstract scheduler knows the queue as a list, the current thread and a table of threads without
  links.
\<close>

definition core :: "thread \<Rightarrow> thread" where
  "core t = t\<lparr>th_next := NULL\<rparr>"

definition table :: "'a sched_scheme \<Rightarrow> u64 \<Rightarrow> thread option" where
  "table s p = map_option core (threads s p)"

definition is_ready :: "(u64 \<Rightarrow> thread option) \<Rightarrow> u64 \<Rightarrow> bool" where
  "is_ready T p \<longleftrightarrow> (\<exists>t. T p = Some t \<and> th_state t = THREAD_READY)"

definition pick_spec :: "u64 \<Rightarrow> u64 list \<Rightarrow> (u64 \<Rightarrow> thread option) \<Rightarrow> u64 \<times> u64 list" where
  "pick_spec idle q T = (case find (is_ready T) q of None \<Rightarrow> (idle, q) | Some p \<Rightarrow> (p, remove1 p q))"

definition put_spec ::
  "u64 \<Rightarrow> registers \<Rightarrow> u64 \<Rightarrow> u64 list \<Rightarrow> (u64 \<Rightarrow> thread option) \<Rightarrow> u64 list \<times> (u64 \<Rightarrow> thread option)" where
  "put_spec idle frame c q T =
     (if c = idle then (q, T)
      else let t = the (T c);
               t' = (if th_state t = THREAD_RUNNING
                     then t\<lparr>th_state := THREAD_READY, quantum := SCHEDULER_QUANTUM\<rparr> else t)
           in (if th_state t = THREAD_DEAD then q else c # q,
               T(c \<mapsto> t'\<lparr>th_context := save_context frame (th_context t)\<rparr>)))"

text \<open>The table after the sleepers are woken and the current thread is charged a tick.\<close>

definition charged :: "u64 \<Rightarrow> u64 list \<Rightarrow> u64 \<Rightarrow> (u64 \<Rightarrow> thread option) \<Rightarrow> u64 \<Rightarrow> thread option" where
  "charged ticks q c T =
     (let T = waked ticks (set q) T; t = the (T c)
      in T(c \<mapsto> (if 0 < quantum t then t\<lparr>quantum := quantum t - 1\<rparr> else t)))"

definition dispatched :: "thread \<Rightarrow> thread" where
  "dispatched t = t\<lparr>th_state := THREAD_RUNNING, quantum := SCHEDULER_QUANTUM\<rparr>"

definition tick_spec ::
  "u64 \<Rightarrow> u64 \<Rightarrow> registers \<Rightarrow> u64 list \<times> u64 \<times> (u64 \<Rightarrow> thread option) \<Rightarrow>
   registers \<times> u64 list \<times> u64 \<times> (u64 \<Rightarrow> thread option)" where
  "tick_spec ticks idle frame = (\<lambda>(q, c, T).
     let T = charged ticks q c T
     in if 0 < quantum (the (T c)) then (frame, q, c, T)
        else let (nxt, q) = pick_spec idle q T;
                 (q, T) = put_spec idle frame c q T;
                 t = the (T nxt)
             in (load_context (th_context t) frame, q, nxt, T(nxt \<mapsto> dispatched t)))"

lemma core_simps [simp]:
  "th_state (core t) = th_state t" "quantum (core t) = quantum t" "th_context (core t) = th_context t"
  "wake_tick (core t) = wake_tick t" "core (core t) = core t"
  "core (t\<lparr>th_next := n\<rparr>) = core t"
  "core (t\<lparr>th_state := st\<rparr>) = (core t)\<lparr>th_state := st\<rparr>"
  "core (t\<lparr>quantum := k\<rparr>) = (core t)\<lparr>quantum := k\<rparr>"
  "core (t\<lparr>th_context := c\<rparr>) = (core t)\<lparr>th_context := c\<rparr>"
  "core (wake m t) = wake m (core t)"
  by (simp_all add: core_def wake_def)

lemma table_upd: "table (s\<lparr>threads := (threads s)(p \<mapsto> t)\<rparr>) = (table s)(p \<mapsto> core t)"
  by (auto simp: table_def fun_eq_iff)

lemma table_cong: "threads s' = threads s \<Longrightarrow> table s' = table s"
  by (simp add: table_def fun_eq_iff)

lemma is_ready_table: "is_ready (table s) p \<longleftrightarrow> ready s p"
  by (auto simp: is_ready_def table_def ready_def)

text \<open>Only the threads and the head of the queue change.\<close>

definition sched_frame :: "'a sched_scheme \<Rightarrow> 'a sched_scheme \<Rightarrow> bool" where
  "sched_frame s s' \<longleftrightarrow> (\<exists>T r. s' = s\<lparr>threads := T, run_queue := r\<rparr>)"

lemma sched_frameI [intro]:
  "sched_frame s (s\<lparr>threads := T\<rparr>)" "sched_frame s (s\<lparr>run_queue := r\<rparr>)"
  "sched_frame s (s\<lparr>threads := T, run_queue := r\<rparr>)" "sched_frame s s"
proof -
  have "s\<lparr>threads := T\<rparr> = s\<lparr>threads := T, run_queue := run_queue s\<rparr>" by simp
  then show "sched_frame s (s\<lparr>threads := T\<rparr>)" unfolding sched_frame_def by blast
  have "s\<lparr>run_queue := r\<rparr> = s\<lparr>threads := threads s, run_queue := r\<rparr>" by simp
  then show "sched_frame s (s\<lparr>run_queue := r\<rparr>)" unfolding sched_frame_def by blast
  show "sched_frame s (s\<lparr>threads := T, run_queue := r\<rparr>)" unfolding sched_frame_def by blast
  have "s = s\<lparr>threads := threads s, run_queue := run_queue s\<rparr>" by simp
  then show "sched_frame s s" unfolding sched_frame_def by blast
qed

lemma sched_frame_trans: "sched_frame s s' \<Longrightarrow> sched_frame s' s'' \<Longrightarrow> sched_frame s s''"
proof -
  assume "sched_frame s s'" "sched_frame s' s''"
  then obtain T r T' r' where "s' = s\<lparr>threads := T, run_queue := r\<rparr>" "s'' = s'\<lparr>threads := T', run_queue := r'\<rparr>"
    unfolding sched_frame_def by blast
  then have "s'' = s\<lparr>threads := T', run_queue := r'\<rparr>" by simp
  then show ?thesis by (simp add: sched_frameI(3))
qed

lemma sched_frameD:
  assumes "sched_frame s s'"
  shows "current s' = current s" "idle_thread s' = idle_thread s" "timer_ticks s' = timer_ticks s"
    "locked s' = locked s"
  using assms by (auto simp: sched_frame_def)

lemma pick_refines:
  assumes q: "queue s q" and nq: "pick_spec idle q (table s) = (nxt, q')"
  shows "\<exists>p s'. pick_loop NULL (run_queue s) s = Some (p, s') \<and> (if p = NULL then idle else p) = nxt \<and>
           queue s' q' \<and> table s' = table s \<and> sched_frame s s'"
proof (cases "find (ready s) q")
  case None
  have "pick_loop NULL (run_queue s) s = Some (NULL, s)"
    using pick_loop_none [OF q] None by (simp add: find_None_iff)
  moreover have "nxt = idle" "q' = q"
    using nq None by (simp_all add: pick_spec_def is_ready_table [abs_def])
  ultimately show ?thesis using q by auto
next
  case (Some n)
  then obtain bs cs where dec: "q = bs @ n # cs" "\<forall>a \<in> set bs. \<not> ready s a" "ready s n"
    using find_split by metis
  obtain tn where tn: "threads s n = Some tn" "th_state tn = THREAD_READY"
    using dec(3) by (auto simp: ready_def)
  have lk: "linked (nexts s) (run_queue s) (bs @ n # cs)" using q dec(1) by simp
  have n: "n \<noteq> NULL" "nexts s n = Some (th_next tn)" using linked_nodes [OF lk, of n] tn by (auto simp: nexts_def)
  have dist: "distinct (bs @ n # cs)" by (rule linked_distinct [OF lk])
  have res: "nxt = n" "q' = bs @ cs"
    using nq Some dist by (auto simp: pick_spec_def is_ready_table [abs_def] dec(1) remove1_append)
  note pk = pick_loop_some [OF tn lk dec(2), of NULL]
  show ?thesis
  proof (cases bs rule: rev_cases)
    case Nil
    let ?s = "s\<lparr>run_queue := th_next tn\<rparr>"
    have "pick_loop NULL (run_queue s) s = Some (n, ?s)" using pk Nil by simp
    moreover have "queue ?s q'"
      using lk Nil res n tn nexts_cong [of ?s s] by (auto simp: nexts_def [of s n])
    moreover have "table ?s = table s" by (rule table_cong) simp
    ultimately show ?thesis using n res by auto
  next
    case (snoc as l)
    have l: "l \<noteq> NULL" "l \<in> set (bs @ n # cs)" using linked_nodes [OF lk, of l] snoc by auto
    then obtain tl where tl: "threads s l = Some tl" using linked_thread [OF lk] by blast
    let ?s = "s\<lparr>threads := (threads s)(l \<mapsto> tl\<lparr>th_next := th_next tn\<rparr>)\<rparr>"
    have "pick_loop NULL (run_queue s) s = Some (n, ?s)"
      using pk snoc l tl by (simp add: set_thread_def)
    moreover have "linked ((nexts s)(l := Some (th_next tn))) (run_queue s) (as @ l # cs)"
      using linked_unlink [of "nexts s" "run_queue s" as l n cs "th_next tn"] lk snoc n(2) by simp
    then have "queue ?s q'" using res snoc by (simp add: nexts_upd)
    moreover have "table ?s = table s" using tl by (auto simp: table_def fun_eq_iff)
    ultimately show ?thesis using n res by auto
  qed
qed

lemma put_refines:
  assumes q: "queue s q" and c: "current s \<notin> set q" "current s \<noteq> NULL" and t: "threads s (current s) \<noteq> None"
    and pq: "put_spec (idle_thread s) frame (current s) q (table s) = (q', T')"
  shows "\<exists>s'. (if current s \<noteq> idle_thread s then put_back frame s else Some s) = Some s' \<and>
           queue s' q' \<and> table s' = T' \<and> sched_frame s s'"
proof (cases "current s = idle_thread s")
  case True
  then show ?thesis using q pq by (auto simp: put_spec_def)
next
  case False
  obtain t where t: "threads s (current s) = Some t" using assms(4) by blast
  have tc: "table s (current s) = Some (core t)" using t by (simp add: table_def)
  define t' where "t' = (if th_state t = THREAD_RUNNING
    then t\<lparr>th_state := THREAD_READY, quantum := SCHEDULER_QUANTUM\<rparr> else t)"
  show ?thesis
  proof (cases "th_state t = THREAD_DEAD")
    case True
    let ?s = "s\<lparr>threads := (threads s)(current s \<mapsto> t\<lparr>th_context := save_context frame (th_context t)\<rparr>)\<rparr>"
    have "put_back frame s = Some ?s" using t True by (simp add: put_back_def set_thread_def)
    moreover have "queue ?s q" using q c by (simp add: nexts_upd)
    moreover have "q' = q" "table ?s = T'"
      using pq False tc True by (auto simp: put_spec_def table_upd)
    ultimately show ?thesis using False by auto
  next
    case alive: False
    let ?t = "t'\<lparr>th_next := run_queue s, th_context := save_context frame (th_context t)\<rparr>"
    let ?s = "s\<lparr>threads := (threads s)(current s \<mapsto> ?t), run_queue := current s\<rparr>"
    have "put_back frame s = Some ?s"
      using t alive by (simp add: put_back_def set_thread_def t'_def Let_def)
    moreover have "nexts ?s = (nexts s)(current s := Some (run_queue s))"
      by (auto simp: nexts_def)
    then have "queue ?s (current s # q)" using q c linked_push [of "nexts s" "run_queue s" q "current s"] by simp
    moreover have "table ?s = (table s)(current s \<mapsto> core ?t)" by (auto simp: table_def)
    moreover have "q' = current s # q" "T' = (table s)(current s \<mapsto> core ?t)"
      using pq False tc alive by (auto simp: put_spec_def t'_def Let_def)
    ultimately show ?thesis using False by (intro exI [of _ ?s]) auto
  qed
qed

text \<open>
  The invariant: the links visit exactly the threads \<open>q\<close>, which are ready or blocked; the current
  thread and the idle thread exist and are not in the queue.
\<close>

definition abs_inv :: "u64 \<Rightarrow> u64 list \<Rightarrow> u64 \<Rightarrow> (u64 \<Rightarrow> thread option) \<Rightarrow> bool" where
  "abs_inv idle q c T \<longleftrightarrow>
     distinct q \<and> (\<forall>p \<in> set q. \<exists>t. T p = Some t \<and> th_state t \<in> {THREAD_READY, THREAD_BLOCKED}) \<and>
     c \<notin> set q \<and> idle \<notin> set q \<and> T c \<noteq> None \<and> T idle \<noteq> None"

definition sched_inv :: "'a sched_scheme \<Rightarrow> u64 list \<Rightarrow> bool" where
  "sched_inv s q \<longleftrightarrow>
     queue s q \<and> current s \<noteq> NULL \<and> idle_thread s \<noteq> NULL \<and> abs_inv (idle_thread s) q (current s) (table s)"

lemma wake_state: "th_state t \<in> {THREAD_READY, THREAD_BLOCKED} \<Longrightarrow> th_state (wake n t) \<in> {THREAD_READY, THREAD_BLOCKED}"
  by (simp add: wake_def)

lemma abs_inv_thread:
  assumes "abs_inv idle q c T" "p \<in> set q"
  obtains t where "T p = Some t" "th_state t \<in> {THREAD_READY, THREAD_BLOCKED}"
proof -
  have "\<forall>p \<in> set q. \<exists>t. T p = Some t \<and> th_state t \<in> {THREAD_READY, THREAD_BLOCKED}"
    using assms(1) by (simp add: abs_inv_def)
  then show thesis using assms(2) that by blast
qed

lemma charged_inv:
  assumes "abs_inv idle q c T"
  shows "abs_inv idle q c (charged ticks q c T)"
proof -
  have "\<exists>t. charged ticks q c T p = Some t \<and> th_state t \<in> {THREAD_READY, THREAD_BLOCKED}" if pq: "p \<in> set q" for p
  proof -
    obtain t where t: "T p = Some t" "th_state t \<in> {THREAD_READY, THREAD_BLOCKED}"
      using abs_inv_thread [OF assms pq] .
    have "p \<noteq> c" using assms pq by (auto simp: abs_inv_def)
    then show ?thesis using t wake_state [OF t(2), of ticks] pq by (simp add: charged_def waked_def Let_def)
  qed
  moreover have "charged ticks q c T c \<noteq> None" "charged ticks q c T idle \<noteq> None"
    using assms by (auto simp: charged_def waked_def Let_def abs_inv_def)
  ultimately show ?thesis using assms by (simp add: abs_inv_def)
qed

lemma pick_spec_cases:
  assumes "abs_inv idle q c T" "pick_spec idle q T = (nxt, q')"
  shows "distinct q'" "set q' \<subseteq> set q" "nxt \<notin> set q'" "nxt = idle \<or> nxt \<in> set q" "T nxt \<noteq> None"
    "nxt = c \<Longrightarrow> c = idle"
proof -
  have "distinct q' \<and> set q' \<subseteq> set q \<and> nxt \<notin> set q' \<and> (nxt = idle \<or> nxt \<in> set q)"
  proof (cases "find (is_ready T) q")
    case None
    then show ?thesis using assms by (simp add: pick_spec_def abs_inv_def)
  next
    case (Some n)
    then have "n \<in> set q" using find_split [OF Some] by auto
    then show ?thesis using assms Some by (auto simp: pick_spec_def abs_inv_def set_remove1_subset)
  qed
  then show "distinct q'" "set q' \<subseteq> set q" "nxt \<notin> set q'" and n: "nxt = idle \<or> nxt \<in> set q" by blast+
  show "T nxt \<noteq> None" "nxt = c \<Longrightarrow> c = idle" using n assms(1) by (auto simp: abs_inv_def)
qed

lemma put_spec_inv:
  assumes inv: "abs_inv idle q c T" and pk: "pick_spec idle q T = (nxt, q1)" and pt: "put_spec idle frame c q1 T = (q2, T2)"
  shows "abs_inv idle q2 nxt T2"
proof -
  note p = pick_spec_cases [OF inv pk]
  have c: "c \<notin> set q1" "idle \<notin> set q1" and tc: "T c \<noteq> None" "T idle \<noteq> None"
    using inv p(2) by (auto simp: abs_inv_def)
  have base: "\<forall>a \<in> set q1. \<exists>t. T a = Some t \<and> th_state t \<in> {THREAD_READY, THREAD_BLOCKED}"
    using inv p(2) by (auto simp: abs_inv_def)
  show ?thesis
  proof (cases "c = idle")
    case True
    then show ?thesis using pt p c base tc by (simp add: put_spec_def abs_inv_def)
  next
    case False
    obtain t where t: "T c = Some t" using tc by blast
    show ?thesis
    proof (cases "th_state t = THREAD_DEAD")
      case True
      then show ?thesis using pt False t p c base tc by (auto simp: put_spec_def Let_def abs_inv_def)
    next
      case alive: False
      then have "th_state t \<in> {THREAD_READY, THREAD_RUNNING, THREAD_BLOCKED}" by (cases "th_state t") simp_all
      then show ?thesis using pt False t p c base tc by (auto simp: put_spec_def Let_def abs_inv_def)
    qed
  qed
qed

lemma tick_spec_inv:
  assumes inv: "abs_inv idle q c T" and tk: "tick_spec ticks idle frame (q, c, T) = (frame', q', c', T')"
  shows "abs_inv idle q' c' T'"
proof -
  let ?T = "charged ticks q c T"
  note inv1 = charged_inv [OF inv, of ticks]
  obtain nxt q1 where pk: "pick_spec idle q ?T = (nxt, q1)" by fastforce
  obtain q2 T2 where pt: "put_spec idle frame c q1 ?T = (q2, T2)" by fastforce
  note inv2 = put_spec_inv [OF inv1 pk pt]
  have "abs_inv idle q2 nxt (T2(nxt \<mapsto> dispatched (the (T2 nxt))))"
    using inv2 by (auto simp: abs_inv_def)
  then show ?thesis
    using tk inv1 pk pt by (auto simp: tick_spec_def Let_def split: if_splits)
qed

lemma table_threads: "table s p \<noteq> None \<longleftrightarrow> threads s p \<noteq> None"
  by (simp add: table_def)

lemma switch_refines:
  assumes q: "queue s q" and t: "table s nxt = Some t"
  shows "\<exists>s'. switch_to nxt frame s = Some (load_context (th_context t) frame, s') \<and> queue s' q \<and>
           table s' = (table s)(nxt \<mapsto> dispatched t) \<and> current s' = nxt \<and> idle_thread s' = idle_thread s \<and>
           locked s' = locked s"
proof -
  obtain u where u: "threads s nxt = Some u" "t = core u" using t by (auto simp: table_def)
  let ?s = "s\<lparr>threads := (threads s)(nxt \<mapsto> u\<lparr>th_state := THREAD_RUNNING, quantum := SCHEDULER_QUANTUM\<rparr>), current := nxt\<rparr>"
  let ?s' = "if r_cs (th_context u) = 0x1B then ?s\<lparr>segs := gdt_update_tss_rsp (kernel_stack_top u) (segs s)\<rparr> else ?s"
  have "switch_to nxt frame s = Some (load_context (th_context t) frame, ?s')"
    using u by (simp add: switch_to_def set_thread_def Let_def)
  moreover have "nexts ?s' = nexts s" using u by (auto simp: nexts_def fun_eq_iff)
  then have "queue ?s' q" using q by simp
  moreover have "table ?s' = (table s)(nxt \<mapsto> dispatched t)"
    using u by (auto simp: table_def fun_eq_iff dispatched_def)
  ultimately show ?thesis by (intro exI [of _ ?s']) auto
qed

lemma charge_refines:
  assumes inv: "sched_inv s q"
  shows "\<exists>s'. tick_charge s = Some s' \<and> queue s' q \<and>
           table s' = charged (timer_ticks s) q (current s) (table s) \<and> sched_frame s s'"
proof -
  have q: "queue s q" and c: "current s \<notin> set q" and ai: "abs_inv (idle_thread s) q (current s) (table s)"
    using inv by (auto simp: sched_inv_def abs_inv_def)
  let ?s1 = "s\<lparr>threads := waked (timer_ticks s) (set q) (threads s)\<rparr>"
  have n1: "nexts ?s1 = nexts s" by (auto simp: nexts_def waked_def fun_eq_iff option.map_comp comp_def)
  have t1: "table ?s1 = waked (timer_ticks s) (set q) (table s)"
    by (auto simp: table_def waked_def fun_eq_iff option.map_comp comp_def)
  have "th_state t \<noteq> THREAD_DEAD" if aq: "a \<in> set q" and ta: "threads ?s1 a = Some t" for a t
  proof -
    obtain u where u: "table s a = Some u" "th_state u \<in> {THREAD_READY, THREAD_BLOCKED}"
      using abs_inv_thread [OF ai aq] .
    have "waked (timer_ticks s) (set q) (table s) a = Some (core t)"
      using ta unfolding t1 [symmetric] by (simp add: table_def)
    then have "core t = wake (timer_ticks s) u" using aq u(1) by (simp add: waked_def)
    then show ?thesis using wake_state [OF u(2), of "timer_ticks s"] core_simps(1) [of t] by auto
  qed
  then have reap: "reap_loop NULL (run_queue ?s1) ?s1 = Some ?s1"
    using reap_loop_alive [of ?s1 "run_queue ?s1" q NULL] q n1 by simp
  obtain t where t: "threads s (current s) = Some t" using ai by (auto simp: abs_inv_def table_def)
  then have t': "threads ?s1 (current s) = Some t" using c by (simp add: waked_def)
  let ?t = "if 0 < quantum t then t\<lparr>quantum := quantum t - 1\<rparr> else t"
  let ?s2 = "?s1\<lparr>threads := (threads ?s1)(current s \<mapsto> ?t)\<rparr>"
  have "queue ?s2 q" using q c n1 by (simp only: nexts_upd) simp
  moreover have "table s (current s) = Some (core t)" using t by (simp add: table_def)
  then have "table ?s2 = charged (timer_ticks s) q (current s) (table s)"
    using c by (simp only: table_upd t1) (simp add: charged_def Let_def waked_def fun_eq_iff)
  moreover have "sched_frame s ?s2" by (rule sched_frame_trans) (rule sched_frameI)+
  moreover have "tick_charge s = Some ?s2"
    using wake_loop_list [OF q] reap t' by (simp add: tick_charge_def set_thread_def)
  ultimately show ?thesis by blast
qed

lemma scheduler_tick_spec:
  assumes "sched_inv s q" "locked s = 0"
    and "tick_spec (timer_ticks s) (idle_thread s) frame (q, current s, table s) = (frame', q', c', T')"
  shows "\<exists>s'. scheduler_tick_irq frame s = Some (frame', s') \<and> sched_inv s' q' \<and>
           current s' = c' \<and> table s' = T' \<and> idle_thread s' = idle_thread s \<and> locked s' = locked s"
proof -
  let ?idle = "idle_thread s"
  have ai: "abs_inv ?idle q (current s) (table s)" and nn: "current s \<noteq> NULL" "?idle \<noteq> NULL"
    using assms(1) by (simp_all add: sched_inv_def)
  let ?T = "charged (timer_ticks s) q (current s) (table s)"
  obtain s1 where s1: "tick_charge s = Some s1" and q1: "queue s1 q" and t1: "table s1 = ?T"
    and f1: "sched_frame s s1"
    using charge_refines [OF assms(1)] by blast
  note inv1 = charged_inv [OF ai, of "timer_ticks s"] and fr1 = sched_frameD [OF f1]
  obtain t where t: "threads s1 (current s) = Some t" "?T (current s) = Some (core t)"
    using inv1 unfolding t1 [symmetric] by (auto simp: abs_inv_def table_def)
  show ?thesis
  proof (cases "0 < quantum t")
    case True
    then have "scheduler_tick_irq frame s = Some (frame, s1)" "frame' = frame" "q' = q" "c' = current s" "T' = ?T"
      using assms(2,3) nn s1 t fr1 by (auto simp: scheduler_tick_irq_def tick_spec_def Let_def)
    then show ?thesis using q1 t1 inv1 nn fr1 by (simp add: sched_inv_def)
  next
    case False
    obtain nxt q2 where pk: "pick_spec ?idle q ?T = (nxt, q2)" by fastforce
    obtain q3 T3 where pt: "put_spec ?idle frame (current s) q2 ?T = (q3, T3)" by fastforce
    obtain p s2 where s2: "pick_loop NULL (run_queue s1) s1 = Some (p, s2)" "(if p = NULL then ?idle else p) = nxt"
      "queue s2 q2" "table s2 = table s1" "sched_frame s1 s2"
      using pick_refines [OF q1, of ?idle nxt q2] pk t1 by auto
    note fr2 = sched_frameD [OF s2(5)] and ps = pick_spec_cases [OF inv1 pk]
    have c: "current s2 \<notin> set q2" "current s2 \<noteq> NULL" "threads s2 (current s2) \<noteq> None"
      using ps(2) inv1 nn fr1 fr2 s2(4) t1 table_threads [of s2 "current s2"] by (auto simp: abs_inv_def)
    obtain s3 where s3: "(if current s2 \<noteq> idle_thread s2 then put_back frame s2 else Some s2) = Some s3"
      "queue s3 q3" "table s3 = T3" "sched_frame s2 s3"
      using put_refines [OF s2(3) c, of frame q3 T3] pt fr1 fr2 s2(4) t1 by auto
    note fr3 = sched_frameD [OF s3(4)] and inv3 = put_spec_inv [OF inv1 pk pt]
    obtain tn where tn: "table s3 nxt = Some tn" using inv3 s3(3) by (auto simp: abs_inv_def)
    obtain s4 where s4: "switch_to nxt frame s3 = Some (load_context (th_context tn) frame, s4)" "queue s4 q3"
      "table s4 = (table s3)(nxt \<mapsto> dispatched tn)" "current s4 = nxt" "idle_thread s4 = idle_thread s3"
      "locked s4 = locked s3"
      using switch_refines [OF s3(2) tn] by blast
    have "scheduler_tick_irq frame s = Some (load_context (th_context tn) frame, s4)"
      using assms(2) nn s1 t(1) False fr1 fr2 s2(1,2) s3(1) s4(1) by (auto simp: scheduler_tick_irq_def Let_def)
    moreover have eq: "frame' = load_context (th_context tn) frame" "q' = q3" "c' = nxt"
        "T' = T3(nxt \<mapsto> dispatched tn)"
      using assms(3) t(2) False pk pt tn s3(3) by (auto simp: tick_spec_def Let_def)
    moreover have "abs_inv ?idle q' c' T'" by (rule tick_spec_inv [OF ai assms(3)])
    moreover have "nxt \<noteq> NULL" using s2(2) nn(2) by (auto split: if_splits)
    ultimately show ?thesis using s4 s3(3) fr1 fr2 fr3 nn by (simp add: sched_inv_def)
  qed
qed

text \<open>
  C2. (refinement) In every state that satisfies the invariant the timer interrupt returns (its three
  loops over the links terminate and touch only existing threads), keeps the invariant, and does to
  the queue, the current thread, the thread table and the interrupt frame exactly what the
  scheduler on lists does: wake the sleepers whose time has come, charge the current thread, and when
  its quantum is used up run the first ready thread of the queue, or the idle thread, with the
  interrupted one put at the front.
\<close>

theorem scheduler_tick_refines:
  assumes "sched_inv s q" "locked s = 0"
    and "tick_spec (timer_ticks s) (idle_thread s) frame (q, current s, table s) = (frame', q', c', T')"
  shows "\<exists>s'. scheduler_tick_irq frame s = Some (frame', s') \<and> sched_inv s' q' \<and>
           current s' = c' \<and> table s' = T'"
  using scheduler_tick_spec [OF assms] by blast

text \<open>Two threads and the idle thread: one running with a tick left, one ready in the queue.\<close>

definition sample_thread :: "thread_state \<Rightarrow> u64 \<Rightarrow> thread" where
  "sample_thread st rip =
     zero_thread\<lparr>th_state := st, quantum := 1, th_context := initial_context rip 0x8000 zero_registers\<rparr>"

definition sample_sched :: sched where
  "sample_sched = apic.extend sample_apic
     (sched.fields
        [0x5000 \<mapsto> sample_thread THREAD_RUNNING 0x111, 0x6000 \<mapsto> sample_thread THREAD_READY 0x222,
         0x9000 \<mapsto> sample_thread THREAD_READY 0x999]
        (\<lambda>_. None) 0 0 0x6000 0x5000 0 0 sample_segments 0x9000 0xA000 0x333 0x999)"

lemma sample_sched_fields:
  "run_queue sample_sched = 0x6000" "current sample_sched = 0x5000" "locked sample_sched = 0"
  "idle_thread sample_sched = 0x9000" "timer_ticks sample_sched = 0"
  "threads sample_sched = [0x5000 \<mapsto> sample_thread THREAD_RUNNING 0x111, 0x6000 \<mapsto> sample_thread THREAD_READY 0x222,
         0x9000 \<mapsto> sample_thread THREAD_READY 0x999]"
  by (simp_all add: sample_sched_def sched.defs apic.defs)

lemma sample_sched_inv: "sched_inv sample_sched [0x6000]"
  by (simp add: sched_inv_def abs_inv_def sample_sched_fields nexts_def table_def sample_thread_def zero_thread_def)

theorem scheduler_tick_refines_witness:
  "\<exists>frame' s'. scheduler_tick_irq zero_registers sample_sched = Some (frame', s') \<and>
     r_rip frame' = 0x222 \<and> sched_inv s' [0x5000] \<and> current s' = 0x6000"
proof -
  obtain f q c T where ts: "tick_spec 0 0x9000 zero_registers ([0x6000], 0x5000, table sample_sched) = (f, q, c, T)"
    by (metis surj_pair)
  have "r_rip f = 0x222 \<and> q = [0x5000] \<and> c = 0x6000"
    using ts
    by (simp add: tick_spec_def charged_def waked_def wake_def pick_spec_def is_ready_def put_spec_def
        sample_sched_fields table_def sample_thread_def zero_thread_def core_def Let_def
        load_context_def initial_context_def) auto
  then show ?thesis
    using scheduler_tick_refines [OF sample_sched_inv, of zero_registers f q c T] ts
    by (auto simp: sample_sched_fields)
qed

section \<open>Fairness\<close>

text \<open>A sequence of timer interrupts, each with the registers of whatever it interrupted.\<close>

primrec run_ticks :: "registers list \<Rightarrow> 'a sched_scheme \<Rightarrow> 'a sched_scheme option" where
  "run_ticks [] s = Some s"
| "run_ticks (f # fs) s = do {
     (f', s) \<leftarrow> scheduler_tick_irq f (s\<lparr>timer_ticks := timer_ticks s + 1\<rparr>);
     run_ticks fs s }"

text \<open>Two threads \<open>x\<close> and \<open>y\<close> keep the processor; \<open>b\<close> waits behind them.\<close>

definition hogged :: "u64 \<Rightarrow> u64 \<Rightarrow> u64 \<Rightarrow> 'a sched_scheme \<Rightarrow> bool" where
  "hogged x y b s \<longleftrightarrow>
     sched_inv s [y, b] \<and> locked s = 0 \<and> current s = x \<and> x \<noteq> idle_thread s \<and>
     (\<exists>t. table s x = Some t \<and> th_state t = THREAD_RUNNING) \<and>
     (\<exists>t. table s y = Some t \<and> th_state t = THREAD_READY)"

lemma sched_inv_ticks [simp]: "sched_inv (s\<lparr>timer_ticks := n\<rparr>) q = sched_inv s q"
  by (simp add: sched_inv_def table_def nexts_def [abs_def] cong: linked_cong) (simp add: table_def [abs_def])

lemma hogged_tick_spec:
  assumes "T x = Some tx" "th_state tx = THREAD_RUNNING" "T y = Some ty" "th_state ty = THREAD_READY"
    and "abs_inv idle [y, b] x T" "x \<noteq> idle"
    and "tick_spec n idle f ([y, b], x, T) = (f', q', c', T')"
  shows "\<exists>u v. {u, v} = {x, y} \<and> c' = u \<and> q' = [v, b] \<and>
           (\<exists>t. T' u = Some t \<and> th_state t = THREAD_RUNNING) \<and> (\<exists>t. T' v = Some t \<and> th_state t = THREAD_READY) \<and> u \<noteq> idle"
proof -
  have ne: "x \<noteq> y" "x \<noteq> b" "y \<noteq> b" "y \<noteq> idle" using assms(5) by (auto simp: abs_inv_def)
  define T1 where "T1 = charged n [y, b] x T"
  have T1: "\<exists>t. T1 x = Some t \<and> th_state t = THREAD_RUNNING" "\<exists>t. T1 y = Some t \<and> th_state t = THREAD_READY"
    using assms(1-4) ne by (auto simp: T1_def charged_def waked_def wake_def Let_def)
  then obtain t1 t2 where t1: "T1 x = Some t1" "th_state t1 = THREAD_RUNNING" and t2: "T1 y = Some t2" "th_state t2 = THREAD_READY"
    by blast
  show ?thesis
  proof (cases "0 < quantum t1")
    case True
    then have "q' = [y, b]" "c' = x" "T' = T1"
      using assms(7) t1(1) by (auto simp: tick_spec_def T1_def [symmetric])
    then show ?thesis using T1 assms(6) by (intro exI [of _ x] exI [of _ y]) auto
  next
    case False
    have pk: "pick_spec idle [y, b] T1 = (y, [b])" using t2 by (simp add: pick_spec_def is_ready_def)
    have "q' = [x, b]" "c' = y" "T' y = Some (dispatched t2)" "\<exists>t. T' x = Some t \<and> th_state t = THREAD_READY"
      using assms(6,7) False t1 t2 ne by (auto simp: tick_spec_def T1_def [symmetric] pk put_spec_def Let_def)
    then show ?thesis using ne by (intro exI [of _ y] exI [of _ x]) (auto simp: dispatched_def)
  qed
qed

lemma hogged_tick:
  assumes "hogged x y b s"
  shows "\<exists>f' s' u v. scheduler_tick_irq f (s\<lparr>timer_ticks := n\<rparr>) = Some (f', s') \<and> {u, v} = {x, y} \<and> hogged u v b s'"
proof -
  let ?s = "s\<lparr>timer_ticks := n\<rparr>"
  have tab: "table ?s = table s" by (rule table_cong) simp
  have inv: "sched_inv ?s [y, b]" and lk: "locked ?s = 0" and c: "current ?s = x" "idle_thread ?s = idle_thread s"
    using assms by (simp_all add: hogged_def)
  obtain tx ty where t: "table s x = Some tx" "th_state tx = THREAD_RUNNING" "table s y = Some ty" "th_state ty = THREAD_READY"
    and x: "x \<noteq> idle_thread s"
    using assms unfolding hogged_def by blast
  have ai: "abs_inv (idle_thread s) [y, b] x (table s)" using assms by (auto simp: hogged_def sched_inv_def)
  obtain f' q' c' T' where ts: "tick_spec n (idle_thread s) f ([y, b], x, table s) = (f', q', c', T')"
    by (metis surj_pair)
  have ts': "tick_spec (timer_ticks ?s) (idle_thread ?s) f ([y, b], current ?s, table ?s) = (f', q', c', T')"
    using ts tab c by simp
  obtain s' where s': "scheduler_tick_irq f ?s = Some (f', s')" "sched_inv s' q'" "current s' = c'" "table s' = T'"
    "idle_thread s' = idle_thread s" "locked s' = 0"
    using scheduler_tick_spec [OF inv lk ts'] c lk by auto
  obtain u v where uv: "{u, v} = {x, y}" "c' = u" "q' = [v, b]" "\<exists>t. T' u = Some t \<and> th_state t = THREAD_RUNNING"
    "\<exists>t. T' v = Some t \<and> th_state t = THREAD_READY" "u \<noteq> idle_thread s"
    using hogged_tick_spec [OF t ai x ts] by blast
  have "hogged u v b s'" using s' uv by (simp add: hogged_def)
  then show ?thesis using s'(1) uv(1) by blast
qed

text \<open>
  C19. (liveness) The interrupted thread goes to the front of the queue and the next one is taken from the
  front, so with three runnable threads two of them pass the processor to and fro: the third is
  never run, however many timer interrupts come.
\<close>

theorem third_thread_starves:
  assumes "hogged x y b s"
  shows "\<exists>s'. run_ticks fs s = Some s' \<and> current s' \<in> {x, y} \<and> current s' \<noteq> b"
proof -
  have "\<exists>s' u v. run_ticks fs s = Some s' \<and> {u, v} = {x, y} \<and> hogged u v b s'"
    using assms
  proof (induction fs arbitrary: x y s)
    case Nil
    then show ?case by auto
  next
    case (Cons f fs)
    obtain f' s1 u v where s1: "scheduler_tick_irq f (s\<lparr>timer_ticks := timer_ticks s + 1\<rparr>) = Some (f', s1)"
      "{u, v} = {x, y}" "hogged u v b s1"
      using hogged_tick [OF Cons.prems] by blast
    then show ?case using Cons.IH [OF s1(3)] by auto
  qed
  then obtain s' u v where s': "run_ticks fs s = Some s'" "{u, v} = {x, y}" "hogged u v b s'" by blast
  then have "current s' = u" "b \<noteq> u" by (auto simp: hogged_def sched_inv_def abs_inv_def)
  then show ?thesis using s'(1,2) by auto
qed

definition sample_three :: sched where
  "sample_three = sample_sched\<lparr>threads :=
     [0x5000 \<mapsto> sample_thread THREAD_RUNNING 0x111, 0x6000 \<mapsto> (sample_thread THREAD_READY 0x222)\<lparr>th_next := 0x7000\<rparr>,
      0x7000 \<mapsto> sample_thread THREAD_READY 0x333, 0x9000 \<mapsto> sample_thread THREAD_READY 0x999]\<rparr>"

theorem third_thread_starves_witness:
  "hogged 0x5000 0x6000 0x7000 sample_three \<and>
   (\<exists>s'. run_ticks (replicate 1000 zero_registers) sample_three = Some s' \<and> current s' \<noteq> 0x7000)"
proof -
  have h: "hogged 0x5000 0x6000 0x7000 sample_three"
    by (simp add: hogged_def sched_inv_def abs_inv_def nexts_def table_def sample_three_def sample_sched_fields
        sample_thread_def zero_thread_def)
  show ?thesis using third_thread_starves [OF h, of "replicate 1000 zero_registers"] h by auto
qed

end
