(* ===== verification/Keyboard.thy ===== *)
theory Keyboard
  imports Prelude
begin

text \<open>
  The PS/2 keyboard driver, \<^verbatim>\<open>drivers/keyboard.c\<close>: the interrupt handler decodes scan codes and
  pushes characters into a ring buffer, \<^verbatim>\<open>keyboard_getchar\<close> takes them out and halts the processor
  while there is none. The ring buffer is shown to be a bounded queue, and the driver to deliver
  exactly the characters a reference decoder gives for the scan codes.
\<close>

section \<open>The driver\<close>

definition KEYBOARD_BUF_SIZE :: nat where
  "KEYBOARD_BUF_SIZE = 256"

record keyboard =
  keyboard_buffer :: "u8 list"
  buf_head :: u8
  buf_tail :: u8
  shift_pressed :: u8
  caps_lock :: u8

definition keyboard_start :: keyboard where
  "keyboard_start =
     \<lparr>keyboard_buffer = replicate KEYBOARD_BUF_SIZE 0, buf_head = 0, buf_tail = 0,
      shift_pressed = 0, caps_lock = 0\<rparr>"

text \<open>The layouts, row by row; \<open>8\<close>, \<open>9\<close>, \<open>10\<close>, \<open>39\<close> and \<open>92\<close> are backspace, tab, newline, the single
  quote and the backslash.\<close>

definition scancode_table :: "u8 list" where
  "scancode_table =
     [0, 0] @ map of_char ''1234567890-='' @
     [8, 9] @ map of_char ''qwertyuiop[]'' @
     [10, 0] @ map of_char ''asdfghjkl;'' @ [39, 96] @
     [0, 92] @ map of_char ''zxcvbnm,./'' @ [0] @ map of_char ''*'' @
     [0] @ map of_char '' ''"

definition scancode_table_shift :: "u8 list" where
  "scancode_table_shift =
     [0, 0] @ map of_char ''!@#$%^&*()_+'' @
     [8, 9] @ map of_char ''QWERTYUIOP{}'' @
     [10, 0] @ map of_char ''ASDFGHJKL:'' @ [34, 126] @
     [0, 124] @ map of_char ''ZXCVBNM<>?'' @ [0] @ map of_char ''*'' @
     [0] @ map of_char '' ''"

text \<open>The index of the next slot, computed in \<^verbatim>\<open>int\<close> and stored in a \<^verbatim>\<open>uint8_t\<close>.\<close>

definition buf_succ :: "u8 \<Rightarrow> u8" where
  "buf_succ i = of_nat ((unat i + 1) mod KEYBOARD_BUF_SIZE)"

definition buf_push :: "u8 \<Rightarrow> keyboard \<Rightarrow> keyboard option" where
  "buf_push c kb =
     (let nxt = buf_succ (buf_head kb) in
      if nxt \<noteq> buf_tail kb then
        if unat (buf_head kb) < length (keyboard_buffer kb) then
          Some (kb\<lparr>keyboard_buffer := (keyboard_buffer kb)[unat (buf_head kb) := c], buf_head := nxt\<rparr>)
        else None
      else Some kb)"

text \<open>\<open>scancode\<close> is the byte that \<^verbatim>\<open>inb(KEYBOARD_DATA_PORT)\<close> reads.\<close>

definition keyboard_handler :: "u8 \<Rightarrow> keyboard \<Rightarrow> keyboard option" where
  "keyboard_handler scancode kb =
     (if scancode AND 0x80 \<noteq> 0 then
        let released = scancode AND 0x7F in
        Some (if released = 0x2A \<or> released = 0x36 then kb\<lparr>shift_pressed := 0\<rparr> else kb)
      else if scancode = 0x2A \<or> scancode = 0x36 then Some (kb\<lparr>shift_pressed := 1\<rparr>)
      else if scancode = 0x3A then Some (kb\<lparr>caps_lock := (if caps_lock kb = 0 then 1 else 0)\<rparr>)
      else if unat scancode < length scancode_table then
        let use_upper = shift_pressed kb XOR caps_lock kb;
            c = (if use_upper \<noteq> 0 then scancode_table_shift ! unat scancode
                 else scancode_table ! unat scancode)
        in if c \<noteq> 0 then buf_push c kb else Some kb
      else Some kb)"

text \<open>The last three lines of \<^verbatim>\<open>keyboard_getchar\<close>, after its waiting loop, in one go.\<close>

definition buf_pop :: "keyboard \<Rightarrow> (u8 \<times> keyboard) option" where
  "buf_pop kb =
     (if unat (buf_tail kb) < length (keyboard_buffer kb) then
        Some (keyboard_buffer kb ! unat (buf_tail kb), kb\<lparr>buf_tail := buf_succ (buf_tail kb)\<rparr>)
      else None)"

text \<open>
  \<^verbatim>\<open>keyboard_getchar\<close> instruction by instruction, because interrupts come at any moment. It is about to compare the indices
  (\<open>Compare\<close>), to execute \<^verbatim>\<open>hlt\<close> (\<open>Before_hlt\<close>), halted (\<open>In_hlt\<close>), about to read the buffer (\<open>Read_char\<close>), or to write \<^verbatim>\<open>buf_tail\<close> back
  with the character already in a register (\<open>Write_tail\<close>). It is assumed that the compiled code reads \<open>buf_head\<close> and \<open>buf_tail\<close> anew in each
  comparison, although they are not declared volatile. An interrupt changes \<open>buf_head\<close> only, so that reading both is one step.
\<close>

datatype position = Compare | Before_hlt | In_hlt | Read_char | Write_tail u8

text \<open>What happens next: the processor executes an instruction, or an interrupt comes, from the keyboard with a scan code or from another device.\<close>

datatype activity = Instruction | Interrupt "u8 option"

datatype getchar_result = Returned u8 keyboard "activity list" | Waiting position keyboard

text \<open>What an interrupt does to the driver, by way of \<^verbatim>\<open>isr_handler\<close>: only that of the keyboard calls it.\<close>

fun interrupt_handled :: "u8 option \<Rightarrow> keyboard \<Rightarrow> keyboard option" where
  "interrupt_handled None kb = Some kb"
| "interrupt_handled (Some sc) kb = keyboard_handler sc kb"

text \<open>Any interrupt ends a halt. The result is \<open>Waiting\<close> if the function has not returned when the activities are over.\<close>

fun keyboard_getchar :: "position \<Rightarrow> keyboard \<Rightarrow> activity list \<Rightarrow> getchar_result option" where
  "keyboard_getchar pos kb [] = Some (Waiting pos kb)"
| "keyboard_getchar pos kb (Interrupt e # acts) = do {
     kb' \<leftarrow> interrupt_handled e kb;
     keyboard_getchar (if pos = In_hlt then Compare else pos) kb' acts }"
| "keyboard_getchar Compare kb (Instruction # acts) = keyboard_getchar (if buf_head kb = buf_tail kb then Before_hlt else Read_char) kb acts"
| "keyboard_getchar Before_hlt kb (Instruction # acts) = keyboard_getchar In_hlt kb acts"
| "keyboard_getchar In_hlt kb (Instruction # acts) = keyboard_getchar In_hlt kb acts"
| "keyboard_getchar Read_char kb (Instruction # acts) =
     (if unat (buf_tail kb) < length (keyboard_buffer kb)
      then keyboard_getchar (Write_tail (keyboard_buffer kb ! unat (buf_tail kb))) kb acts else None)"
| "keyboard_getchar (Write_tail c) kb (Instruction # acts) = Some (Returned c (kb\<lparr>buf_tail := buf_succ (buf_tail kb)\<rparr>) acts)"

section \<open>Bounded queues\<close>

text \<open>
  What the driver needs of its buffer: \<open>push\<close> appends unless \<open>cap\<close> elements are waiting, and
  then drops the new one; \<open>pop\<close> takes the oldest.
\<close>

locale bounded_queue =
  fixes inv :: "'s \<Rightarrow> bool"
    and push :: "'c \<Rightarrow> 's \<Rightarrow> 's option"
    and pop :: "'s \<Rightarrow> ('c \<times> 's) option"
    and view :: "'s \<Rightarrow> 'c list"
    and cap :: nat
  assumes push: "inv s \<Longrightarrow> \<exists>s'. push c s = Some s' \<and> inv s' \<and> view s' = take cap (view s @ [c])"
    and pop: "inv s \<Longrightarrow> view s = c # cs \<Longrightarrow> \<exists>s'. pop s = Some (c, s') \<and> inv s' \<and> view s' = cs"
    and bounded: "inv s \<Longrightarrow> length (view s) \<le> cap"
begin

primrec push_all :: "'c list \<Rightarrow> 's \<Rightarrow> 's option" where
  "push_all [] s = Some s"
| "push_all (c # cs) s = do { s' \<leftarrow> push c s; push_all cs s' }"

primrec pop_many :: "nat \<Rightarrow> 's \<Rightarrow> ('c list \<times> 's) option" where
  "pop_many 0 s = Some ([], s)"
| "pop_many (Suc n) s = do { (c, s') \<leftarrow> pop s; (cs, s'') \<leftarrow> pop_many n s'; Some (c # cs, s'') }"

lemma push_all_view:
  "inv s \<Longrightarrow> \<exists>s'. push_all cs s = Some s' \<and> inv s' \<and> view s' = take cap (view s @ cs)"
proof (induction cs arbitrary: s)
  case Nil
  then show ?case using bounded [of s] by simp
next
  case (Cons c cs)
  obtain t where t: "push c s = Some t" "inv t" "view t = take cap (view s @ [c])"
    using push [OF Cons.prems, of c] by auto
  obtain s' where s': "push_all cs t = Some s'" "inv s'" "view s' = take cap (view t @ cs)"
    using Cons.IH [OF t(2)] by auto
  have "take cap (take cap xs @ ys) = take cap (xs @ ys)" for xs ys :: "'c list"
    by (cases "length xs \<le> cap") (simp_all add: min_def)
  then have "view s' = take cap (view s @ c # cs)"
    using s'(3) t(3) by (metis append.assoc append_Cons append_Nil)
  then show ?case using t(1) s'(1,2) by simp
qed

lemma pop_many_view:
  "inv s \<Longrightarrow> n \<le> length (view s) \<Longrightarrow>
     \<exists>s'. pop_many n s = Some (take n (view s), s') \<and> inv s' \<and> view s' = drop n (view s)"
proof (induction n arbitrary: s)
  case 0
  then show ?case by simp
next
  case (Suc n)
  then obtain c cs where cs: "view s = c # cs" by (cases "view s") auto
  obtain t where t: "pop s = Some (c, t)" "inv t" "view t = cs"
    using pop [OF Suc.prems(1) cs] by auto
  obtain s' where "pop_many n t = Some (take n (view t), s')" "inv s'" "view s' = drop n (view t)"
    using Suc.IH [OF t(2)] Suc.prems(2) cs t(3) by auto
  then show ?case using t cs by simp
qed

text \<open>Up to \<open>cap\<close> elements come out of an empty queue in the order they went in.\<close>

lemma fifo:
  assumes "inv s" "view s = []" "length cs \<le> cap"
  shows "\<exists>s' s''. push_all cs s = Some s' \<and> pop_many (length cs) s' = Some (cs, s'') \<and> view s'' = []"
proof -
  obtain s' where s': "push_all cs s = Some s'" "inv s'" "view s' = cs"
    using push_all_view [OF assms(1), of cs] assms(2,3) by auto
  then show ?thesis using pop_many_view [OF s'(2), of "length cs"] by auto
qed

end

section \<open>The ring buffer is a bounded queue\<close>

definition keyboard_ok :: "keyboard \<Rightarrow> bool" where
  "keyboard_ok kb \<longleftrightarrow> length (keyboard_buffer kb) = KEYBOARD_BUF_SIZE \<and>
     shift_pressed kb \<in> {0, 1} \<and> caps_lock kb \<in> {0, 1}"

definition pending :: "keyboard \<Rightarrow> u8 list" where
  "pending kb =
     map (\<lambda>k. keyboard_buffer kb ! unat (buf_tail kb + of_nat k)) [0..<unat (buf_head kb - buf_tail kb)]"

lemma buf_succ [simp]: "buf_succ i = i + 1"
proof -
  have "unat (buf_succ i) = unat (i + 1)"
    by (simp add: buf_succ_def KEYBOARD_BUF_SIZE_def unat_word_ariths unsigned_of_nat take_bit_eq_mod)
  then show ?thesis by (simp add: word_unat_eq_iff)
qed

lemma unat_u8_inject: "n < 256 \<Longrightarrow> unat (of_nat n :: u8) = n"
  by (simp add: unsigned_of_nat take_bit_nat_eq_self)

lemma keyboard_index [simp]: "keyboard_ok kb \<Longrightarrow> unat (i :: u8) < length (keyboard_buffer kb)"
  using unat_u8_less [of i] by (simp add: keyboard_ok_def KEYBOARD_BUF_SIZE_def)

lemma length_pending [simp]: "length (pending kb) = unat (buf_head kb - buf_tail kb)"
  by (simp add: pending_def)

lemma pending_Nil: "pending kb = [] \<longleftrightarrow> buf_head kb = buf_tail kb"
  by (simp flip: length_0_conv add: unat_eq_zero)

lemma ring_slot:
  assumes "k < unat (h - t :: u8)"
  shows "t + of_nat k \<noteq> h"
proof
  assume "t + of_nat k = h"
  then have "h - t = of_nat k" by (simp add: diff_eq_eq add.commute)
  then show False using assms unat_u8_less [of "h - t"] unat_u8_inject [of k] by simp
qed

lemma ring_length_succ:
  assumes "h + 1 \<noteq> (t :: u8)"
  shows "unat (h + 1 - t) = Suc (unat (h - t))" "unat (h - t) < 255"
proof -
  have eq: "h + 1 - t = 1 + (h - t)" by simp
  have "1 + (h - t) \<noteq> 0" using assms by (simp flip: eq)
  then show *: "unat (h + 1 - t) = Suc (unat (h - t))" unfolding eq by (rule unatSuc)
  show "unat (h - t) < 255" using unat_u8_less [of "h + 1 - t"] unfolding * by simp
qed

lemma ring_length_full: "h + 1 = (t :: u8) \<Longrightarrow> unat (h - t) = 255"
proof -
  assume "h + 1 = t"
  then have "h - t = 255" by (simp flip: eq_diff_eq)
  then show ?thesis by simp
qed

lemma buf_push_queue:
  assumes "keyboard_ok kb"
  shows "\<exists>kb'. buf_push c kb = Some kb' \<and> keyboard_ok kb' \<and> pending kb' = take 255 (pending kb @ [c])"
proof (cases "buf_head kb + 1 = buf_tail kb")
  case True
  then show ?thesis
    using assms ring_length_full [OF True] by (simp add: buf_push_def Let_def)
next
  case False
  let ?kb = "kb\<lparr>keyboard_buffer := (keyboard_buffer kb)[unat (buf_head kb) := c],
               buf_head := buf_head kb + 1\<rparr>"
  note len = ring_length_succ [OF False]
  have slot: "unat (buf_head kb) \<noteq> unat (buf_tail kb + of_nat k)" if "k < unat (buf_head kb - buf_tail kb)" for k
    using ring_slot [OF that] by (metis word_unat_eq_iff)
  have top: "buf_tail kb + of_nat (unat (buf_head kb - buf_tail kb)) = buf_head kb" by simp
  have "pending ?kb = pending kb @ [c]"
    using assms len slot by (auto simp: pending_def top intro!: nth_list_update_neq)
  then show ?thesis
    using False assms len by (simp add: buf_push_def Let_def) (simp add: keyboard_ok_def)
qed

lemma buf_pop_queue:
  assumes "keyboard_ok kb" "pending kb = c # cs"
  shows "\<exists>kb'. buf_pop kb = Some (c, kb') \<and> keyboard_ok kb' \<and> pending kb' = cs"
proof -
  let ?kb = "kb\<lparr>buf_tail := buf_tail kb + 1\<rparr>"
  have "buf_head kb \<noteq> buf_tail kb" using assms(2) pending_Nil [of kb] by auto
  then have "1 + (buf_head kb - (buf_tail kb + 1)) \<noteq> 0" by simp
  then have len: "unat (buf_head kb - buf_tail kb) = Suc (unat (buf_head kb - (buf_tail kb + 1)))"
    by (subst unatSuc [symmetric]) simp_all
  have "pending kb = keyboard_buffer kb ! unat (buf_tail kb) # pending ?kb"
    by (simp add: pending_def len map_upt_Suc algebra_simps del: upt_Suc)
  then have "c = keyboard_buffer kb ! unat (buf_tail kb)" "cs = pending ?kb"
    using assms(2) by simp_all
  then show ?thesis using assms(1) by (simp add: buf_pop_def) (simp add: keyboard_ok_def)
qed

interpretation ring: bounded_queue keyboard_ok buf_push buf_pop pending 255
proof
  show "length (pending kb) \<le> 255" if "keyboard_ok kb" for kb
    using unat_u8_less [of "buf_head kb - buf_tail kb"] by simp
qed (fact buf_push_queue buf_pop_queue)+

section \<open>What the driver delivers\<close>

text \<open>
  The reference decoder: the characters that a sequence of scan codes stands for, with the two
  modifiers as truth values. Codes with bit 7 set are key releases.
\<close>

definition key_char :: "bool \<Rightarrow> u8 \<Rightarrow> u8 list" where
  "key_char upper sc =
     (if unat sc < 58 then
        filter (\<lambda>c. c \<noteq> 0) [(if upper then scancode_table_shift else scancode_table) ! unat sc]
      else [])"

fun typed :: "bool \<Rightarrow> bool \<Rightarrow> u8 list \<Rightarrow> u8 list" where
  "typed shift caps [] = []"
| "typed shift caps (sc # scs) =
     (if sc \<in> {0x2A, 0x36} then typed True caps scs
      else if sc \<in> {0xAA, 0xB6} then typed False caps scs
      else if sc = 0x3A then typed shift (\<not> caps) scs
      else key_char (shift \<noteq> caps) sc @ typed shift caps scs)"

lemma tables_length [simp]: "length scancode_table = 58" "length scancode_table_shift = 58"
  by (simp_all add: scancode_table_def scancode_table_shift_def)

lemma unat_and_7F: "unat (sc AND 0x7F :: u8) = unat sc mod 128"
proof -
  have "(0x7F :: u8) = mask 7" by (simp add: mask_eq_exp_minus_1)
  then have "sc AND 0x7F = take_bit 7 sc" by (simp add: take_bit_eq_mask)
  also have "\<dots> = sc mod 128" by (simp add: take_bit_eq_mod)
  finally have "sc AND 0x7F = sc mod 128" .
  then show ?thesis by (simp add: unat_mod)
qed

lemma high_bit_iff: "(sc :: u8) AND 0x80 = 0 \<longleftrightarrow> unat sc < 128"
proof -
  have neg: "(0x80 :: u8) = NOT 0x7F" by simp
  have "(sc AND NOT 0x7F) + (sc AND 0x7F) = (sc AND NOT 0x7F) OR (sc AND 0x7F)"
    by (rule disjunctive_add_eq_or) (simp add: bit_eq_iff bit_simps)
  also have "\<dots> = sc" by (rule bit_eqI) (auto simp: bit_simps)
  finally have "(sc AND 0x80) + (sc AND 0x7F) = sc" unfolding neg .
  then have "sc AND 0x80 = 0 \<longleftrightarrow> sc AND 0x7F = sc" by (metis add.right_neutral add.commute add_left_cancel)
  also have "\<dots> \<longleftrightarrow> unat sc mod 128 = unat sc" by (simp add: word_unat_eq_iff unat_and_7F)
  also have "\<dots> \<longleftrightarrow> unat sc < 128" by (metis mod_less mod_less_divisor zero_less_numeral)
  finally show ?thesis .
qed

lemma release_codes:
  assumes "(sc :: u8) AND 0x80 \<noteq> 0"
  shows "sc AND 0x7F = 0x2A \<longleftrightarrow> sc = 0xAA" "sc AND 0x7F = 0x36 \<longleftrightarrow> sc = 0xB6"
proof -
  have "128 \<le> unat sc" "unat sc < 256" using assms high_bit_iff [of sc] unat_u8_less by simp_all
  then have m: "unat sc mod 128 = unat sc - 128" by (simp add: le_mod_geq)
  have "unat (0x2A :: u8) = 42" "unat (0x36 :: u8) = 54" "unat (0xAA :: u8) = 170" "unat (0xB6 :: u8) = 182"
    by simp_all
  then show "sc AND 0x7F = 0x2A \<longleftrightarrow> sc = 0xAA" "sc AND 0x7F = 0x36 \<longleftrightarrow> sc = 0xB6"
    unfolding word_unat_eq_iff unat_and_7F m by linarith+
qed

abbreviation shift_down :: "keyboard \<Rightarrow> bool" where
  "shift_down kb \<equiv> shift_pressed kb \<noteq> 0"

abbreviation caps_on :: "keyboard \<Rightarrow> bool" where
  "caps_on kb \<equiv> caps_lock kb \<noteq> 0"

text \<open>One interrupt is one step of the decoder; a full buffer drops the character.\<close>

definition handled :: "u8 \<Rightarrow> keyboard \<Rightarrow> keyboard \<Rightarrow> bool" where
  "handled sc kb kb' \<longleftrightarrow> keyboard_ok kb' \<and>
     pending kb' = take 255 (pending kb @ typed (shift_down kb) (caps_on kb) [sc]) \<and>
     (\<forall>scs. typed (shift_down kb) (caps_on kb) (sc # scs) =
        typed (shift_down kb) (caps_on kb) [sc] @ typed (shift_down kb') (caps_on kb') scs)"

lemma take_pending: "take 255 (pending kb) = pending kb"
  using unat_u8_less [of "buf_head kb - buf_tail kb"] by simp

lemma upper_case: "keyboard_ok kb \<Longrightarrow> shift_pressed kb XOR caps_lock kb \<noteq> 0 \<longleftrightarrow> shift_down kb \<noteq> caps_on kb"
  by (auto simp: keyboard_ok_def)

lemma pending_modifiers [simp]:
  "pending (kb\<lparr>shift_pressed := v\<rparr>) = pending kb" "pending (kb\<lparr>caps_lock := v\<rparr>) = pending kb"
  by (simp_all add: pending_def)

lemma buf_push_modifiers:
  "buf_push c kb = Some kb' \<Longrightarrow> shift_pressed kb' = shift_pressed kb \<and> caps_lock kb' = caps_lock kb"
  by (auto simp: buf_push_def Let_def split: if_splits)

lemma keyboard_handler_plain:
  assumes ok: "keyboard_ok kb" and low: "unat sc < 128" and key: "sc \<notin> {0x2A, 0x36, 0x3A}"
  shows "\<exists>kb'. keyboard_handler sc kb = Some kb' \<and> handled sc kb kb'"
proof -
  have ne: "sc \<noteq> 0xAA" "sc \<noteq> 0xB6" using low by auto
  have h: "keyboard_handler sc kb =
      (case key_char (shift_down kb \<noteq> caps_on kb) sc of [] \<Rightarrow> Some kb | c # _ \<Rightarrow> buf_push c kb)"
    using low key upper_case [OF ok]
    by (simp add: keyboard_handler_def high_bit_iff key_char_def Let_def)
  show ?thesis
  proof (cases "key_char (shift_down kb \<noteq> caps_on kb) sc")
    case Nil
    then show ?thesis using h ok key ne by (simp add: handled_def take_pending)
  next
    case (Cons c cs)
    then have one: "key_char (shift_down kb \<noteq> caps_on kb) sc = [c]"
      by (auto simp: key_char_def split: if_splits)
    obtain kb' where kb': "buf_push c kb = Some kb'" "keyboard_ok kb'" "pending kb' = take 255 (pending kb @ [c])"
      using ring.push [OF ok] by blast
    then show ?thesis using h one key ne buf_push_modifiers [OF kb'(1)] by (simp add: handled_def)
  qed
qed

lemma keyboard_handler_step:
  assumes ok: "keyboard_ok kb"
  shows "\<exists>kb'. keyboard_handler sc kb = Some kb' \<and> handled sc kb kb'"
proof (cases "unat sc < 128")
  case True
  consider "sc \<in> {0x2A, 0x36}" | "sc = 0x3A" | "sc \<notin> {0x2A, 0x36, 0x3A}" by blast
  then show ?thesis
  proof cases
    case 1
    then show ?thesis using ok
      by (auto simp: keyboard_handler_def handled_def take_pending keyboard_ok_def)
  next
    case 2
    then show ?thesis using ok
      by (auto simp: keyboard_handler_def handled_def take_pending keyboard_ok_def)
  next
    case 3
    then show ?thesis using ok True by (rule keyboard_handler_plain [rotated -1])
  qed
next
  case False
  then have up: "sc AND 0x80 \<noteq> 0" by (simp add: high_bit_iff)
  have ne: "sc \<noteq> 0x2A" "sc \<noteq> 0x36" "sc \<noteq> 0x3A" using False by auto
  have none: "key_char u sc = []" for u using False by (simp add: key_char_def)
  show ?thesis using up ne ok none release_codes [OF up]
    by (auto simp: keyboard_handler_def Let_def handled_def take_pending keyboard_ok_def)
qed

text \<open>The interrupts of a sequence of scan codes, one after the other.\<close>

primrec keyboard_run :: "u8 list \<Rightarrow> keyboard \<Rightarrow> keyboard option" where
  "keyboard_run [] kb = Some kb"
| "keyboard_run (sc # scs) kb = do { kb' \<leftarrow> keyboard_handler sc kb; keyboard_run scs kb' }"

lemma take_append_take: "take n (take n xs @ ys) = take n (xs @ ys)"
  by (cases "length xs \<le> n") (simp_all add: min_def)

lemma keyboard_run_typed:
  "keyboard_ok kb \<Longrightarrow> \<exists>kb'. keyboard_run scs kb = Some kb' \<and> keyboard_ok kb' \<and>
     pending kb' = take 255 (pending kb @ typed (shift_down kb) (caps_on kb) scs)"
proof (induction scs arbitrary: kb)
  case Nil
  then show ?case by (simp add: take_pending)
next
  case (Cons sc scs)
  obtain t where t: "keyboard_handler sc kb = Some t" and h: "handled sc kb t"
    using keyboard_handler_step [OF Cons.prems] by blast
  let ?first = "typed (shift_down kb) (caps_on kb) [sc]"
  have ok: "keyboard_ok t" and p: "pending t = take 255 (pending kb @ ?first)"
    and split: "typed (shift_down kb) (caps_on kb) (sc # scs) =
      ?first @ typed (shift_down t) (caps_on t) scs"
    using h unfolding handled_def by blast+
  obtain kb' where kb': "keyboard_run scs t = Some kb'" "keyboard_ok kb'"
    "pending kb' = take 255 (pending t @ typed (shift_down t) (caps_on t) scs)"
    using Cons.IH [OF ok] by blast
  have "pending kb' = take 255 (pending kb @ typed (shift_down kb) (caps_on kb) (sc # scs))"
    unfolding kb'(3) p split take_append_take by simp
  then show ?case using t kb' by simp
qed

text \<open>
  C11. (refinement) From any well-formed driver state the interrupts of any sequence of scan codes
  are handled without leaving the arrays, and the characters then waiting are those that were
  waiting before followed by what the reference decoder gives for the codes, in order, cut to
  the 255 that the buffer holds: nothing is lost, repeated or reordered below that bound, and the
  newest characters are the ones dropped above it.
\<close>

theorem keyboard_delivers:
  assumes "keyboard_ok kb"
  shows "\<exists>kb'. keyboard_run scs kb = Some kb' \<and> keyboard_ok kb' \<and>
           pending kb' = take 255 (pending kb @ typed (shift_pressed kb \<noteq> 0) (caps_lock kb \<noteq> 0) scs)"
  by (rule keyboard_run_typed [OF assms])

lemma keyboard_start_ok: "keyboard_ok keyboard_start" "pending keyboard_start = []"
  by (simp_all add: keyboard_ok_def keyboard_start_def pending_def)

text \<open>Typing an upper-case and a lower-case letter.\<close>

theorem keyboard_delivers_witness:
  "keyboard_ok keyboard_start \<and>
   (\<exists>kb'. keyboard_run [0x2A, 0x23, 0xA3, 0xAA, 0x17] keyboard_start = Some kb' \<and> keyboard_ok kb' \<and>
      pending kb' = map of_char ''Hi'')"
proof -
  have "typed False False [0x2A, 0x23, 0xA3, 0xAA, 0x17] = map of_char ''Hi''"
    by (simp add: key_char_def scancode_table_def scancode_table_shift_def)
  then show ?thesis
    using keyboard_delivers [of keyboard_start "[0x2A, 0x23, 0xA3, 0xAA, 0x17]"] keyboard_start_ok
    by (simp add: keyboard_start_def)
qed

section \<open>Waiting for a character\<close>

definition scancodes :: "activity list \<Rightarrow> u8 list" where
  "scancodes acts = List.map_filter (\<lambda>a. case a of Instruction \<Rightarrow> None | Interrupt e \<Rightarrow> e) acts"

lemma scancodes_simps [simp]:
  "scancodes [] = []" "scancodes (Instruction # acts) = scancodes acts" "scancodes (Interrupt None # acts) = scancodes acts"
  "scancodes (Interrupt (Some sc) # acts) = sc # scancodes acts"
  by (simp_all add: scancodes_def map_filter_simps)

lemma scancodes_append: "scancodes (xs @ ys) = scancodes xs @ scancodes ys"
  by (simp add: scancodes_def map_filter_def)

text \<open>What the buffer holds after the activities, if nothing is taken out.\<close>

definition arrived :: "keyboard \<Rightarrow> activity list \<Rightarrow> u8 list" where
  "arrived kb acts = take 255 (pending kb @ typed (shift_down kb) (caps_on kb) (scancodes acts))"

lemma arrived_Step [simp]: "arrived kb (Instruction # acts) = arrived kb acts"
  by (simp add: arrived_def)

lemma arrived_Nil [simp]: "arrived kb [] = pending kb"
  by (simp add: arrived_def take_pending)

lemma interrupt_arrived:
  assumes "keyboard_ok kb"
  shows "\<exists>kb'. interrupt_handled e kb = Some kb' \<and> keyboard_ok kb' \<and> (\<forall>acts. arrived kb (Interrupt e # acts) = arrived kb' acts)"
proof (cases e)
  case None
  then show ?thesis using assms by (simp add: arrived_def)
next
  case (Some sc)
  obtain t where t: "keyboard_handler sc kb = Some t" and h: "handled sc kb t" using keyboard_handler_step [OF assms] by blast
  let ?first = "typed (shift_down kb) (caps_on kb) [sc]"
  have ok: "keyboard_ok t" and p: "pending t = take 255 (pending kb @ ?first)"
    and split: "\<And>scs. typed (shift_down kb) (caps_on kb) (sc # scs) = ?first @ typed (shift_down t) (caps_on t) scs"
    using h unfolding handled_def by blast+
  have "arrived kb (Interrupt e # acts) = arrived t acts" for acts
    unfolding arrived_def Some scancodes_simps split [of "scancodes acts"] p take_append_take by (simp del: typed.simps)
  then show ?thesis using t ok Some by simp
qed

text \<open>What the position in the code says of the buffer.\<close>

fun position_ok :: "position \<Rightarrow> keyboard \<Rightarrow> bool" where
  "position_ok Read_char kb \<longleftrightarrow> pending kb \<noteq> []"
| "position_ok (Write_tail c) kb \<longleftrightarrow> (\<exists>cs. pending kb = c # cs)"
| "position_ok _ kb \<longleftrightarrow> True"

lemma pending_grows:
  assumes "keyboard_ok kb" "interrupt_handled e kb = Some kb'"
  shows "\<exists>cs. pending kb' = pending kb @ cs"
proof -
  have "pending kb' = arrived kb [Interrupt e]" using interrupt_arrived [OF assms(1), of e] assms(2) by auto
  also have "\<dots> = take 255 (pending kb) @ take (255 - length (pending kb)) (typed (shift_down kb) (caps_on kb) (scancodes [Interrupt e]))"
    by (simp add: arrived_def del: length_pending)
  finally show ?thesis unfolding take_pending by blast
qed

lemma position_ok_interrupt:
  assumes "keyboard_ok kb" "interrupt_handled e kb = Some kb'" "position_ok pos kb"
  shows "position_ok (if pos = In_hlt then Compare else pos) kb'"
  using pending_grows [OF assms(1,2)] assms(3) by (cases pos) auto

lemma buf_tail_pending:
  assumes "keyboard_ok kb" "pending kb = c # cs"
  shows "keyboard_buffer kb ! unat (buf_tail kb) = c" "keyboard_ok (kb\<lparr>buf_tail := buf_succ (buf_tail kb)\<rparr>)"
    "pending (kb\<lparr>buf_tail := buf_succ (buf_tail kb)\<rparr>) = cs"
  using ring.pop [OF assms] assms(1) by (auto simp: buf_pop_def split: if_splits)

text \<open>
  Enough for the function to return: a character has arrived after \<open>xs\<close>; then the processor executes at least one instruction, an interrupt
  from any device comes, and the processor executes three more.
\<close>

definition served :: "keyboard \<Rightarrow> activity list \<Rightarrow> bool" where
  "served kb acts \<longleftrightarrow>
     (\<exists>xs us e vs. acts = xs @ us @ Interrupt e # vs \<and> arrived kb xs \<noteq> [] \<and> Instruction \<in> set us \<and> 3 \<le> count_list vs Instruction)"

text \<open>How \<^verbatim>\<open>keyboard_getchar\<close> ends on the activities \<open>acts\<close>: the character is the oldest one that had arrived before.\<close>

fun getchar_end :: "keyboard \<Rightarrow> activity list \<Rightarrow> getchar_result \<Rightarrow> bool" where
  "getchar_end kb acts (Returned c kb' rest) \<longleftrightarrow>
     keyboard_ok kb' \<and> (\<exists>pre. acts = pre @ rest \<and> c # pending kb' = arrived kb pre)"
| "getchar_end kb acts (Waiting pos kb') \<longleftrightarrow> keyboard_ok kb' \<and> pending kb' = arrived kb acts \<and> position_ok pos kb'"

lemma getchar_end_Step: "getchar_end kb acts r \<Longrightarrow> getchar_end kb (Instruction # acts) r"
  by (cases r) (auto intro: exI [of _ "Instruction # _"])

lemma getchar_end_Irq:
  assumes "\<forall>as. arrived kb (Interrupt e # as) = arrived kb' as" "getchar_end kb' acts r"
  shows "getchar_end kb (Interrupt e # acts) r"
  using assms by (cases r) (auto intro: exI [of _ "Interrupt e # _"])

lemma keyboard_getchar_ends:
  "keyboard_ok kb \<Longrightarrow> position_ok pos kb \<Longrightarrow> \<exists>r. keyboard_getchar pos kb acts = Some r \<and> getchar_end kb acts r"
proof (induction pos kb acts rule: keyboard_getchar.induct)
  case (2 pos kb e acts)
  obtain kb' where kb': "interrupt_handled e kb = Some kb'" "keyboard_ok kb'" "\<forall>as. arrived kb (Interrupt e # as) = arrived kb' as"
    using interrupt_arrived [OF 2(2)] by blast
  then show ?case
    using 2(1) [OF kb'(1,2) position_ok_interrupt [OF 2(2) kb'(1) 2(3)]] getchar_end_Irq [OF kb'(3)] by auto
next
  case (3 kb acts)
  have "position_ok (if buf_head kb = buf_tail kb then Before_hlt else Read_char) kb" by (simp add: pending_Nil)
  then show ?case using 3(1) [OF 3(2)] getchar_end_Step by auto
next
  case (6 kb acts)
  then obtain c cs where "pending kb = c # cs" by (cases "pending kb") auto
  then show ?case using 6 buf_tail_pending(1) [OF 6(2)] getchar_end_Step by auto
next
  case (7 c kb acts)
  then obtain cs where cs: "pending kb = c # cs" by auto
  have "getchar_end kb (Instruction # acts) (Returned c (kb\<lparr>buf_tail := buf_succ (buf_tail kb)\<rparr>) acts)"
    using buf_tail_pending(2,3) [OF 7(1) cs] cs by (auto intro!: exI [of _ "[Instruction]"])
  then show ?case by auto
qed (use getchar_end_Step in auto)

lemma keyboard_getchar_append:
  "keyboard_getchar pos kb (xs @ ys) = do {
     r \<leftarrow> keyboard_getchar pos kb xs;
     case r of Returned c kb' rest \<Rightarrow> Some (Returned c kb' (rest @ ys)) | Waiting pos' kb' \<Rightarrow> keyboard_getchar pos' kb' ys }"
  by (induction pos kb xs rule: keyboard_getchar.induct) (auto split: bind_splits)

text \<open>With a character in the buffer \<^verbatim>\<open>hlt\<close> is not reached any more, but it may be the next instruction.\<close>

lemma waiting_halt:
  assumes "keyboard_ok kb" "pending kb \<noteq> []" "keyboard_getchar pos kb us = Some (Waiting pos' kb')" "pos \<noteq> Before_hlt \<or> Instruction \<in> set us"
  shows "pos' \<noteq> Before_hlt"
  using assms
proof (induction pos kb us rule: keyboard_getchar.induct)
  case (2 pos kb e acts)
  obtain t where t: "interrupt_handled e kb = Some t" "keyboard_ok t" using interrupt_arrived [OF 2(2)] by blast
  then have "pending t \<noteq> []" using pending_grows [OF 2(2) t(1)] 2(3) by auto
  then show ?case using 2(1) [OF t] t(1) 2(4,5) by auto
qed (auto simp: pending_Nil split: if_splits)

fun steps_left :: "position \<Rightarrow> nat" where
  "steps_left Read_char = 2"
| "steps_left (Write_tail c) = 1"
| "steps_left _ = 3"

lemma keyboard_getchar_soon:
  assumes "keyboard_ok kb" "position_ok pos kb" "pending kb \<noteq> []" "pos \<notin> {Before_hlt, In_hlt}" "steps_left pos \<le> count_list acts Instruction"
  shows "\<exists>c kb' rest. keyboard_getchar pos kb acts = Some (Returned c kb' rest)"
  using assms
proof (induction pos kb acts rule: keyboard_getchar.induct)
  case (1 pos kb)
  then show ?case by (cases pos) auto
next
  case (2 pos kb e acts)
  obtain t where t: "interrupt_handled e kb = Some t" "keyboard_ok t" using interrupt_arrived [OF 2(2)] by blast
  then have "pending t \<noteq> []" using pending_grows [OF 2(2) t(1)] 2(4) by auto
  then show ?case using 2(1) [OF t position_ok_interrupt [OF 2(2) t(1) 2(3)]] t(1) 2(5,6) by auto
next
  case (6 kb acts)
  then obtain c cs where "pending kb = c # cs" by (cases "pending kb") auto
  then show ?case using 6 buf_tail_pending(1) [OF 6(2)] by auto
qed (auto simp: pending_Nil)

lemma keyboard_getchar_served:
  assumes ok: "keyboard_ok kb" and s: "served kb acts"
  shows "\<exists>c kb' rest. keyboard_getchar Compare kb acts = Some (Returned c kb' rest)"
proof -
  obtain xs us e vs where a: "acts = xs @ us @ Interrupt e # vs" and ar: "arrived kb xs \<noteq> []" and us: "Instruction \<in> set us"
    and vs: "3 \<le> count_list vs Instruction" using s unfolding served_def by blast
  obtain r1 where r1: "keyboard_getchar Compare kb xs = Some r1" "getchar_end kb xs r1" using keyboard_getchar_ends [OF ok, of Compare] by auto
  show ?thesis
  proof (cases r1)
    case (Waiting p1 k1)
    have k1: "keyboard_ok k1" "pending k1 \<noteq> []" "position_ok p1 k1" using r1(2) ar Waiting by auto
    obtain r2 where r2: "keyboard_getchar p1 k1 us = Some r2" "getchar_end k1 us r2" using keyboard_getchar_ends [OF k1(1,3)] by blast
    show ?thesis
    proof (cases r2)
      case w: (Waiting p2 k2)
      have "p2 \<noteq> Before_hlt" using waiting_halt [OF k1(1,2) r2(1) [unfolded w]] us by blast
      have "pending k2 = take 255 (pending k1 @ typed (shift_down k1) (caps_on k1) (scancodes us))" using r2(2) w by (simp add: arrived_def)
      then have k2: "keyboard_ok k2" "pending k2 \<noteq> []" "position_ok p2 k2" using r2(2) w k1(2) by auto
      obtain k3 where k3: "interrupt_handled e k2 = Some k3" "keyboard_ok k3" using interrupt_arrived [OF k2(1)] by blast
      let ?p = "if p2 = In_hlt then Compare else p2"
      have "pending k3 \<noteq> []" using pending_grows [OF k2(1) k3(1)] k2(2) by auto
      moreover have "?p \<notin> {Before_hlt, In_hlt}" using \<open>p2 \<noteq> Before_hlt\<close> by auto
      moreover have "steps_left ?p \<le> count_list vs Instruction" using vs by (cases p2) auto
      ultimately have "\<exists>c kb' rest. keyboard_getchar ?p k3 vs = Some (Returned c kb' rest)"
        by (intro keyboard_getchar_soon [OF k3(2) position_ok_interrupt [OF k2(1) k3(1) k2(3)]])
      then show ?thesis using a r1(1) Waiting r2(1) w k3(1) by (simp add: keyboard_getchar_append)
    qed (use a r1(1) Waiting r2(1) in \<open>simp add: keyboard_getchar_append\<close>)
  qed (use a r1(1) in \<open>simp add: keyboard_getchar_append\<close>)
qed

text \<open>
  The comparison and \<^verbatim>\<open>hlt\<close> are not one step: when a key comes between them, the processor halts with the character in the buffer,
  until another interrupt.
\<close>

lemma typed_single: "length (typed shift caps [sc]) \<le> 1"
  by (simp add: key_char_def)

lemma lost_wakeup:
  assumes "keyboard_ok kb" "pending kb = []"
  shows "\<exists>kb'. keyboard_getchar Compare kb (Instruction # Interrupt (Some sc) # replicate (Suc n) Instruction) = Some (Waiting In_hlt kb') \<and>
     pending kb' = typed (shift_down kb) (caps_on kb) [sc]"
proof -
  obtain kb' where kb': "keyboard_handler sc kb = Some kb'" "\<forall>acts. arrived kb (Interrupt (Some sc) # acts) = arrived kb' acts"
    using interrupt_arrived [OF assms(1), of "Some sc"] by auto
  have "keyboard_getchar In_hlt kb' (replicate n Instruction) = Some (Waiting In_hlt kb')" by (induction n) simp_all
  then have "keyboard_getchar Compare kb (Instruction # Interrupt (Some sc) # replicate (Suc n) Instruction) = Some (Waiting In_hlt kb')"
    using assms(2) kb'(1) by (simp add: pending_Nil)
  moreover have "pending kb' = typed (shift_down kb) (caps_on kb) [sc]"
    using kb'(2) [rule_format, of "[]"] assms(2) typed_single [of "shift_down kb" "caps_on kb" sc] arrived_Nil [of kb']
    by (simp add: arrived_def del: typed.simps arrived_Nil)
  ultimately show ?thesis by blast
qed



text \<open>
  Caps lock is applied to every key, not to the letters alone: with it on and shift up, the key 2
  types an at sign.
\<close>

lemma caps_lock_shifts_digits: "typed False False [0x3A, 0x03] = map of_char ''@''"
  by (simp add: key_char_def scancode_table_shift_def)

end
