(* ===== verification/Interrupts.thy ===== *)
theory Interrupts
  imports Scheduler Keyboard
begin

text \<open>
  Interrupt dispatch, \<^verbatim>\<open>arch/x86_64/isr.c\<close>, and the operations that enter the scheduler through the
  timer interrupt: \<^verbatim>\<open>scheduler_yield\<close>, \<^verbatim>\<open>thread_sleep\<close> and \<^verbatim>\<open>thread_exit\<close>. The steps of a running kernel form
  a transition relation whose invariant is the scheduler's.
\<close>

section \<open>The code\<close>

record kernel = sched +
  kbd :: keyboard

definition exception_names :: "string list" where
  "exception_names =
     [''Division by zero'', ''Debug'', ''Non-maskable interrupt'', ''Breakpoint'', ''Overflow'',
      ''Bound range exceeded'', ''Invalid opcode'', ''Device not available'', ''Double fault'',
      ''Coprocessor segment overrun'', ''Invalid TSS'', ''Segment not present'', ''Stack fault'',
      ''General protection fault'', ''Page fault'']"

text \<open>The handler returns to the (possibly changed) frame, or stops the processor with \<^verbatim>\<open>cli; hlt\<close>.\<close>

datatype 's isr_result = Halted 's | Return registers 's

definition isr_handler :: "devices \<Rightarrow> registers \<Rightarrow> 'a kernel_scheme \<Rightarrow> 'a kernel_scheme isr_result option" where
  "isr_handler d frame s =
     (if r_vector frame < 32 then
        if unat (r_vector frame) < length exception_names then Some (Halted (log_error ''ISR'' s)) else None
      else let irq = ucast (r_vector frame - 32) :: u8 in
        if irq = 0 then do {
          let s = s\<lparr>timer_ticks := timer_ticks s + 1\<rparr>;
          (frame, s) \<leftarrow> (if scheduler_current s \<noteq> NULL then scheduler_tick_irq frame s else Some (frame, s));
          Some (Return frame (lapic_eoi s)) }
        else if irq = 1 then do {
          let (scancode, tr) = inb d 0x60 (io_trace s);
          k \<leftarrow> keyboard_handler scancode (kbd s);
          Some (Return frame (lapic_eoi (s\<lparr>io_trace := tr, kbd := k\<rparr>))) }
        else Some (Return frame (lapic_eoi s)))"

text \<open>
  \<^verbatim>\<open>int $0x20\<close> enters the handler through the stub of vector 32; \<open>regs\<close> are the registers at that moment.
\<close>

definition scheduler_yield :: "devices \<Rightarrow> registers \<Rightarrow> 'a kernel_scheme \<Rightarrow> 'a kernel_scheme isr_result option" where
  "scheduler_yield d regs s = do {
     s \<leftarrow> (if scheduler_current s \<noteq> NULL
           then set_thread (scheduler_current s) (\<lambda>t. t\<lparr>quantum := 0\<rparr>) s else Some s);
     isr_handler d (regs\<lparr>r_vector := 32, r_error_code := 0\<rparr>) s }"

definition thread_exit :: "devices \<Rightarrow> registers \<Rightarrow> 'a kernel_scheme \<Rightarrow> 'a kernel_scheme isr_result option" where
  "thread_exit d regs s = do {
     s \<leftarrow> set_thread (scheduler_current s) (\<lambda>t. t\<lparr>th_state := THREAD_DEAD\<rparr>) s;
     scheduler_yield d regs (log_debug ''THREAD'' s) }"

definition thread_sleep :: "devices \<Rightarrow> u64 \<Rightarrow> registers \<Rightarrow> 'a kernel_scheme \<Rightarrow> 'a kernel_scheme isr_result option" where
  "thread_sleep d ms regs s = do {
     s \<leftarrow> set_thread (scheduler_current s)
       (\<lambda>t. t\<lparr>th_state := THREAD_BLOCKED, wake_tick := timer_ticks s + ms\<rparr>) s;
     scheduler_yield d regs s }"

text \<open>
  The table of names has 15 entries for 32 exception vectors: an exception 15 to 31 (alignment check,
  machine check, SIMD error, virtualisation, control protection) makes the handler read behind it.
\<close>

lemma exception_names_overrun: "15 \<le> r_vector f \<Longrightarrow> r_vector f < 32 \<Longrightarrow> isr_handler d f s = None"
  by (simp add: isr_handler_def exception_names_def word_le_nat_alt word_less_nat_alt)

section \<open>Steps of the kernel\<close>

text \<open>
  Between two interrupts the running code may yield, sleep, exit (unless it is the idle thread) or add a
  ready thread that the scheduler does not know yet.
\<close>

inductive kstep :: "devices \<Rightarrow> 'a kernel_scheme \<Rightarrow> 'a kernel_scheme \<Rightarrow> bool" for d where
  interrupt: "isr_handler d f s = Some (Return f' s') \<Longrightarrow> kstep d s s'"
| yield: "scheduler_yield d f s = Some (Return f' s') \<Longrightarrow> kstep d s s'"
| sleep: "thread_sleep d ms f s = Some (Return f' s') \<Longrightarrow> current s \<noteq> idle_thread s \<Longrightarrow> kstep d s s'"
| exit: "thread_exit d f s = Some (Return f' s') \<Longrightarrow> current s \<noteq> idle_thread s \<Longrightarrow> kstep d s s'"
| add: "scheduler_add_thread p s = Some s' \<Longrightarrow> sched_inv s q \<Longrightarrow> p \<notin> set q \<Longrightarrow> p \<noteq> NULL \<Longrightarrow>
        p \<noteq> current s \<Longrightarrow> p \<noteq> idle_thread s \<Longrightarrow> ready s p \<Longrightarrow> kstep d s s'"
| lock: "kstep d s (scheduler_lock s)"
| unlock: "kstep d s (scheduler_unlock s)"

inductive_cases kstepE: "kstep d s s'"

text \<open>Parts of the state the scheduler does not look at.\<close>

definition sched_same :: "'a kernel_scheme \<Rightarrow> 'a kernel_scheme \<Rightarrow> bool" where
  "sched_same s s' \<longleftrightarrow>
     threads s' = threads s \<and> run_queue s' = run_queue s \<and> current s' = current s \<and> idle_thread s' = idle_thread s"

lemma sched_same_inv: "sched_same s s' \<Longrightarrow> sched_inv s' q = sched_inv s q"
  using nexts_cong [of s' s] table_cong [of s' s] by (simp add: sched_same_def sched_inv_def)

lemma sched_same_simps [simp]:
  "sched_same s (lapic_eoi s)" "sched_same s (log_event l n s)" "sched_same s (s\<lparr>timer_ticks := t\<rparr>)"
  "sched_same s (s\<lparr>locked := b\<rparr>)" "sched_same s (s\<lparr>kbd := k\<rparr>)" "sched_same s (s\<lparr>io_trace := tr\<rparr>)"
  by (simp_all add: sched_same_def lapic_eoi_def lapic_write_def log_event_def)

text \<open>
  A dead thread that the scheduler no longer reaches: neither current nor in the queue, but still
  allocated.
\<close>

definition lost :: "u64 \<Rightarrow> 'a kernel_scheme \<Rightarrow> bool" where
  "lost p s \<longleftrightarrow>
     (\<exists>q. sched_inv s q \<and> p \<notin> set q \<and> p \<noteq> current s \<and> p \<noteq> idle_thread s \<and>
        (\<exists>t. table s p = Some t \<and> th_state t = THREAD_DEAD))"

lemma lost_same: "sched_same s s' \<Longrightarrow> lost p s' = lost p s"
  unfolding lost_def using sched_same_inv [of s s'] table_cong [of s' s] by (auto simp: sched_same_def)

lemma tick_spec_other:
  assumes inv: "abs_inv idle q c T" and p: "p \<notin> set q" "p \<noteq> c" "p \<noteq> idle"
    and tk: "tick_spec n idle f (q, c, T) = (f', q', c', T')"
  shows "p \<notin> set q' \<and> p \<noteq> c' \<and> T' p = T p"
proof -
  let ?T = "charged n q c T"
  have T1: "?T p = T p" using p by (simp add: charged_def waked_def Let_def)
  obtain nxt q1 where pk: "pick_spec idle q ?T = (nxt, q1)" by fastforce
  obtain q2 T2 where pt: "put_spec idle f c q1 ?T = (q2, T2)" by fastforce
  note ps = pick_spec_cases [OF charged_inv [OF inv, of n] pk]
  have "p \<noteq> nxt" using ps(4) p by auto
  moreover have "p \<notin> set q2 \<and> T2 p = T p"
    using pt ps(2) p T1 by (auto simp: put_spec_def Let_def split: if_splits)
  ultimately show ?thesis using tk p T1 pk pt by (auto simp: tick_spec_def Let_def split: if_splits)
qed

text \<open>A timer tick, locked or not, keeps the invariant and does not touch a thread outside the queue.\<close>

definition untouched :: "'a kernel_scheme \<Rightarrow> u64 list \<Rightarrow> 'a kernel_scheme \<Rightarrow> u64 list \<Rightarrow> bool" where
  "untouched s q s' q' \<longleftrightarrow> idle_thread s' = idle_thread s \<and>
     (\<forall>p. p \<notin> set q \<longrightarrow> p \<noteq> current s \<longrightarrow> p \<noteq> idle_thread s \<longrightarrow>
        p \<notin> set q' \<and> p \<noteq> current s' \<and> table s' p = table s p)"

lemma lost_untouched: "lost p s \<Longrightarrow> (\<And>q. sched_inv s q \<Longrightarrow> \<exists>q'. sched_inv s' q' \<and> untouched s q s' q') \<Longrightarrow> lost p s'"
  unfolding lost_def untouched_def by metis

lemma tick_untouched:
  assumes "sched_inv s q"
  shows "\<exists>f' s' q'. scheduler_tick_irq f s = Some (f', s') \<and> sched_inv s' q' \<and> untouched s q s' q'"
proof (cases "locked s = 0")
  case True
  obtain f' q' c' T' where ts: "tick_spec (timer_ticks s) (idle_thread s) f (q, current s, table s) = (f', q', c', T')"
    by (metis surj_pair)
  obtain s' where s': "scheduler_tick_irq f s = Some (f', s')" "sched_inv s' q'" "current s' = c'" "table s' = T'"
    "idle_thread s' = idle_thread s"
    using scheduler_tick_spec [OF assms True ts] by blast
  have "abs_inv (idle_thread s) q (current s) (table s)" using assms by (simp add: sched_inv_def)
  note other = tick_spec_other [OF this _ _ _ ts]
  have "untouched s q s' q'" using other s'(3-5) by (simp add: untouched_def)
  then show ?thesis using s'(1,2) by blast
next
  case False
  then have "scheduler_tick_irq f s = Some (f, s)" by (simp add: scheduler_tick_irq_def)
  then show ?thesis using assms by (auto simp: untouched_def)
qed

lemma untouched_same:
  assumes "sched_same s t" "sched_same t' s'" "untouched t q t' q'"
  shows "untouched s q s' q'"
  using assms table_cong [of t s] table_cong [of s' t'] by (simp add: untouched_def sched_same_def)

lemma sched_same_trans: "sched_same s t \<Longrightarrow> sched_same t u \<Longrightarrow> sched_same s u"
  by (simp add: sched_same_def)

lemma isr_untouched:
  assumes inv: "sched_inv s q" and r: "isr_handler d f s = Some (Return f' s')"
  shows "\<exists>q'. sched_inv s' q' \<and> untouched s q s' q'"
proof -
  have same: "\<exists>q'. sched_inv s' q' \<and> untouched s q s' q'" if "sched_same s s'" for s'
    using that inv sched_same_inv [OF that] table_cong [of s' s]
    by (intro exI [of _ q]) (auto simp: untouched_def sched_same_def)
  let ?irq = "ucast (r_vector f - 32) :: u8"
  have v: "\<not> r_vector f < 32" using r by (auto simp: isr_handler_def split: if_splits)
  consider "?irq = 0" | "?irq = 1" | "?irq \<noteq> 0" "?irq \<noteq> 1" by blast
  then show ?thesis
  proof cases
    case 1
    let ?t = "s\<lparr>timer_ticks := timer_ticks s + 1\<rparr>"
    have inv': "sched_inv ?t q" using inv by simp
    have c: "current s \<noteq> NULL" using inv by (simp add: sched_inv_def)
    obtain f1 t' q' where t': "scheduler_tick_irq f ?t = Some (f1, t')" "sched_inv t' q'" "untouched ?t q t' q'"
      using tick_untouched [OF inv'] by blast
    have "s' = lapic_eoi t'"
      using r v 1 c t'(1) by (simp add: isr_handler_def scheduler_current_def Let_def)
    then have ss: "sched_same t' s'" by simp
    have "sched_inv s' q'" using sched_same_inv [OF ss] t'(2) by simp
    moreover have "untouched s q s' q'" by (rule untouched_same [OF _ ss t'(3)]) simp
    ultimately show ?thesis by blast
  next
    case 2
    then obtain k tr where "s' = lapic_eoi (s\<lparr>io_trace := tr, kbd := k\<rparr>)"
      using r v by (auto simp: isr_handler_def Let_def case_prod_beta split: bind_splits)
    then have "sched_same s s'" by (simp add: sched_same_def lapic_eoi_def lapic_write_def)
    then show ?thesis by (rule same)
  next
    case 3
    then have "s' = lapic_eoi s" using r v by (simp add: isr_handler_def Let_def)
    then show ?thesis using same [of s'] by simp
  qed
qed

text \<open>A change of the current thread's own structure.\<close>

lemma set_current:
  assumes inv: "sched_inv s q"
  shows "\<exists>t s'. threads s (current s) = Some t \<and> set_thread (current s) g s = Some s' \<and>
           s' = s\<lparr>threads := (threads s)(current s \<mapsto> g t)\<rparr> \<and> sched_inv s' q \<and> untouched s q s' q"
proof -
  obtain t where t: "threads s (current s) = Some t"
    using inv by (auto simp: sched_inv_def abs_inv_def table_def)
  let ?s = "s\<lparr>threads := (threads s)(current s \<mapsto> g t)\<rparr>"
  have c: "current s \<notin> set q" using inv by (auto simp: sched_inv_def abs_inv_def)
  have "linked (nexts ?s) (run_queue s) q" using inv c by (simp add: sched_inv_def nexts_upd)
  moreover have "table ?s = (table s)(current s \<mapsto> core (g t))" by (rule table_upd)
  then have "abs_inv (idle_thread s) q (current s) (table ?s)" "untouched s q ?s q"
    using inv c by (auto simp: sched_inv_def abs_inv_def untouched_def)
  ultimately have "sched_inv ?s q" using inv by (simp add: sched_inv_def)
  then show ?thesis using t \<open>untouched s q ?s q\<close> by (auto simp: set_thread_def)
qed

lemma untouched_trans:
  "untouched s q t q' \<Longrightarrow> untouched t q' u q'' \<Longrightarrow> untouched s q u q''"
  by (simp add: untouched_def)

lemma yield_untouched:
  assumes inv: "sched_inv s q" and r: "scheduler_yield d f s = Some (Return f' s')"
  shows "\<exists>q'. sched_inv s' q' \<and> untouched s q s' q'"
proof -
  have c: "current s \<noteq> NULL" using inv by (simp add: sched_inv_def)
  obtain t where t: "set_thread (current s) (\<lambda>t. t\<lparr>quantum := 0\<rparr>) s = Some t" "sched_inv t q" "untouched s q t q"
    using set_current [OF inv] by blast
  have "isr_handler d (f\<lparr>r_vector := 32, r_error_code := 0\<rparr>) t = Some (Return f' s')"
    using r t(1) c by (simp add: scheduler_yield_def scheduler_current_def)
  then show ?thesis using isr_untouched [OF t(2)] untouched_trans [OF t(3)] by blast
qed

lemma sleep_untouched:
  assumes inv: "sched_inv s q" and r: "thread_sleep d ms f s = Some (Return f' s')"
  shows "\<exists>q'. sched_inv s' q' \<and> untouched s q s' q'"
proof -
  obtain t where t: "set_thread (current s)
      (\<lambda>t. t\<lparr>th_state := THREAD_BLOCKED, wake_tick := timer_ticks s + ms\<rparr>) s = Some t" "sched_inv t q" "untouched s q t q"
    using set_current [OF inv] by blast
  have "scheduler_yield d f t = Some (Return f' s')"
    using r t(1) by (simp add: thread_sleep_def scheduler_current_def)
  then show ?thesis using yield_untouched [OF t(2)] untouched_trans [OF t(3)] by blast
qed

lemma exit_untouched:
  assumes inv: "sched_inv s q" and r: "thread_exit d f s = Some (Return f' s')"
  shows "\<exists>q'. sched_inv s' q' \<and> untouched s q s' q'"
proof -
  obtain t where t: "set_thread (current s) (\<lambda>t. t\<lparr>th_state := THREAD_DEAD\<rparr>) s = Some t" "sched_inv t q" "untouched s q t q"
    using set_current [OF inv] by blast
  let ?t = "log_debug ''THREAD'' t"
  have ss: "sched_same t ?t" by simp
  have "scheduler_yield d f ?t = Some (Return f' s')"
    using r t(1) by (simp add: thread_exit_def scheduler_current_def)
  moreover have "sched_inv ?t q" using sched_same_inv [OF ss] t(2) by simp
  moreover have "untouched s q ?t q"
    using t(3) table_cong [of ?t t] ss by (simp add: untouched_def sched_same_def)
  ultimately show ?thesis using yield_untouched untouched_trans by blast
qed

lemma add_untouched:
  assumes inv: "sched_inv s q" and r: "scheduler_add_thread p s = Some s'"
    and p: "p \<notin> set q" "p \<noteq> NULL" "p \<noteq> current s" "p \<noteq> idle_thread s" "ready s p"
  shows "sched_inv s' (p # q)" "\<And>a. a \<noteq> p \<Longrightarrow> table s' a = table s a" "current s' = current s" "idle_thread s' = idle_thread s"
proof -
  obtain t where t: "threads s p = Some t" "th_state t = THREAD_READY" using p(5) by (auto simp: ready_def)
  have s': "s' = s\<lparr>threads := (threads s)(p \<mapsto> t\<lparr>th_next := run_queue s\<rparr>), run_queue := p\<rparr>"
    using r t by (simp add: scheduler_add_thread_def set_thread_def)
  have nx: "nexts s' = (nexts s)(p := Some (run_queue s))" by (auto simp: s' nexts_def)
  have tb: "table s' = table s" using t by (auto simp: s' table_def fun_eq_iff)
  have "queue s' (p # q)" using inv p nx by (simp add: sched_inv_def s')
  moreover have "\<exists>u. table s p = Some u \<and> th_state u \<in> {THREAD_READY, THREAD_BLOCKED}" using t by (simp add: table_def)
  ultimately show "sched_inv s' (p # q)" using inv p tb by (auto simp: sched_inv_def abs_inv_def s')
  show "\<And>a. a \<noteq> p \<Longrightarrow> table s' a = table s a" "current s' = current s" "idle_thread s' = idle_thread s"
    using tb by (simp_all add: s')
qed

lemma queue_unique: "sched_inv s q \<Longrightarrow> sched_inv s q' \<Longrightarrow> q = q'"
  using linked_unique by (auto simp: sched_inv_def)

lemma lost_step:
  assumes "kstep d s s'" "lost p s"
  shows "lost p s'"
  using assms(1)
proof cases
  case (interrupt f f')
  then show ?thesis using lost_untouched [OF assms(2)] isr_untouched by blast
next
  case (yield f f')
  then show ?thesis using lost_untouched [OF assms(2)] yield_untouched by blast
next
  case (sleep ms f f')
  then show ?thesis using lost_untouched [OF assms(2)] sleep_untouched by blast
next
  case (exit f f')
  then show ?thesis using lost_untouched [OF assms(2)] exit_untouched by blast
next
  case (add a q)
  note u = add_untouched [OF add(2,1,3-7)]
  obtain q' t where l: "sched_inv s q'" "p \<notin> set q'" "p \<noteq> current s" "p \<noteq> idle_thread s" "table s p = Some t" "th_state t = THREAD_DEAD"
    using assms(2) by (auto simp: lost_def)
  have "q' = q" using queue_unique l(1) add(2) by blast
  moreover have "p \<noteq> a" using add(7) l(5,6) by (auto simp: ready_def table_def)
  ultimately show ?thesis unfolding lost_def using u l by (intro exI [of _ "a # q"]) auto
next
  case lock
  then show ?thesis using assms(2) lost_same [of s s' p] by (simp add: scheduler_lock_def)
next
  case unlock
  then show ?thesis using assms(2) lost_same [of s s' p] by (simp add: scheduler_unlock_def)
qed

lemma lost_steps: "(kstep d)\<^sup>*\<^sup>* s s' \<Longrightarrow> lost p s \<Longrightarrow> lost p s'"
  by (induction rule: rtranclp_induct) (auto intro: lost_step)

text \<open>The tick in which a dead thread gives up the processor.\<close>

lemma tick_spec_dead:
  assumes inv: "abs_inv idle q c T" and t: "T c = Some t" "th_state t = THREAD_DEAD" "quantum t = 0" and c: "c \<noteq> idle"
    and tk: "tick_spec n idle f (q, c, T) = (f', q', c', T')"
  shows "c \<notin> set q' \<and> c \<noteq> c' \<and> (\<exists>u. T' c = Some u \<and> th_state u = THREAD_DEAD)"
proof -
  let ?T = "charged n q c T"
  have cq: "c \<notin> set q" using inv by (auto simp: abs_inv_def)
  have T1: "?T c = Some t" using t cq by (simp add: charged_def waked_def Let_def)
  obtain nxt q1 where pk: "pick_spec idle q ?T = (nxt, q1)" by fastforce
  note ps = pick_spec_cases [OF charged_inv [OF inv, of n] pk]
  have ne: "nxt \<noteq> c" using ps(6) c by blast
  have pt: "put_spec idle f c q1 ?T = (q1, ?T(c \<mapsto> t\<lparr>th_context := save_context f (th_context t)\<rparr>))"
    using T1 t c by (simp add: put_spec_def)
  show ?thesis using tk T1 t ne ps(2) cq by (auto simp: tick_spec_def Let_def pk pt)
qed

lemma thread_exit_lost:
  assumes inv: "sched_inv s q" and lk: "locked s = 0" and c: "current s \<noteq> idle_thread s"
  shows "\<exists>f' s'. thread_exit d f s = Some (Return f' s') \<and> lost (current s) s'"
proof -
  let ?c = "current s" and ?f = "f\<lparr>r_vector := 32, r_error_code := 0\<rparr>"
  obtain t s1 where s1: "set_thread ?c (\<lambda>t. t\<lparr>th_state := THREAD_DEAD\<rparr>) s = Some s1" "sched_inv s1 q"
    "s1 = s\<lparr>threads := (threads s)(?c \<mapsto> t\<lparr>th_state := THREAD_DEAD\<rparr>)\<rparr>"
    using set_current [OF inv, of "\<lambda>t. t\<lparr>th_state := THREAD_DEAD\<rparr>"] by blast
  define s2 where "s2 = log_debug ''THREAD'' s1"
  have ss: "sched_same s1 s2" by (simp add: s2_def)
  then have inv2: "sched_inv s2 q" and f2: "current s2 = ?c" "threads s2 = threads s1" "idle_thread s2 = idle_thread s"
    using sched_same_inv [OF ss] s1(2,3) by (simp_all add: sched_same_def)
  obtain t2 s3 where s3: "threads s2 (current s2) = Some t2" "set_thread (current s2) (\<lambda>t. t\<lparr>quantum := 0\<rparr>) s2 = Some s3"
    "s3 = s2\<lparr>threads := (threads s2)(current s2 \<mapsto> t2\<lparr>quantum := 0\<rparr>)\<rparr>" "sched_inv s3 q"
    using set_current [OF inv2, of "\<lambda>t. t\<lparr>quantum := 0\<rparr>"] by blast
  define s4 where "s4 = s3\<lparr>timer_ticks := timer_ticks s3 + 1\<rparr>"
  have dead: "table s4 ?c = Some (core (t2\<lparr>quantum := 0\<rparr>))" "th_state t2 = THREAD_DEAD"
    using s3(1) s1(3) f2 by (auto simp: s4_def s3(3) table_def)
  have inv4: "sched_inv s4 q" using s3(4) by (simp add: s4_def)
  have k4: "current s4 = ?c" "idle_thread s4 = idle_thread s" "locked s4 = 0"
    using f2 lk s1(3) by (simp_all add: s4_def s3(3) s2_def log_event_def)
  have k3: "current s3 = ?c" using f2 by (simp add: s3(3))
  obtain f' q' c' T' where ts: "tick_spec (timer_ticks s4) (idle_thread s4) ?f (q, current s4, table s4) = (f', q', c', T')"
    by (metis surj_pair)
  obtain s5 where s5: "scheduler_tick_irq ?f s4 = Some (f', s5)" "sched_inv s5 q'" "current s5 = c'" "table s5 = T'"
    "idle_thread s5 = idle_thread s"
    using scheduler_tick_spec [OF inv4 k4(3) ts] k4(2) by auto
  have ai: "abs_inv (idle_thread s4) q (current s4) (table s4)" using inv4 by (simp add: sched_inv_def)
  have "?c \<notin> set q' \<and> ?c \<noteq> c' \<and> (\<exists>u. T' ?c = Some u \<and> th_state u = THREAD_DEAD)"
    using tick_spec_dead [OF ai _ _ _ _ ts] dead c k4(1,2) by simp
  then have "lost ?c s5" unfolding lost_def using s5 c by (intro exI [of _ q']) auto
  then have "lost ?c (lapic_eoi s5)" using lost_same [of s5 "lapic_eoi s5"] by simp
  moreover have "thread_exit d f s = Some (Return f' (lapic_eoi s5))"
    using s1(1) s3(2) s5(1) f2(1) k4(1) k3 inv2
    by (simp add: thread_exit_def scheduler_current_def scheduler_yield_def isr_handler_def Let_def
        s2_def [symmetric] s4_def [symmetric] sched_inv_def)
  ultimately show ?thesis by blast
qed

text \<open>
  C20. (error) A thread that calls \<^verbatim>\<open>thread_exit\<close> gives up the processor for good, but its structure and its
  stack are never freed: whatever the kernel does afterwards, the structure stays allocated and dead.
  The loop that destroys dead threads looks for them in the run queue, where a dead thread is never put.
\<close>

theorem thread_exit_leaks:
  assumes "sched_inv s q" "locked s = 0" "current s \<noteq> idle_thread s"
  shows "\<exists>f' s'. thread_exit d f s = Some (Return f' s') \<and>
           (\<forall>s''. (kstep d)\<^sup>*\<^sup>* s' s'' \<longrightarrow>
              current s'' \<noteq> current s \<and>
              (\<exists>t. threads s'' (current s) = Some t \<and> th_state t = THREAD_DEAD))"
proof -
  obtain f' s' where s': "thread_exit d f s = Some (Return f' s')" "lost (current s) s'"
    using thread_exit_lost [OF assms] by blast
  have "current s'' \<noteq> current s \<and> (\<exists>t. threads s'' (current s) = Some t \<and> th_state t = THREAD_DEAD)"
    if "(kstep d)\<^sup>*\<^sup>* s' s''" for s''
    using lost_steps [OF that s'(2)] by (auto simp: lost_def table_def)
  then show ?thesis using s'(1) by blast
qed

definition sample_kernel :: kernel where
  "sample_kernel = sched.extend sample_sched (kernel.fields keyboard_start)"

lemma sample_kernel_sched:
  "threads sample_kernel = threads sample_sched" "run_queue sample_kernel = 0x6000" "current sample_kernel = 0x5000"
  "idle_thread sample_kernel = 0x9000" "locked sample_kernel = 0"
  by (simp_all add: sample_kernel_def sched.defs kernel.defs sample_sched_fields)

theorem thread_exit_leaks_witness:
  "\<exists>f' s'. thread_exit sample_devices zero_registers sample_kernel = Some (Return f' s') \<and>
     (\<forall>s''. (kstep sample_devices)\<^sup>*\<^sup>* s' s'' \<longrightarrow> (\<exists>t. threads s'' 0x5000 = Some t \<and> th_state t = THREAD_DEAD))"
proof -
  have inv: "sched_inv sample_kernel [0x6000]"
    by (simp add: sched_inv_def abs_inv_def nexts_def table_def sample_kernel_sched sample_sched_fields
        sample_thread_def zero_thread_def)
  show ?thesis
    using thread_exit_leaks [OF inv, of sample_devices zero_registers] by (auto simp: sample_kernel_sched)
qed

end
