(* ===== verification/Kprintf.thy ===== *)
theory Kprintf
  imports Prelude
begin

text \<open>
  Formatted output, \<^verbatim>\<open>utils/kprintf.c\<close>, and the log line built on it, \<^verbatim>\<open>utils/log.c\<close>. Output is a list
  of the device operations that \<^verbatim>\<open>kputchar\<close> performs. Numbers are shown to be printed as their
  numerals, and a log line to carry its time stamp, level, subsystem and message.
\<close>

section \<open>Characters and strings\<close>

text \<open>A byte for the serial port, and a write of some bytes to the terminal.\<close>

datatype console = Serial u8 | Terminal "u8 list"

abbreviation chars :: "string \<Rightarrow> u8 list" where
  "chars s \<equiv> map of_char s"

definition kputchar :: "u8 \<Rightarrow> console list" where
  "kputchar c = [Serial c, Terminal (if c = 10 then [13, 10] else [c])]"

primrec kputs :: "u8 list \<Rightarrow> console list" where
  "kputs [] = []"
| "kputs (c # s) = kputchar c @ kputs s"

section \<open>Numbers\<close>

definition digits :: "u8 list" where
  "digits = chars ''0123456789ABCDEF''"

text \<open>
  The loop that fills \<^verbatim>\<open>buf[64]\<close>, lowest digit first: \<open>buf\<close> holds the digits so far. A division by
  zero and an index outside \<^verbatim>\<open>digits\<close> or \<^verbatim>\<open>buf\<close> are undefined.
\<close>

function kputuint_digits :: "u8 \<Rightarrow> u64 \<Rightarrow> u8 list \<Rightarrow> u8 list option" where
  "kputuint_digits base n buf =
     (if n = 0 then Some buf
      else if base = 0 \<or> 64 \<le> length buf \<or> length digits \<le> unat (n mod ucast base) then None
      else kputuint_digits base (n div ucast base) (buf @ [digits ! unat (n mod ucast base)]))"
  by pat_completeness auto
termination by (relation "measure (\<lambda>(base, n, buf). 64 - length buf)") auto

declare kputuint_digits.simps [simp del]

definition kputuint :: "u64 \<Rightarrow> u8 \<Rightarrow> console list option" where
  "kputuint n base =
     (if n = 0 then Some (kputchar (of_char (CHR ''0'')))
      else do { buf \<leftarrow> kputuint_digits base n []; Some (kputs (rev buf)) })"

section \<open>Format strings\<close>

text \<open>
  A format is the list of its characters before the terminator, the arguments are the 64-bit slots of
  the \<^verbatim>\<open>va_list\<close>, and \<open>strs\<close> gives the string at an address. A percent sign at the very end makes the
  code step over the terminator, reading an argument that was not passed is undefined, and so is
  the negation of the smallest \<^verbatim>\<open>int64_t\<close>.
\<close>

type_synonym strings_at = "u64 \<Rightarrow> u8 list option"

fun va_arg :: "u64 list \<Rightarrow> (u64 \<times> u64 list) option" where
  "va_arg [] = None"
| "va_arg (v # args) = Some (v, args)"

definition convert :: "strings_at \<Rightarrow> u8 \<Rightarrow> u64 list \<Rightarrow> (console list \<times> u64 list) option" where
  "convert strs c args =
     (if c = of_char (CHR ''s'') then
        do { (p, args) \<leftarrow> va_arg args; s \<leftarrow> strs p; Some (kputs s, args) }
      else if c = of_char (CHR ''d'') then
        do { (n, args) \<leftarrow> va_arg args;
             if sint n < 0 then
               if sint n = - (2 ^ 63) then None
               else do { ds \<leftarrow> kputuint (- n) 10; Some (kputchar (of_char (CHR ''-'')) @ ds, args) }
             else do { ds \<leftarrow> kputuint n 10; Some (ds, args) } }
      else if c = of_char (CHR ''u'') then
        do { (n, args) \<leftarrow> va_arg args; ds \<leftarrow> kputuint n 10; Some (ds, args) }
      else if c = of_char (CHR ''x'') then
        do { (n, args) \<leftarrow> va_arg args; ds \<leftarrow> kputuint n 16; Some (ds, args) }
      else if c = of_char (CHR ''p'') then
        do { (n, args) \<leftarrow> va_arg args; ds \<leftarrow> kputuint n 16; Some (kputs (chars ''0x'') @ ds, args) }
      else if c = of_char (CHR ''c'') then
        do { (n, args) \<leftarrow> va_arg args; Some (kputchar (ucast n), args) }
      else if c = of_char (CHR ''%'') then Some (kputchar (of_char (CHR ''%'')), args)
      else Some ([], args))"

fun kvprintf :: "strings_at \<Rightarrow> u8 list \<Rightarrow> u64 list \<Rightarrow> console list option" where
  "kvprintf strs [] args = Some []"
| "kvprintf strs (c # fmt) args =
     (if c \<noteq> of_char (CHR ''%'') then
        do { rest \<leftarrow> kvprintf strs fmt args; Some (kputchar c @ rest) }
      else
        (case fmt of
           [] \<Rightarrow> None
         | k # fmt' \<Rightarrow>
             do { (out, args') \<leftarrow> convert strs k args;
                  rest \<leftarrow> kvprintf strs fmt' args';
                  Some (out @ rest) }))"

definition kprintf :: "strings_at \<Rightarrow> u8 list \<Rightarrow> u64 list \<Rightarrow> console list option" where
  "kprintf strs fmt args = kvprintf strs fmt args"

section \<open>Log lines\<close>

definition ESC :: "string \<Rightarrow> u8 list" where "ESC s = 27 # chars s"
definition ANSI_RESET :: "u8 list" where "ANSI_RESET = ESC ''[0m''"
definition ANSI_BRIGHT_BLACK :: "u8 list" where "ANSI_BRIGHT_BLACK = ESC ''[90m''"
definition ANSI_BRIGHT_RED :: "u8 list" where "ANSI_BRIGHT_RED = ESC ''[91m''"
definition ANSI_BRIGHT_GREEN :: "u8 list" where "ANSI_BRIGHT_GREEN = ESC ''[92m''"
definition ANSI_BRIGHT_YELLOW :: "u8 list" where "ANSI_BRIGHT_YELLOW = ESC ''[93m''"
definition ANSI_BRIGHT_CYAN :: "u8 list" where "ANSI_BRIGHT_CYAN = ESC ''[96m''"
definition ANSI_BOLD :: "u8 list" where "ANSI_BOLD = ESC ''[1m''"

fun level_str :: "log_level \<Rightarrow> u8 list" where
  "level_str LOG_DEBUG = chars ''DEBUG''"
| "level_str LOG_INFO = chars ''INFO ''"
| "level_str LOG_WARN = chars ''WARN ''"
| "level_str LOG_ERROR = chars ''ERROR''"

fun level_color :: "log_level \<Rightarrow> u8 list" where
  "level_color LOG_DEBUG = ANSI_BRIGHT_GREEN"
| "level_color LOG_INFO = ANSI_BRIGHT_CYAN"
| "level_color LOG_WARN = ANSI_BRIGHT_YELLOW"
| "level_color LOG_ERROR = ANSI_BRIGHT_RED"

definition print_timestamp :: "strings_at \<Rightarrow> u64 \<Rightarrow> console list option" where
  "print_timestamp strs timer_ticks = do {
     let ticks = timer_ticks;
     let secs = ticks div 1000;
     let ms = ticks mod 1000;
     a \<leftarrow> kprintf strs (ANSI_BRIGHT_BLACK @ chars ''['') [];
     b \<leftarrow> kprintf strs (chars ''%u'') [secs];
     c \<leftarrow> kprintf strs (chars ''.'') [];
     d \<leftarrow> (if ms < 100 then kprintf strs (chars ''0'') [] else Some []);
     e \<leftarrow> (if ms < 10 then kprintf strs (chars ''0'') [] else Some []);
     f \<leftarrow> kprintf strs (chars ''%u] '' @ ANSI_RESET) [ms];
     Some (a @ b @ c @ d @ e @ f) }"

text \<open>
  \<^verbatim>\<open>LOG_LEVEL\<close> is \<^verbatim>\<open>LOG_DEBUG\<close> unless the build defines it: the first argument. The string constants
  that \<^verbatim>\<open>log_msg\<close> passes to \<^verbatim>\<open>%s\<close> are given as their contents.
\<close>

fun level_num :: "log_level \<Rightarrow> nat" where
  "level_num LOG_DEBUG = 0"
| "level_num LOG_INFO = 1"
| "level_num LOG_WARN = 2"
| "level_num LOG_ERROR = 3"

definition kprint_strings :: "u8 list list \<Rightarrow> u8 list \<Rightarrow> console list option" where
  "kprint_strings ss fmt =
     kprintf (\<lambda>p. if unat p < length ss then Some (ss ! unat p) else None) fmt (map of_nat [0..<length ss])"

definition log_msg ::
  "log_level \<Rightarrow> strings_at \<Rightarrow> u64 \<Rightarrow> log_level \<Rightarrow> u8 list \<Rightarrow> u8 list \<Rightarrow> u64 list \<Rightarrow> console list option" where
  "log_msg LOG_LEVEL strs timer_ticks level subsystem fmt args =
     (if level_num level < level_num LOG_LEVEL then Some []
      else do {
        a \<leftarrow> print_timestamp strs timer_ticks;
        b \<leftarrow> kprint_strings [level_color level, level_str level, ANSI_RESET] (chars ''%s[%s]%s '');
        c \<leftarrow> kprint_strings [subsystem] (ANSI_BOLD @ chars ''%s'' @ ANSI_RESET @ chars '': '');
        d \<leftarrow> kvprintf strs fmt args;
        e \<leftarrow> kprintf strs [10] [];
        Some (a @ b @ c @ d @ e) })"

section \<open>Numerals\<close>

text \<open>
  The reference: \<open>ds\<close> is the numeral of \<open>n\<close> in base \<open>b\<close> when its digits are below \<open>b\<close>, it has no leading
  zero and its value is \<open>n\<close>.
\<close>

definition digit :: "u8 \<Rightarrow> nat" where
  "digit d = length (takeWhile (\<lambda>x. x \<noteq> d) digits)"

definition number :: "nat \<Rightarrow> u8 list \<Rightarrow> nat" where
  "number b ds = foldl (\<lambda>v d. v * b + digit d) 0 ds"

definition numeral_of :: "nat \<Rightarrow> nat \<Rightarrow> u8 list \<Rightarrow> bool" where
  "numeral_of b n ds \<longleftrightarrow> ds \<noteq> [] \<and> (\<forall>d \<in> set ds. digit d < b) \<and> (digit (hd ds) = 0 \<longrightarrow> length ds = 1) \<and> number b ds = n"

lemma number_simps [simp]:
  "number b [] = 0" "number b (ds @ [d]) = number b ds * b + digit d"
  by (simp_all add: number_def)

lemma length_digits [simp]: "length digits = 16"
  by (simp add: digits_def)

lemma digit_digits [simp]: "k < 16 \<Longrightarrow> digit (digits ! k) = k"
proof -
  assume k: "k < 16"
  have "distinct digits" by (simp add: digits_def)
  then have "takeWhile (\<lambda>x. x \<noteq> digits ! k) digits = take k digits"
    using k by (intro takeWhile_eq_take_P_nth) (auto simp: nth_eq_iff_index_eq)
  then show ?thesis using k by (simp add: digit_def)
qed

lemma kputuint_digits_number:
  assumes "2 \<le> unat base" "unat base \<le> 16" "unat n < unat base ^ m" "length buf + m \<le> 64"
  shows "\<exists>ds. kputuint_digits base n buf = Some (buf @ ds) \<and> number (unat base) (rev ds) = unat n \<and>
           (\<forall>d \<in> set ds. digit d < unat base) \<and> (n \<noteq> 0 \<longrightarrow> ds \<noteq> [] \<and> digit (last ds) \<noteq> 0)"
  using assms
proof (induction m arbitrary: n buf)
  case 0
  then have "n = 0" by (simp add: unat_eq_zero)
  then show ?case by (intro exI [of _ "[]"]) (simp add: kputuint_digits.simps)
next
  case (Suc m)
  show ?case
  proof (cases "n = 0")
    case True
    then show ?thesis by (intro exI [of _ "[]"]) (simp add: kputuint_digits.simps)
  next
    case False
    let ?b = "unat base"
    let ?d = "digits ! (unat n mod ?b)"
    let ?n = "n div ucast base"
    have ub: "unat (ucast base :: u64) = ?b" using unat_u8_less [of base]
      by (simp add: unsigned_ucast_eq take_bit_nat_eq_self)
    have un: "unat ?n = unat n div ?b" and um: "unat (n mod ucast base) = unat n mod ?b"
      by (simp_all add: unat_div unat_mod ub)
    have lt: "unat n mod ?b < ?b" using Suc.prems(1) by simp
    then have lt16: "unat n mod ?b < 16" using Suc.prems(2) by linarith
    have "unat ?n < ?b ^ m"
      using Suc.prems(3) Suc.prems(1) by (simp add: un less_mult_imp_div_less mult.commute)
    then obtain ds where ds: "kputuint_digits base ?n (buf @ [?d]) = Some ((buf @ [?d]) @ ds)"
      "number ?b (rev ds) = unat ?n" "\<forall>d \<in> set ds. digit d < ?b" "?n \<noteq> 0 \<longrightarrow> ds \<noteq> [] \<and> digit (last ds) \<noteq> 0"
      using Suc.IH [of ?n "buf @ [?d]"] Suc.prems by auto
    have "base \<noteq> 0" using Suc.prems(1) by auto
    then have "kputuint_digits base n buf = Some (buf @ ?d # ds)"
      using False ds(1) Suc.prems(4) lt16 um by (simp add: kputuint_digits.simps [of base n])
    moreover have "number ?b (rev (?d # ds)) = unat n" using ds(2) lt16 un by simp
    moreover have "digit (last (?d # ds)) \<noteq> 0"
    proof (cases "ds = []")
      case True
      then have "unat n div ?b = 0" using ds(2) un by simp
      then have "unat n mod ?b = unat n" using Suc.prems(1) by (auto simp: div_eq_0_iff)
      then show ?thesis using True False lt16 by (simp add: unat_eq_zero)
    next
      case nonempty: False
      then have "?n \<noteq> 0" using ds(1) by (auto simp: kputuint_digits.simps [of base 0])
      then show ?thesis using ds(4) nonempty by simp
    qed
    ultimately show ?thesis using ds(3) lt lt16 by (intro exI [of _ "?d # ds"]) simp
  qed
qed

text \<open>A number has one numeral: the printed text is determined by the number.\<close>

lemma number_pos: "ds \<noteq> [] \<Longrightarrow> digit (hd ds) \<noteq> 0 \<Longrightarrow> 2 \<le> b \<Longrightarrow> 0 < number b ds"
proof (induction ds rule: rev_induct)
  case Nil
  then show ?case by simp
next
  case (snoc d ds)
  then show ?case by (cases "ds = []") (simp_all add: number_def)
qed

lemma div_mod_digit: "d < b \<Longrightarrow> q * b + d = n \<Longrightarrow> q = n div b \<and> d = n mod (b :: nat)"
  by auto

lemma numeral_of_snoc:
  assumes "numeral_of b n (ds @ [d])" "2 \<le> b"
  shows "digit d = n mod b" "ds = [] \<Longrightarrow> n div b = 0" "ds \<noteq> [] \<Longrightarrow> numeral_of b (n div b) ds \<and> 0 < n div b"
proof -
  have "digit d < b" and v: "number b ds * b + digit d = n"
    using assms(1) by (simp_all add: numeral_of_def)
  then have q: "number b ds = n div b \<and> digit d = n mod b" by (rule div_mod_digit)
  then show "digit d = n mod b" "ds = [] \<Longrightarrow> n div b = 0" by auto
  show "numeral_of b (n div b) ds \<and> 0 < n div b" if "ds \<noteq> []"
    using that assms q number_pos [of ds b] by (auto simp: numeral_of_def)
qed

lemma numeral_of_unique:
  assumes "2 \<le> b"
  shows "numeral_of b n ds \<Longrightarrow> numeral_of b n ds' \<Longrightarrow> map digit ds = map digit ds'"
proof (induction ds arbitrary: n ds' rule: rev_induct)
  case Nil
  then show ?case by (simp add: numeral_of_def)
next
  case (snoc d ds)
  obtain es e where ds': "ds' = es @ [e]"
    using snoc.prems(2) by (cases ds' rule: rev_cases) (auto simp: numeral_of_def)
  note d = numeral_of_snoc [OF snoc.prems(1) assms]
  note e = numeral_of_snoc [OF snoc.prems(2) [unfolded ds'] assms]
  have "map digit ds = map digit es"
  proof (cases "ds = []")
    case True
    then show ?thesis using d(2) e(3) by (cases "es = []") auto
  next
    case False
    then have "es \<noteq> []" using d(3) e(2) by auto
    then show ?thesis using snoc.IH d(3) [OF False] e(3) by blast
  qed
  then show ?case using d(1) e(1) ds' by simp
qed

lemma kputuint_numeral:
  assumes "2 \<le> unat base" "unat base \<le> 16"
  shows "\<exists>ds. kputuint n base = Some (kputs ds) \<and> numeral_of (unat base) (unat n) ds"
proof (cases "n = 0")
  case True
  have z: "(48 :: u8) = digits ! 0" by (simp add: digits_def)
  have "numeral_of (unat base) 0 [digits ! 0]"
    using assms(1) number_simps(2) [of "unat base" "[]" "digits ! 0"] by (simp add: numeral_of_def)
  then show ?thesis using True
    by (intro exI [of _ "[digits ! 0]"]) (simp add: kputuint_def z)
next
  case False
  have "unat n < 2 ^ 64" using unsigned_less [of n] by simp
  also have "(2 :: nat) ^ 64 \<le> unat base ^ 64" by (rule power_mono) (use assms in simp_all)
  finally obtain ds where ds: "kputuint_digits base n [] = Some ds" "number (unat base) (rev ds) = unat n"
    "\<forall>d \<in> set ds. digit d < unat base" "ds \<noteq> []" "digit (last ds) \<noteq> 0"
    using kputuint_digits_number [OF assms, of n 64 "[]"] False by auto
  then show ?thesis using False
    by (intro exI [of _ "rev ds"]) (simp add: kputuint_def numeral_of_def hd_rev)
qed

text \<open>What arrives at the serial port.\<close>

fun serial :: "console list \<Rightarrow> u8 list" where
  "serial [] = []"
| "serial (Serial c # out) = c # serial out"
| "serial (Terminal cs # out) = serial out"

lemma serial_append [simp]: "serial (a @ b) = serial a @ serial b"
  by (induction a rule: serial.induct) simp_all

lemma serial_kputchar [simp]: "serial (kputchar c) = [c]"
  by (simp add: kputchar_def)

lemma serial_kputs [simp]: "serial (kputs s) = s"
  by (induction s) simp_all

text \<open>
  C18. (roundtrip) \<^verbatim>\<open>kputuint\<close> in any base from 2 to 16 stays inside its 64-byte buffer and its digit
  table, terminates, and prints the numeral of the number: digits below the base, no leading zero, and
  reading it back gives the number. No other digit sequence has these properties.
\<close>

theorem kputuint_prints_numeral:
  assumes "2 \<le> base" "base \<le> 16"
  shows "\<exists>out. kputuint n base = Some out \<and> numeral_of (unat base) (unat n) (serial out) \<and>
           (\<forall>ds. numeral_of (unat base) (unat n) ds \<longrightarrow> map digit ds = map digit (serial out))"
proof -
  have b: "2 \<le> unat base" "unat base \<le> 16" using assms by (simp_all add: word_le_nat_alt)
  obtain ds where ds: "kputuint n base = Some (kputs ds)" "numeral_of (unat base) (unat n) ds"
    using kputuint_numeral [OF b, of n] by blast
  show ?thesis
  proof (intro exI conjI allI impI)
    show "kputuint n base = Some (kputs ds)" by (fact ds(1))
    show "numeral_of (unat base) (unat n) (serial (kputs ds))" using ds(2) by simp
    show "map digit es = map digit (serial (kputs ds))" if "numeral_of (unat base) (unat n) es" for es
      using numeral_of_unique [OF b(1) that ds(2)] by simp
  qed
qed

theorem kputuint_prints_numeral_witness:
  "(2 :: u8) \<le> 10 \<and> (10 :: u8) \<le> 16 \<and>
   (\<exists>out. kputuint 18446744073709551615 10 = Some out \<and> length (serial out) = 20)"
proof -
  let ?n = "18446744073709551615 :: u64"
  let ?ds = "chars ''18446744073709551615''"
  obtain out where out: "kputuint ?n 10 = Some out"
    "\<forall>ds. numeral_of (unat (10 :: u8)) (unat ?n) ds \<longrightarrow> map digit ds = map digit (serial out)"
    using kputuint_prints_numeral [of 10 ?n] by auto
  have "numeral_of 10 18446744073709551615 ?ds"
    by (simp add: numeral_of_def number_def digit_def digits_def)
  then have "map digit ?ds = map digit (serial out)" using out(2) [rule_format, of ?ds] by simp
  then have "length (serial out) = length ?ds" by (metis length_map)
  then show ?thesis using out(1) by simp
qed

section \<open>Log lines\<close>

lemma kvprintf_literal:
  "of_char (CHR ''%'') \<notin> set lit \<Longrightarrow>
   kvprintf strs (lit @ fmt) args = do { rest \<leftarrow> kvprintf strs fmt args; Some (kputs lit @ rest) }"
  by (induction lit) (auto split: bind_splits)

lemma kvprintf_string:
  "strs p = Some s \<Longrightarrow>
   kvprintf strs (37 # 115 # fmt) (p # args) = do { rest \<leftarrow> kvprintf strs fmt args; Some (kputs s @ rest) }"
  by (simp add: convert_def)

lemma kvprintf_unsigned:
  "\<exists>ds. numeral_of 10 (unat n) ds \<and>
     kvprintf strs (37 # 117 # fmt) (n # args) = do { rest \<leftarrow> kvprintf strs fmt args; Some (kputs ds @ rest) }"
  using kputuint_numeral [of 10 n] by (auto simp: convert_def)

text \<open>A signed conversion prints the sign and the numeral of the absolute value.\<close>

lemma unat_of_int_u64: "0 \<le> k \<Longrightarrow> k < 2 ^ 64 \<Longrightarrow> unat (of_int k :: u64) = nat k"
  by (simp add: unsigned_of_int take_bit_int_eq_self)

lemma convert_signed:
  assumes "- (2 ^ 63) < sint n"
  shows "\<exists>ds. numeral_of 10 (nat \<bar>sint n\<bar>) ds \<and>
           convert strs (of_char (CHR ''d'')) (n # args) =
             Some (kputs ((if sint n < 0 then chars ''-'' else []) @ ds), args)"
proof -
  have hi: "sint n < 2 ^ 63" using sint_lt [of n] by simp
  have eq: "of_int (sint n) = n" by simp
  show ?thesis
  proof (cases "sint n < 0")
    case True
    then have "unat (- n) = nat (- sint n)"
      using assms unat_of_int_u64 [of "- sint n"] by simp
    moreover obtain ds where "kputuint (- n) 10 = Some (kputs ds)" "numeral_of 10 (unat (- n)) ds"
      using kputuint_numeral [of 10 "- n"] by auto
    ultimately show ?thesis using True assms
      by (intro exI [of _ ds]) (simp add: convert_def)
  next
    case False
    then have "unat n = nat (sint n)"
      using hi unat_of_int_u64 [of "sint n"] by simp
    moreover obtain ds where "kputuint n 10 = Some (kputs ds)" "numeral_of 10 (unat n) ds"
      using kputuint_numeral [of 10 n] by auto
    ultimately show ?thesis using False
      by (intro exI [of _ ds]) (simp add: convert_def)
  qed
qed

text \<open>The time stamp: seconds, a point, and the milliseconds in exactly three digits.\<close>

lemma number_less: "\<forall>d \<in> set ds. digit d < b \<Longrightarrow> number b ds < b ^ length ds"
proof (induction ds rule: rev_induct)
  case Nil
  then show ?case by simp
next
  case (snoc d ds)
  then have "Suc (number b ds) \<le> b ^ length ds" and d: "digit d < b" by (simp_all add: Suc_le_eq)
  then have "Suc (number b ds) * b \<le> b ^ length ds * b" by (intro mult_le_mono1)
  then show ?case using d by (simp add: mult.commute)
qed

lemma number_ge: "ds \<noteq> [] \<Longrightarrow> digit (hd ds) \<noteq> 0 \<Longrightarrow> b ^ (length ds - 1) \<le> number b ds"
proof (induction ds rule: rev_induct)
  case Nil
  then show ?case by simp
next
  case (snoc d ds)
  show ?case
  proof (cases "ds = []")
    case True
    then show ?thesis using snoc.prems by (simp add: number_def)
  next
    case False
    then have "b ^ (length ds - 1) * b \<le> number b ds * b" using snoc by (intro mult_le_mono1) simp
    also have "b ^ (length ds - 1) * b = b ^ length ds" using False by (cases ds) simp_all
    finally show ?thesis by (simp add: trans_le_add1)
  qed
qed

lemma numeral_length:
  assumes "numeral_of 10 m ds" "m < 10 ^ k" "10 ^ (k - 1) \<le> m" "1 < k"
  shows "length ds = k"
proof -
  have up: "m < 10 ^ length ds" using assms(1) number_less [of ds 10] by (simp add: numeral_of_def)
  have nz: "digit (hd ds) \<noteq> 0"
  proof
    assume "digit (hd ds) = 0"
    then have "m < 10 ^ 1" using assms(1) up by (simp add: numeral_of_def)
    also have "(10 :: nat) ^ 1 \<le> 10 ^ (k - 1)" using assms(4) by (intro power_increasing) auto
    finally show False using assms(3) by simp
  qed
  then have lo: "10 ^ (length ds - 1) \<le> m" using assms(1) number_ge [of ds 10] by (simp add: numeral_of_def)
  have "(10 :: nat) ^ (length ds - 1) < 10 ^ k" "(10 :: nat) ^ (k - 1) < 10 ^ length ds"
    using lo up assms(2,3) by linarith+
  then have "length ds - 1 < k" "k - 1 < length ds" by simp_all
  then show ?thesis by linarith
qed

lemma numeral_length_1:
  assumes "numeral_of 10 m ds" "m < 10"
  shows "length ds = 1"
proof (rule ccontr)
  assume ne: "length ds \<noteq> 1"
  then have nz: "ds \<noteq> []" "digit (hd ds) \<noteq> 0" using assms(1) by (auto simp: numeral_of_def)
  then have "2 \<le> length ds" using ne by (cases ds; cases "tl ds") auto
  then have "(10 :: nat) ^ 1 \<le> 10 ^ (length ds - 1)" by (intro power_increasing) auto
  also have "\<dots> \<le> m" using number_ge [OF nz, of 10] assms(1) by (simp add: numeral_of_def)
  finally show False using assms(2) by simp
qed

definition padding :: "nat \<Rightarrow> u8 list" where
  "padding m = (if m < 100 then [48] else []) @ (if m < 10 then [48] else [])"

lemma three_digits:
  assumes "numeral_of 10 m ds" "m < 1000"
  shows "length (padding m @ ds) = 3" "number 10 (padding m @ ds) = m"
proof -
  consider "m < 10" | "10 \<le> m \<and> m < 100" | "100 \<le> m" by linarith
  then show "length (padding m @ ds) = 3"
  proof cases
    case 1
    then show ?thesis using numeral_length_1 [OF assms(1)] by (simp add: padding_def)
  next
    case 2
    then show ?thesis using numeral_length [OF assms(1), of 2] by (simp add: padding_def)
  next
    case 3
    then show ?thesis using numeral_length [OF assms(1), of 3] assms(2) by (simp add: padding_def)
  qed
  have "digit 48 = 0" by (simp add: digit_def digits_def)
  then have "number 10 (padding m @ ds) = number 10 ds" by (simp add: padding_def number_def)
  then show "number 10 (padding m @ ds) = m" using assms(1) by (simp add: numeral_of_def)
qed

definition stamp :: "u64 \<Rightarrow> u8 list \<Rightarrow> bool" where
  "stamp ticks s \<longleftrightarrow>
     (\<exists>secs ms. s = secs @ chars ''.'' @ ms \<and> numeral_of 10 (unat ticks div 1000) secs \<and>
        length ms = 3 \<and> number 10 ms = unat ticks mod 1000)"

lemmas ansi_defs = ANSI_RESET_def ANSI_BRIGHT_BLACK_def ANSI_BRIGHT_RED_def ANSI_BRIGHT_GREEN_def
  ANSI_BRIGHT_YELLOW_def ANSI_BRIGHT_CYAN_def ANSI_BOLD_def ESC_def

lemma no_percent [simp]: "37 \<notin> set ANSI_RESET" "37 \<notin> set ANSI_BRIGHT_BLACK" "37 \<notin> set ANSI_BOLD"
  by (simp_all add: ansi_defs)

lemma kprintf_literal: "37 \<notin> set lit \<Longrightarrow> kprintf strs lit [] = Some (kputs lit)"
  using kvprintf_literal [of lit strs "[]" "[]"] by (simp add: kprintf_def)

lemma kputs_append [simp]: "kputs (a @ b) = kputs a @ kputs b"
  by (induction a) simp_all

lemma print_timestamp_stamp:
  "\<exists>s. print_timestamp strs ticks = Some (kputs (ANSI_BRIGHT_BLACK @ chars ''['' @ s @ chars ''] '' @ ANSI_RESET)) \<and>
       stamp ticks s"
proof -
  let ?ms = "unat ticks mod 1000"
  have u: "unat (ticks div 1000) = unat ticks div 1000" "unat (ticks mod 1000) = ?ms"
    by (simp_all add: unat_div unat_mod)
  obtain secs where secs: "numeral_of 10 (unat (ticks div 1000)) secs"
    "kvprintf strs (37 # 117 # []) [ticks div 1000] = Some (kputs secs)"
    using kvprintf_unsigned [of "ticks div 1000" strs "[]" "[]"] by auto
  have lit: "kvprintf strs (chars ''] '' @ ANSI_RESET) [] = Some (kputs (chars ''] '' @ ANSI_RESET))"
    using kprintf_literal [of "chars ''] '' @ ANSI_RESET" strs] by (simp add: kprintf_def)
  obtain ms where ms: "numeral_of 10 (unat (ticks mod 1000)) ms"
    "kvprintf strs (37 # 117 # (chars ''] '' @ ANSI_RESET)) [ticks mod 1000] =
       Some (kputs ms @ kputs (chars ''] '' @ ANSI_RESET))"
    using kvprintf_unsigned [of "ticks mod 1000" strs "chars ''] '' @ ANSI_RESET" "[]"]
    unfolding lit Option.bind.bind_lunit by blast
  have pad: "(if ticks mod 1000 < 100 then kprintf strs (chars ''0'') [] else Some []) =
      Some (kputs (if ?ms < 100 then [48] else []))"
    "(if ticks mod 1000 < 10 then kprintf strs (chars ''0'') [] else Some []) =
      Some (kputs (if ?ms < 10 then [48] else []))"
    using kprintf_literal [of "[48]" strs] by (simp_all add: word_less_nat_alt u)
  have "print_timestamp strs ticks = Some (kputs (ANSI_BRIGHT_BLACK @ chars ''['' @
      (secs @ chars ''.'' @ padding ?ms @ ms) @ chars ''] '' @ ANSI_RESET))"
    using secs(2) ms(2) kprintf_literal [of "ANSI_BRIGHT_BLACK @ chars ''[''" strs]
      kprintf_literal [of "chars ''.''" strs]
    unfolding print_timestamp_def Let_def pad by (simp add: kprintf_def padding_def)
  moreover have "stamp ticks (secs @ chars ''.'' @ padding ?ms @ ms)"
    using secs(1) ms(1) three_digits [of ?ms ms] unfolding stamp_def u
    by (intro exI [of _ secs] exI [of _ "padding ?ms @ ms"]) simp
  ultimately show ?thesis by blast
qed

lemma log_msg_printed:
  assumes "kvprintf strs fmt args = Some msg"
    and le: "level_num min_level \<le> level_num level"
  shows "\<exists>out s. log_msg min_level strs ticks level subsystem fmt args = Some out \<and> stamp ticks s \<and>
             serial out = ANSI_BRIGHT_BLACK @ chars ''['' @ s @ chars ''] '' @ ANSI_RESET @
               level_color level @ chars ''['' @ level_str level @ chars '']'' @ ANSI_RESET @ chars '' '' @
               ANSI_BOLD @ subsystem @ ANSI_RESET @ chars '': '' @ serial msg @ [10]"
proof -
  obtain s where s: "print_timestamp strs ticks =
      Some (kputs (ANSI_BRIGHT_BLACK @ chars ''['' @ s @ chars ''] '' @ ANSI_RESET))" "stamp ticks s"
    using print_timestamp_stamp by blast
  have lvl: "kprint_strings [level_color level, level_str level, ANSI_RESET] (chars ''%s[%s]%s '') =
      Some (kputs (level_color level) @ kputs (chars ''['') @ kputs (level_str level) @ kputs (chars '']'') @
        kputs ANSI_RESET @ kputs (chars '' ''))"
    by (simp add: kprint_strings_def kprintf_def convert_def)
  have sub: "kprint_strings [subsystem] (ANSI_BOLD @ chars ''%s'' @ ANSI_RESET @ chars '': '') =
      Some (kputs ANSI_BOLD @ kputs subsystem @ kputs ANSI_RESET @ kputs (chars '': ''))"
    by (simp add: kprint_strings_def kprintf_def kvprintf_literal convert_def)
  show "\<exists>out s. log_msg min_level strs ticks level subsystem fmt args = Some out \<and> stamp ticks s \<and>
      serial out = ANSI_BRIGHT_BLACK @ chars ''['' @ s @ chars ''] '' @ ANSI_RESET @
        level_color level @ chars ''['' @ level_str level @ chars '']'' @ ANSI_RESET @ chars '' '' @
        ANSI_BOLD @ subsystem @ ANSI_RESET @ chars '': '' @ serial msg @ [10]"
    using assms s lvl sub kprintf_literal [of "[10]" strs] unfolding log_msg_def
    by (intro exI [of _ "kputs (ANSI_BRIGHT_BLACK @ chars ''['' @ s @ chars ''] '' @ ANSI_RESET) @
        (kputs (level_color level) @ kputs (chars ''['') @ kputs (level_str level) @ kputs (chars '']'') @
        kputs ANSI_RESET @ kputs (chars '' '')) @
        (kputs ANSI_BOLD @ kputs subsystem @ kputs ANSI_RESET @ kputs (chars '': '')) @ msg @ kputs [10]"]
        exI [of _ s]) simp
qed

text \<open>
  C36. (functional) A log call below the level of the build prints nothing. Any other call whose message
  can be formatted prints one line: the time stamp in seconds and three-digit milliseconds of the
  tick counter, the level in its colour, the subsystem in bold, the message and a newline.
\<close>

theorem log_msg_line:
  assumes "kvprintf strs fmt args = Some msg"
  shows "if level_num level < level_num min_level
         then log_msg min_level strs ticks level subsystem fmt args = Some []
         else \<exists>out s. log_msg min_level strs ticks level subsystem fmt args = Some out \<and> stamp ticks s \<and>
           serial out = ANSI_BRIGHT_BLACK @ chars ''['' @ s @ chars ''] '' @ ANSI_RESET @
             level_color level @ chars ''['' @ level_str level @ chars '']'' @ ANSI_RESET @ chars '' '' @
             ANSI_BOLD @ subsystem @ ANSI_RESET @ chars '': '' @ serial msg @ [10]"
proof (cases "level_num level < level_num min_level")
  case True
  then show ?thesis by (simp add: log_msg_def)
next
  case False
  then show ?thesis using log_msg_printed [OF assms, of min_level level] by auto
qed

text \<open>The first message of the scheduler's life, 1042 ticks after the start.\<close>

theorem log_msg_line_witness:
  "kvprintf (\<lambda>p. None) (chars ''ok'') [] = Some (kputs (chars ''ok'')) \<and>
   level_num LOG_DEBUG \<le> level_num LOG_INFO \<and>
   (\<exists>out s. log_msg LOG_DEBUG (\<lambda>p. None) 1042 LOG_INFO (chars ''SCHED'') (chars ''ok'') [] = Some out \<and>
      stamp 1042 s)"
proof -
  have msg: "kvprintf (\<lambda>p. None) (chars ''ok'') [] = Some (kputs (chars ''ok''))" by simp
  show ?thesis using log_msg_line [OF msg, of LOG_INFO LOG_DEBUG 1042 "chars ''SCHED''"] msg by auto
qed

text \<open>
  A percent sign at the end of a format makes \<^verbatim>\<open>kvprintf\<close> read the terminator as a conversion and go
  on behind it.
\<close>

lemma kvprintf_dangling_percent:
  "of_char (CHR ''%'') \<notin> set lit \<Longrightarrow> kvprintf strs (lit @ chars ''%'') args = None"
  by (simp add: kvprintf_literal)

end
