(* ===== verification/Vfs.thy ===== *)
theory Vfs
  imports Interrupts HeapClient Kprintf
begin

text \<open>
  The virtual file system, \<^verbatim>\<open>fs/vfs.c\<close>: nodes with the functions of the file system they belong to, the
  walk along a path and the release of nodes. Nodes are kept in a typed store indexed by their
  addresses, which come from \<^verbatim>\<open>kmalloc\<close>; an access through an address without a node is undefined.
\<close>

section \<open>Nodes\<close>

definition VFS_FILE :: u32 where "VFS_FILE = 1"
definition VFS_DIRECTORY :: u32 where "VFS_DIRECTORY = 2"
definition VFS_CHARDEVICE :: u32 where "VFS_CHARDEVICE = 4"

text \<open>
  The function pointers \<^verbatim>\<open>read\<close>, \<^verbatim>\<open>write\<close> and \<^verbatim>\<open>finddir\<close> are null or belong to a file system; the kernel has
  one. The name is the string in the array, without its terminator.
\<close>

datatype file_system = Tmpfs

record vfs_node =
  v_name :: "u8 list"
  v_flags :: u32
  v_size :: u64
  v_inode :: u32
  v_device :: u64
  v_read :: "file_system option"
  v_write :: "file_system option"
  v_finddir :: "file_system option"
  v_ptr :: u64

definition sizeof_vfs_node :: u64 where "sizeof_vfs_node = 192"

record vfs = kernel +
  vnodes :: "u64 \<Rightarrow> vfs_node option"
  vfs_root :: u64

text \<open>The signatures of \<^verbatim>\<open>vfs_read_t\<close> and \<^verbatim>\<open>vfs_finddir_t\<close>, by file system.\<close>

type_synonym 's vfs_read_t = "file_system \<Rightarrow> u64 \<Rightarrow> u64 \<Rightarrow> u64 \<Rightarrow> u64 \<Rightarrow> 's \<Rightarrow> (u64 \<times> 's) option"
type_synonym 's vfs_finddir_t = "file_system \<Rightarrow> u64 \<Rightarrow> u8 list \<Rightarrow> 's \<Rightarrow> (u64 \<times> 's) option"

definition vfs_read ::
  "'a vfs_scheme vfs_read_t \<Rightarrow> u64 \<Rightarrow> u64 \<Rightarrow> u64 \<Rightarrow> u64 \<Rightarrow> 'a vfs_scheme \<Rightarrow> (u64 \<times> 'a vfs_scheme) option" where
  "vfs_read read node offset sz buf s = do {
     n \<leftarrow> vnodes s node;
     case v_read n of Some fs \<Rightarrow> read fs node offset sz buf s | None \<Rightarrow> Some (0, s) }"

definition vfs_close :: "u64 \<Rightarrow> 'a vfs_scheme \<Rightarrow> 'a vfs_scheme option" where
  "vfs_close node s =
     (if node = NULL then Some s
      else if node = vfs_root s then Some s
      else do { s \<leftarrow> kfree node s; Some (s\<lparr>vnodes := (vnodes s)(node := None)\<rparr>) })"

section \<open>Walking along a path\<close>

definition slash :: u8 where "slash = of_char (CHR ''/'')"

text \<open>The character of a string at an index, the terminator behind the last.\<close>

definition char_at :: "u8 list \<Rightarrow> nat \<Rightarrow> u8" where
  "char_at cs i = (if i < length cs then cs ! i else 0)"

text \<open>
  The inner loop of \<^verbatim>\<open>vfs_find_path\<close>: it moves the cursor, a \<^verbatim>\<open>uint8_t\<close>, to the end of the component and
  copies its first 127 characters.
\<close>

partial_function (option) find_path_name :: "u8 list \<Rightarrow> u8 \<Rightarrow> u8 list \<Rightarrow> (u8 list \<times> u8) option" where
  "find_path_name path cursor name =
     (let c = char_at path (unat cursor)
      in if c \<noteq> slash \<and> c \<noteq> 0
         then find_path_name path (cursor + 1) (if length name < 127 then name @ [c] else name)
         else Some (name, cursor))"

definition skip_slash :: "u8 list \<Rightarrow> u8 \<Rightarrow> u8" where
  "skip_slash path cursor = (if char_at path (unat cursor) = slash then cursor + 1 else cursor)"

definition close_unless_root :: "u64 \<Rightarrow> 'a vfs_scheme \<Rightarrow> 'a vfs_scheme option" where
  "close_unless_root node s = (if node \<noteq> vfs_root s then vfs_close node s else Some s)"

text \<open>The outer loop.\<close>

partial_function (option) find_path_loop ::
  "'a vfs_scheme vfs_finddir_t \<Rightarrow> u8 list \<Rightarrow> u8 \<Rightarrow> u64 \<Rightarrow> 'a vfs_scheme \<Rightarrow> (u64 \<times> 'a vfs_scheme) option" where
  "find_path_loop finddir path cursor current_node s =
     (if char_at path (unat cursor) \<noteq> 0 then do {
        (name, cursor) \<leftarrow> find_path_name path cursor [];
        if name = [] then find_path_loop finddir path (skip_slash path cursor) current_node s
        else do {
          n \<leftarrow> vnodes s current_node;
          if v_flags n AND VFS_DIRECTORY = 0 then Some (NULL, log_error ''VFS'' s)
          else do {
            fs \<leftarrow> v_finddir n;
            (nxt, s) \<leftarrow> finddir fs current_node name s;
            s \<leftarrow> close_unless_root current_node s;
            if nxt = NULL then Some (NULL, log_debug ''VFS'' s)
            else find_path_loop finddir path (skip_slash path cursor) nxt s } } }
      else Some (current_node, s))"

text \<open>\<open>None\<close> is a null pointer instead of a path.\<close>

definition vfs_find_path ::
  "'a vfs_scheme vfs_finddir_t \<Rightarrow> u8 list option \<Rightarrow> 'a vfs_scheme \<Rightarrow> (u64 \<times> 'a vfs_scheme) option" where
  "vfs_find_path finddir p s =
     (case p of
        None \<Rightarrow> Some (NULL, s)
      | Some path \<Rightarrow>
          if char_at path 0 = 0 then Some (NULL, s)
          else if char_at path 0 = slash \<and> char_at path 1 = 0 then Some (vfs_root s, s)
          else find_path_loop finddir path (if char_at path 0 = slash then 1 else 0) (vfs_root s) s)"

section \<open>Paths as lists of names\<close>

text \<open>The parts of a path between its slashes.\<close>

fun split_path :: "u8 list \<Rightarrow> u8 list list" where
  "split_path [] = [[]]"
| "split_path (c # cs) =
     (if c = slash then [] # split_path cs else (c # hd (split_path cs)) # tl (split_path cs))"

text \<open>The names that the walk looks up: the parts that are not empty, cut off after 127 characters.\<close>

definition path_names :: "u8 list \<Rightarrow> u8 list list" where
  "path_names path = map (take 127) (filter (\<lambda>w. w \<noteq> []) (split_path path))"

abbreviation path_head :: "u8 list \<Rightarrow> u8 list" where
  "path_head cs \<equiv> takeWhile (\<lambda>c. c \<noteq> slash) cs"

lemma split_path_head: "split_path cs =
  path_head cs # (case dropWhile (\<lambda>c. c \<noteq> slash) cs of [] \<Rightarrow> [] | c # r \<Rightarrow> split_path r)"
  by (induction cs) auto

lemma path_names_head:
  "path_names cs = (if path_head cs = [] then [] else [take 127 (path_head cs)]) @
     (case dropWhile (\<lambda>c. c \<noteq> slash) cs of [] \<Rightarrow> [] | c # r \<Rightarrow> path_names r)"
proof (cases "dropWhile (\<lambda>c. c \<noteq> slash) cs")
  case Nil
  show ?thesis unfolding path_names_def split_path_head [of cs] Nil by simp
next
  case (Cons c r)
  show ?thesis unfolding path_names_def split_path_head [of cs] Cons by simp
qed

text \<open>The cursor at index \<open>i\<close> of a path of fewer than 256 characters.\<close>

lemma char_at_cursor:
  assumes "length path < 256" "0 \<notin> set path" "i \<le> length path"
  shows "unat (of_nat i :: u8) = i" "char_at path i = 0 \<longleftrightarrow> drop i path = []"
    "char_at path i = slash \<longleftrightarrow> (\<exists>r. drop i path = slash # r)"
proof -
  show "unat (of_nat i :: u8) = i" using assms by (simp add: unat_of_nat)
  show "char_at path i = 0 \<longleftrightarrow> drop i path = []"
    using assms by (auto simp: char_at_def in_set_conv_nth)
  show "char_at path i = slash \<longleftrightarrow> (\<exists>r. drop i path = slash # r)"
    using assms(3) by (cases "i < length path") (auto simp: char_at_def slash_def Cons_nth_drop_Suc [symmetric])
qed

lemma find_path_name_word:
  assumes p: "length path < 256" "0 \<notin> set path" and i: "i \<le> length path" and n: "length name \<le> 127"
  shows "find_path_name path (of_nat i) name =
    Some (take 127 (name @ path_head (drop i path)), of_nat (i + length (path_head (drop i path))))"
  using i n
proof (induction "length path - i" arbitrary: i name)
  case 0
  then have "drop i path = []" by simp
  then show ?case using 0 char_at_cursor [OF p 0(2)] by (simp add: find_path_name.simps [of path])
next
  case (Suc k)
  then have lt: "i < length path" by simp
  note c = char_at_cursor [OF p Suc.prems(1)]
  have d: "drop i path = char_at path i # drop (Suc i) path"
    using lt by (simp add: char_at_def Cons_nth_drop_Suc)
  have n0: "char_at path i \<noteq> 0" using c(2) lt by simp
  show ?case
  proof (cases "char_at path i = slash")
    case True
    then show ?thesis using Suc.prems(2) c(1) d by (simp add: find_path_name.simps [of path])
  next
    case False
    let ?name = "if length name < 127 then name @ [char_at path i] else name"
    have "find_path_name path (of_nat (Suc i)) ?name =
        Some (take 127 (?name @ path_head (drop (Suc i) path)), of_nat (Suc i + length (path_head (drop (Suc i) path))))"
      by (rule Suc.hyps(1)) (use Suc.hyps(2) Suc.prems lt in auto)
    moreover have "take 127 (?name @ w) = take 127 (name @ char_at path i # w)" for w
      using Suc.prems(2) by (auto simp: take_Cons')
    ultimately show ?thesis
      using False n0 c(1) d by (simp add: find_path_name.simps [of path "of_nat i"] add.commute Let_def)
  qed
qed

text \<open>One round of the outer loop.\<close>

lemma skip_slash_next:
  assumes "length path < 256" "0 \<notin> set path" "i \<le> length path"
  shows "skip_slash path (of_nat (i + length (path_head (drop i path)))) =
      of_nat (i + length (path_head (drop i path)) + (if dropWhile (\<lambda>c. c \<noteq> slash) (drop i path) = [] then 0 else 1))"
proof -
  let ?j = "i + length (path_head (drop i path))"
  have "?j \<le> length path" using assms(3) length_takeWhile_le [of "\<lambda>c. c \<noteq> slash" "drop i path"] by simp
  note c = char_at_cursor [OF assms(1,2) this]
  have d: "drop ?j path = dropWhile (\<lambda>c. c \<noteq> slash) (drop i path)"
    by (simp add: dropWhile_eq_drop add.commute)
  show ?thesis
  proof (cases "dropWhile (\<lambda>c. c \<noteq> slash) (drop i path)")
    case Nil
    have "char_at path ?j \<noteq> slash" using c(3) unfolding d Nil by simp
    then show ?thesis unfolding Nil using c(1) by (simp add: skip_slash_def)
  next
    case (Cons a r)
    then have "a = slash" using hd_dropWhile [of "\<lambda>c. c \<noteq> slash" "drop i path"] by auto
    then have "char_at path ?j = slash" using c(3) d Cons by simp
    then show ?thesis unfolding Cons using c(1) by (simp add: skip_slash_def)
  qed
qed

section \<open>Lookup in a file system\<close>

fun resolve :: "('n \<Rightarrow> u8 list \<Rightarrow> 'n option) \<Rightarrow> 'n \<Rightarrow> u8 list list \<Rightarrow> 'n option" where
  "resolve child x [] = Some x"
| "resolve child x (w # ws) = (case child x w of None \<Rightarrow> None | Some y \<Rightarrow> resolve child y ws)"

text \<open>The walk comes to an object that is not a directory with names left.\<close>

fun blocked :: "('n \<Rightarrow> u8 list \<Rightarrow> 'n option) \<Rightarrow> ('n \<Rightarrow> bool) \<Rightarrow> 'n \<Rightarrow> u8 list list \<Rightarrow> bool" where
  "blocked child is_dir x [] = False"
| "blocked child is_dir x (w # ws) =
     (\<not> is_dir x \<or> (case child x w of None \<Rightarrow> False | Some y \<Rightarrow> blocked child is_dir y ws))"

text \<open>
  How a walk from the object \<open>x\<close> along \<open>ws\<close> ends, where the other open nodes are \<open>V\<close>: with a new node for
  the object it leads to, or with \<^verbatim>\<open>NULL\<close>. All nodes opened on the way are closed again, except that of a
  file in the middle of the path.
\<close>

definition walk_outcome ::
  "('n \<Rightarrow> u8 list \<Rightarrow> 'n option) \<Rightarrow> ('n \<Rightarrow> bool) \<Rightarrow> (vfs_node \<Rightarrow> 'n \<Rightarrow> bool) \<Rightarrow> (u64 \<Rightarrow> vfs_node option) \<Rightarrow>
   'n \<Rightarrow> u8 list list \<Rightarrow> u64 \<Rightarrow> (u64 \<Rightarrow> vfs_node option) \<Rightarrow> bool" where
  "walk_outcome child is_dir denotes V x ws p V' \<longleftrightarrow>
     (case resolve child x ws of
        Some y \<Rightarrow> \<exists>m. V' = V(p \<mapsto> m) \<and> denotes m y \<and> p \<notin> dom V \<and> p \<noteq> NULL
      | None \<Rightarrow> p = NULL \<and>
          (if blocked child is_dir x ws
           then \<exists>q m y. V' = V(q \<mapsto> m) \<and> q \<notin> dom V \<and> denotes m y \<and> \<not> is_dir y
           else V' = V))"

text \<open>
  What the walk relies on: a file system in the state \<open>ready k\<close>, with memory for \<open>k\<close> more nodes, finds
  the entry of a directory and gives it a node of its own.
\<close>

locale file_service =
  fixes finddir :: "'a vfs_scheme vfs_finddir_t"
    and ready :: "nat \<Rightarrow> 'a vfs_scheme \<Rightarrow> bool"
    and denotes :: "vfs_node \<Rightarrow> 'n \<Rightarrow> bool"
    and is_dir :: "'n \<Rightarrow> bool"
    and child :: "'n \<Rightarrow> u8 list \<Rightarrow> 'n option"
  assumes lookup: "ready (Suc k) s \<Longrightarrow> vnodes s v = Some n \<Longrightarrow> denotes n x \<Longrightarrow> is_dir x \<Longrightarrow> 0 \<notin> set name \<Longrightarrow>
      \<exists>fs p s'. v_finddir n = Some fs \<and> finddir fs v name s = Some (p, s') \<and> ready k s' \<and>
        vfs_root s' = vfs_root s \<and>
        (case child x name of
           None \<Rightarrow> p = NULL \<and> vnodes s' = vnodes s
         | Some y \<Rightarrow> \<exists>m. p \<noteq> NULL \<and> p \<notin> dom (vnodes s) \<and> vnodes s' = (vnodes s)(p \<mapsto> m) \<and> denotes m y)"
    and flags: "denotes n x \<Longrightarrow> v_flags n AND VFS_DIRECTORY = 0 \<longleftrightarrow> \<not> is_dir x"
    and child_dir: "child x name = Some y \<Longrightarrow> is_dir x"
    and close: "ready k s \<Longrightarrow> v \<in> dom (vnodes s) \<Longrightarrow> v \<noteq> vfs_root s \<Longrightarrow>
      \<exists>s'. vfs_close v s = Some s' \<and> ready k s' \<and> vnodes s' = (vnodes s)(v := None) \<and> vfs_root s' = vfs_root s"
    and root: "ready k s \<Longrightarrow> vfs_root s \<in> dom (vnodes s)"
    and mono: "ready k s \<Longrightarrow> j \<le> k \<Longrightarrow> ready j s"
    and logs: "ready k s \<Longrightarrow> ready k (s\<lparr>klog := l\<rparr>)"
begin

definition others :: "u64 \<Rightarrow> 'a vfs_scheme \<Rightarrow> u64 \<Rightarrow> vfs_node option" where
  "others v s = (if v = vfs_root s then vnodes s else (vnodes s)(v := None))"

abbreviation outcome :: "(u64 \<Rightarrow> vfs_node option) \<Rightarrow> 'n \<Rightarrow> u8 list list \<Rightarrow> u64 \<Rightarrow> 'a vfs_scheme \<Rightarrow> bool" where
  "outcome V x ws p s' \<equiv> walk_outcome child is_dir denotes V x ws p (vnodes s')"

lemmas outcome_def = walk_outcome_def

lemma close_unless_root_others:
  assumes "ready k s" "v \<in> dom (vnodes s)"
  shows "\<exists>s'. close_unless_root v s = Some s' \<and> ready k s' \<and> vnodes s' = others v s \<and> vfs_root s' = vfs_root s"
  using assms close [OF assms] by (auto simp: close_unless_root_def others_def)

lemma logged [simp]:
  "ready k s \<Longrightarrow> ready k (log_event l t s)"
  "vnodes (log_event l t s) = vnodes s" "vfs_root (log_event l t s) = vfs_root s"
  using logs by (simp_all add: log_event_def)

text \<open>One round of the walk with a name to look up.\<close>

lemma find_path_round:
  assumes r: "ready (Suc k) s" and v: "vnodes s v = Some n" "denotes n x" and w: "w \<noteq> []" "0 \<notin> set w"
    and c: "char_at path (unat cursor) \<noteq> 0" and name: "find_path_name path cursor [] = Some (w, cursor')"
    and nr: "v = vfs_root s \<longrightarrow> is_dir x"
  shows "case child x w of
          None \<Rightarrow> \<exists>s'. find_path_loop finddir path cursor v s = Some (NULL, s') \<and> ready k s' \<and>
                 vfs_root s' = vfs_root s \<and> outcome (others v s) x (w # ws) NULL s'
        | Some y \<Rightarrow> \<exists>p s' m. ready k s' \<and> vfs_root s' = vfs_root s \<and> p \<noteq> NULL \<and>
                 p \<notin> dom (others v s) \<and> p \<noteq> vfs_root s' \<and> vnodes s' = (others v s)(p \<mapsto> m) \<and> denotes m y \<and>
                 find_path_loop finddir path cursor v s =
                 find_path_loop finddir path (skip_slash path cursor') p s'"
proof (cases "is_dir x")
  case False
  then have "find_path_loop finddir path cursor v s = Some (NULL, log_error ''VFS'' s)"
    using c name w(1) v flags [OF v(2)] by (simp add: find_path_loop.simps [of finddir path cursor])
  moreover have none: "child x w = None" using child_dir False by (cases "child x w") auto
  moreover have "vnodes s = (others v s)(v \<mapsto> n)" "v \<notin> dom (others v s)"
    using v nr False by (auto simp: others_def)
  then have "outcome (others v s) x (w # ws) NULL (log_error ''VFS'' s)"
    using none False v(2) by (auto simp: outcome_def)
  ultimately show ?thesis using mono [OF r, of k] by simp
next
  case True
  from lookup [OF r v True w(2)] obtain fs p s1 where fd: "v_finddir n = Some fs" "finddir fs v w s = Some (p, s1)"
    and r1: "ready k s1" and rt: "vfs_root s1 = vfs_root s"
    and out: "case child x w of None \<Rightarrow> p = NULL \<and> vnodes s1 = vnodes s
      | Some y \<Rightarrow> \<exists>m. p \<noteq> NULL \<and> p \<notin> dom (vnodes s) \<and> vnodes s1 = (vnodes s)(p \<mapsto> m) \<and> denotes m y" by blast
  have "v \<in> dom (vnodes s1)" 
  proof (cases "child x w")
    case None
    then show ?thesis using out v(1) by auto
  next
    case (Some y)
    then show ?thesis using out v(1) by (auto split: if_splits)
  qed
  from close_unless_root_others [OF r1 this] obtain s2 where
    cl: "close_unless_root v s1 = Some s2" "ready k s2" "vnodes s2 = others v s1" "vfs_root s2 = vfs_root s" using rt by auto
  have fl: "v_flags n AND VFS_DIRECTORY \<noteq> 0" using flags [OF v(2)] True by simp
  show ?thesis
  proof (cases "child x w")
    case None
    then have "find_path_loop finddir path cursor v s = Some (NULL, log_debug ''VFS'' s2)"
      using c name w(1) v fl fd cl(1) out by (simp add: find_path_loop.simps [of finddir path cursor])
    moreover have "outcome (others v s) x (w # ws) NULL (log_debug ''VFS'' s2)"
      using None True cl(3) out rt by (simp add: outcome_def others_def)
    ultimately show ?thesis using None cl(2,4) by simp
  next
    case (Some y)
    then obtain m where m: "p \<noteq> NULL" "p \<notin> dom (vnodes s)" "vnodes s1 = (vnodes s)(p \<mapsto> m)" "denotes m y"
      using out by auto
    have pv: "p \<noteq> v" using m(2) v(1) by auto
    have "find_path_loop finddir path cursor v s = find_path_loop finddir path (skip_slash path cursor') p s2"
      using c name w(1) v fl fd cl(1) m(1) by (simp add: find_path_loop.simps [of finddir path cursor])
    moreover have "vnodes s2 = (others v s)(p \<mapsto> m)" using cl(3) m(3) rt pv by (simp add: others_def fun_upd_twist)
    moreover have "p \<notin> dom (others v s)" using m(2) by (auto simp: others_def)
    moreover have "p \<noteq> vfs_root s2" using m(2) root [OF r] cl(4) by auto
    ultimately show ?thesis using Some cl(2,4) m(1,4) by auto
  qed
qed

lemma outcome_step:
  assumes "child x w = Some y" and V: "p \<notin> dom V"
    and "if ws = [] then p' = p \<and> vnodes s' = V(p \<mapsto> m) \<and> p \<noteq> NULL \<and> denotes m y else outcome V y ws p' s'"
  shows "outcome V x (w # ws) p' s'"
proof (cases "ws = []")
  case True
  then show ?thesis using assms child_dir [OF assms(1)] by (auto simp: outcome_def)
next
  case False
  then have "outcome V y ws p' s'" using assms(3) by simp
  moreover have "resolve child x (w # ws) = resolve child y ws"
    "blocked child is_dir x (w # ws) = blocked child is_dir y ws"
    using assms(1) child_dir [OF assms(1)] by simp_all
  ultimately show ?thesis unfolding outcome_def by (simp only:)
qed

lemma find_path_walk:
  assumes path: "length path < 256" "0 \<notin> set path"
  shows "i \<le> length path \<Longrightarrow> ready (k + length (path_names (drop i path))) s \<Longrightarrow> vnodes s v = Some n \<Longrightarrow>
    denotes n x \<Longrightarrow> (v = vfs_root s \<longrightarrow> is_dir x) \<Longrightarrow>
    \<exists>p s'. find_path_loop finddir path (of_nat i) v s = Some (p, s') \<and> ready k s' \<and> vfs_root s' = vfs_root s \<and>
      (if path_names (drop i path) = [] then p = v \<and> vnodes s' = vnodes s
       else outcome (others v s) x (path_names (drop i path)) p s')"
proof (induction "length path - i" arbitrary: i v s n x rule: less_induct)
  case less
  note [simp del] = dropWhile_eq_Nil_conv takeWhile_eq_Nil_iff
  let ?w = "path_head (drop i path)" and ?r = "dropWhile (\<lambda>c. c \<noteq> slash) (drop i path)"
  define j where "j = i + length ?w + (if ?r = [] then 0 else 1)"
  note c = char_at_cursor [OF path less.prems(1)]
  have fn: "find_path_name path (of_nat i) [] = Some (take 127 ?w, of_nat (i + length ?w))"
    using find_path_name_word [OF path less.prems(1), of "[]"] by simp
  have split: "drop i path = ?w @ ?r" by simp
  have dj: "drop j path = tl ?r"
  proof -
    have "drop (i + length ?w) path = ?r" by (simp add: dropWhile_eq_drop add.commute)
    then show ?thesis unfolding j_def by (cases ?r) (auto simp: drop_Suc tl_drop [symmetric])
  qed
  have jle: "j \<le> length path"
    unfolding j_def using arg_cong [OF split, of length] less.prems(1) by (cases ?r) auto
  have names: "path_names (drop i path) = (if ?w = [] then [] else [take 127 ?w]) @ path_names (drop j path)"
    unfolding dj using path_names_head [of "drop i path"] by (cases ?r) (auto simp: path_names_def)
  have sk: "skip_slash path (of_nat (i + length ?w)) = of_nat j"
    unfolding j_def by (rule skip_slash_next [OF path less.prems(1)])
  show ?case
  proof (cases "drop i path = []")
    case True
    then have "find_path_loop finddir path (of_nat i) v s = Some (v, s)"
      using c(1,2) by (simp add: find_path_loop.simps [of finddir path])
    then show ?thesis using True less.prems(2) mono by (auto simp: path_names_def)
  next
    case False
    have c0: "char_at path (unat (of_nat i :: u8)) \<noteq> 0" using c(1,2) False by simp
    have lt: "length path - j < length path - i"
    proof -
      have "?r = drop i path" if "?w = []" using split unfolding that by simp
      then have "i < j" unfolding j_def using False by (cases "?w = []") auto
      moreover have "i < length path" using False by simp
      ultimately show ?thesis by arith
    qed
    note IH = less.hyps [OF lt jle]
    show ?thesis
    proof (cases "?w = []")
      case True
      have nm: "path_names (drop i path) = path_names (drop j path)" using names True by simp
      have run: "find_path_loop finddir path (of_nat i) v s = find_path_loop finddir path (of_nat j) v s"
        using True c0 fn sk
        by (simp add: find_path_loop.simps [of finddir path "of_nat i"])
      show ?thesis unfolding nm run by (rule IH [OF less.prems(2) [unfolded nm] less.prems(3-5)])
    next
      case w: False
      let ?n = "take 127 ?w" and ?ns = "path_names (drop j path)"
      have ns: "path_names (drop i path) = ?n # ?ns" using names w by simp
      have rdy: "ready (Suc (k + length ?ns)) s" using less.prems(2) ns by simp
      have wn: "?n \<noteq> []" "0 \<notin> set ?n"
        using w path(2) by (auto dest!: in_set_takeD set_takeWhileD in_set_dropD)
      note rnd = find_path_round [OF rdy less.prems(3,4) wn c0 fn less.prems(5), of ?ns]
      show ?thesis
      proof (cases "child x ?n")
        case None
        then show ?thesis using rnd ns mono [of "k + length ?ns" _ k] by auto
      next
        case (Some y)
        then obtain p s1 m where s1: "ready (k + length ?ns) s1" "vfs_root s1 = vfs_root s" "p \<noteq> NULL"
          "p \<notin> dom (others v s)" "p \<noteq> vfs_root s1" "vnodes s1 = (others v s)(p \<mapsto> m)" "denotes m y"
          "find_path_loop finddir path (of_nat i) v s = find_path_loop finddir path (of_nat j) p s1"
          using rnd unfolding sk Some option.case by blast
        have o: "others p s1 = others v s" using s1(4,5,6) by (auto simp: others_def fun_upd_idem_iff)
        have vp: "vnodes s1 p = Some m" "p = vfs_root s1 \<longrightarrow> is_dir y" using s1(5,6) by simp_all
        from IH [OF s1(1) vp(1) s1(7) vp(2)] obtain p' s' where
          run: "find_path_loop finddir path (of_nat j) p s1 = Some (p', s')" "ready k s'" "vfs_root s' = vfs_root s1"
          and out: "if ?ns = [] then p' = p \<and> vnodes s' = vnodes s1 else outcome (others v s) y ?ns p' s'"
          unfolding o by blast
        have "outcome (others v s) x (?n # ?ns) p' s'"
          by (rule outcome_step [OF Some s1(4)]) (use out s1(3,6,7) in auto)
        then show ?thesis using run s1(2,8) ns by auto
      qed
    qed
  qed
qed

lemma find_path_resolves:
  assumes path: "length path < 256" "0 \<notin> set path" and r: "ready (k + length (path_names path)) s"
    and n: "vnodes s (vfs_root s) = Some n" "denotes n x" "is_dir x"
  shows "\<exists>p s'. vfs_find_path finddir (Some path) s = Some (p, s') \<and> ready k s' \<and> vfs_root s' = vfs_root s \<and>
    (if path = [] then p = NULL \<and> vnodes s' = vnodes s
     else if path_names path = [] then p = vfs_root s \<and> vnodes s' = vnodes s
     else outcome (vnodes s) x (path_names path) p s')"
proof (cases "path = []")
  case True
  then show ?thesis using r mono by (auto simp: vfs_find_path_def char_at_def)
next
  case False
  then obtain c cs where cs: "path = c # cs" by (cases path) auto
  have o: "others (vfs_root s) s = vnodes s" by (simp add: others_def)
  have c0: "c \<noteq> 0" using path(2) cs by simp
  have walk: ?thesis
    if run: "vfs_find_path finddir (Some path) s = find_path_loop finddir path (of_nat i) (vfs_root s) s"
      and i: "i \<le> length path" and nm: "path_names (drop i path) = path_names path" for i
  proof -
    have "\<exists>p s'. find_path_loop finddir path (of_nat i) (vfs_root s) s = Some (p, s') \<and> ready k s' \<and>
        vfs_root s' = vfs_root s \<and> (if path_names path = [] then p = vfs_root s \<and> vnodes s' = vnodes s
        else outcome (vnodes s) x (path_names path) p s')"
      by (rule find_path_walk [OF path i, of k s "vfs_root s" n x, unfolded nm o]) (use r n in auto)
    then show ?thesis unfolding run using False by (simp only: if_False simp_thms)
  qed
  show ?thesis
  proof (cases "c = slash")
    case True
    have pn: "path_names path = path_names cs" using cs True by (simp add: path_names_def)
    show ?thesis
    proof (cases "cs = []")
      case True
      then show ?thesis using pn cs c0 \<open>c = slash\<close> r
        by (simp add: vfs_find_path_def char_at_def path_names_def)
    next
      case False
      then have "char_at path 1 \<noteq> 0" using path(2) cs by (cases cs) (auto simp: char_at_def)
      then have "vfs_find_path finddir (Some path) s = find_path_loop finddir path (of_nat 1) (vfs_root s) s"
        using cs \<open>c = slash\<close> c0 by (simp add: vfs_find_path_def char_at_def)
      then show ?thesis by (rule walk) (use cs pn in simp_all)
    qed
  next
    case False
    have "vfs_find_path finddir (Some path) s = find_path_loop finddir path (of_nat 0) (vfs_root s) s"
      using cs False c0 by (simp add: vfs_find_path_def char_at_def)
    then show ?thesis by (rule walk) simp_all
  qed
qed

end

section \<open>Paths that are too long\<close>

lemma char_at_nonzero: "256 \<le> length path \<Longrightarrow> char_at path (unat (c :: u8)) \<in> set path"
  using unat_u8_less [of c] by (simp add: char_at_def)

lemma find_path_name_diverges:
  assumes "256 \<le> length path" "0 \<notin> set path" "slash \<notin> set path"
  shows "find_path_name path cursor name = None"
proof (rule ccontr)
  assume "find_path_name path cursor name \<noteq> None"
  then obtain r where r: "find_path_name path cursor name = Some r" by blast
  have "\<not> (256 \<le> length path \<and> 0 \<notin> set path \<and> slash \<notin> set path)"
  proof (rule find_path_name.raw_induct [OF _ r])
    fix f :: "u8 list \<Rightarrow> u8 \<Rightarrow> u8 list \<Rightarrow> (u8 list \<times> u8) option" and path name :: "u8 list" and cursor :: u8 and r
    assume hyp: "\<And>path cursor name r. f path cursor name = Some r \<Longrightarrow>
        \<not> (256 \<le> length path \<and> 0 \<notin> set path \<and> slash \<notin> set path)"
      and run: "(let c = char_at path (unat cursor) in if c \<noteq> slash \<and> c \<noteq> 0
        then f path (cursor + 1) (if length name < 127 then name @ [c] else name) else Some (name, cursor)) = Some r"
    show "\<not> (256 \<le> length path \<and> 0 \<notin> set path \<and> slash \<notin> set path)"
      using hyp run char_at_nonzero [of path cursor] by (auto simp: Let_def split: if_splits)
  qed
  then show False using assms by blast
qed

text \<open>
  C40. The cursor of \<^verbatim>\<open>vfs_find_path\<close> is a \<^verbatim>\<open>uint8_t\<close>: on a name of 256 characters or more it wraps around
  before it comes to the end of the name, and the function never returns, whatever the file system does.
\<close>

theorem vfs_find_path_long_name:
  assumes "256 \<le> length path" "0 \<notin> set path" "slash \<notin> set path"
  shows "vfs_find_path finddir (Some path) s = None"
proof -
  have "char_at path 0 \<in> set path" using char_at_nonzero [of path 0] assms(1) by simp
  then have "char_at path 0 \<noteq> 0" "char_at path 0 \<noteq> slash" using assms(2,3) by auto
  then show ?thesis
    using find_path_name_diverges [OF assms] by (simp add: vfs_find_path_def find_path_loop.simps [of finddir path])
qed

theorem vfs_find_path_long_name_witness:
  "\<forall>s :: vfs. vfs_find_path (\<lambda>fs v name s. Some (NULL, s)) (Some (replicate 300 97)) s = None"
  by (rule allI, rule vfs_find_path_long_name) (simp_all add: slash_def)

end
