(* ===== verification/Tmpfs.thy ===== *)
theory Tmpfs
  imports Vfs
begin

text \<open>
  The file system in memory, \<^verbatim>\<open>fs/tmpfs.c\<close>. Its nodes, like those of the virtual file system, are kept in a
  typed store indexed by their addresses; the contents of files are blocks of the modelled memory.
  A write through a null pointer, and a string that does not fit its array, are undefined.
\<close>

section \<open>Nodes\<close>

record tmpfs_node =
  t_name :: "u8 list"
  t_flags :: u32
  t_size :: u64
  t_data :: u64
  t_next :: u64
  t_children :: u64

definition sizeof_tmpfs_node :: u64 where "sizeof_tmpfs_node = 168"

record tmpfs = vfs +
  tnodes :: "u64 \<Rightarrow> tmpfs_node option"
  root_internal :: u64

text \<open>\<^verbatim>\<open>strcpy\<close> of a string into an array of \<open>n\<close> characters.\<close>

definition copy_string :: "nat \<Rightarrow> u8 list \<Rightarrow> u8 list option" where
  "copy_string n cs = (if length cs < n then Some cs else None)"

definition zero_tmpfs_node :: tmpfs_node where
  "zero_tmpfs_node = \<lparr>t_name = [], t_flags = 0, t_size = 0, t_data = 0, t_next = 0, t_children = 0\<rparr>"

definition set_tnode :: "u64 \<Rightarrow> tmpfs_node \<Rightarrow> 'a tmpfs_scheme \<Rightarrow> 'a tmpfs_scheme" where
  "set_tnode p t s = s\<lparr>tnodes := (tnodes s)(p \<mapsto> t)\<rparr>"

section \<open>Operations\<close>

definition tmpfs_create_vnode :: "u64 \<Rightarrow> 'a tmpfs_scheme \<Rightarrow> (u64 \<times> 'a tmpfs_scheme) option" where
  "tmpfs_create_vnode internal s =
     (if internal = NULL then Some (NULL, s)
      else do {
        (node, s) \<leftarrow> kmalloc sizeof_vfs_node s;
        if node = NULL then None
        else do {
          t \<leftarrow> tnodes s internal;
          name \<leftarrow> copy_string 128 (t_name t);
          let n = \<lparr>v_name = name, v_flags = t_flags t, v_size = t_size t, v_inode = 0, v_device = internal,
                   v_read = Some Tmpfs, v_write = None, v_finddir = Some Tmpfs, v_ptr = NULL\<rparr>;
          Some (node, s\<lparr>vnodes := (vnodes s)(node \<mapsto> n)\<rparr>) } })"

text \<open>\<^verbatim>\<open>offset + size\<close> may wrap around.\<close>

definition tmpfs_read ::
  "u64 \<Rightarrow> u64 \<Rightarrow> u64 \<Rightarrow> u64 \<Rightarrow> 'a tmpfs_scheme \<Rightarrow> (u64 \<times> 'a tmpfs_scheme) option" where
  "tmpfs_read node offset sz buf s = do {
     n \<leftarrow> vnodes s node;
     internal \<leftarrow> tnodes s (v_device n);
     if t_size internal \<le> offset then Some (0, s)
     else do {
       let sz = (if t_size internal < offset + sz then t_size internal - offset else sz);
       (_, s) \<leftarrow> memcpy buf (t_data internal + offset) sz s;
       Some (sz, s) } }"

text \<open>The loop of \<^verbatim>\<open>tmpfs_finddir\<close>: the first entry with the name. \<^verbatim>\<open>strcmp\<close> compares the strings with their terminators.\<close>

partial_function (option) finddir_loop ::
  "u64 \<Rightarrow> u8 list \<Rightarrow> 'a tmpfs_scheme \<Rightarrow> (u64 \<times> 'a tmpfs_scheme) option" where
  "finddir_loop cur name s =
     (if cur = NULL then Some (NULL, s)
      else do {
        t \<leftarrow> tnodes s cur;
        if lex_cmp (t_name t @ [0]) (name @ [0]) = 0 then tmpfs_create_vnode cur s
        else finddir_loop (t_next t) name s })"

definition tmpfs_finddir :: "u64 \<Rightarrow> u8 list \<Rightarrow> 'a tmpfs_scheme \<Rightarrow> (u64 \<times> 'a tmpfs_scheme) option" where
  "tmpfs_finddir dir name s = do {
     n \<leftarrow> vnodes s dir;
     internal_dir \<leftarrow> tnodes s (v_device n);
     if t_flags internal_dir \<noteq> VFS_DIRECTORY then Some (NULL, s)
     else finddir_loop (t_children internal_dir) name s }"

text \<open>The functions that the pointers in a node select.\<close>

fun call_finddir :: "'a tmpfs_scheme vfs_finddir_t" where
  "call_finddir Tmpfs dir name s = tmpfs_finddir dir name s"

fun call_read :: "'a tmpfs_scheme vfs_read_t" where
  "call_read Tmpfs node offset sz buf s = tmpfs_read node offset sz buf s"

definition tmpfs_init :: "'a tmpfs_scheme \<Rightarrow> 'a tmpfs_scheme option" where
  "tmpfs_init s = do {
     (r, s) \<leftarrow> kmalloc sizeof_tmpfs_node s;
     if r = NULL then None
     else do {
       let s = s\<lparr>root_internal := r\<rparr>;
       let s = set_tnode r (zero_tmpfs_node\<lparr>t_name := [slash], t_flags := VFS_DIRECTORY\<rparr>) s;
       (v, s) \<leftarrow> tmpfs_create_vnode r s;
       Some (s\<lparr>vfs_root := v\<rparr>) } }"

text \<open>The contents of a new file: \<^verbatim>\<open>data\<close> is copied into a block of its own.\<close>

definition file_data ::
  "u64 \<Rightarrow> u64 \<Rightarrow> tmpfs_node \<Rightarrow> 'a tmpfs_scheme \<Rightarrow> (tmpfs_node \<times> 'a tmpfs_scheme) option" where
  "file_data data sz t s =
     (if 0 < sz then do {
        (d, s) \<leftarrow> kmalloc sz s;
        if d = NULL then None
        else do { (_, s) \<leftarrow> memcpy d data sz s; Some (t\<lparr>t_data := d\<rparr>, s) } }
      else Some (t, s))"

definition tmpfs_create_file ::
  "u64 \<Rightarrow> u8 list \<Rightarrow> u64 \<Rightarrow> u64 \<Rightarrow> 'a tmpfs_scheme \<Rightarrow> (u64 \<times> 'a tmpfs_scheme) option" where
  "tmpfs_create_file parent name data sz s =
     (if parent = NULL then Some (NULL, s)
      else do {
        p \<leftarrow> tnodes s parent;
        if t_flags p \<noteq> VFS_DIRECTORY then Some (NULL, s)
        else do {
          (new_node, s) \<leftarrow> kmalloc sizeof_tmpfs_node s;
          if new_node = NULL then None
          else do {
            name \<leftarrow> copy_string 128 name;
            let t = zero_tmpfs_node\<lparr>t_name := name, t_flags := VFS_FILE, t_size := sz\<rparr>;
            (t, s) \<leftarrow> file_data data sz t s;
            p \<leftarrow> tnodes s parent;
            let s = set_tnode new_node (t\<lparr>t_next := t_children p\<rparr>) s;
            p \<leftarrow> tnodes s parent;
            Some (new_node, set_tnode parent (p\<lparr>t_children := new_node\<rparr>) s) } } })"

definition tmpfs_create_dir :: "u64 \<Rightarrow> u8 list \<Rightarrow> 'a tmpfs_scheme \<Rightarrow> (u64 \<times> 'a tmpfs_scheme) option" where
  "tmpfs_create_dir parent name s = do {
     (new_dir, s) \<leftarrow> tmpfs_create_file parent name NULL 0 s;
     if new_dir \<noteq> NULL
     then do {
       t \<leftarrow> tnodes s new_dir;
       Some (new_dir, set_tnode new_dir (t\<lparr>t_flags := VFS_DIRECTORY\<rparr>) s) }
     else Some (new_dir, s) }"

definition tmpfs_get_root_internal :: "'a tmpfs_scheme \<Rightarrow> u64" where
  "tmpfs_get_root_internal s = root_internal s"

text \<open>The index of the last slash, as \<^verbatim>\<open>strrchr\<close> finds it.\<close>

fun last_slash :: "u8 list \<Rightarrow> nat \<Rightarrow> nat option \<Rightarrow> nat option" where
  "last_slash [] i r = r"
| "last_slash (c # cs) i r = last_slash cs (Suc i) (if c = slash then Some i else r)"

text \<open>
  Where the entry goes: the node of the directory, the name in it, and the state after the lookup. An entry without
  a directory goes to the root.
\<close>

definition add_entry_parent ::
  "u8 list \<Rightarrow> 'a tmpfs_scheme \<Rightarrow> (u64 \<times> u8 list \<times> 'a tmpfs_scheme) option" where
  "add_entry_parent path_copy s =
     (case last_slash path_copy 0 None of
        None \<Rightarrow> Some (root_internal s, path_copy, s)
      | Some i \<Rightarrow> do {
          (parent_vnode, s) \<leftarrow> vfs_find_path call_finddir (Some (take i path_copy)) s;
          dev \<leftarrow> (if parent_vnode = NULL then Some None
                 else do {
                   n \<leftarrow> vnodes s parent_vnode;
                   Some (if v_flags n AND VFS_DIRECTORY \<noteq> 0 then Some (v_device n) else None) });
          Some (case dev of
                  Some d \<Rightarrow> (d, drop (Suc i) path_copy, s)
                | None \<Rightarrow> (root_internal s, drop (Suc i) path_copy, log_error ''TMPFS'' s)) })"

definition tmpfs_add_entry ::
  "u8 list \<Rightarrow> u64 \<Rightarrow> u64 \<Rightarrow> u32 \<Rightarrow> 'a tmpfs_scheme \<Rightarrow> (u64 \<times> 'a tmpfs_scheme) option" where
  "tmpfs_add_entry full_path data sz flags s = do {
     path_copy \<leftarrow> copy_string 256 full_path;
     (current_parent, filename, s) \<leftarrow> add_entry_parent path_copy s;
     if flags AND VFS_DIRECTORY \<noteq> 0 then tmpfs_create_dir current_parent filename s
     else tmpfs_create_file current_parent filename data sz s }"

section \<open>The tree that the nodes represent\<close>

text \<open>A file or directory with the address of its node, its name and its contents.\<close>

datatype entry =
  File (e_addr: u64) (e_name: "u8 list") "u8 list"
| Dir (e_addr: u64) (e_name: "u8 list") "entry list"

fun entry_dir :: "entry \<Rightarrow> bool" where
  "entry_dir (File a nm cs) = False"
| "entry_dir (Dir a nm es) = True"

fun entry_size :: "entry \<Rightarrow> nat" where
  "entry_size (File a nm cs) = length cs"
| "entry_size (Dir a nm es) = 0"

text \<open>The first entry with a name.\<close>

fun entry_child :: "entry \<Rightarrow> u8 list \<Rightarrow> entry option" where
  "entry_child (File a nm cs) name = None"
| "entry_child (Dir a nm es) name = find (\<lambda>e. e_name e = name) es"

fun entries :: "entry \<Rightarrow> entry list" where
  "entries (File a nm cs) = [File a nm cs]"
| "entries (Dir a nm es) = Dir a nm es # concat (map entries es)"

definition siblings :: "'a tmpfs_scheme \<Rightarrow> u64 \<Rightarrow> u64 option" where
  "siblings s a = map_option t_next (tnodes s a)"

text \<open>The contents of a file are in a block of the heap.\<close>

definition contents :: "(u64 \<times> nat) set \<Rightarrow> 'a tmpfs_scheme \<Rightarrow> u64 \<Rightarrow> u8 list \<Rightarrow> bool" where
  "contents L s d cs \<longleftrightarrow>
     cs = [] \<or> (\<exists>m. (d - 24, m) \<in> L \<and> direct (d - 24) \<and> 24 + length cs \<le> m \<and> bytes_at s d (length cs) = cs)"

text \<open>The node of one entry.\<close>

fun node_of :: "(u64 \<times> nat) set \<Rightarrow> 'a tmpfs_scheme \<Rightarrow> entry \<Rightarrow> bool" where
  "node_of L s (File a nm cs) \<longleftrightarrow>
     (\<exists>t. tnodes s a = Some t \<and> t_name t = nm \<and> t_flags t = VFS_FILE \<and> unat (t_size t) = length cs \<and>
          contents L s (t_data t) cs)"
| "node_of L s (Dir a nm es) \<longleftrightarrow>
     (\<exists>t. tnodes s a = Some t \<and> t_name t = nm \<and> t_flags t = VFS_DIRECTORY \<and> t_size t = 0 \<and>
          linked (siblings s) (t_children t) (map e_addr es))"

text \<open>
  The nodes of a tree: each entry has a node of its own, in a block of the heap, with a name that fits
  and does not contain the terminator.
\<close>

definition stored :: "(u64 \<times> nat) set \<Rightarrow> 'a tmpfs_scheme \<Rightarrow> entry \<Rightarrow> bool" where
  "stored L s r \<longleftrightarrow>
     distinct (map e_addr (entries r)) \<and>
     (\<forall>e \<in> set (entries r). node_of L s e \<and> e_addr e \<noteq> NULL \<and> length (e_name e) < 128 \<and> 0 \<notin> set (e_name e) \<and>
        (\<exists>m. (e_addr e - 24, m) \<in> L))"

text \<open>The node of the virtual file system that stands for an entry of the tree \<open>r\<close>.\<close>

definition entry_node :: "entry \<Rightarrow> vfs_node \<Rightarrow> entry \<Rightarrow> bool" where
  "entry_node r n e \<longleftrightarrow>
     e \<in> set (entries r) \<and> v_name n = e_name e \<and> v_device n = e_addr e \<and> unat (v_size n) = entry_size e \<and>
     v_flags n = (if entry_dir e then VFS_DIRECTORY else VFS_FILE) \<and>
     v_read n = Some Tmpfs \<and> v_finddir n = Some Tmpfs"

text \<open>
  A file system that holds the tree \<open>r\<close>, with \<open>k\<close> free pages. The live blocks of the heap are \<open>L\<close>, with the
  nodes and contents of the tree, and one block for each open node.
\<close>

definition open_blocks :: "(u64 \<Rightarrow> nat) \<Rightarrow> 'a vfs_scheme \<Rightarrow> (u64 \<times> nat) set" where
  "open_blocks sz s = (\<lambda>p. (p - 24, sz p)) ` dom (vnodes s)"

definition tmpfs_holds :: "entry \<Rightarrow> (u64 \<times> nat) set \<Rightarrow> u64 set \<Rightarrow> nat \<Rightarrow> 'a tmpfs_scheme \<Rightarrow> bool" where
  "tmpfs_holds r L R k s \<longleftrightarrow>
     (\<exists>sz. heap_ready k s (L \<union> open_blocks sz s) R \<and> (\<forall>(q, m) \<in> open_blocks sz s. direct q \<and> (q, m) \<notin> L)) \<and>
     stored L s r \<and> entry_dir r \<and> root_internal s = e_addr r"

text \<open>After the initialisation the root has an open node as well.\<close>

definition tmpfs_ready :: "entry \<Rightarrow> (u64 \<times> nat) set \<Rightarrow> u64 set \<Rightarrow> nat \<Rightarrow> 'a tmpfs_scheme \<Rightarrow> bool" where
  "tmpfs_ready r L R k s \<longleftrightarrow>
     tmpfs_holds r L R k s \<and> (\<exists>n. vnodes s (vfs_root s) = Some n \<and> entry_node r n r)"

text \<open>What an operation on the file system leaves alone: the memory in the pages \<open>R\<close> and the scheduler.\<close>

definition sched_vars ::
  "'a sched_scheme \<Rightarrow> (u64 \<Rightarrow> thread option) \<times> (u64 \<Rightarrow> process option) \<times> u64 \<times> u64 \<times> u64 \<times> u64 \<times> u8 \<times> u64 \<times> u64 \<times> u64 \<times> u64" where
  "sched_vars s =
     (threads s, processes s, next_pid s, next_tid s, run_queue s, current s, locked s, idle_thread s, idle_process s,
      thread_exit_code s, kernel_heap_vaddr s)"

definition spare_kept :: "u64 set \<Rightarrow> 'a sched_scheme \<Rightarrow> 'a sched_scheme \<Rightarrow> bool" where
  "spare_kept R s s' \<longleftrightarrow> (\<forall>a. page_base a \<in> R \<longrightarrow> mem s' a = mem s a) \<and> sched_vars s' = sched_vars s"

lemma heap_same_spare: "heap_same s s' L R \<Longrightarrow> spare_kept R s s'"
  by (auto simp: heap_same_def spare_kept_def sched_vars_def elim!: vmm_frameE)

lemma spare_kept_refl: "spare_kept R s s"
  by (simp add: spare_kept_def)

lemma spare_kept_trans: "spare_kept R s s1 \<Longrightarrow> spare_kept R s1 s2 \<Longrightarrow> spare_kept R s s2"
  by (simp add: spare_kept_def)

lemma spare_kept_mono: "spare_kept R s s' \<Longrightarrow> Q \<subseteq> R \<Longrightarrow> spare_kept Q s s'"
  by (auto simp: spare_kept_def)

lemma spare_kept_update [simp]:
  "spare_kept R s (s'\<lparr>vnodes := v\<rparr>) = spare_kept R s s'" "spare_kept R s (s'\<lparr>klog := l\<rparr>) = spare_kept R s s'"
  "spare_kept R s (s'\<lparr>vfs_root := p\<rparr>) = spare_kept R s s'" "spare_kept R s (s'\<lparr>root_internal := p\<rparr>) = spare_kept R s s'"
  "spare_kept R s (s'\<lparr>tnodes := f\<rparr>) = spare_kept R s s'" "spare_kept R s (set_tnode p t s') = spare_kept R s s'"
  by (simp_all add: spare_kept_def sched_vars_def set_tnode_def)

lemma tmpfs_holdsE:
  assumes "tmpfs_holds r L R k s"
  obtains sz where "heap_ready k s (L \<union> open_blocks sz s) R"
    "\<forall>(q, m) \<in> open_blocks sz s. direct q \<and> (q, m) \<notin> L" "stored L s r" "entry_dir r" "root_internal s = e_addr r"
  using assms unfolding tmpfs_holds_def by blast

lemma tmpfs_holdsI:
  "heap_ready k s (L \<union> open_blocks sz s) R \<Longrightarrow> \<forall>(q, m) \<in> open_blocks sz s. direct q \<and> (q, m) \<notin> L \<Longrightarrow>
   stored L s r \<Longrightarrow> entry_dir r \<Longrightarrow> root_internal s = e_addr r \<Longrightarrow> tmpfs_holds r L R k s"
  unfolding tmpfs_holds_def by blast

lemma tmpfs_readyD: "tmpfs_ready r L R k s \<Longrightarrow> tmpfs_holds r L R k s"
  by (simp add: tmpfs_ready_def)

section \<open>Lookup\<close>

lemma self_entry: "r \<in> set (entries r)"
  by (cases r) auto

lemma entries_trans: "e \<in> set (entries r) \<Longrightarrow> x \<in> set (entries e) \<Longrightarrow> x \<in> set (entries r)"
  by (induction r rule: entries.induct) auto

lemma child_entry: "entry_child x name = Some e \<Longrightarrow> e \<in> set (entries x) \<and> e_name e = name"
  by (cases x) (auto simp: find_Some_iff intro!: self_entry)

lemma heap_same_fields:
  fixes s s' :: "'a tmpfs_scheme"
  assumes "heap_same s s' L R"
  shows "tnodes s' = tnodes s" "vnodes s' = vnodes s" "vfs_root s' = vfs_root s" "root_internal s' = root_internal s"
  using assms by (auto simp: heap_same_def elim!: vmm_frameE)

lemma contents_keeps:
  assumes "heap_ready k s M R" "keeps s s' N" "L \<subseteq> M" "L \<subseteq> N" "contents L s d cs"
  shows "contents L s' d cs"
proof (cases "cs = []")
  case False
  then obtain m where m: "(d - 24, m) \<in> L" "direct (d - 24)" "24 + length cs \<le> m" "bytes_at s d (length cs) = cs"
    using assms(5) by (auto simp: contents_def)
  have "bytes_at s' d (length cs) = bytes_at s d (length cs)"
    by (rule keeps_bytes(1) [OF assms(1) _ m(2,3) assms(2)]) (use m(1) assms(3,4) in auto)
  then show ?thesis unfolding contents_def using m by auto
qed (simp add: contents_def)

lemma stored_cong:
  assumes "tnodes s' = tnodes s" "mem s' = mem s"
  shows "stored L s' r = stored L s r"
proof -
  have nx: "siblings s' = siblings s" by (simp add: siblings_def fun_eq_iff assms(1))
  have "bytes_at s' d n = bytes_at s d n" for d n by (simp add: bytes_at_def byte_def assms(2))
  then have "node_of L s' e = node_of L s e" for e
    by (cases e) (simp_all add: contents_def nx assms(1))
  then show ?thesis by (simp add: stored_def)
qed

lemma stored_keeps:
  assumes "heap_ready k s M R" "keeps s s' N" "L \<subseteq> M" "L \<subseteq> N" "stored L s r" "tnodes s' = tnodes s"
  shows "stored L s' r"
proof -
  have nx: "siblings s' = siblings s" by (simp add: siblings_def fun_eq_iff assms(6))
  have "node_of L s' e" if "node_of L s e" for e
    using that contents_keeps [OF assms(1-4)] by (cases e) (auto simp: assms(6) nx)
  then show ?thesis using assms(5) by (simp add: stored_def)
qed

lemma stored_same:
  assumes "heap_ready k s M R" "heap_same s s' N R" "L \<subseteq> M" "L \<subseteq> N" "stored L s r"
  shows "stored L s' r"
  using stored_keeps [OF assms(1) _ assms(3-5)] assms(2) heap_same_fields(1) [OF assms(2)] by (simp add: heap_same_def)

lemma tmpfs_create_vnode_holds:
  assumes r: "tmpfs_holds r L R (Suc k) s" and e: "e \<in> set (entries r)"
  shows "\<exists>p s' m. tmpfs_create_vnode (e_addr e) s = Some (p, s') \<and> tmpfs_holds r L R k s' \<and>
           vfs_root s' = vfs_root s \<and> p \<noteq> NULL \<and> p \<notin> dom (vnodes s) \<and>
           vnodes s' = (vnodes s)(p \<mapsto> m) \<and> entry_node r m e \<and> spare_kept R s s'"
proof -
  from r obtain sz where h: "heap_ready (Suc k) s (L \<union> open_blocks sz s) R"
    and ob: "\<forall>(q, m) \<in> open_blocks sz s. direct q \<and> (q, m) \<notin> L" and st: "stored L s r"
    and dr: "entry_dir r" "root_internal s = e_addr r" by (rule tmpfs_holdsE)
  have "0 < sizeof_vfs_node" "sizeof_vfs_node \<le> 1000" by (simp_all add: sizeof_vfs_node_def)
  from kmalloc_ready [OF h this] obtain p s1 n where
    k: "kmalloc sizeof_vfs_node s = Some (p, s1)" "p \<noteq> NULL" "direct (p - 24)"
    and n: "(p - 24, n) \<notin> L \<union> open_blocks sz s"
    and h1: "heap_ready k s1 (insert (p - 24, n) (L \<union> open_blocks sz s)) R"
    and same: "heap_same s s1 (L \<union> open_blocks sz s) R" by blast
  note f = heap_same_fields [OF same]
  have pd: "p \<notin> dom (vnodes s)"
  proof
    assume "p \<in> dom (vnodes s)"
    then have "(p - 24, sz p) \<in> open_blocks sz s" by (simp add: open_blocks_def)
    then show False using block_unique [OF heap_ready_view [OF h1], of "p - 24" n "sz p"] n by auto
  qed
  have nd: "node_of L s e" "e_addr e \<noteq> NULL" "length (e_name e) < 128" using st e by (auto simp: stored_def)
  then obtain t where t: "tnodes s (e_addr e) = Some t" "t_name t = e_name e" "unat (t_size t) = entry_size e"
    "t_flags t = (if entry_dir e then VFS_DIRECTORY else VFS_FILE)" by (cases e) auto
  define m where "m = \<lparr>v_name = t_name t, v_flags = t_flags t, v_size = t_size t, v_inode = 0, v_device = e_addr e,
      v_read = Some Tmpfs, v_write = None, v_finddir = Some Tmpfs, v_ptr = NULL\<rparr>"
  let ?s = "s1\<lparr>vnodes := (vnodes s1)(p \<mapsto> m)\<rparr>"
  have run: "tmpfs_create_vnode (e_addr e) s = Some (p, ?s)"
    using nd(2,3) k(1,2) t(1,2) f(1) by (simp add: tmpfs_create_vnode_def copy_string_def m_def)
  have m: "entry_node r m e" using e t by (simp add: entry_node_def m_def)
  have obs: "open_blocks (sz(p := n)) ?s = insert (p - 24, n) (open_blocks sz s)"
  proof -
    have "(\<lambda>q. (q - 24, (sz(p := n)) q)) ` dom (vnodes s) = (\<lambda>q. (q - 24, sz q)) ` dom (vnodes s)"
      using pd by (intro image_cong) auto
    then show ?thesis using f(2) by (simp add: open_blocks_def)
  qed
  have "heap_ready k ?s (L \<union> open_blocks (sz(p := n)) ?s) R"
    unfolding obs using heap_ready_eq [OF _ h1, of ?s] by (simp add: heap_eq_def)
  moreover have "\<forall>(q, m) \<in> open_blocks (sz(p := n)) ?s. direct q \<and> (q, m) \<notin> L"
    unfolding obs using ob n k(3) by auto
  moreover have "stored L ?s r"
    using stored_same [OF h same _ _ st] stored_cong [of ?s s1 L r] by simp
  ultimately have "tmpfs_holds r L R k ?s"
    using dr f(4) by (intro tmpfs_holdsI) auto
  then show ?thesis using run k(2) pd f(2,3) m heap_same_spare [OF same] by auto
qed

lemma tmpfs_create_vnode_ready:
  assumes r: "tmpfs_ready r L R (Suc k) s" and e: "e \<in> set (entries r)"
  shows "\<exists>p s' m. tmpfs_create_vnode (e_addr e) s = Some (p, s') \<and> tmpfs_ready r L R k s' \<and>
           vfs_root s' = vfs_root s \<and> p \<noteq> NULL \<and> p \<notin> dom (vnodes s) \<and>
           vnodes s' = (vnodes s)(p \<mapsto> m) \<and> entry_node r m e \<and> spare_kept R s s'"
proof -
  from tmpfs_create_vnode_holds [OF tmpfs_readyD [OF r] e] obtain p s' m where
    c: "tmpfs_create_vnode (e_addr e) s = Some (p, s')" "tmpfs_holds r L R k s'" "vfs_root s' = vfs_root s" "p \<noteq> NULL"
    "p \<notin> dom (vnodes s)" "vnodes s' = (vnodes s)(p \<mapsto> m)" "entry_node r m e" "spare_kept R s s'" by blast
  then have "tmpfs_ready r L R k s'" using r by (auto simp: tmpfs_ready_def)
  then show ?thesis using c by blast
qed

lemma finddir_loop_first:
  assumes "0 \<notin> set name"
    and "\<forall>e \<in> set es. node_of L s e \<and> 0 \<notin> set (e_name e)" and "linked (siblings s) p (map e_addr es)"
  shows "finddir_loop p name s =
     (case find (\<lambda>e. e_name e = name) es of
        None \<Rightarrow> Some (NULL, s) | Some e \<Rightarrow> tmpfs_create_vnode (e_addr e) s)"
  using assms(2,3)
proof (induction es arbitrary: p)
  case Nil
  then show ?case by (simp add: finddir_loop.simps)
next
  case (Cons e es)
  obtain t where t: "tnodes s (e_addr e) = Some t" "t_name t = e_name e" using Cons.prems(1) by (cases e) auto
  have p: "p = e_addr e" "p \<noteq> NULL" "linked (siblings s) (t_next t) (map e_addr es)"
    using Cons.prems(2) siblings_def [of s "e_addr e"] t(1) by auto
  have "lex_cmp (t_name t @ [0]) (name @ [0]) = 0 \<longleftrightarrow> e_name e = name"
    using lex_cmp_cstr_eq_0 [of "e_name e" name] Cons.prems(1) assms(1) t(2) by simp
  then show ?case using Cons.IH [OF _ p(3)] Cons.prems(1) p(1,2) t(1)
    by (simp add: finddir_loop.simps [of "e_addr e"])
qed

lemma tmpfs_ready_entry:
  assumes "tmpfs_ready r L R k s" "e \<in> set (entries r)"
  shows "node_of L s e" "0 \<notin> set (e_name e)"
  using assms by (auto simp: tmpfs_ready_def tmpfs_holds_def stored_def)

lemma tmpfs_ready_mono: "tmpfs_ready r L R k s \<Longrightarrow> j \<le> k \<Longrightarrow> tmpfs_ready r L R j s"
  unfolding tmpfs_ready_def tmpfs_holds_def using heap_ready_mono by blast

lemma tmpfs_finddir_ready:
  assumes r: "tmpfs_ready r L R (Suc k) s" and v: "vnodes s v = Some n" "entry_node r n x" "entry_dir x"
    and name: "0 \<notin> set name"
  shows "\<exists>p s'. tmpfs_finddir v name s = Some (p, s') \<and> tmpfs_ready r L R k s' \<and> vfs_root s' = vfs_root s \<and>
     spare_kept R s s' \<and>
     (case entry_child x name of
        None \<Rightarrow> p = NULL \<and> vnodes s' = vnodes s
      | Some y \<Rightarrow> \<exists>m. p \<noteq> NULL \<and> p \<notin> dom (vnodes s) \<and> vnodes s' = (vnodes s)(p \<mapsto> m) \<and> entry_node r m y)"
proof -
  obtain a nm es where x: "x = Dir a nm es" using v(3) by (cases x) auto
  have xr: "x \<in> set (entries r)" and dev: "v_device n = a" using v(2) x by (auto simp: entry_node_def)
  obtain t where t: "tnodes s a = Some t" "t_flags t = VFS_DIRECTORY" "linked (siblings s) (t_children t) (map e_addr es)"
    using tmpfs_ready_entry(1) [OF r xr] x by auto
  have es: "e \<in> set (entries r)" if "e \<in> set es" for e
    using entries_trans [OF xr, of e] x that self_entry [of e] by auto
  have "tmpfs_finddir v name s = finddir_loop (t_children t) name s"
    using v(1) dev t(1,2) by (simp add: tmpfs_finddir_def)
  also have "\<dots> = (case entry_child x name of
        None \<Rightarrow> Some (NULL, s) | Some e \<Rightarrow> tmpfs_create_vnode (e_addr e) s)"
    using finddir_loop_first [OF name _ t(3), of L] tmpfs_ready_entry [OF r es] x by simp
  finally have run: "tmpfs_finddir v name s = (case entry_child x name of
        None \<Rightarrow> Some (NULL, s) | Some e \<Rightarrow> tmpfs_create_vnode (e_addr e) s)" .
  show ?thesis
  proof (cases "entry_child x name")
    case None
    then show ?thesis using run tmpfs_ready_mono [OF r, of k] by (simp add: spare_kept_refl)
  next
    case (Some e)
    then have "e \<in> set (entries r)" using child_entry entries_trans [OF xr] by blast
    from tmpfs_create_vnode_ready [OF r this] show ?thesis unfolding run Some option.case by blast
  qed
qed

lemma tmpfs_close_ready:
  fixes s :: "'a tmpfs_scheme"
  assumes r: "tmpfs_ready r L R k s" and v: "v \<in> dom (vnodes s)" "v \<noteq> vfs_root s"
  shows "\<exists>s'. vfs_close v s = Some s' \<and> tmpfs_ready r L R k s' \<and> vnodes s' = (vnodes s)(v := None) \<and>
              vfs_root s' = vfs_root s \<and> spare_kept R s s'"
proof -
  from r obtain sz where h: "heap_ready k s (L \<union> open_blocks sz s) R"
    and ob: "\<forall>(q, m) \<in> open_blocks sz s. direct q \<and> (q, m) \<notin> L" and st: "stored L s r"
    and dr: "entry_dir r" "root_internal s = e_addr r" by (rule tmpfs_holdsE [OF tmpfs_readyD])
  have rt: "\<exists>n. vnodes s (vfs_root s) = Some n \<and> entry_node r n r" using r by (simp add: tmpfs_ready_def)
  let ?M = "L \<union> open_blocks sz s"
  have b: "(v - 24, sz v) \<in> open_blocks sz s" using v(1) by (simp add: open_blocks_def)
  have vn: "v \<noteq> NULL"
  proof
    assume "v = NULL"
    from h obtain ch fr B where "heap_rel s ch fr B" "?M = blocks ch fr B" unfolding heap_ready_def by blast
    then show False using block_facts(2) [of s ch fr B "v - 24" "sz v"] b \<open>v = NULL\<close> by auto
  qed
  from kfree_ready [OF h, of v "sz v"] b ob obtain s1 where
    k: "kfree v s = Some s1" and h1: "heap_ready k s1 (?M - {(v - 24, sz v)}) R"
    and same: "heap_same s s1 (?M - {(v - 24, sz v)}) R" by auto
  note f = heap_same_fields [OF same]
  let ?s = "s1\<lparr>vnodes := (vnodes s1)(v := None)\<rparr>"
  have run: "vfs_close v s = Some ?s" using vn v(2) k by (simp add: vfs_close_def)
  have obs: "open_blocks sz ?s = open_blocks sz s - {(v - 24, sz v)}"
    using f(2) by (auto simp: open_blocks_def)
  have L: "(v - 24, sz v) \<notin> L" using ob b by blast
  then have eq: "?M - {(v - 24, sz v)} = L \<union> open_blocks sz ?s" unfolding obs by blast
  have "heap_ready k ?s (L \<union> open_blocks sz ?s) R"
    using heap_ready_eq [OF _ h1, of ?s] eq by (simp add: heap_eq_def)
  moreover have "\<forall>(q, m) \<in> open_blocks sz ?s. direct q \<and> (q, m) \<notin> L" unfolding obs using ob by blast
  moreover have "stored L s1 r" by (rule stored_same [OF h same _ _ st]) (use L in auto)
  then have "stored L ?s r" using stored_cong [of ?s s1 L r] by simp
  moreover have "\<exists>n. vnodes ?s (vfs_root ?s) = Some n \<and> entry_node r n r" using rt v(2) f(2,3) by auto
  ultimately have "tmpfs_ready r L R k ?s"
    unfolding tmpfs_ready_def using dr f(4) by (intro conjI tmpfs_holdsI) auto
  then show ?thesis using run f(2,3) heap_same_spare [OF same] by auto
qed

lemma tmpfs_ready_log: "tmpfs_ready r L R k s \<Longrightarrow> tmpfs_ready r L R k (s\<lparr>klog := l\<rparr>)"
  unfolding tmpfs_ready_def tmpfs_holds_def open_blocks_def
  using heap_ready_eq [of s "s\<lparr>klog := l\<rparr>" k _ R] stored_cong [of "s\<lparr>klog := l\<rparr>" s L r]
  by (auto simp: heap_eq_def)

lemma entry_flags: "entry_node r n x \<Longrightarrow> v_flags n AND VFS_DIRECTORY = 0 \<longleftrightarrow> \<not> entry_dir x"
  by (simp add: entry_node_def VFS_DIRECTORY_def VFS_FILE_def)

interpretation tmpfs: file_service call_finddir "\<lambda>k s. tmpfs_ready r L R k s \<and> spare_kept R w s" "entry_node r"
  entry_dir entry_child
proof unfold_locales
  fix k and s :: "'a tmpfs_scheme" and v n x and name :: "u8 list"
  assume r: "tmpfs_ready r L R (Suc k) s \<and> spare_kept R w s"
    and "vnodes s v = Some n" "entry_node r n x" "entry_dir x" "0 \<notin> set name"
  from tmpfs_finddir_ready [OF conjunct1 [OF r] this(2-)] \<open>entry_node r n x\<close> spare_kept_trans [OF conjunct2 [OF r]]
  show "\<exists>fs p s'. v_finddir n = Some fs \<and> call_finddir fs v name s = Some (p, s') \<and>
      (tmpfs_ready r L R k s' \<and> spare_kept R w s') \<and>
      vfs_root s' = vfs_root s \<and> (case entry_child x name of None \<Rightarrow> p = NULL \<and> vnodes s' = vnodes s
      | Some y \<Rightarrow> \<exists>m. p \<noteq> NULL \<and> p \<notin> dom (vnodes s) \<and> vnodes s' = (vnodes s)(p \<mapsto> m) \<and> entry_node r m y)"
    by (auto simp: entry_node_def)
next
  fix k and s :: "'a tmpfs_scheme" and v
  assume r: "tmpfs_ready r L R k s \<and> spare_kept R w s" and "v \<in> dom (vnodes s)" "v \<noteq> vfs_root s"
  from tmpfs_close_ready [OF conjunct1 [OF r] this(2,3)] spare_kept_trans [OF conjunct2 [OF r]]
  show "\<exists>s'. vfs_close v s = Some s' \<and> (tmpfs_ready r L R k s' \<and> spare_kept R w s') \<and>
      vnodes s' = (vnodes s)(v := None) \<and> vfs_root s' = vfs_root s" by blast
next
  show "entry_child x name = Some y \<Longrightarrow> entry_dir x" for x name y by (cases x) auto
next
  show "tmpfs_ready r L R k s \<and> spare_kept R w s \<Longrightarrow> vfs_root s \<in> dom (vnodes s)" for k and s :: "'a tmpfs_scheme"
    by (auto simp: tmpfs_ready_def)
qed (auto intro: tmpfs_ready_mono tmpfs_ready_log simp: entry_flags)

end
