(* ===== verification/TmpfsSpec.thy ===== *)
theory TmpfsSpec
  imports Tmpfs "HOL-Library.Multiset"
begin

text \<open>
  What the file system promises: lookup, creation and reading in terms of the tree of files and
  directories that its nodes represent.
\<close>

section \<open>A new entry in the tree\<close>

fun add_entry :: "u64 \<Rightarrow> entry \<Rightarrow> entry \<Rightarrow> entry" where
  "add_entry a x (File b nm cs) = File b nm cs"
| "add_entry a x (Dir b nm es) = Dir b nm ((if b = a then [x] else []) @ map (add_entry a x) es)"

abbreviation addrs :: "entry \<Rightarrow> u64 list" where
  "addrs r \<equiv> map e_addr (entries r)"

lemma add_entry_simps [simp]:
  "e_addr (add_entry a x e) = e_addr e" "e_name (add_entry a x e) = e_name e"
  "entry_dir (add_entry a x e) = entry_dir e" "entry_size (add_entry a x e) = entry_size e"
  by (cases e; simp)+

lemma add_entry_addrs:
  "mset (addrs (add_entry a x r)) =
     mset (addrs r) + repeat_mset (count (mset (map e_addr (filter entry_dir (entries r)))) a) (mset (addrs x))"
proof (induction a x r rule: add_entry.induct)
  case (1 a x b nm cs)
  then show ?case by simp
next
  case (2 a x b nm es)
  have "mset (map e_addr (concat (map (\<lambda>e. entries (add_entry a x e)) es))) =
      mset (map e_addr (concat (map entries es))) +
      repeat_mset (count (mset (map e_addr (filter entry_dir (concat (map entries es))))) a) (mset (addrs x))"
    using 2 by (induction es) (auto simp: repeat_mset_distrib algebra_simps)
  then show ?case by (simp add: comp_def repeat_mset_distrib algebra_simps)
qed

lemma add_entry_entries:
  "e \<in> set (entries (add_entry a x r)) \<Longrightarrow> e \<in> set (entries x) \<or> (\<exists>f \<in> set (entries r). e = add_entry a x f)"
proof (induction a x r rule: add_entry.induct)
  case (1 a x b nm cs)
  then show ?case by simp
next
  case (2 a x b nm es)
  then show ?case by (auto split: if_splits)
qed

lemma distinct_entry:
  assumes "distinct (addrs r)" "e \<in> set (entries r)" "f \<in> set (entries r)" "e_addr e = e_addr f"
  shows "e = f"
  using assms inj_onD [of e_addr "set (entries r)" e f] by (simp add: distinct_map)

lemma add_entry_distinct:
  assumes d: "distinct (addrs r)" and x: "entries x = [x]" "e_addr x \<notin> set (addrs r)"
  shows "distinct (addrs (add_entry a x r))"
proof -
  let ?n = "count (mset (map e_addr (filter entry_dir (entries r)))) a"
  have "distinct (map e_addr (filter entry_dir (entries r)))" using d by (rule distinct_map_filter)
  then have "?n \<le> 1" by (simp add: distinct_count_atmost_1 split: if_splits)
  then have "count (mset (addrs (add_entry a x r))) b \<le> 1" for b
    unfolding add_entry_addrs using d x by (auto simp: distinct_count_atmost_1 count_eq_zero_iff [symmetric] split: if_splits)
  then show ?thesis unfolding distinct_count_atmost_1
    by (metis One_nat_def count_greater_zero_iff le_neq_implies_less less_one count_mset_0_iff order.order_iff_strict)
qed

section \<open>Creating a file\<close>

text \<open>The block with the contents of a new file.\<close>

lemma file_block:
  fixes s :: "'a tmpfs_scheme"
  assumes h: "heap_ready (Suc k) s M R" and sz: "0 < sz" "sz \<le> 1000" and src: "off_heap R data (unat sz)"
  shows "\<exists>d s1 s2 n. kmalloc sz s = Some (d, s1) \<and> d \<noteq> NULL \<and> memcpy d data sz s1 = Some (d, s2) \<and>
           (d - 24, n) \<notin> M \<and> direct (d - 24) \<and> unat sz + 24 \<le> n \<and>
           heap_ready k s2 (insert (d - 24, n) M) R \<and> heap_same s s1 M R \<and> heap_same s1 s2 M R \<and>
           bytes_at s2 d (unat sz) = bytes_at s data (unat sz)"
proof -
  from kmalloc_ready [OF h sz] obtain d s1 n where
    k: "kmalloc sz s = Some (d, s1)" "d \<noteq> NULL" "direct (d - 24)" "unat sz + 24 \<le> n" "(d - 24, n) \<notin> M"
    and h1: "heap_ready k s1 (insert (d - 24, n) M) R" and same: "heap_same s s1 M R" by blast
  have nj: "24 + unat sz \<le> n" using k(4) by simp
  note off = heap_ready_off [OF h1 insertI1 k(3) nj]
  have rb: "buffer data (unat sz)" "\<And>i. i < unat sz \<Longrightarrow> page_base (data + of_nat i) \<in> R"
    using src by (auto simp: off_heap_def)
  have apart: "unat d + unat sz \<le> unat data \<or> unat data + unat sz \<le> unat d"
    by (rule off_heap_apart [OF off(1) rb(1) _ rb(2)]) (use off(2) in auto)
  from memcpy_spec [OF off(1) rb(1) apart, of s1] obtain s2 where
    c: "memcpy d data sz s1 = Some (d, s2)" "overwritten s1 s2 d (unat sz) (bytes_at s1 data (unat sz))" by blast
  note w = heap_ready_write [OF h1 insertI1 k(3) nj c(2)]
  have "heap_same s1 s2 M R" using w(2) k(5) by (simp add: insert_Diff_if)
  moreover have "bytes_at s2 d (unat sz) = bytes_at s data (unat sz)"
    using c(2) off_heap_same [OF src same] by (simp add: overwritten_def)
  ultimately show ?thesis using k c(1) w(1) same by blast
qed

lemma heap_same_trans:
  assumes "heap_same s s1 M R" "heap_same s1 s2 M R"
  shows "heap_same s s2 M R"
proof -
  have "keeps s s2 M" using assms unfolding heap_same_def keeps_def by fastforce
  then show ?thesis using assms vmm_frame_trans [of s s1 s2] by (simp add: heap_same_def)
qed

text \<open>The nodes after a new node \<open>x\<close> was put in front of the entries of the directory \<open>d\<close>.\<close>

lemma stored_add:
  assumes st: "stored L s r" and d: "d \<in> set (entries r)" "entry_dir d" "tnodes s (e_addr d) = Some pt"
    and new: "entries x = [x]" "e_addr x \<notin> set (addrs r)" "e_addr x \<noteq> NULL" "length (e_name x) < 128" "0 \<notin> set (e_name x)"
    and L: "L \<subseteq> L'" "(e_addr x - 24, m) \<in> L'"
    and tn: "tnodes s' = (tnodes s)(e_addr x \<mapsto> t, e_addr d \<mapsto> pt\<lparr>t_children := e_addr x\<rparr>)"
    and t: "t_next t = t_children pt" "node_of L' s' x"
    and keep: "\<And>p cs. contents L s p cs \<Longrightarrow> contents L' s' p cs"
  shows "stored L' s' (add_entry (e_addr d) x r)"
proof -
  let ?a = "e_addr d"
  have dist: "distinct (addrs r)" and nodes: "\<And>e. e \<in> set (entries r) \<Longrightarrow> node_of L s e"
    using st by (auto simp: stored_def)
  have ax: "?a \<noteq> e_addr x" using new(2) imageI [OF d(1), of e_addr] by auto
  have sib: "siblings s' = (siblings s)(e_addr x \<mapsto> t_children pt)"
    using ax d(3) t(1) by (auto simp: siblings_def tn fun_eq_iff)
  have addr: "e_addr e \<noteq> e_addr x" if "e \<in> set (entries r)" for e
    using new(2) imageI [OF that, of e_addr] by auto
  have "node_of L' s' (add_entry ?a x e)" if e: "e \<in> set (entries r)" for e
  proof (cases e)
    case (File b nm cs)
    have "b \<noteq> ?a" using distinct_entry [OF dist e d(1)] File d(2) by (cases d) auto
    then show ?thesis using nodes [OF e] addr [OF e] keep File by (auto simp: tn)
  next
    case (Dir b nm es)
    obtain u where u: "tnodes s b = Some u" "t_name u = nm" "t_flags u = VFS_DIRECTORY" "t_size u = 0"
      "linked (siblings s) (t_children u) (map e_addr es)" using nodes [OF e] Dir by auto
    have es: "e_addr x \<notin> e_addr ` set es"
    proof
      assume "e_addr x \<in> e_addr ` set es"
      then obtain f where f: "f \<in> set es" "e_addr f = e_addr x" by auto
      then have "f \<in> set (entries r)" using entries_trans [OF e, of f] Dir self_entry [of f] by auto
      then show False using addr [of f] f(2) by simp
    qed
    have adr: "map e_addr (map (add_entry ?a x) es) = map e_addr es" by simp
    show ?thesis
    proof (cases "b = ?a")
      case True
      then show ?thesis using u d(3) es new(3) Dir
        by (auto simp: tn sib comp_def)
    next
      case False
      then show ?thesis using u es addr [OF e] Dir by (auto simp: tn sib comp_def)
    qed
  qed
  moreover have "\<exists>n. (e_addr e - 24, n) \<in> L'" if "e \<in> set (entries r)" for e
    using st that L(1) unfolding stored_def by blast
  moreover have "e_addr e \<noteq> NULL" "length (e_name e) < 128" "0 \<notin> set (e_name e)" if "e \<in> set (entries r)" for e
    using st that unfolding stored_def by blast+
  ultimately have "node_of L' s' e \<and> e_addr e \<noteq> NULL \<and> length (e_name e) < 128 \<and> 0 \<notin> set (e_name e) \<and>
      (\<exists>n. (e_addr e - 24, n) \<in> L')" if "e \<in> set (entries (add_entry ?a x r))" for e
    using add_entry_entries [OF that] t(2) new L(2) by auto
  then show ?thesis unfolding stored_def using add_entry_distinct [OF dist new(1,2)] by blast
qed

lemma file_data_ready:
  fixes s :: "'a tmpfs_scheme"
  assumes h: "heap_ready (Suc k) s M R" and sz: "sz \<le> 1000" and src: "off_heap R data (unat sz)"
  shows "\<exists>d s2 N. file_data data sz t s = Some (if 0 < sz then t\<lparr>t_data := d\<rparr> else t, s2) \<and> M \<subseteq> N \<and>
           heap_ready k s2 N R \<and> heap_same s s2 M R \<and> contents (N - M) s2 d (bytes_at s data (unat sz))"
proof (cases "0 < sz")
  case True
  from file_block [OF h True sz src] obtain d s1 s2 n where
    b: "kmalloc sz s = Some (d, s1)" "d \<noteq> NULL" "memcpy d data sz s1 = Some (d, s2)" "(d - 24, n) \<notin> M"
    "direct (d - 24)" "unat sz + 24 \<le> n" "heap_ready k s2 (insert (d - 24, n) M) R"
    "heap_same s s1 M R" "heap_same s1 s2 M R" "bytes_at s2 d (unat sz) = bytes_at s data (unat sz)" by blast
  have "contents (insert (d - 24, n) M - M) s2 d (bytes_at s data (unat sz))"
    unfolding contents_def using b(4,5,6,10) by auto
  moreover have "file_data data sz t s = Some (t\<lparr>t_data := d\<rparr>, s2)"
    using True b(1,2,3) by (simp add: file_data_def)
  ultimately show ?thesis using True b(7) heap_same_trans [OF b(8,9)]
    by (intro exI [of _ d] exI [of _ s2] exI [of _ "insert (d - 24, n) M"]) auto
next
  case False
  then have "bytes_at s data (unat sz) = []" by (simp add: word_gt_0 bytes_at_def)
  moreover have "heap_same s s M R" by (simp add: heap_same_def keeps_def vmm_frame_def case_prod_beta)
  ultimately show ?thesis
    using False heap_ready_mono [OF h, of k] by (intro exI [of _ 0] exI [of _ s] exI [of _ M]) (simp add: file_data_def contents_def)
qed

lemma tmpfs_create_file_run:
  assumes "tnodes s parent = Some pt" "t_flags pt = VFS_DIRECTORY" "parent \<noteq> NULL" "length name < 128"
    and "kmalloc sizeof_tmpfs_node s = Some (p, s1)" "p \<noteq> NULL" "p \<noteq> parent"
    and "file_data data sz (zero_tmpfs_node\<lparr>t_name := name, t_flags := VFS_FILE, t_size := sz\<rparr>) s1 = Some (t, s2)"
    and "tnodes s2 = tnodes s"
  shows "tmpfs_create_file parent name data sz s =
    Some (p, set_tnode parent (pt\<lparr>t_children := p\<rparr>) (set_tnode p (t\<lparr>t_next := t_children pt\<rparr>) s2))"
  using assms by (simp add: tmpfs_create_file_def copy_string_def set_tnode_def)

text \<open>A file system before the creation of an entry in the directory \<open>d\<close>, and the heap after it.\<close>

definition creating ::
  "entry \<Rightarrow> entry \<Rightarrow> (u64 \<times> nat) set \<Rightarrow> (u64 \<times> nat) set \<Rightarrow> (u64 \<times> nat) set \<Rightarrow> u64 set \<Rightarrow> nat \<Rightarrow> u64 \<Rightarrow>
   'a tmpfs_scheme \<Rightarrow> 'a tmpfs_scheme \<Rightarrow> bool" where
  "creating r d L V N R k p s s2 \<longleftrightarrow>
     stored L s r \<and> heap_ready 0 s (L \<union> V) R \<and> heap_ready k s2 N R \<and> heap_same s s2 (L \<union> V) R \<and>
     (\<forall>(q, m) \<in> V. direct q \<and> (q, m) \<notin> L) \<and> L \<union> V \<subseteq> N \<and> (\<exists>m. (p - 24, m) \<in> N - V) \<and>
     (\<exists>zs. V = open_blocks zs s) \<and> entry_dir r \<and> root_internal s = e_addr r \<and>
     (\<exists>n. vnodes s (vfs_root s) = Some n \<and> entry_node r n r) \<and>
     p \<noteq> NULL \<and> p \<notin> set (addrs r) \<and> d \<in> set (entries r) \<and> entry_dir d"

lemma created_ready:
  assumes c: "creating r d L V N R k p s s2" and pt: "tnodes s (e_addr d) = Some pt"
    and eq: "heap_eq s2 s'" and same: "vnodes s' = vnodes s" "vfs_root s' = vfs_root s" "root_internal s' = root_internal s"
    and tn: "tnodes s' = (tnodes s)(p \<mapsto> t, e_addr d \<mapsto> pt\<lparr>t_children := p\<rparr>)" "t_next t = t_children pt"
    and x: "e_addr x = p" "entries x = [x]" "length (e_name x) < 128" "0 \<notin> set (e_name x)" "node_of (N - V) s' x"
  shows "tmpfs_ready (add_entry (e_addr d) x r) (N - V) R k s'"
proof -
  let ?r = "add_entry (e_addr d) x r"
  have st: "stored L s r" and d: "d \<in> set (entries r)" "entry_dir d" and L: "L \<subseteq> N - V"
    and p: "e_addr x \<notin> set (addrs r)" "e_addr x \<noteq> NULL" and ob: "\<forall>(q, m) \<in> V. direct q \<and> (q, m) \<notin> L"
    using c x(1) by (auto simp: creating_def)
  obtain m where m: "(e_addr x - 24, m) \<in> N - V" using c x(1) by (auto simp: creating_def)
  have tn': "tnodes s' = (tnodes s)(e_addr x \<mapsto> t, e_addr d \<mapsto> pt\<lparr>t_children := e_addr x\<rparr>)" using tn x(1) by simp
  have keep: "contents (N - V) s' q xs" if q: "contents L s q xs" for q xs
  proof -
    have "heap_ready 0 s (L \<union> V) R" "keeps s s2 (L \<union> V)" using c by (simp_all add: creating_def heap_same_def)
    then have "contents L s2 q xs" by (rule contents_keeps [OF _ _ _ _ q]) auto
    then show ?thesis using L eq by (auto simp: contents_def heap_eq_def bytes_at_def byte_def)
  qed
  have "stored (N - V) s' ?r"
    by (rule stored_add [OF st d pt x(2) p x(3,4) L m tn' tn(2) x(5) keep])
  moreover obtain zs where zs: "V = open_blocks zs s" using c by (auto simp: creating_def)
  then have obs: "open_blocks zs s' = V" by (simp add: open_blocks_def same)
  have "N - V \<union> V = N" using c by (auto simp: creating_def)
  then have "heap_ready k s' (N - V \<union> open_blocks zs s') R"
    using heap_ready_eq [OF eq] c by (simp add: obs creating_def)
  moreover have "\<forall>(q, m) \<in> open_blocks zs s'. direct q \<and> (q, m) \<notin> N - V" unfolding obs using ob by blast
  moreover obtain n where "vnodes s (vfs_root s) = Some n" "entry_node r n r" using c by (auto simp: creating_def)
  then have "vnodes s' (vfs_root s') = Some n \<and> entry_node ?r n ?r"
    using self_entry [of ?r] by (simp add: entry_node_def same)
  ultimately show ?thesis
    unfolding tmpfs_ready_def using c by (intro conjI exI [of _ n] tmpfs_holdsI [of k s' "N - V" zs]) (auto simp: creating_def same)
qed

lemma tmpfs_create_file_steps:
  fixes s :: "'a tmpfs_scheme"
  assumes r: "tmpfs_ready r L R (Suc (Suc k)) s" and d: "d \<in> set (entries r)" "entry_dir d"
    and name: "length name < 128" and sz: "sz \<le> 1000" and src: "off_heap R data (unat sz)"
  obtains p t pt V N s2 where
    "tmpfs_create_file (e_addr d) name data sz s =
       Some (p, set_tnode (e_addr d) (pt\<lparr>t_children := p\<rparr>) (set_tnode p (t\<lparr>t_next := t_children pt\<rparr>) s2))"
    "creating r d L V N R k p s s2" "tnodes s (e_addr d) = Some pt" "t_name t = name" "t_flags t = VFS_FILE"
    "t_size t = sz" "t_children t = NULL" "contents (N - V) s2 (t_data t) (bytes_at s data (unat sz))"
proof -
  let ?cs = "bytes_at s data (unat sz)"
  from r obtain zs where h: "heap_ready (Suc (Suc k)) s (L \<union> open_blocks zs s) R"
    and ob: "\<forall>(q, m) \<in> open_blocks zs s. direct q \<and> (q, m) \<notin> L" and st: "stored L s r"
    and dr: "entry_dir r" "root_internal s = e_addr r" by (rule tmpfs_holdsE [OF tmpfs_readyD])
  let ?V = "open_blocks zs s" and ?M = "L \<union> open_blocks zs s"
  have "0 < sizeof_tmpfs_node" "sizeof_tmpfs_node \<le> 1000" by (simp_all add: sizeof_tmpfs_node_def)
  from kmalloc_ready [OF h this] obtain p s1 m where
    k: "kmalloc sizeof_tmpfs_node s = Some (p, s1)" "p \<noteq> NULL" "(p - 24, m) \<notin> ?M"
    and h1: "heap_ready (Suc k) s1 (insert (p - 24, m) ?M) R" and same1: "heap_same s s1 ?M R" by blast
  obtain pt where pt: "tnodes s (e_addr d) = Some pt" "t_flags pt = VFS_DIRECTORY" "e_addr d \<noteq> NULL"
    using st d unfolding stored_def by (cases d) fastforce+
  have fresh: "p \<notin> set (addrs r)"
  proof
    assume "p \<in> set (addrs r)"
    then obtain m' where "(p - 24, m') \<in> L" using st unfolding stored_def by auto
    then show False using block_unique [OF heap_ready_view [OF h1], of "p - 24" m m'] k(3) by auto
  qed
  let ?t0 = "zero_tmpfs_node\<lparr>t_name := name, t_flags := VFS_FILE, t_size := sz\<rparr>"
  from file_data_ready [OF h1 sz src, of ?t0] obtain b s2 N where
    fd: "file_data data sz ?t0 s1 = Some (if 0 < sz then ?t0\<lparr>t_data := b\<rparr> else ?t0, s2)"
    and N: "insert (p - 24, m) ?M \<subseteq> N" and h2: "heap_ready k s2 N R"
    and same2: "heap_same s1 s2 (insert (p - 24, m) ?M) R"
    and c: "contents (N - insert (p - 24, m) ?M) s2 b (bytes_at s1 data (unat sz))" by blast
  define t where "t = (if 0 < sz then ?t0\<lparr>t_data := b\<rparr> else ?t0)"
  have pd: "p \<noteq> e_addr d" using fresh imageI [OF d(1), of e_addr] by auto
  have same: "heap_same s s2 ?M R"
    using heap_same_trans [OF same1, of s2] same2 by (simp add: heap_same_def keeps_def)
  show thesis
  proof (rule that [of p pt t s2 ?V N])
    show "tmpfs_create_file (e_addr d) name data sz s =
       Some (p, set_tnode (e_addr d) (pt\<lparr>t_children := p\<rparr>) (set_tnode p (t\<lparr>t_next := t_children pt\<rparr>) s2))"
      by (rule tmpfs_create_file_run [OF pt name k(1,2) pd fd [folded t_def]])
        (simp add: heap_same_fields [OF same1] heap_same_fields [OF same2])
    have "\<exists>n. vnodes s (vfs_root s) = Some n \<and> entry_node r n r" using r by (simp add: tmpfs_ready_def)
    then show "creating r d L ?V N R k p s s2"
      unfolding creating_def using st heap_ready_mono [OF h, of 0] h2 same ob N k(2,3) fresh d dr by auto
    show "contents (N - ?V) s2 (t_data t) ?cs"
    proof (cases "0 < sz")
      case True
      then show ?thesis using c N off_heap_same [OF src same1] by (auto simp: t_def contents_def)
    next
      case False
      then show ?thesis by (simp add: contents_def bytes_at_def word_gt_0)
    qed
  qed (simp_all add: pt(1) t_def zero_tmpfs_node_def)
qed

lemma creating_facts:
  assumes "creating r d L V N R k p s s2"
  shows "L \<subseteq> N - V" "p \<noteq> NULL" "p \<noteq> e_addr d" "tnodes s2 = tnodes s" "vnodes s2 = vnodes s" "vfs_root s2 = vfs_root s"
    "root_internal s2 = root_internal s" "spare_kept R s s2"
  using assms heap_same_fields [of s s2 "L \<union> V" R] heap_same_spare [of s s2 "L \<union> V" R]
  by (auto simp: creating_def)

lemma tmpfs_create_file_ready:
  fixes s :: "'a tmpfs_scheme"
  assumes r: "tmpfs_ready r L R (Suc (Suc k)) s" and d: "d \<in> set (entries r)" "entry_dir d"
    and name: "length name < 128" "0 \<notin> set name"
    and sz: "sz \<le> 1000" and src: "off_heap R data (unat sz)"
  shows "\<exists>p s' L'. tmpfs_create_file (e_addr d) name data sz s = Some (p, s') \<and> L \<subseteq> L' \<and> p \<noteq> NULL \<and>
           tmpfs_ready (add_entry (e_addr d) (File p name (bytes_at s data (unat sz))) r) L' R k s' \<and>
           vnodes s' = vnodes s \<and> vfs_root s' = vfs_root s \<and> spare_kept R s s'"
proof (rule tmpfs_create_file_steps [OF r d name(1) sz src])
  fix p t V N and pt :: tmpfs_node and s2 :: "'a tmpfs_scheme"
  let ?cs = "bytes_at s data (unat sz)"
  let ?s = "set_tnode (e_addr d) (pt\<lparr>t_children := p\<rparr>) (set_tnode p (t\<lparr>t_next := t_children pt\<rparr>) s2)"
  assume run: "tmpfs_create_file (e_addr d) name data sz s = Some (p, ?s)"
    and c: "creating r d L V N R k p s s2" and pt: "tnodes s (e_addr d) = Some pt"
    and t: "t_name t = name" "t_flags t = VFS_FILE" "t_size t = sz"
    and cs: "contents (N - V) s2 (t_data t) ?cs"
  note f = creating_facts [OF c]
  have "contents (N - V) ?s (t_data t) ?cs"
    using cs by (simp add: contents_def set_tnode_def bytes_at_def byte_def)
  then have "tmpfs_ready (add_entry (e_addr d) (File p name ?cs) r) (N - V) R k ?s"
    using f t name
    by (intro created_ready [OF c pt, of ?s "t\<lparr>t_next := t_children pt\<rparr>"]) (simp_all add: set_tnode_def heap_eq_def)
  then show ?thesis
    using run f by (intro exI [of _ p] exI [of _ ?s] exI [of _ "N - V"]) (simp add: set_tnode_def)
qed

lemma tmpfs_create_dir_ready:
  fixes s :: "'a tmpfs_scheme"
  assumes r: "tmpfs_ready r L R (Suc (Suc k)) s" and d: "d \<in> set (entries r)" "entry_dir d"
    and name: "length name < 128" "0 \<notin> set name"
  shows "\<exists>p s' L'. tmpfs_create_dir (e_addr d) name s = Some (p, s') \<and> L \<subseteq> L' \<and> p \<noteq> NULL \<and>
           tmpfs_ready (add_entry (e_addr d) (Dir p name []) r) L' R k s' \<and>
           vnodes s' = vnodes s \<and> vfs_root s' = vfs_root s \<and> spare_kept R s s'"
proof (rule tmpfs_create_file_steps [OF r d name(1), of 0 NULL])
  show "off_heap R NULL (unat (0 :: u64))" by (simp add: off_heap_def buffer_def)
next
  fix p V N and t pt :: tmpfs_node and s2 :: "'a tmpfs_scheme"
  let ?t = "t\<lparr>t_next := t_children pt\<rparr>"
  let ?s1 = "set_tnode (e_addr d) (pt\<lparr>t_children := p\<rparr>) (set_tnode p ?t s2)"
  let ?s = "set_tnode p (?t\<lparr>t_flags := VFS_DIRECTORY\<rparr>) ?s1"
  assume run: "tmpfs_create_file (e_addr d) name NULL 0 s = Some (p, ?s1)"
    and c: "creating r d L V N R k p s s2" and pt: "tnodes s (e_addr d) = Some pt"
    and t: "t_name t = name" "t_size t = 0" "t_children t = NULL"
  note f = creating_facts [OF c]
  have "tmpfs_create_dir (e_addr d) name s = Some (p, ?s)"
    using run f(2,3) by (simp add: tmpfs_create_dir_def set_tnode_def)
  moreover have "tmpfs_ready (add_entry (e_addr d) (Dir p name []) r) (N - V) R k ?s"
    using f t name
    by (intro created_ready [OF c pt, of ?s "?t\<lparr>t_flags := VFS_DIRECTORY\<rparr>"])
      (simp_all add: set_tnode_def heap_eq_def fun_upd_twist)
  ultimately show ?thesis
    using f by (intro exI [of _ p] exI [of _ ?s] exI [of _ "N - V"]) (simp add: set_tnode_def)
qed simp

section \<open>Reading\<close>

lemma bytes_at_slice:
  assumes "buffer d n" "i + j \<le> n"
  shows "bytes_at s (d + of_nat i) j = take j (drop i (bytes_at s d n))"
  by (rule nth_equalityI) (use assms in \<open>auto simp: add.assoc\<close>)

lemma tmpfs_read_slice:
  fixes s :: "'a tmpfs_scheme"
  assumes r: "tmpfs_ready r L R k s" and v: "vnodes s v = Some n" "entry_node r n (File a nm cs)"
    and buf: "off_heap R buf (unat sz)" and nowrap: "unat off + unat sz < 2 ^ 64"
  defines "out \<equiv> take (unat sz) (drop (unat off) cs)"
  shows "\<exists>s'. vfs_read call_read v off sz buf s = Some (of_nat (length out), s') \<and>
              overwritten s s' buf (length out) out"
proof -
  have "File a nm cs \<in> set (entries r)" using v(2) by (simp add: entry_node_def)
  from tmpfs_ready_entry(1) [OF r this] have "node_of L s (File a nm cs)" .
  then obtain t where t: "tnodes s a = Some t" "unat (t_size t) = length cs" "contents L s (t_data t) cs" by auto
  have run: "vfs_read call_read v off sz buf s =
      (if t_size t \<le> off then Some (0, s)
       else do { let n = (if t_size t < off + sz then t_size t - off else sz);
                 (_, s) \<leftarrow> memcpy buf (t_data t + off) n s; Some (n, s) })"
    using v t(1) by (simp add: vfs_read_def entry_node_def tmpfs_read_def)
  show ?thesis
  proof (cases "length cs \<le> unat off")
    case True
    then have "out = []" by (simp add: out_def)
    moreover have "overwritten s s buf 0 []" by (simp add: overwritten_def bytes_at_def in_buf_def)
    ultimately show ?thesis using run True t(2) by (simp add: word_le_nat_alt)
  next
    case False
    define l where "l = length out"
    have lw: "unat (if t_size t < off + sz then t_size t - off else sz) = l" "l \<le> unat sz" "unat off + l \<le> length cs"
    proof -
      have os: "unat (off + sz) = unat off + unat sz" using nowrap by (simp add: unat_word_ariths)
      have "unat (t_size t - off) = length cs - unat off" using False t(2) by (simp add: unat_sub word_le_nat_alt)
      then show "unat (if t_size t < off + sz then t_size t - off else sz) = l"
        using os t(2) by (auto simp: l_def out_def word_less_nat_alt)
      show "l \<le> unat sz" "unat off + l \<le> length cs" using False by (auto simp: l_def out_def)
    qed
    obtain m where m: "(t_data t - 24, m) \<in> L" "direct (t_data t - 24)" "24 + length cs \<le> m"
      "bytes_at s (t_data t) (length cs) = cs" using t(3) False by (auto simp: contents_def)
    from r obtain zs where h: "heap_ready k s (L \<union> open_blocks zs s) R" by (rule tmpfs_holdsE [OF tmpfs_readyD])
    have mM: "(t_data t - 24, m) \<in> L \<union> open_blocks zs s" using m(1) by simp
    note o = heap_ready_off [OF h mM m(2,3)]
    let ?d = "t_data t + off"
    have src: "buffer ?d l" using buffer_sub [OF o(1), of "unat off" l] lw(3) by simp
    have dst: "buffer buf l" using buf lw(2) buffer_le by (auto simp: off_heap_def)
    have ap: "unat ?d + l \<le> unat buf \<or> unat buf + l \<le> unat ?d"
    proof (rule off_heap_apart [OF src dst])
      show "page_base (?d + of_nat i) \<notin> R" if "i < l" for i
        using o(2) [of "unat off + i"] that lw(3) by (simp add: add.assoc)
      show "page_base (buf + of_nat i) \<in> R" if "i < l" for i using buf that lw(2) by (auto simp: off_heap_def)
    qed
    let ?n = "if t_size t < off + sz then t_size t - off else sz"
    from memcpy_spec [of buf ?n ?d s, unfolded lw(1), OF dst src] ap obtain s' where
      c: "memcpy buf ?d ?n s = Some (buf, s')" "overwritten s s' buf l (bytes_at s ?d l)" by blast
    have "bytes_at s ?d l = out"
      using bytes_at_slice [OF o(1), of "unat off" l s] lw(3) m(4) by (simp add: l_def out_def min_def)
    moreover have "vfs_read call_read v off sz buf s = Some (?n, s')"
      using run False t(2) c(1) by (simp add: word_le_nat_alt Let_def)
    moreover have "?n = of_nat l" using arg_cong [OF lw(1), of "of_nat :: nat \<Rightarrow> u64"] by (simp only: of_nat_unat ucast_id)
    ultimately show ?thesis using c(2) unfolding l_def by auto
  qed
qed

section \<open>Initialisation\<close>

lemma tmpfs_init_ready:
  fixes s :: "'a tmpfs_scheme"
  assumes h: "heap_ready (Suc (Suc k)) s L R" and v: "vnodes s = Map.empty"
  shows "\<exists>a s' L'. tmpfs_init s = Some s' \<and> tmpfs_ready (Dir a [slash] []) L' R k s' \<and> L \<subseteq> L' \<and> spare_kept R s s'"
proof -
  have "0 < sizeof_tmpfs_node" "sizeof_tmpfs_node \<le> 1000" by (simp_all add: sizeof_tmpfs_node_def)
  from kmalloc_ready [OF h this] obtain a s1 n where
    k: "kmalloc sizeof_tmpfs_node s = Some (a, s1)" "a \<noteq> NULL"
    and h1: "heap_ready (Suc k) s1 (insert (a - 24, n) L) R" and same: "heap_same s s1 L R" by blast
  note f = heap_same_fields [OF same]
  let ?t = "zero_tmpfs_node\<lparr>t_name := [slash], t_flags := VFS_DIRECTORY\<rparr>"
  let ?s = "set_tnode a ?t (s1\<lparr>root_internal := a\<rparr>)" and ?L = "insert (a - 24, n) L" and ?r = "Dir a [slash] []"
  have "open_blocks (\<lambda>_. 0) ?s = {}" using v f(2) by (simp add: open_blocks_def set_tnode_def)
  then have "tmpfs_holds ?r ?L R (Suc k) ?s"
    using heap_ready_eq [OF _ h1, of ?s] k(2)
    by (intro tmpfs_holdsI [where sz = "\<lambda>_. 0"])
      (auto simp: heap_eq_def set_tnode_def stored_def zero_tmpfs_node_def slash_def)
  from tmpfs_create_vnode_holds [OF this self_entry] obtain p s' m where
    c: "tmpfs_create_vnode a ?s = Some (p, s')" "tmpfs_holds ?r ?L R k s'" "vnodes s' = (vnodes ?s)(p \<mapsto> m)"
    "entry_node ?r m ?r" "spare_kept R ?s s'" by auto
  have "spare_kept R s ?s" using heap_same_spare [OF same] by simp
  note sk = spare_kept_trans [OF this c(5)]
  have "tmpfs_init s = Some (s'\<lparr>vfs_root := p\<rparr>)"
    using k c(1) by (simp add: tmpfs_init_def)
  moreover have "tmpfs_holds ?r ?L R k (s'\<lparr>vfs_root := p\<rparr>)"
    using c(2) heap_ready_eq [of s' "s'\<lparr>vfs_root := p\<rparr>"] stored_cong [of "s'\<lparr>vfs_root := p\<rparr>" s' ?L ?r]
    unfolding tmpfs_holds_def open_blocks_def by (auto simp: heap_eq_def)
  ultimately show ?thesis using c(3,4) sk by (auto simp: tmpfs_ready_def)
qed

section \<open>Properties\<close>

text \<open>A machine with the heap \<open>h\<close> whose file system is not initialised yet.\<close>

definition sample_tmpfs :: "heap \<Rightarrow> tmpfs" where
  "sample_tmpfs h =
     with_heap h (vfs.extend (kernel.extend sample_kernel (vfs.fields Map.empty 0)) (tmpfs.fields Map.empty 0))"

lemma sample_tmpfs_heap: "heap_eq h (sample_tmpfs h)" "vnodes (sample_tmpfs h) = Map.empty"
  by (simp_all add: sample_tmpfs_def with_heap_eq) (simp add: with_heap_def vfs.defs kernel.defs tmpfs.defs)

lemma sample_heap_tables: "tables sample_heap (root sample_heap) = {0x101000}"
proof -
  have r: "root sample_heap = 0x101000"
    by (simp add: vmm_get_current_def phys_to_virt_def sample_heap_def page_base_def)
  have "tbl h (\<lambda>_. 0) a p = (if p = [] then Some a else None)" for h a p by (cases p) auto
  then show ?thesis unfolding r by (auto simp: tables_def sample_heap_def)
qed

lemma sample_tmpfs_ready:
  "\<exists>s :: tmpfs. \<exists>a L R. tmpfs_ready (Dir a [slash] []) L R 50 s \<and>
     (\<exists>p. off_heap R p 4096)"
proof -
  obtain h :: heap where h: "heap_view h {}" "56 \<le> card (free_frames h)" "\<forall>c \<in> set (caches h). first_slab c \<noteq> NULL"
    "used_kept sample_heap h" using sample_heap_ready by blast
  have k: "52 \<le> card (free_frames h)" "free_frames h \<noteq> {}" using h(2) by auto
  have "hhdm_offset h \<notin> tables h (root h)" using h(4) sample_heap_tables by (simp add: used_kept_def sample_heap_def)
  note z = page_zero_off_heap [OF h(1,3) k this]
  have "heap_ready (Suc (Suc 50)) (sample_tmpfs h) {} {hhdm_offset h}"
    using heap_ready_eq [OF sample_tmpfs_heap(1) z(1)] by simp
  moreover have "off_heap {hhdm_offset h} (hhdm_offset h) 4096" using z(2) [of 0 4096] by simp
  ultimately show ?thesis using tmpfs_init_ready [OF _ sample_tmpfs_heap(2), of 50 h] by blast
qed

text \<open>How \<^verbatim>\<open>vfs_find_path\<close> ends on the tree \<open>r\<close>.\<close>

definition find_path_outcome ::
  "entry \<Rightarrow> u8 list \<Rightarrow> u64 \<Rightarrow> (u64 \<Rightarrow> vfs_node option) \<Rightarrow> u64 \<Rightarrow> (u64 \<Rightarrow> vfs_node option) \<Rightarrow> bool" where
  "find_path_outcome r path v V p V' \<longleftrightarrow>
     (if path = [] then p = NULL \<and> V' = V
      else if path_names path = [] then p = v \<and> V' = V
      else walk_outcome entry_child entry_dir (entry_node r) V r (path_names path) p V')"

lemma find_path_ready:
  assumes "tmpfs_ready r L R (k + length (path_names path)) s" "length path < 256" "0 \<notin> set path"
  shows "\<exists>p s'. vfs_find_path call_finddir (Some path) s = Some (p, s') \<and> tmpfs_ready r L R k s' \<and>
           vfs_root s' = vfs_root s \<and> spare_kept R s s' \<and>
           find_path_outcome r path (vfs_root s) (vnodes s) p (vnodes s')"
proof -
  obtain n where "vnodes s (vfs_root s) = Some n" "entry_node r n r" "entry_dir r"
    using assms(1) by (auto simp: tmpfs_ready_def tmpfs_holds_def)
  from tmpfs.find_path_resolves [OF assms(2,3) conjI [OF assms(1) spare_kept_refl] this]
  show ?thesis unfolding find_path_outcome_def by blast
qed

text \<open>
  C6. \<^verbatim>\<open>vfs_find_path\<close> on the memory file system, for a path of fewer than 256 characters and with a free page for each
  name in it: it returns the node of the file or directory that the names lead to in the tree, where
  empty names are skipped and names are cut off after 127 characters, and \<^verbatim>\<open>NULL\<close> if they lead nowhere or the path is
  empty. The tree and the memory outside the heap are unchanged, and of the nodes opened on the way only the result stays open, except that the node of a file in the
  middle of the path is not closed.
\<close>

theorem vfs_find_path_resolves:
  assumes "tmpfs_ready r L R (k + length (path_names path)) s" and "length path < 256" "0 \<notin> set path"
  shows "\<exists>p s'. vfs_find_path call_finddir (Some path) s = Some (p, s') \<and> tmpfs_ready r L R k s' \<and>
           vfs_root s' = vfs_root s \<and> spare_kept R s s' \<and>
           find_path_outcome r path (vfs_root s) (vnodes s) p (vnodes s')"
  using assms by (rule find_path_ready)

theorem vfs_find_path_resolves_witness:
  "\<exists>s :: tmpfs. \<exists>a L R p s'. vfs_find_path call_finddir (Some [slash, slash, 97, slash]) s = Some (p, s') \<and>
     find_path_outcome (Dir a [slash] []) [slash, slash, 97, slash] (vfs_root s) (vnodes s) p (vnodes s') \<and>
     tmpfs_ready (Dir a [slash] []) L R 49 s'"
proof -
  obtain s :: tmpfs and a L R where s: "tmpfs_ready (Dir a [slash] []) L R 50 s" using sample_tmpfs_ready by blast
  have "path_names [slash, slash, 97, slash] = [[97]]" by (simp add: path_names_def slash_def)
  then have "tmpfs_ready (Dir a [slash] []) L R (49 + length (path_names [slash, slash, 97, slash])) s" using s by simp
  moreover have "length [slash, slash, 97, slash] < 256" "0 \<notin> set [slash, slash, 97, slash]" by (simp_all add: slash_def)
  ultimately show ?thesis
    using vfs_find_path_resolves [of "Dir a [slash] []" L R 49 "[slash, slash, 97, slash]" s] by blast
qed

text \<open>
  C9. A file that is created in the root directory can be found by its name and read back: for a name of 1 to 127
  characters without slashes and contents of at most 1000 bytes in reserved memory, \<^verbatim>\<open>tmpfs_create_file\<close>, \<^verbatim>\<open>vfs_find_path\<close> of the name
  with a leading slash and \<^verbatim>\<open>vfs_read\<close> all succeed, also if the root has another entry of that name, and the
  read at any offset delivers exactly the bytes of the contents from there on, at most as many as asked for, and
  changes nothing else in memory, provided that offset plus size do not wrap around.
\<close>

theorem tmpfs_create_find_read:
  fixes s :: "'a tmpfs_scheme"
  assumes "tmpfs_ready r L R 3 s" and "name \<noteq> []" "length name < 128" "0 \<notin> set name" "slash \<notin> set name"
    and "sz \<le> 1000" "off_heap R data (unat sz)" "off_heap R buf (unat n)" "unat off + unat n < 2 ^ 64"
  shows "\<exists>p s1 v s2 s3. tmpfs_create_file (root_internal s) name data sz s = Some (p, s1) \<and>
    vfs_find_path call_finddir (Some (slash # name)) s1 = Some (v, s2) \<and> v \<noteq> NULL \<and>
    (let out = take (unat n) (drop (unat off) (bytes_at s data (unat sz)))
     in vfs_read call_read v off n buf s2 = Some (of_nat (length out), s3) \<and> overwritten s2 s3 buf (length out) out)"
proof -
  have root: "root_internal s = e_addr r" "entry_dir r" using assms(1) by (auto simp: tmpfs_ready_def tmpfs_holds_def)
  let ?cs = "bytes_at s data (unat sz)"
  have "tmpfs_ready r L R (Suc (Suc 1)) s" using assms(1) by (simp add: numeral_3_eq_3)
  from tmpfs_create_file_ready [OF this self_entry root(2) assms(3,4,6,7)] obtain p s1 L' where
    c: "tmpfs_create_file (e_addr r) name data sz s = Some (p, s1)"
    and r1: "tmpfs_ready (add_entry (e_addr r) (File p name ?cs) r) L' R 1 s1" by blast
  let ?r = "add_entry (e_addr r) (File p name ?cs) r"
  have pn: "path_names (slash # name) = [name]"
  proof -
    have d: "path_head name = name" "dropWhile (\<lambda>c. c \<noteq> slash) name = []"
      using assms(5) by (auto simp: takeWhile_eq_all_conv)
    have "split_path name = [name]" unfolding split_path_head [of name] d by simp
    then show ?thesis using assms(2,3) by (simp add: path_names_def)
  qed
  have child: "entry_child ?r name = Some (File p name ?cs)" using root(2) by (cases r) simp_all
  have "tmpfs_ready ?r L' R (0 + length (path_names (slash # name))) s1" using r1 pn by simp
  from find_path_ready [OF this] assms(3,4) pn obtain v s2 where
    f: "vfs_find_path call_finddir (Some (slash # name)) s1 = Some (v, s2)" "tmpfs_ready ?r L' R 0 s2"
    "walk_outcome entry_child entry_dir (entry_node ?r) (vnodes s1) ?r [name] v (vnodes s2)"
    by (auto simp: slash_def find_path_outcome_def)
  then obtain m where m: "vnodes s2 v = Some m" "entry_node ?r m (File p name ?cs)" "v \<noteq> NULL"
    using child by (auto simp: walk_outcome_def)
  from tmpfs_read_slice [OF f(2) m(1,2) assms(8,9)] show ?thesis using c f(1) m(3) root(1) by (auto simp: Let_def)
qed

theorem tmpfs_create_find_read_witness:
  "\<exists>s :: tmpfs. \<exists>data buf p s1 v s2 s3. tmpfs_create_file (root_internal s) [97, 46, 99] data 900 s = Some (p, s1) \<and>
     vfs_find_path call_finddir (Some [slash, 97, 46, 99]) s1 = Some (v, s2) \<and>
     vfs_read call_read v 100 1000 buf s2 = Some (800, s3) \<and>
     bytes_at s3 buf 800 = drop 100 (bytes_at s data 900)"
proof -
  obtain s :: tmpfs and a L R data where s: "tmpfs_ready (Dir a [slash] []) L R 50 s" "off_heap R data 4096"
    using sample_tmpfs_ready by blast
  have "tmpfs_ready (Dir a [slash] []) L R 3 s" using tmpfs_ready_mono [OF s(1)] by simp
  moreover have "off_heap R data (unat (900 :: u64))" "off_heap R data (unat (1000 :: u64))"
    using s(2) buffer_le by (auto simp: off_heap_def)
  ultimately obtain p s1 v s2 s3 where
    "tmpfs_create_file (root_internal s) [97, 46, 99] data 900 s = Some (p, s1)"
    "vfs_find_path call_finddir (Some [slash, 97, 46, 99]) s1 = Some (v, s2)"
    "vfs_read call_read v 100 1000 data s2 = Some (800, s3)" "bytes_at s3 data 800 = drop 100 (bytes_at s data 900)"
    using tmpfs_create_find_read [of "Dir a [slash] []" L R s "[97, 46, 99]" 900 data data 1000 100]
    by (auto simp: Let_def slash_def overwritten_def)
  then show ?thesis by blast
qed

end
