(* ===== verification/TmpfsTree.thy ===== *)
theory TmpfsTree
  imports TmpfsSpec
begin

text \<open>
  The insertion of an entry by its path, \<^verbatim>\<open>tmpfs_add_entry\<close>, as an operation on trees of names and contents
  that know nothing of nodes and addresses.
\<close>

section \<open>Trees\<close>

datatype tree =
  TFile (tree_name: "u8 list") "u8 list"
| TDir (tree_name: "u8 list") "tree list"

fun tree_dir :: "tree \<Rightarrow> bool" where
  "tree_dir (TFile nm cs) = False"
| "tree_dir (TDir nm ts) = True"

fun tree_child :: "tree \<Rightarrow> u8 list \<Rightarrow> tree option" where
  "tree_child (TFile nm cs) w = None"
| "tree_child (TDir nm ts) w = find (\<lambda>t. tree_name t = w) ts"

fun update_first :: "('a \<Rightarrow> bool) \<Rightarrow> ('a \<Rightarrow> 'a) \<Rightarrow> 'a list \<Rightarrow> 'a list" where
  "update_first P f [] = []"
| "update_first P f (x # xs) = (if P x then f x # xs else x # update_first P f xs)"

text \<open>A new entry in front of those of the directory that the names lead to.\<close>

primrec tree_put :: "u8 list list \<Rightarrow> tree \<Rightarrow> tree \<Rightarrow> tree" where
  "tree_put [] x t = (case t of TFile nm cs \<Rightarrow> TFile nm cs | TDir nm ts \<Rightarrow> TDir nm (x # ts))"
| "tree_put (w # ws) x t =
     (case t of TFile nm cs \<Rightarrow> TFile nm cs
      | TDir nm ts \<Rightarrow> TDir nm (update_first (\<lambda>u. tree_name u = w) (tree_put ws x) ts))"

text \<open>The names of the directory, and the name in it, that a path stands for.\<close>

definition dir_names :: "u8 list \<Rightarrow> u8 list list" where
  "dir_names path = (case last_slash path 0 None of None \<Rightarrow> [] | Some i \<Rightarrow> path_names (take i path))"

definition base_name :: "u8 list \<Rightarrow> u8 list" where
  "base_name path = (case last_slash path 0 None of None \<Rightarrow> path | Some i \<Rightarrow> drop (Suc i) path)"

text \<open>If the names do not lead to a directory, the entry goes to the root.\<close>

definition tree_add :: "u8 list \<Rightarrow> tree \<Rightarrow> tree \<Rightarrow> tree" where
  "tree_add path x t =
     (case resolve tree_child t (dir_names path) of
        Some d \<Rightarrow> tree_put (if tree_dir d then dir_names path else []) x t
      | None \<Rightarrow> tree_put [] x t)"

section \<open>The tree of a file system\<close>

fun tree_of :: "entry \<Rightarrow> tree" where
  "tree_of (File a nm cs) = TFile nm cs"
| "tree_of (Dir a nm es) = TDir nm (map tree_of es)"

lemma tree_of_simps [simp]: "tree_name (tree_of e) = e_name e" "tree_dir (tree_of e) = entry_dir e"
  by (cases e; simp)+

lemma tree_of_child: "tree_child (tree_of e) w = map_option tree_of (entry_child e w)"
proof (cases e)
  case (Dir a nm es)
  have "find (\<lambda>t. tree_name t = w) (map tree_of es) = map_option tree_of (find (\<lambda>e. e_name e = w) es)"
    by (induction es) auto
  then show ?thesis using Dir by simp
qed simp

lemma tree_of_resolve: "resolve tree_child (tree_of e) ws = map_option tree_of (resolve entry_child e ws)"
  by (induction ws arbitrary: e) (auto simp: tree_of_child split: option.split)

lemma add_entry_absent: "a \<notin> set (addrs e) \<Longrightarrow> add_entry a x e = e"
proof (induction a x e rule: add_entry.induct)
  case (2 a x b nm es)
  have "map (add_entry a x) es = es" using 2 by (intro map_idI) auto
  then show ?case using 2 by auto
qed simp

lemma update_first_split:
  "P x \<Longrightarrow> (\<And>y. y \<in> set ys \<Longrightarrow> \<not> P y) \<Longrightarrow> update_first P f (ys @ x # zs) = ys @ f x # zs"
  by (induction ys) auto

lemma resolve_entry: "resolve entry_child r ws = Some d \<Longrightarrow> d \<in> set (entries r)"
proof (induction ws arbitrary: r)
  case Nil
  then show ?case by (simp add: self_entry)
next
  case (Cons w ws)
  then obtain c where c: "entry_child r w = Some c" "resolve entry_child c ws = Some d"
    by (auto split: option.splits)
  then show ?case using Cons.IH [of c] child_entry [OF c(1)] entries_trans by blast
qed

lemma tree_of_add_entry:
  assumes "distinct (addrs r)" "resolve entry_child r ws = Some d" "entry_dir d"
  shows "tree_of (add_entry (e_addr d) x r) = tree_put ws (tree_of x) (tree_of r)"
  using assms(1,2)
proof (induction ws arbitrary: r)
  case Nil
  then obtain nm es where r: "r = Dir (e_addr d) nm es" using assms(3) by (cases r) auto
  have "map (add_entry (e_addr d) x) es = es" using Nil.prems(1) r by (intro map_idI add_entry_absent) auto
  then show ?case using r by simp
next
  case (Cons w ws)
  from Cons.prems(2) obtain c where c: "entry_child r w = Some c" "resolve entry_child c ws = Some d"
    by (auto split: option.splits)
  obtain b nm es where r: "r = Dir b nm es" using c(1) by (cases r) auto
  from c(1) r obtain ys zs where es: "es = ys @ c # zs" and n: "e_name c = w" "\<And>y. y \<in> set ys \<Longrightarrow> e_name y \<noteq> w"
    using find_split [of "\<lambda>e. e_name e = w" es c] by auto
  have d: "e_addr d \<in> set (addrs c)" using resolve_entry [OF c(2)] by simp
  have dist: "distinct (addrs c)" using Cons.prems(1) r es by simp
  have "e_addr d \<noteq> b" using Cons.prems(1) r es d by auto
  moreover have "e_addr d \<notin> set (addrs y)" if "y \<in> set ys \<union> set zs" for y
  proof -
    have "set (addrs c) \<inter> (\<Union>y \<in> set ys \<union> set zs. set (addrs y)) = {}"
      using Cons.prems(1) r es by (simp add: image_UN) blast
    then show ?thesis using d that by blast
  qed
  then have "map (add_entry (e_addr d) x) ys = ys" "map (add_entry (e_addr d) x) zs = zs"
    by (intro map_idI add_entry_absent; blast)+
  ultimately have a: "add_entry (e_addr d) x r = Dir b nm (ys @ add_entry (e_addr d) x c # zs)" using r es by simp
  have "update_first (\<lambda>u. tree_name u = w) (tree_put ws (tree_of x)) (map tree_of ys @ tree_of c # map tree_of zs) =
      map tree_of ys @ tree_put ws (tree_of x) (tree_of c) # map tree_of zs"
    by (rule update_first_split) (use n in auto)
  then show ?case unfolding a using r es Cons.IH [OF dist c(2)] by simp
qed

section \<open>Inserting by path\<close>

lemma last_slash_bound: "last_slash cs i r = Some j \<Longrightarrow> r \<noteq> Some j \<Longrightarrow> i \<le> j \<and> j < i + length cs"
proof (induction cs arbitrary: i r)
  case (Cons c cs)
  show ?case
  proof (cases "(if c = slash then Some i else r) = Some j")
    case True
    then show ?thesis using Cons.prems(2) by (auto split: if_splits)
  next
    case False
    from Cons.IH [OF _ this, of "Suc i"] Cons.prems(1) show ?thesis by simp
  qed
qed simp

lemma tmpfs_root_nonnull:
  fixes s :: "'a tmpfs_scheme"
  assumes "tmpfs_ready r L R k s"
  shows "vfs_root s \<noteq> NULL"
proof
  assume 0: "vfs_root s = NULL"
  obtain zs where h: "heap_ready k s (L \<union> open_blocks zs s) R" using assms by (auto simp: tmpfs_ready_def tmpfs_holds_def)
  have "(NULL - 24, zs NULL) \<in> L \<union> open_blocks zs s"
    using assms 0 by (auto simp: tmpfs_ready_def open_blocks_def)
  then show False using heap_ready_view [OF h] block_facts(2) [of s _ _ _ "NULL - 24" "zs NULL"]
    by (auto simp: heap_view_def)
qed

text \<open>The node of the directory, as \<^verbatim>\<open>tmpfs_add_entry\<close> finds it.\<close>

lemma find_parent:
  fixes s :: "'a tmpfs_scheme"
  assumes r: "tmpfs_ready r L R (k + length (path_names path)) s" and path: "length path < 256" "0 \<notin> set path"
  shows "\<exists>p s'. vfs_find_path call_finddir (Some path) s = Some (p, s') \<and> tmpfs_ready r L R k s' \<and>
     vfs_root s' = vfs_root s \<and> spare_kept R s s' \<and>
     (if path = [] then p = NULL
      else case resolve entry_child r (path_names path) of
             None \<Rightarrow> p = NULL
           | Some d \<Rightarrow> p \<noteq> NULL \<and> (\<exists>n. vnodes s' p = Some n \<and> entry_node r n d))"
proof -
  from find_path_ready [OF assms] obtain p s' where
    f: "vfs_find_path call_finddir (Some path) s = Some (p, s')" "tmpfs_ready r L R k s'" "vfs_root s' = vfs_root s"
    "spare_kept R s s'" "find_path_outcome r path (vfs_root s) (vnodes s) p (vnodes s')" by blast
  obtain n where n: "vnodes s (vfs_root s) = Some n" "entry_node r n r" using r by (auto simp: tmpfs_ready_def)
  have "vfs_root s \<noteq> NULL" by (rule tmpfs_root_nonnull [OF r])
  then have "if path = [] then p = NULL
      else case resolve entry_child r (path_names path) of
             None \<Rightarrow> p = NULL | Some d \<Rightarrow> p \<noteq> NULL \<and> (\<exists>n. vnodes s' p = Some n \<and> entry_node r n d)"
    using f(5) n by (auto simp: find_path_outcome_def walk_outcome_def split: if_splits option.splits)
  then show ?thesis using f(1-4) by blast
qed

lemma tree_add_resolved:
  assumes "stored L s r" "entry_dir r"
    and "d = (case resolve entry_child r (dir_names path) of Some e \<Rightarrow> if entry_dir e then e else r | None \<Rightarrow> r)"
  shows "d \<in> set (entries r)" "entry_dir d"
    "tree_of (add_entry (e_addr d) x r) = tree_add path (tree_of x) (tree_of r)"
proof -
  have dist: "distinct (addrs r)" using assms(1) by (simp add: stored_def)
  note root = tree_of_add_entry [OF dist, of "[]" r x]
  show "d \<in> set (entries r)" "entry_dir d"
    using assms(2,3) resolve_entry by (auto simp: self_entry split: option.splits)
  show "tree_of (add_entry (e_addr d) x r) = tree_add path (tree_of x) (tree_of r)"
    using assms(2,3) root tree_of_add_entry [OF dist, of "dir_names path" _ x]
    by (auto simp: tree_add_def tree_of_resolve split: option.splits)
qed

lemma add_entry_parent_ready:
  fixes s :: "'a tmpfs_scheme"
  assumes r: "tmpfs_ready r L R (k + length (dir_names path)) s" and path: "length path < 256" "0 \<notin> set path"
  defines "d \<equiv> (case resolve entry_child r (dir_names path) of Some e \<Rightarrow> if entry_dir e then e else r | None \<Rightarrow> r)"
  shows "\<exists>s'. add_entry_parent path s = Some (e_addr d, base_name path, s') \<and> tmpfs_ready r L R k s' \<and>
              spare_kept R s s'"
proof (cases "last_slash path 0 None")
  case None
  have "root_internal s = e_addr r" "entry_dir r" using r by (auto simp: tmpfs_ready_def tmpfs_holds_def)
  then show ?thesis using None r
    by (simp add: add_entry_parent_def base_name_def dir_names_def d_def spare_kept_refl)
next
  case (Some i)
  then have dn: "dir_names path = path_names (take i path)" and bn: "base_name path = drop (Suc i) path"
    by (simp_all add: dir_names_def base_name_def)
  have "length (take i path) < 256" "0 \<notin> set (take i path)" using path in_set_takeD by fastforce+
  from find_parent [OF r [unfolded dn] this] obtain p s' where
    f: "vfs_find_path call_finddir (Some (take i path)) s = Some (p, s')" "tmpfs_ready r L R k s'"
    "spare_kept R s s'"
    and out: "if take i path = [] then p = NULL
      else case resolve entry_child r (dir_names path) of
             None \<Rightarrow> p = NULL | Some d \<Rightarrow> p \<noteq> NULL \<and> (\<exists>n. vnodes s' p = Some n \<and> entry_node r n d)"
    unfolding dn by blast
  have root: "root_internal s' = e_addr r" "entry_dir r" using f(2) by (auto simp: tmpfs_ready_def tmpfs_holds_def)
  let ?s = "log_error ''TMPFS'' s'"
  have l: "tmpfs_ready r L R k ?s" "spare_kept R s ?s"
    using f(2,3) tmpfs_ready_log by (simp_all add: log_event_def)
  show ?thesis
  proof (cases "p = NULL")
    case True
    then have "d = r" using out root(2) unfolding d_def
      by (auto simp: dn path_names_def split: if_splits option.splits)
    then show ?thesis using f(1) True root(1) Some l by (simp add: add_entry_parent_def bn)
  next
    case False
    then obtain e n where e: "resolve entry_child r (dir_names path) = Some e" "vnodes s' p = Some n" "entry_node r n e"
      using out by (auto split: if_splits option.splits)
    have d: "d = (if entry_dir e then e else r)" "v_device n = e_addr e" using e by (simp_all add: d_def entry_node_def)
    show ?thesis
    proof (cases "entry_dir e")
      case True
      then show ?thesis using f False Some e(2) d entry_flags [OF e(3)] by (simp add: add_entry_parent_def bn)
    next
      case nd: False
      then show ?thesis using f False Some e(2) d entry_flags [OF e(3)] root l by (simp add: add_entry_parent_def bn)
    qed
  qed
qed

text \<open>A new entry with the last name of its path.\<close>

fun new_entry :: "bool \<Rightarrow> u8 list \<Rightarrow> u8 list \<Rightarrow> tree" where
  "new_entry True nm cs = TDir nm []"
| "new_entry False nm cs = TFile nm cs"

lemma tmpfs_add_entry_ready:
  fixes s :: "'a tmpfs_scheme"
  assumes r: "tmpfs_ready r L R (k + 2 + length (dir_names path)) s" and path: "length path < 256" "0 \<notin> set path"
    and nm: "length (base_name path) < 128"
    and src: "flags AND VFS_DIRECTORY = 0 \<Longrightarrow> sz \<le> 1000 \<and> off_heap R data (unat sz)"
  shows "\<exists>p s' r' L'. tmpfs_add_entry path data sz flags s = Some (p, s') \<and> p \<noteq> NULL \<and> tmpfs_ready r' L' R k s' \<and>
     spare_kept R s s' \<and>
     tree_of r' =
       tree_add path (new_entry (flags AND VFS_DIRECTORY \<noteq> 0) (base_name path) (bytes_at s data (unat sz))) (tree_of r)"
proof -
  define d where "d = (case resolve entry_child r (dir_names path) of Some e \<Rightarrow> if entry_dir e then e else r | None \<Rightarrow> r)"
  from add_entry_parent_ready [OF r path] obtain s1 where
    a: "add_entry_parent path s = Some (e_addr d, base_name path, s1)" and r1: "tmpfs_ready r L R (Suc (Suc k)) s1"
    and m1: "spare_kept R s s1" unfolding d_def by auto
  have st: "stored L s1 r" "entry_dir r" using r1 by (auto simp: tmpfs_ready_def tmpfs_holds_def)
  note d = tree_add_resolved [OF st d_def]
  have n0: "0 \<notin> set (base_name path)" using path(2) by (auto simp: base_name_def dest: in_set_dropD split: option.splits)
  have c: "copy_string 256 path = Some path" using path(1) by (simp add: copy_string_def)
  show ?thesis
  proof (cases "flags AND VFS_DIRECTORY = 0")
    case True
    from src [OF this] have sz: "sz \<le> 1000" "off_heap R data (unat sz)" by auto
    from tmpfs_create_file_ready [OF r1 d(1,2) nm n0 sz] obtain p s' L' where
      f: "tmpfs_create_file (e_addr d) (base_name path) data sz s1 = Some (p, s')" "p \<noteq> NULL" "spare_kept R s1 s'"
      "tmpfs_ready (add_entry (e_addr d) (File p (base_name path) (bytes_at s1 data (unat sz))) r) L' R k s'" by blast
    have "bytes_at s1 data (unat sz) = bytes_at s data (unat sz)"
      using m1 sz(2) by (simp add: off_heap_def spare_kept_def bytes_at_def byte_def page_base_cell_of)
    then show ?thesis
      using a c f True d(3) spare_kept_trans [OF m1 f(3)] by (intro exI conjI) (auto simp: tmpfs_add_entry_def)
  next
    case False
    from tmpfs_create_dir_ready [OF r1 d(1,2) nm n0] obtain p s' L' where
      f: "tmpfs_create_dir (e_addr d) (base_name path) s1 = Some (p, s')" "p \<noteq> NULL" "spare_kept R s1 s'"
      "tmpfs_ready (add_entry (e_addr d) (Dir p (base_name path) []) r) L' R k s'" by blast
    then show ?thesis
      using a c f False d(3) spare_kept_trans [OF m1 f(3)] by (intro exI conjI) (auto simp: tmpfs_add_entry_def)
  qed
qed

end
