(* ===== verification/Initrd.thy ===== *)
theory Initrd
  imports TmpfsTree
begin

text \<open>
  The initial file system, \<^verbatim>\<open>fs/initrd.c\<close>: a tar archive that the boot loader leaves in memory is unpacked into the
  memory file system.
\<close>

section \<open>The archive\<close>

text \<open>The boot loader's module response: null, or the list of modules.\<close>

record limine_file =
  lf_address :: u64
  lf_size :: u64

definition tar_header :: layout where
  "tar_header =
     [(''name'', 100), (''mode'', 8), (''uid'', 8), (''gid'', 8), (''size'', 12), (''mtime'', 12), (''chksum'', 8),
      (''typeflag'', 1), (''linkname'', 100), (''magic'', 6), (''version'', 2), (''uname'', 32), (''gname'', 32),
      (''devmajor'', 8), (''devminor'', 8), (''prefix'', 155)]"

definition tar_name :: u64 where "tar_name = offset_of tar_header ''name''"
definition tar_size :: u64 where "tar_size = offset_of tar_header ''size''"
definition tar_typeflag :: u64 where "tar_typeflag = offset_of tar_header ''typeflag''"
definition tar_magic :: u64 where "tar_magic = offset_of tar_header ''magic''"

lemma tar_offsets: "tar_name = 0" "tar_size = 124" "tar_typeflag = 156" "tar_magic = 257"
  by (simp_all add: tar_name_def tar_size_def tar_typeflag_def tar_magic_def layout_defs tar_header_def)

text \<open>The archive's numbers are octal.\<close>

partial_function (option) octal_loop :: "u64 \<Rightarrow> u64 \<Rightarrow> 'a vmm_scheme \<Rightarrow> u64 option" where
  "octal_loop str val s = do {
     c \<leftarrow> load8 str s;
     if of_char (CHR ''0'') \<le> c \<and> c \<le> of_char (CHR ''7'')
     then octal_loop (str + 1) (push_bit 3 val OR ucast (c - of_char (CHR ''0''))) s
     else Some val }"

definition octal_to_int :: "u64 \<Rightarrow> 'a vmm_scheme \<Rightarrow> u64 option" where
  "octal_to_int str s = octal_loop str 0 s"

text \<open>The string at an address, which is what a function that takes a pointer to it reads.\<close>

partial_function (option) string_at :: "u64 \<Rightarrow> 'a vmm_scheme \<Rightarrow> u8 list option" where
  "string_at p s = do {
     c \<leftarrow> load8 p s;
     if c = 0 then Some [] else do { cs \<leftarrow> string_at (p + 1) s; Some (c # cs) } }"

section \<open>Unpacking\<close>

text \<open>The pointer to the name, behind a leading \<^verbatim>\<open>./\<close>.\<close>

definition entry_path :: "u64 \<Rightarrow> 'a vmm_scheme \<Rightarrow> u64 option" where
  "entry_path name s = do {
     c0 \<leftarrow> load8 name s;
     if c0 = of_char (CHR ''.'') then do {
       c1 \<leftarrow> load8 (name + 1) s;
       Some (if c1 = slash then name + 2 else name) }
     else Some name }"

text \<open>A slash at the end of the name is overwritten in the archive.\<close>

definition strip_slash :: "u64 \<Rightarrow> 'a vmm_scheme \<Rightarrow> 'a vmm_scheme option" where
  "strip_slash name s = do {
     len \<leftarrow> strlen name s;
     if 0 < len then do {
       c \<leftarrow> load8 (name + len - 1) s;
       if c = slash then store8 (name + len - 1) 0 s else Some s }
     else Some s }"

definition next_header :: "u64 \<Rightarrow> u64 \<Rightarrow> u64" where
  "next_header offset sz = offset + (512 + ((sz + 511) AND NOT 511))"

partial_function (option) initrd_loop :: "u64 \<Rightarrow> u64 \<Rightarrow> u64 \<Rightarrow> 'a tmpfs_scheme \<Rightarrow> 'a tmpfs_scheme option" where
  "initrd_loop archive archive_size offset s =
     (if offset < archive_size then do {
        let header = archive + offset;
        c \<leftarrow> load8 (header + tar_name) s;
        if c = 0 then Some s
        else do {
          ok \<leftarrow> signature_is (chars ''ustar'') (header + tar_magic) s;
          if \<not> ok then Some (log_error ''INITRD'' s)
          else do {
            sz \<leftarrow> octal_to_int (header + tar_size) s;
            typeflag \<leftarrow> load8 (header + tar_typeflag) s;
            let flags = (if typeflag = of_char (CHR ''5'') then VFS_DIRECTORY else VFS_FILE);
            name \<leftarrow> entry_path (header + tar_name) s;
            c \<leftarrow> load8 name s;
            if c = 0 then initrd_loop archive archive_size (next_header offset sz) s
            else do {
              s \<leftarrow> strip_slash name s;
              path \<leftarrow> string_at name s;
              (_, s) \<leftarrow> tmpfs_add_entry path (archive + offset + 512) sz flags s;
              initrd_loop archive archive_size (next_header offset sz) s } } } }
      else Some s)"

definition initrd_init :: "limine_file list option \<Rightarrow> 'a tmpfs_scheme \<Rightarrow> 'a tmpfs_scheme option" where
  "initrd_init response s =
     (case response of
        None \<Rightarrow> Some (log_warn ''INITRD'' s)
      | Some [] \<Rightarrow> Some (log_warn ''INITRD'' s)
      | Some (initrd_file # _) \<Rightarrow> do {
          let s = log_info ''INITRD'' s;
          s \<leftarrow> initrd_loop (lf_address initrd_file) (lf_size initrd_file) 0 s;
          Some (log_info ''INITRD'' s) })"

section \<open>What an archive contains\<close>

record tar_entry =
  te_name :: "u8 list"
  te_dir :: bool
  te_data :: "u8 list"

text \<open>Archives are given by the byte at each offset.\<close>

definition slice :: "(nat \<Rightarrow> u8) \<Rightarrow> nat \<Rightarrow> nat \<Rightarrow> u8 list" where
  "slice b i n = map (\<lambda>j. b (i + j)) [0..<n]"

definition is_octal :: "u8 \<Rightarrow> bool" where
  "is_octal c \<longleftrightarrow> 48 \<le> c \<and> c \<le> 55"

definition octal_value :: "u8 list \<Rightarrow> nat" where
  "octal_value cs = foldl (\<lambda>v c. 8 * v + (unat c - 48)) 0 (takeWhile is_octal cs)"

definition roundup :: "nat \<Rightarrow> nat" where
  "roundup n = (n + 511) div 512 * 512"

definition tar_header_at :: "(nat \<Rightarrow> u8) \<Rightarrow> nat \<Rightarrow> tar_entry \<Rightarrow> bool" where
  "tar_header_at b off e \<longleftrightarrow>
     te_name e \<noteq> [] \<and> 0 \<notin> set (te_name e) \<and> length (te_name e) < 100 \<and>
     slice b off (Suc (length (te_name e))) = te_name e @ [0] \<and>
     (\<exists>c \<in> set (slice b (off + 124) 12). \<not> is_octal c) \<and> octal_value (slice b (off + 124) 12) = length (te_data e) \<and>
     (b (off + 156) = of_char (CHR ''5'') \<longleftrightarrow> te_dir e) \<and> slice b (off + 257) 5 = chars ''ustar'' \<and>
     slice b (off + 512) (length (te_data e)) = te_data e"

fun archive_at :: "(nat \<Rightarrow> u8) \<Rightarrow> nat \<Rightarrow> nat \<Rightarrow> tar_entry list \<Rightarrow> bool" where
  "archive_at b n off [] \<longleftrightarrow> n \<le> off \<or> b off = 0"
| "archive_at b n off (e # es) \<longleftrightarrow>
     off + 512 + length (te_data e) \<le> n \<and> tar_header_at b off e \<and>
     archive_at b n (off + 512 + roundup (length (te_data e))) es"

text \<open>The path of an entry, and its effect on the tree.\<close>

fun drop_dot :: "u8 list \<Rightarrow> u8 list" where
  "drop_dot (c # d # cs) = (if c = of_char (CHR ''.'') \<and> d = slash then cs else c # d # cs)"
| "drop_dot cs = cs"

definition drop_slash :: "u8 list \<Rightarrow> u8 list" where
  "drop_slash cs = (if cs \<noteq> [] \<and> last cs = slash then butlast cs else cs)"

definition tar_path :: "tar_entry \<Rightarrow> u8 list" where
  "tar_path e = drop_slash (drop_dot (te_name e))"

definition unpack :: "tar_entry \<Rightarrow> tree \<Rightarrow> tree" where
  "unpack e t =
     (if drop_dot (te_name e) = [] then t
      else tree_add (tar_path e) (new_entry (te_dir e) (base_name (tar_path e)) (te_data e)) t)"

section \<open>Reading a header\<close>

lemma slice_cong: "(\<And>j. j < n \<Longrightarrow> b (i + j) = b' (i + j)) \<Longrightarrow> slice b i n = slice b' i n"
  by (simp add: slice_def)

lemma slice_nth [simp]: "j < n \<Longrightarrow> slice b i n ! j = b (i + j)" "length (slice b i n) = n"
  by (simp_all add: slice_def)

lemma bytes_at_slice_eq: "bytes_at s (a + of_nat i) n = slice (\<lambda>i. byte s (a + of_nat i)) i n"
  by (simp add: slice_def bytes_at_def add.assoc)

lemma archive_at_cong:
  assumes "archive_at b n off es" "\<And>i. off \<le> i \<Longrightarrow> i < n \<Longrightarrow> b' i = b i"
  shows "archive_at b' n off es"
  using assms
proof (induction es arbitrary: off)
  case Nil
  then show ?case by (cases "n \<le> off") auto
next
  case (Cons e es)
  let ?l = "length (te_data e)"
  have fit: "off + 512 + ?l \<le> n" and h: "tar_header_at b off e" and a: "archive_at b n (off + 512 + roundup ?l) es"
    using Cons.prems(1) by auto
  have s: "slice b' (off + i) j = slice b (off + i) j" if "i + j \<le> 512 + ?l" for i j
    by (rule slice_cong) (use that fit Cons.prems(2) in auto)
  have "length (te_name e) < 100" using h by (simp add: tar_header_at_def)
  then have "tar_header_at b' off e"
    using h s [of 0 "Suc (length (te_name e))"] s [of 124 12] s [of 257 5] s [of 512 ?l] Cons.prems(2) [of "off + 156"] fit
    by (simp add: tar_header_at_def)
  moreover have "archive_at b' n (off + 512 + roundup ?l) es" by (rule Cons.IH [OF a]) (use Cons.prems(2) in auto)
  ultimately show ?case using fit by simp
qed

lemma push_or_digit:
  assumes "unat (d :: u64) < 8"
  shows "push_bit 3 v OR d = of_nat (8 * unat v + unat d)"
proof -
  have "take_bit 3 d = d" using assms by (simp add: word_unat_eq_iff unsigned_take_bit_eq take_bit_nat_eq_self)
  then have "\<not> bit (push_bit 3 v) n \<or> \<not> bit d n" for n
    by (metis bit_push_bit_iff bit_take_bit_iff linorder_not_less)
  then have "push_bit 3 v + d = push_bit 3 v OR d" by (rule disjunctive_add)
  then show ?thesis by (simp add: push_bit_eq_mult mult.commute)
qed

lemma unat_ucast_u8: "unat (ucast (w :: u8) :: u64) = unat w"
proof -
  have "unat w < 256" using unsigned_less [of w] by simp
  then show ?thesis by (simp add: unsigned_ucast_eq take_bit_nat_eq_self)
qed

lemma octal_loop_value:
  assumes "buffer a (length cs)" "bytes_at s a (length cs) = cs" "\<exists>c \<in> set cs. \<not> is_octal c"
  shows "octal_loop a (of_nat v) s = Some (of_nat (foldl (\<lambda>v c. 8 * v + (unat c - 48)) v (takeWhile is_octal cs)))"
  using assms
proof (induction cs arbitrary: a v)
  case (Cons c cs)
  have b: "direct a" "byte s a = c" "buffer (a + 1) (length cs)" "bytes_at s (a + 1) (length cs) = cs"
    using Cons.prems(1,2) by (simp_all add: buffer_Suc bytes_at_Suc)
  show ?case
  proof (cases "is_octal c")
    case True
    have "unat (c - 48) = unat c - 48" and u8: "unat c - 48 < 8" using True by (auto simp: is_octal_def word_le_nat_alt unat_sub)
    then have u: "unat (ucast (c - 48) :: u64) = unat c - 48" using unat_ucast_u8 by metis
    have "push_bit 3 (of_nat v) OR ucast (c - 48) = (of_nat (8 * v + (unat c - 48)) :: u64)"
      using push_or_digit [of "ucast (c - 48)" "of_nat v"] u u8 by simp
    then show ?thesis
      using Cons.IH [OF b(3,4), of "8 * v + (unat c - 48)"] Cons.prems(3) True b(1,2)
      by (simp add: octal_loop.simps [of a] is_octal_def)
  next
    case False
    then show ?thesis using b(1,2) by (auto simp: octal_loop.simps [of a] is_octal_def)
  qed
qed simp

lemma string_at_cstr: "cstr s a cs \<Longrightarrow> string_at a s = Some cs"
proof (induction cs arbitrary: a)
  case (Cons c cs)
  then show ?case by (simp add: string_at.simps [of a])
qed (simp add: string_at.simps)

lemma entry_path_cstr:
  assumes "cstr s a name" "name \<noteq> []"
  shows "\<exists>j. entry_path a s = Some (a + of_nat j) \<and> cstr s (a + of_nat j) (drop_dot name) \<and>
             j + length (drop_dot name) = length name"
proof -
  obtain c cs where name: "name = c # cs" using assms(2) by (cases name) auto
  show ?thesis
  proof (cases cs)
    case Nil
    then show ?thesis using assms(1) name by (intro exI [of _ 0]) (auto simp: entry_path_def slash_def)
  next
    case (Cons d ds)
    then show ?thesis using assms(1) name
      by (cases "c = of_char (CHR ''.'') \<and> d = slash")
        (intro exI [of _ 2] exI [of _ 0], auto simp: entry_path_def add.assoc)+
  qed
qed

section \<open>Unpacking an archive\<close>

text \<open>The file system does not depend on the memory outside the heap.\<close>

lemma tmpfs_ready_outside:
  fixes s :: "'a tmpfs_scheme"
  assumes "tmpfs_ready r L R k s" "\<And>a. page_base a \<notin> R \<Longrightarrow> m a = mem s a"
  shows "tmpfs_ready r L R k (s\<lparr>mem := m\<rparr>)"
proof -
  let ?s = "s\<lparr>mem := m\<rparr>"
  from assms(1) obtain zs where h: "heap_ready k s (L \<union> open_blocks zs s) R"
    and ob: "\<forall>(q, m) \<in> open_blocks zs s. direct q \<and> (q, m) \<notin> L" and st: "stored L s r"
    and dr: "entry_dir r" "root_internal s = e_addr r" by (rule tmpfs_holdsE [OF tmpfs_readyD])
  note o = heap_ready_outside [OF h assms(2)]
  have "heap_ready k s (L \<union> open_blocks zs s) {}" using h unfolding heap_ready_def by blast
  moreover have "heap_same s ?s (L \<union> open_blocks zs s) {}" using o(2) by (simp add: heap_same_def vmm_frame_def)
  ultimately have "stored L ?s r" by (rule stored_same [OF _ _ _ _ st]) auto
  moreover have "open_blocks zs ?s = open_blocks zs s" by (simp add: open_blocks_def)
  ultimately show ?thesis
    using assms(1) o(1) ob dr unfolding tmpfs_ready_def by (intro conjI tmpfs_holdsI [of k ?s L zs]) auto
qed

lemma strip_slash_cstr:
  assumes c: "cstr s a cs" and n: "cs \<noteq> []"
  shows "\<exists>m. strip_slash a s = Some (s\<lparr>mem := m\<rparr>) \<and> cstr (s\<lparr>mem := m\<rparr>) a (drop_slash cs) \<and>
     (\<forall>b. \<not> in_buf a (length cs) b \<longrightarrow> byte (s\<lparr>mem := m\<rparr>) b = byte s b) \<and>
     (\<forall>c. (\<forall>b. in_buf a (length cs) b \<longrightarrow> c \<noteq> cell_of b) \<longrightarrow> m c = mem s c)"
proof -
  define k where "k = length cs - 1"
  have b: "buffer a (Suc (length cs))" "bytes_at s a (Suc (length cs)) = cs @ [0]" "0 \<notin> set cs"
    using c by (auto simp: cstr_def)
  have Sn: "length cs = Suc k" using n by (simp add: k_def)
  have byte: "byte s (a + of_nat i) = (cs @ [0]) ! i" if "i < Suc (length cs)" for i
    using arg_cong [OF b(2), of "\<lambda>xs. xs ! i"] that nth_bytes_at [of i "Suc (length cs)" s a] by simp
  have e: "a + of_nat (length cs) - 1 = a + of_nat k" unfolding Sn by simp
  have d: "direct (a + of_nat k)" by (rule unat_buffer(2) [OF b(1)]) (simp add: Sn)
  have l: "byte s (a + of_nat k) = last cs" using byte [of k] n Sn by (simp add: nth_append last_conv_nth)
  have pos: "(of_nat (length cs) :: u64) \<noteq> 0"
    using unat_buffer(1) [OF b(1), of "length cs"] n by (intro notI) simp
  have run: "strip_slash a s = (if last cs = slash then store8 (a + of_nat k) 0 s else Some s)"
    using strlen_spec [OF c] pos d l by (simp add: strip_slash_def e word_gt_0)
  show ?thesis
  proof (cases "last cs = slash")
    case False
    then show ?thesis using run c by (intro exI [of _ "mem s"]) (simp add: drop_slash_def)
  next
    case True
    from store8_direct [OF d, of 0 s] obtain m where
      m: "store8 (a + of_nat k) 0 s = Some (s\<lparr>mem := m\<rparr>)"
      "\<And>b. byte (s\<lparr>mem := m\<rparr>) b = (if b = a + of_nat k then 0 else byte s b)"
      "\<And>c. c \<noteq> cell_of (a + of_nat k) \<Longrightarrow> m c = mem s c" by blast
    have ib: "in_buf a (length cs) (a + of_nat k)" using Sn by (auto simp: in_buf_def)
    have "bytes_at (s\<lparr>mem := m\<rparr>) a (length cs) = butlast cs @ [0]"
    proof (rule nth_equalityI)
      fix i assume "i < length (bytes_at (s\<lparr>mem := m\<rparr>) a (length cs))"
      then have i: "i < length cs" by simp
      have "a + of_nat i = a + of_nat k \<longleftrightarrow> i = k"
        using buffer_eq_iff [OF b(1) b(1), of i k] i Sn by simp
      then show "bytes_at (s\<lparr>mem := m\<rparr>) a (length cs) ! i = (butlast cs @ [0]) ! i"
        using i byte [of i] Sn by (auto simp: m(2) nth_append nth_butlast)
    qed (use Sn in simp)
    moreover have "0 \<notin> set (butlast cs)" using b(3) by (meson in_set_butlastD)
    ultimately have "cstr (s\<lparr>mem := m\<rparr>) a (drop_slash cs)"
      unfolding cstr_def using True n Sn buffer_le [OF b(1), of "length cs"] by (simp add: drop_slash_def)
    then show ?thesis using run True m ib by (intro exI [of _ m]) auto
  qed
qed

lemma next_header_roundup:
  assumes "n + 511 < 2 ^ 64"
  shows "next_header (of_nat off) (of_nat n) = of_nat (off + 512 + roundup n)"
proof -
  let ?x = "of_nat n + 511 :: u64"
  have "?x AND NOT 511 = push_bit 9 (drop_bit 9 ?x)"
  proof -
    have "x AND NOT (mask 9) = push_bit 9 (drop_bit 9 x)" for x :: u64
      by (rule bit_word_eqI) (auto simp: bit_simps)
    moreover have "mask 9 = (511 :: u64)" by (simp add: mask_eq_exp_minus_1)
    ultimately show ?thesis by metis
  qed
  also have "\<dots> = ?x div 512 * 512" by (simp add: push_bit_eq_mult drop_bit_eq_div)
  also have "?x div 512 = of_nat ((n + 511) div 512)"
  proof (rule word_unat_eq_iff [THEN iffD2])
    have "unat ?x = n + 511" using assms by (simp add: unat_word_ariths unsigned_of_nat take_bit_nat_eq_self)
    then show "unat (?x div 512) = unat (of_nat ((n + 511) div 512) :: u64)"
      using assms by (simp add: unat_div unsigned_of_nat take_bit_nat_eq_self)
  qed
  finally show ?thesis by (simp add: next_header_def roundup_def add.assoc)
qed

text \<open>The fields of a header.\<close>

lemma signature_is_bytes: "buffer t (length sig) \<Longrightarrow> signature_is sig t s = Some (bytes_at s t (length sig) = sig)"
proof (induction sig arbitrary: t)
  case (Cons c cs)
  then show ?case by (simp add: buffer_Suc bytes_at_Suc)
qed (simp add: bytes_at_def)

lemma tar_header_reads:
  assumes buf: "buffer (archive + of_nat off) 512" and h: "tar_header_at (\<lambda>i. byte s (archive + of_nat i)) off e"
  defines "header \<equiv> archive + of_nat off"
  shows "cstr s header (te_name e)" "signature_is (chars ''ustar'') (header + tar_magic) s = Some True"
    "octal_to_int (header + tar_size) s = Some (of_nat (length (te_data e)))"
    "\<exists>c. load8 (header + tar_typeflag) s = Some c \<and> (c = of_char (CHR ''5'') \<longleftrightarrow> te_dir e)"
    "bytes_at s (header + 512) (length (te_data e)) = te_data e"
proof -
  let ?b = "\<lambda>i. byte s (archive + of_nat i)"
  have sl: "bytes_at s (header + of_nat i) j = slice ?b (off + i) j" for i j
    using bytes_at_slice_eq [of s archive "off + i" j] by (simp add: header_def add.assoc)
  have sub: "buffer (header + of_nat i) j" if "i + j \<le> 512" for i j
    using buffer_sub [OF buf that] by (simp add: header_def)
  note d = h [unfolded tar_header_at_def]
  show "cstr s header (te_name e)"
    using d sl [of 0] sub [of 0 "Suc (length (te_name e))"] by (simp add: cstr_def)
  show "signature_is (chars ''ustar'') (header + tar_magic) s = Some True"
  proof -
    have l: "length (chars ''ustar'') = 5" by simp
    have "bytes_at s (header + 257) 5 = chars ''ustar''" "buffer (header + 257) 5"
      using d sl [of 257 5] sub [of 257 5] by auto
    then show ?thesis using signature_is_bytes [of "header + 257" "chars ''ustar''" s] unfolding l tar_offsets by simp
  qed
  show "octal_to_int (header + tar_size) s = Some (of_nat (length (te_data e)))"
    using octal_loop_value [of "header + 124" "slice ?b (off + 124) 12" s 0] d sl [of 124 12] sub [of 124 12]
    by (simp add: octal_to_int_def tar_offsets octal_value_def)
  have "direct (header + 156)" using sub [of 156 1] by (simp add: buffer_Suc)
  then show "\<exists>c. load8 (header + tar_typeflag) s = Some c \<and> (c = of_char (CHR ''5'') \<longleftrightarrow> te_dir e)"
    using d by (simp add: tar_offsets header_def add.assoc)
  show "bytes_at s (header + 512) (length (te_data e)) = te_data e" using d sl [of 512] by simp
qed

text \<open>Pages for an entry: a node for each directory on the way, the new node and its contents.\<close>

definition tar_pages :: "tar_entry \<Rightarrow> nat" where
  "tar_pages e = 2 + length (dir_names (tar_path e))"

lemma drop_dot_set: "set (drop_dot cs) \<subseteq> set cs" "length (drop_dot cs) \<le> length cs"
  by (induction cs rule: drop_dot.induct) auto

lemma drop_slash_set: "set (drop_slash cs) \<subseteq> set cs" "length (drop_slash cs) \<le> length cs"
  by (auto simp: drop_slash_def dest: in_set_butlastD)

lemma tar_path_bounds:
  assumes "tar_header_at b off e"
  shows "length (tar_path e) < 100" "0 \<notin> set (tar_path e)" "length (base_name (tar_path e)) < 128"
proof -
  show l: "length (tar_path e) < 100" and "0 \<notin> set (tar_path e)"
    using assms drop_dot_set [of "te_name e"] drop_slash_set [of "drop_dot (te_name e)"]
    by (auto simp: tar_path_def tar_header_at_def)
  show "length (base_name (tar_path e)) < 128" using l by (auto simp: base_name_def split: option.split)
qed

lemma off_heap_bytes:
  assumes "off_heap R a n" "spare_kept R s s'" "i < n"
  shows "byte s' (a + of_nat i) = byte s (a + of_nat i)"
  using assms by (simp add: off_heap_def spare_kept_def byte_def page_base_cell_of)

text \<open>The pages of a region of memory, such as the archive, which is changed when it is unpacked.\<close>

definition pages_of :: "u64 \<Rightarrow> nat \<Rightarrow> u64 set" where
  "pages_of a n = (\<lambda>i. page_base (a + of_nat i)) ` {..<n}"

text \<open>A name in the archive without the slash at its end: the file system and the rest of the archive are unchanged.\<close>

lemma strip_slash_archive:
  fixes s :: "'a tmpfs_scheme"
  assumes oh: "off_heap R archive n" and name: "cstr s (archive + of_nat i) cs" "cs \<noteq> []" "i + length cs \<le> n"
    and r: "tmpfs_ready r L R k s"
  shows "\<exists>s'. strip_slash (archive + of_nat i) s = Some s' \<and> cstr s' (archive + of_nat i) (drop_slash cs) \<and>
     tmpfs_ready r L R k s' \<and> spare_kept (R - pages_of archive n) s s' \<and>
     (\<forall>x. i + length cs \<le> x \<longrightarrow> x < n \<longrightarrow> byte s' (archive + of_nat x) = byte s (archive + of_nat x))"
proof -
  let ?a = "archive + of_nat i"
  from strip_slash_cstr [OF name(1,2)] obtain m where
    m: "strip_slash ?a s = Some (s\<lparr>mem := m\<rparr>)" "cstr (s\<lparr>mem := m\<rparr>) ?a (drop_slash cs)"
    "\<And>b. \<not> in_buf ?a (length cs) b \<Longrightarrow> byte (s\<lparr>mem := m\<rparr>) b = byte s b"
    "\<And>c. (\<And>b. in_buf ?a (length cs) b \<Longrightarrow> c \<noteq> cell_of b) \<Longrightarrow> m c = mem s c" by blast
  have buf: "buffer archive n" and R: "\<And>i. i < n \<Longrightarrow> page_base (archive + of_nat i) \<in> R"
    using oh by (auto simp: off_heap_def)
  have ib: "\<exists>j. i + j < n \<and> j < length cs \<and> b = archive + of_nat (i + j)" if "in_buf ?a (length cs) b" for b
  proof -
    from that obtain j where "j < length cs" "b = archive + of_nat (i + j)" by (auto simp: in_buf_def add.assoc)
    then show ?thesis using name(3) by (intro exI [of _ j]) simp
  qed
  have eq: "m a = mem s a" if a: "page_base a \<notin> pages_of archive n" for a
  proof (rule m(4))
    fix b assume "in_buf ?a (length cs) b"
    then have "page_base b \<in> pages_of archive n" using ib unfolding pages_of_def by fastforce
    then show "a \<noteq> cell_of b" using a page_base_cell_of [of b] by auto
  qed
  have "pages_of archive n \<subseteq> R" using R by (auto simp: pages_of_def)
  then have "m a = mem s a" if "page_base a \<notin> R" for a using eq that by blast
  from tmpfs_ready_outside [OF r this] have "tmpfs_ready r L R k (s\<lparr>mem := m\<rparr>)" .
  moreover have "spare_kept (R - pages_of archive n) s (s\<lparr>mem := m\<rparr>)"
    using eq by (simp add: spare_kept_def sched_vars_def)
  moreover have "byte (s\<lparr>mem := m\<rparr>) (archive + of_nat x) = byte s (archive + of_nat x)" if x: "i + length cs \<le> x" "x < n" for x
  proof (rule m(3), rule notI)
    assume "in_buf ?a (length cs) (archive + of_nat x)"
    from ib [OF this] obtain j where j: "i + j < n" "j < length cs" "archive + of_nat x = archive + of_nat (i + j)" by blast
    then show False using buffer_eq_iff [OF buf buf x(2) j(1)] x(1) by simp
  qed
  ultimately show ?thesis using m(1,2) by blast
qed

text \<open>The part of a round that changes the state.\<close>

lemma initrd_add:
  fixes s :: "'a tmpfs_scheme"
  assumes oh: "off_heap R archive n" and fit: "off + 512 + length (te_data e) \<le> n"
    and h: "tar_header_at (\<lambda>i. byte s (archive + of_nat i)) off e"
    and name: "cstr s (archive + of_nat (off + j)) (drop_dot (te_name e))" "drop_dot (te_name e) \<noteq> []"
      "j + length (drop_dot (te_name e)) = length (te_name e)"
    and r: "tmpfs_ready r L R (k + tar_pages e) s" and small: "te_dir e \<or> length (te_data e) \<le> 1000"
  shows "\<exists>s1 p s' r' L'. strip_slash (archive + of_nat (off + j)) s = Some s1 \<and>
     string_at (archive + of_nat (off + j)) s1 = Some (tar_path e) \<and>
     tmpfs_add_entry (tar_path e) (archive + of_nat (off + 512)) (of_nat (length (te_data e)))
       (if te_dir e then VFS_DIRECTORY else VFS_FILE) s1 = Some (p, s') \<and>
     tmpfs_ready r' L' R k s' \<and> tree_of r' = unpack e (tree_of r) \<and> spare_kept (R - pages_of archive n) s s' \<and>
     (\<forall>i. off + 512 \<le> i \<longrightarrow> i < n \<longrightarrow> byte s' (archive + of_nat i) = byte s (archive + of_nat i))"
proof -
  let ?d = "archive + of_nat (off + 512)" and ?l = "length (te_data e)"
  let ?sz = "of_nat ?l :: u64" and ?f = "if te_dir e then VFS_DIRECTORY else VFS_FILE"
  have nl: "length (te_name e) < 100" using h by (simp add: tar_header_at_def)
  have "off + j + length (drop_dot (te_name e)) \<le> n" using name(3) nl fit by simp
  from strip_slash_archive [OF oh name(1,2) this r] obtain s1 where
    1: "strip_slash (archive + of_nat (off + j)) s = Some s1" "cstr s1 (archive + of_nat (off + j)) (tar_path e)"
    "tmpfs_ready r L R (k + tar_pages e) s1" "spare_kept (R - pages_of archive n) s s1"
    and keep: "\<And>i. off + 512 \<le> i \<Longrightarrow> i < n \<Longrightarrow> byte s1 (archive + of_nat i) = byte s (archive + of_nat i)"
    unfolding tar_path_def using name(3) nl by (auto simp: add.assoc)
  have buf: "buffer archive n" using oh by (simp add: off_heap_def)
  then have "?l < 2 ^ 64" using fit heap_base_bound by (simp add: buffer_def)
  then have ul: "unat ?sz = ?l" by (simp add: unsigned_of_nat take_bit_nat_eq_self)
  have src: "off_heap R ?d ?l"
    unfolding off_heap_def using buffer_sub [OF buf, of "off + 512" ?l] oh fit
    by (auto simp: off_heap_def add.assoc simp flip: of_nat_add)
  have d: "?f AND VFS_DIRECTORY \<noteq> 0 \<longleftrightarrow> te_dir e" by (simp add: VFS_DIRECTORY_def VFS_FILE_def)
  have ok: "?sz \<le> 1000 \<and> off_heap R ?d (unat ?sz)" if "?f AND VFS_DIRECTORY = 0"
    using small d that src ul by (auto simp: word_le_nat_alt)
  note pb = tar_path_bounds [OF h]
  have lp: "length (tar_path e) < 256" using pb(1) by simp
  have "slice (\<lambda>i. byte s1 (archive + of_nat i)) (off + 512) ?l = slice (\<lambda>i. byte s (archive + of_nat i)) (off + 512) ?l"
    by (rule slice_cong, rule keep) (use fit in auto)
  then have data: "bytes_at s1 ?d ?l = te_data e"
    using h bytes_at_slice_eq [of s1 archive "off + 512" ?l] by (simp add: tar_header_at_def)
  have "tmpfs_ready r L R (k + 2 + length (dir_names (tar_path e))) s1" using 1(3) by (simp add: tar_pages_def)
  from tmpfs_add_entry_ready [OF this lp pb(2,3) ok] obtain p s' r' L' where
    a: "tmpfs_add_entry (tar_path e) ?d ?sz ?f s1 = Some (p, s')" "tmpfs_ready r' L' R k s'" "spare_kept R s1 s'"
    "tree_of r' = tree_add (tar_path e) (new_entry (?f AND VFS_DIRECTORY \<noteq> 0) (base_name (tar_path e))
       (bytes_at s1 ?d (unat ?sz))) (tree_of r)" by blast
  have "tree_of r' = unpack e (tree_of r)"
    using a(4) unfolding d ul data unpack_def using name(2) by simp
  moreover have "byte s' (archive + of_nat i) = byte s (archive + of_nat i)" if "off + 512 \<le> i" "i < n" for i
    using off_heap_bytes [OF oh a(3) that(2)] keep [OF that] by simp
  moreover have "spare_kept (R - pages_of archive n) s s'"
    using spare_kept_trans [OF 1(4) spare_kept_mono [OF a(3)]] by blast
  ultimately show ?thesis using 1(1) string_at_cstr [OF 1(2)] a(1,2) by blast
qed

lemma initrd_round:
  fixes s :: "'a tmpfs_scheme"
  assumes oh: "off_heap R archive (unat sz)" and fit: "off + 512 + length (te_data e) \<le> unat sz"
    and h: "tar_header_at (\<lambda>i. byte s (archive + of_nat i)) off e"
    and r: "tmpfs_ready r L R (k + tar_pages e) s" and small: "te_dir e \<or> length (te_data e) \<le> 1000"
  shows "\<exists>s' r' L'. initrd_loop archive sz (of_nat off) s =
       initrd_loop archive sz (of_nat (off + 512 + roundup (length (te_data e)))) s' \<and>
     tmpfs_ready r' L' R k s' \<and> tree_of r' = unpack e (tree_of r) \<and> spare_kept (R - pages_of archive (unat sz)) s s' \<and>
     (\<forall>i. off + 512 \<le> i \<longrightarrow> i < unat sz \<longrightarrow> byte s' (archive + of_nat i) = byte s (archive + of_nat i))"
proof -
  let ?h = "archive + of_nat off" and ?l = "length (te_data e)"
  have buf: "buffer archive (unat sz)" using oh by (simp add: off_heap_def)
  have "buffer ?h 512" by (rule buffer_sub [OF buf]) (use fit in simp)
  note rd = tar_header_reads [OF this h]
  have big: "unat sz < 2 ^ 64 - 512" using buf heap_base_bound by (simp add: buffer_def KERNEL_HEAP_BASE_def)
  have lt: "of_nat off < sz" using fit big by (simp add: word_less_nat_alt unsigned_of_nat take_bit_nat_eq_self)
  have nx: "next_header (of_nat off) (of_nat ?l) = of_nat (off + 512 + roundup ?l)"
    by (rule next_header_roundup) (use fit big in simp)
  obtain c cs where cs: "te_name e = c # cs" "c \<noteq> 0" using h by (cases "te_name e") (auto simp: tar_header_at_def)
  have first: "load8 (?h + tar_name) s = Some c" using rd(1) cs by (simp add: tar_offsets)
  obtain f where f: "load8 (?h + tar_typeflag) s = Some f" "f = of_char (CHR ''5'') \<longleftrightarrow> te_dir e" using rd(4) by blast
  have "te_name e \<noteq> []" using cs by simp
  from entry_path_cstr [OF rd(1) this] obtain j where
    j: "entry_path (?h + tar_name) s = Some (archive + of_nat (off + j))"
    "cstr s (archive + of_nat (off + j)) (drop_dot (te_name e))" "j + length (drop_dot (te_name e)) = length (te_name e)"
    by (auto simp: tar_offsets add.assoc)
  show ?thesis
  proof (cases "drop_dot (te_name e) = []")
    case True
    then have "load8 (archive + of_nat (off + j)) s = Some 0" using j(2) by simp
    then have "initrd_loop archive sz (of_nat off) s =
        initrd_loop archive sz (of_nat (off + 512 + roundup ?l)) s"
      using lt first cs(2) rd(2,3) f(1) j(1) nx by (simp add: initrd_loop.simps [of archive sz "of_nat off"])
    then show ?thesis using tmpfs_ready_mono [OF r, of k] True
      by (intro exI [of _ s] exI [of _ r] exI [of _ L]) (simp add: unpack_def spare_kept_refl)
  next
    case False
    obtain c' cs' where "drop_dot (te_name e) = c' # cs'" using False by (cases "drop_dot (te_name e)") auto
    then have "load8 (archive + of_nat (off + j)) s = Some c'" "c' \<noteq> 0" using j(2) by auto
    moreover from initrd_add [OF oh fit h j(2) False j(3) r small] obtain s1 p s' r' L' where
      a: "strip_slash (archive + of_nat (off + j)) s = Some s1"
      "string_at (archive + of_nat (off + j)) s1 = Some (tar_path e)"
      "tmpfs_add_entry (tar_path e) (archive + of_nat (off + 512)) (of_nat ?l)
         (if te_dir e then VFS_DIRECTORY else VFS_FILE) s1 = Some (p, s')"
      "tmpfs_ready r' L' R k s'" "tree_of r' = unpack e (tree_of r)" "spare_kept (R - pages_of archive (unat sz)) s s'"
      "\<forall>i. off + 512 \<le> i \<longrightarrow> i < unat sz \<longrightarrow> byte s' (archive + of_nat i) = byte s (archive + of_nat i)" by blast
    ultimately have "initrd_loop archive sz (of_nat off) s =
        initrd_loop archive sz (of_nat (off + 512 + roundup ?l)) s'"
      using lt first cs(2) rd(2,3) f j(1) nx
      by (simp add: initrd_loop.simps [of archive sz "of_nat off"] add.assoc)
    then show ?thesis using a(4-7) by blast
  qed
qed

lemma initrd_loop_unpacks:
  fixes s :: "'a tmpfs_scheme"
  assumes oh: "off_heap R archive (unat sz)"
  shows "tmpfs_ready r L R (k + sum_list (map tar_pages es)) s \<Longrightarrow>
    archive_at (\<lambda>i. byte s (archive + of_nat i)) (unat sz) off es \<Longrightarrow> off \<le> unat sz + 511 \<Longrightarrow>
    \<forall>e \<in> set es. te_dir e \<or> length (te_data e) \<le> 1000 \<Longrightarrow>
    \<exists>s' r' L'. initrd_loop archive sz (of_nat off) s = Some s' \<and> tmpfs_ready r' L' R k s' \<and>
      tree_of r' = fold unpack es (tree_of r) \<and> spare_kept (R - pages_of archive (unat sz)) s s'"
proof (induction es arbitrary: r L s off)
  case Nil
  have buf: "buffer archive (unat sz)" using oh by (simp add: off_heap_def)
  then have "unat sz < 2 ^ 64 - 512" using heap_base_bound by (simp add: buffer_def KERNEL_HEAP_BASE_def)
  then have u: "unat (of_nat off :: u64) = off"
    using Nil.prems(3) by (simp add: unsigned_of_nat take_bit_nat_eq_self)
  have "initrd_loop archive sz (of_nat off) s = Some s"
  proof (cases "unat sz \<le> off")
    case True
    then show ?thesis using u by (simp add: initrd_loop.simps word_less_nat_alt)
  next
    case False
    then have "load8 (archive + of_nat off + tar_name) s = Some 0"
      using Nil.prems(2) unat_buffer(2) [OF buf, of off] by (simp add: tar_offsets)
    then show ?thesis by (simp add: initrd_loop.simps)
  qed
  then show ?case using Nil.prems(1) by (auto simp: spare_kept_refl)
next
  case (Cons e es)
  let ?off = "off + 512 + roundup (length (te_data e))"
  have a: "off + 512 + length (te_data e) \<le> unat sz" "tar_header_at (\<lambda>i. byte s (archive + of_nat i)) off e"
    "archive_at (\<lambda>i. byte s (archive + of_nat i)) (unat sz) ?off es" using Cons.prems(2) by auto
  have r: "tmpfs_ready r L R ((k + sum_list (map tar_pages es)) + tar_pages e) s"
    using Cons.prems(1) by (simp add: ac_simps)
  from initrd_round [OF oh a(1,2) r] Cons.prems(4) obtain s1 r1 L1 where
    1: "initrd_loop archive sz (of_nat off) s = initrd_loop archive sz (of_nat ?off) s1"
    "tmpfs_ready r1 L1 R (k + sum_list (map tar_pages es)) s1" "tree_of r1 = unpack e (tree_of r)"
    "\<forall>i. off + 512 \<le> i \<longrightarrow> i < unat sz \<longrightarrow> byte s1 (archive + of_nat i) = byte s (archive + of_nat i)"
    "spare_kept (R - pages_of archive (unat sz)) s s1" by auto
  have at: "archive_at (\<lambda>i. byte s1 (archive + of_nat i)) (unat sz) ?off es"
    by (rule archive_at_cong [OF a(3)]) (use 1(4) in auto)
  have "?off \<le> unat sz + 511" using a(1) by (simp add: roundup_def)
  from Cons.IH [OF 1(2) at this] Cons.prems(4) obtain s' r' L' where
    2: "initrd_loop archive sz (of_nat ?off) s1 = Some s'" "tmpfs_ready r' L' R k s'" "tree_of r' = fold unpack es (tree_of r1)"
    "spare_kept (R - pages_of archive (unat sz)) s1 s'" by auto
  then show ?case unfolding 1(1) using 1(3) spare_kept_trans [OF 1(5) 2(4)] by auto
qed

lemma initrd_init_ready:
  fixes s :: "'a tmpfs_scheme"
  assumes r: "tmpfs_ready r L R (k + sum_list (map tar_pages es)) s" and f: "off_heap R (lf_address f) (unat (lf_size f))"
    and a: "archive_at (\<lambda>i. byte s (lf_address f + of_nat i)) (unat (lf_size f)) 0 es"
    and small: "\<forall>e \<in> set es. te_dir e \<or> length (te_data e) \<le> 1000"
  shows "\<exists>s' r' L'. initrd_init (Some (f # fs)) s = Some s' \<and> tmpfs_ready r' L' R k s' \<and>
           tree_of r' = fold unpack es (tree_of r) \<and> spare_kept (R - pages_of (lf_address f) (unat (lf_size f))) s s'"
proof -
  let ?s = "log_info ''INITRD'' s" and ?Q = "R - pages_of (lf_address f) (unat (lf_size f))"
  have r': "tmpfs_ready r L R (k + sum_list (map tar_pages es)) ?s"
    using tmpfs_ready_log [OF r] by (simp add: log_event_def)
  have "byte ?s = byte s" by (simp add: byte_def log_event_def fun_eq_iff)
  then have a': "archive_at (\<lambda>i. byte ?s (lf_address f + of_nat i)) (unat (lf_size f)) 0 es" using a by simp
  from initrd_loop_unpacks [OF f r' a' _ small] obtain s' r' L' where
    l: "initrd_loop (lf_address f) (lf_size f) 0 ?s = Some s'" "tmpfs_ready r' L' R k s'"
    "tree_of r' = fold unpack es (tree_of r)" "spare_kept ?Q ?s s'" by auto
  have "tmpfs_ready r' L' R k (log_info ''INITRD'' s')" using l(2) tmpfs_ready_log by (simp add: log_event_def)
  moreover have "spare_kept ?Q s (log_info ''INITRD'' s')" using l(4) by (simp add: spare_kept_def sched_vars_def log_event_def)
  ultimately show ?thesis using l(1,3) by (simp add: initrd_init_def) blast
qed

section \<open>Properties\<close>

text \<open>
  C5. \<^verbatim>\<open>initrd_init\<close> unpacks the archive: if the module is a well-formed tar archive in memory that the heap keeps off,
  with contents of at most 1000 bytes per file, and there are pages enough for the nodes, then it returns and the
  file system holds the tree that results from inserting the entries one by one, each
  under its path without a leading \<^verbatim>\<open>./\<close> and a slash at the end, in the directory the path names or, if that does not
  exist, in the root. The memory outside the heap and the pages of the archive and the scheduler are unchanged.
\<close>

theorem initrd_unpacks:
  fixes s :: "'a tmpfs_scheme"
  assumes "tmpfs_ready r L R (sum_list (map tar_pages es)) s" and "off_heap R (lf_address f) (unat (lf_size f))"
    and "archive_at (\<lambda>i. byte s (lf_address f + of_nat i)) (unat (lf_size f)) 0 es"
    and "\<forall>e \<in> set es. te_dir e \<or> length (te_data e) \<le> 1000"
  shows "\<exists>s' r' L'. initrd_init (Some (f # fs)) s = Some s' \<and> tmpfs_ready r' L' R 0 s' \<and>
           tree_of r' = fold unpack es (tree_of r) \<and> spare_kept (R - pages_of (lf_address f) (unat (lf_size f))) s s'"
  using initrd_init_ready [of r L R 0 es s f fs] assms by auto

text \<open>Memory with given bytes.\<close>

lemma bytes_exist:
  fixes s :: "'a vmm_scheme"
  assumes "buffer a n"
  shows "\<exists>m. (\<forall>i < n. byte (s\<lparr>mem := m\<rparr>) (a + of_nat i) = b i) \<and>
             (\<forall>c. (\<forall>i < n. c \<noteq> cell_of (a + of_nat i)) \<longrightarrow> m c = mem s c)"
  using assms
proof (induction n)
  case 0
  show ?case by (rule exI [of _ "mem s"]) simp
next
  case (Suc n)
  from Suc obtain m where m: "\<forall>i < n. byte (s\<lparr>mem := m\<rparr>) (a + of_nat i) = b i"
    "\<forall>c. (\<forall>i < n. c \<noteq> cell_of (a + of_nat i)) \<longrightarrow> m c = mem s c" using buffer_le [of a "Suc n" n] by auto
  have "direct (a + of_nat n)" by (rule unat_buffer(2) [OF Suc.prems]) simp
  from store8_direct [OF this, of "b n" "s\<lparr>mem := m\<rparr>"] obtain m' where
    m': "\<forall>x. byte (s\<lparr>mem := m'\<rparr>) x = (if x = a + of_nat n then b n else byte (s\<lparr>mem := m\<rparr>) x)"
    "\<forall>c. c \<noteq> cell_of (a + of_nat n) \<longrightarrow> m' c = m c" by auto
  have "a + of_nat i \<noteq> a + of_nat n" if "i < n" for i
    using buffer_eq_iff [OF Suc.prems Suc.prems, of i n] that by auto
  then show ?case using m m' by (intro exI [of _ m']) (auto simp: less_Suc_eq)
qed

definition sample_header :: "u8 list \<Rightarrow> u8 list \<Rightarrow> u8 \<Rightarrow> nat \<Rightarrow> u8" where
  "sample_header name ds flag i =
     (if i < length name then name ! i
      else if 124 \<le> i \<and> i < 135 then ds ! (i - 124)
      else if i = 156 then flag
      else if 257 \<le> i \<and> i < 262 then chars ''ustar'' ! (i - 257)
      else 0)"

definition sample_archive :: "nat \<Rightarrow> u8" where
  "sample_archive i =
     (if i < 512 then sample_header (chars ''./etc/'') (replicate 11 48) 53 i
      else if i < 1024 then sample_header (chars ''etc/hi'') (replicate 10 48 @ [50]) 48 (i - 512)
      else if i < 1026 then chars ''ok'' ! (i - 1024)
      else 0)"

definition sample_entries :: "tar_entry list" where
  "sample_entries =
     [\<lparr>te_name = chars ''./etc/'', te_dir = True, te_data = []\<rparr>,
      \<lparr>te_name = chars ''etc/hi'', te_dir = False, te_data = chars ''ok''\<rparr>]"

lemma sample_archive_at: "archive_at sample_archive 2048 0 sample_entries"
  by code_simp

lemma sample_unpacked:
  "fold unpack sample_entries (TDir [slash] []) =
     TDir [slash] [TDir (chars ''etc'') [TFile (chars ''hi'') (chars ''ok'')]]"
  "sum_list (map tar_pages sample_entries) = 5"
  by code_simp+

theorem initrd_unpacks_witness:
  "\<exists>s :: tmpfs. \<exists>f s' r' L' R. initrd_init (Some [f]) s = Some s' \<and> tmpfs_ready r' L' R 0 s' \<and>
     tree_of r' = TDir [slash] [TDir (chars ''etc'') [TFile (chars ''hi'') (chars ''ok'')]]"
proof -
  obtain s :: tmpfs and a L R p where s: "tmpfs_ready (Dir a [slash] []) L R 50 s" "off_heap R p 4096"
    using sample_tmpfs_ready by blast
  let ?f = "\<lparr>lf_address = p, lf_size = 2048\<rparr>"
  have oh: "off_heap R (lf_address ?f) (unat (lf_size ?f))" using s(2) buffer_le by (auto simp: off_heap_def)
  then have "buffer p 2048" by (simp add: off_heap_def)
  from bytes_exist [OF this, of s sample_archive] obtain m where
    m: "\<And>i. i < 2048 \<Longrightarrow> byte (s\<lparr>mem := m\<rparr>) (p + of_nat i) = sample_archive i"
    "\<And>c. \<forall>i < 2048. c \<noteq> cell_of (p + of_nat i) \<Longrightarrow> m c = mem s c" by blast
  let ?s = "s\<lparr>mem := m\<rparr>"
  have "m c = mem s c" if "page_base c \<notin> R" for c
    using that oh page_base_cell_of by (intro m(2)) (auto simp: off_heap_def)
  then have "tmpfs_ready (Dir a [slash] []) L R (sum_list (map tar_pages sample_entries)) ?s"
    unfolding sample_unpacked by (rule tmpfs_ready_mono [OF tmpfs_ready_outside [OF s(1)]]) simp_all
  moreover have "archive_at (\<lambda>i. byte ?s (lf_address ?f + of_nat i)) (unat (lf_size ?f)) 0 sample_entries"
    using archive_at_cong [OF sample_archive_at, of "\<lambda>i. byte ?s (p + of_nat i)"] m(1) by simp
  moreover have "\<forall>e \<in> set sample_entries. te_dir e \<or> length (te_data e) \<le> 1000" by (simp add: sample_entries_def)
  ultimately obtain s' r' L' where "initrd_init (Some [?f]) ?s = Some s'" "tmpfs_ready r' L' R 0 s'"
    "tree_of r' = fold unpack sample_entries (tree_of (Dir a [slash] []))"
    using initrd_unpacks [OF _ oh] by blast
  moreover from this(3) have "tree_of r' = TDir [slash] [TDir (chars ''etc'') [TFile (chars ''hi'') (chars ''ok'')]]"
    using sample_unpacked(1) by simp
  ultimately show ?thesis by blast
qed

end
