(* ===== verification/ThreadSpec.thy ===== *)
theory ThreadSpec
  imports Interrupts HeapClient
begin

text \<open>
  Creation and destruction of threads on the kernel heap: a thread is a structure in a slab and a stack in pages of
  its own, prepared so that the first switch to the thread calls its function, which returns to
  \<^verbatim>\<open>thread_exit\<close>.
\<close>

section \<open>The stack\<close>

lemma stack_pointer:
  assumes "page_aligned q" "unat q + 8192 < 2 ^ 64"
  shows "(q + 24 + THREAD_STACK_SIZE AND NOT 0xF) - 8 = q + of_nat 4104" "unat (q + of_nat 4104 :: u64) mod 16 = 8"
proof -
  let ?x = "q + 4120"
  obtain m where m: "unat q = 4096 * m" using assms(1) by (auto simp: page_aligned_iff)
  have ux: "unat ?x = unat q + 4120" "unat (q + 4112) = unat q + 4112" "unat (q + 4104) = unat q + 4104"
    using assms(2) by (simp_all add: unat_word_ariths)
  have "x AND NOT (mask 4) = push_bit 4 (drop_bit 4 x)" for x :: u64
    by (rule bit_word_eqI) (auto simp: bit_simps)
  moreover have "mask 4 = (0xF :: u64)" by (simp add: mask_eq_exp_minus_1)
  ultimately have "?x AND NOT 0xF = push_bit 4 (drop_bit 4 ?x)" by metis
  also have "\<dots> = ?x div 16 * 16" by (simp add: push_bit_eq_mult drop_bit_eq_div)
  also have "\<dots> = q + 4112"
  proof (rule word_unat_eq_iff [THEN iffD2])
    have "unat (?x div 16) = 256 * m + 257" using ux(1) m by (simp add: unat_div)
    then show "unat (?x div 16 * 16) = unat (q + 4112)"
      using ux(2) m assms(2) by (simp add: unat_word_ariths)
  qed
  finally show "(q + 24 + THREAD_STACK_SIZE AND NOT 0xF) - 8 = q + of_nat 4104"
    by (simp add: THREAD_STACK_SIZE_def add.assoc)
  show "unat (q + of_nat 4104 :: u64) mod 16 = 8"
  proof -
    have "4096 * m + 4104 = 8 + 16 * (256 * m + 256)" by simp
    then show ?thesis using ux(3) m by (simp only: of_nat_numeral mod_mult_self2) simp
  qed
qed

section \<open>Creation\<close>

text \<open>The variables of the scheduler that the heap and the creation of threads leave alone.\<close>

definition sched_kept :: "'a sched_scheme \<Rightarrow> 'a sched_scheme \<Rightarrow> bool" where
  "sched_kept s s' \<longleftrightarrow>
     run_queue s' = run_queue s \<and> current s' = current s \<and> locked s' = locked s \<and> idle_thread s' = idle_thread s \<and>
     idle_process s' = idle_process s \<and> thread_exit_code s' = thread_exit_code s \<and> sched.more s' = sched.more s"

lemma vmm_frame_threads:
  fixes s s' :: "'a sched_scheme"
  assumes "vmm_frame s s'"
  shows "threads s' = threads s" "next_tid s' = next_tid s" "thread_exit_code s' = thread_exit_code s"
    "kernel_heap_vaddr s' = kernel_heap_vaddr s" "processes s' = processes s" "next_pid s' = next_pid s" "sched_kept s s'"
  using assms by (auto simp: sched_kept_def elim!: vmm_frameE)

lemma heap_same_frame: "heap_same s s' L R \<Longrightarrow> vmm_frame s s'"
  by (simp add: heap_same_def)

lemmas heap_same_threads = vmm_frame_threads [OF heap_same_frame]

lemma keeps_load: "keeps s s' L \<Longrightarrow> (q, n) \<in> L \<Longrightarrow> x < n \<Longrightarrow> load64 (q + of_nat x) s' = load64 (q + of_nat x) s"
  unfolding keeps_def by blast

lemma heap_eq_load64: "heap_eq s s' \<Longrightarrow> load64 a s' = load64 a s"
proof -
  assume e: "heap_eq s s'"
  have "mmu s' a = mmu s a" for a
    using e heap_eq_frames(5,6) [OF e] by (simp add: mmu_def phys_to_virt_def heap_eq_def Let_def)
  then show ?thesis using e by (simp add: load64_def heap_eq_def)
qed

lemma keeps_eq: "heap_eq s s' \<Longrightarrow> keeps s s' L"
  by (simp add: keeps_def heap_eq_load64)

text \<open>A thread that has not run yet.\<close>

definition fresh_thread :: "u64 \<Rightarrow> u64 \<Rightarrow> u64 \<Rightarrow> u64 \<Rightarrow> thread \<Rightarrow> bool" where
  "fresh_thread proc entry tid q t \<longleftrightarrow>
     th_id t = tid \<and> th_state t = THREAD_READY \<and> th_process t = proc \<and> quantum t = SCHEDULER_QUANTUM \<and>
     th_stack t = q + 24 \<and> kernel_stack_top t = q + 24 + THREAD_STACK_SIZE \<and> th_next t = NULL \<and> wake_tick t = 0 \<and>
     r_rip (th_context t) = entry \<and> r_rsp (th_context t) = q + of_nat 4104 \<and> r_cs (th_context t) = 0x08 \<and>
     r_ss (th_context t) = 0x10 \<and> r_rflags (th_context t) = 0x202"

definition new_thread :: "u64 \<Rightarrow> u64 \<Rightarrow> u64 \<Rightarrow> u64 \<Rightarrow> u64 \<Rightarrow> thread" where
  "new_thread proc entry tid stack sp =
     zero_thread\<lparr>th_id := tid, th_state := THREAD_READY, th_process := proc, quantum := SCHEDULER_QUANTUM,
       th_stack := stack, th_next := NULL, wake_tick := 0, kernel_stack_top := stack + THREAD_STACK_SIZE,
       th_context := initial_context entry sp zero_registers\<rparr>"

lemma thread_create_steps:
  assumes "kmalloc sizeof_thread s = Some (p, s1)" "p \<noteq> NULL"
    "kmalloc THREAD_STACK_SIZE (s1\<lparr>threads := (threads s1)(p \<mapsto> zero_thread)\<rparr>) = Some (stack, s2)" "stack \<noteq> NULL"
    "(stack + THREAD_STACK_SIZE AND NOT 0xF) - 8 = sp"
    "store64 sp (thread_exit_code s2) (s2\<lparr>next_tid := next_tid s2 + 1\<rparr>) = Some s3"
  shows "thread_create proc entry s = Some (p, log_debug ''THREAD'' (s3\<lparr>threads := (threads s3)
           (p \<mapsto> new_thread proc entry (next_tid s2) stack sp)\<rparr>))"
proof -
  have "th_context zero_thread = zero_registers" by (simp add: zero_thread_def)
  then show ?thesis using assms(6) unfolding assms(5) [symmetric] thread_create_def
    by (simp add: Let_def assms(1-4) new_thread_def)
qed

lemma pages_for_stack: "pages_for THREAD_STACK_SIZE = 2"
  by (simp add: pages_for_def THREAD_STACK_SIZE_def)

lemma heap_ready_vaddr: "heap_ready k s L R \<Longrightarrow> page_aligned (kernel_heap_vaddr s) \<and> KERNEL_HEAP_BASE \<le> kernel_heap_vaddr s"
  by (erule heap_readyE) (auto dest: heap_relD)

lemma thread_create_ready:
  fixes s :: "'a sched_scheme"
  assumes r: "heap_ready (k + 9) s L R" and sp: "unat (kernel_heap_vaddr s) + 8192 < 2 ^ 64"
  defines "q \<equiv> kernel_heap_vaddr s"
  shows "\<exists>p n t s'. thread_create proc entry s = Some (p, s') \<and> p \<noteq> NULL \<and> direct (p - 24) \<and> \<not> direct q \<and>
     (p - 24, n) \<notin> L \<and> (q, 8192) \<notin> L \<and> heap_ready k s' (insert (p - 24, n) (insert (q, 8192) L)) R \<and> keeps s s' L \<and>
     (\<forall>a. page_base a \<in> R \<longrightarrow> mem s' a = mem s a) \<and> kernel_heap_vaddr s' = q + 8192 \<and>
     threads s' = (threads s)(p \<mapsto> t) \<and> fresh_thread proc entry (next_tid s) q t \<and>
     load64 (r_rsp (th_context t)) s' = Some (thread_exit_code s) \<and> page_base p \<notin> R \<and> next_tid s' = next_tid s + 1 \<and>
     processes s' = processes s \<and> next_pid s' = next_pid s \<and> sched_kept s s'"
proof -
  have "0 < sizeof_thread" "sizeof_thread \<le> 1000" by (simp_all add: sizeof_thread_def)
  moreover have "heap_ready (Suc (k + 8)) s L R" using r by (simp add: add.commute)
  ultimately obtain p s1 n where
    k1: "kmalloc sizeof_thread s = Some (p, s1)" "p \<noteq> NULL" "direct (p - 24)" "(p - 24, n) \<notin> L" "unat sizeof_thread + 24 \<le> n"
    and h1: "heap_ready (k + 8) s1 (insert (p - 24, n) L) R" and same1: "heap_same s s1 L R"
    using kmalloc_ready by blast
  note f1 = heap_same_threads [OF same1]
  let ?s1 = "s1\<lparr>threads := (threads s1)(p \<mapsto> zero_thread)\<rparr>" and ?M = "insert (p - 24, n) L"
  have a1: "heap_ready (k + 4 * 2) ?s1 ?M R" using heap_ready_eq [OF _ h1, of ?s1] by (simp add: heap_eq_def)
  have a2: "1024 < THREAD_STACK_SIZE" "unat THREAD_STACK_SIZE + 4119 < 2 ^ 64" by (simp_all add: THREAD_STACK_SIZE_def)
  have v: "kernel_heap_vaddr ?s1 = q" using f1(4) by (simp add: q_def)
  have a3: "unat q + 4096 * 2 < 2 ^ 64" using sp by (simp add: q_def)
  from kmalloc_large_ready [of k THREAD_STACK_SIZE ?s1 ?M R, unfolded v pages_for_stack, OF a1 a2 a3] obtain s2 where
    k2: "kmalloc THREAD_STACK_SIZE ?s1 = Some (q + 24, s2)" and h2: "heap_ready k s2 (insert (q, 8192) ?M) R"
    and q: "(q, 8192) \<notin> ?M" and kp2: "keeps ?s1 s2 ?M" and m2: "\<forall>a. page_base a \<in> R \<longrightarrow> mem s2 a = mem ?s1 a"
    and vf: "vmm_frame (?s1\<lparr>kernel_heap_vaddr := q + 8192\<rparr>) s2"
    by auto
  have f2: "threads s2 = (threads s)(p \<mapsto> zero_thread)" "next_tid s2 = next_tid s" "kernel_heap_vaddr s2 = q + 8192"
    "thread_exit_code s2 = thread_exit_code s" "processes s2 = processes s" "next_pid s2 = next_pid s" "sched_kept s s2"
    using vmm_frame_threads [OF vf] f1 by (simp_all add: sched_kept_def)
  have qa: "page_aligned q" "\<not> direct q" using heap_ready_vaddr [OF r] by (auto simp: q_def direct_def)
  note sp' = stack_pointer [OF qa(1) sp [folded q_def]]
  have q8: "(q, 8192) \<in> insert (q, 8192) ?M" by simp
  let ?s2 = "s2\<lparr>next_tid := next_tid s + 1\<rparr>"
  have "heap_ready k ?s2 (insert (q, 8192) ?M) R" using heap_ready_eq [OF _ h2, of ?s2] by (simp add: heap_eq_def)
  from page_block_store [OF this q8 qa(2), of 4104 "thread_exit_code s"] q obtain s3 where
    st: "store64 (q + of_nat 4104) (thread_exit_code s) ?s2 = Some s3" and h3: "heap_ready k s3 (insert (q, 8192) ?M) R"
    and same3: "heap_same ?s2 s3 ?M R" and ld: "load64 (q + of_nat 4104) s3 = Some (thread_exit_code s)" by auto
  note f3 = heap_same_threads [OF same3]
  define t where "t = new_thread proc entry (next_tid s) (q + 24) (q + of_nat 4104)"
  let ?s' = "log_debug ''THREAD'' (s3\<lparr>threads := (threads s3)(p \<mapsto> t)\<rparr>)"
  have eq: "heap_eq s3 ?s'" by (simp add: heap_eq_def log_event_def)
  have "unat (q + 24) = unat q + 24" using sp by (simp add: unat_word_ariths q_def)
  then have "q + 24 \<noteq> NULL" by auto
  from thread_create_steps [OF k1(1,2) k2 this sp'(1), of s3 proc entry] st f2(2,4)
  have run: "thread_create proc entry s = Some (p, ?s')"
    by (simp only: t_def)
  have kp: "keeps s ?s' L"
  proof -
    have sub: "L \<subseteq> ?M" by auto
    have "keeps s s1 L" "keeps s1 ?s1 L" "keeps s2 ?s2 L" using same1 by (auto simp: heap_same_def heap_eq_def intro!: keeps_eq)
    moreover have "keeps ?s1 s2 L" "keeps ?s2 s3 L"
      using kp2 same3 by (auto simp: heap_same_def intro: keeps_mono [OF _ sub])
    ultimately show ?thesis using keeps_eq [OF eq] by (meson keeps_trans)
  qed
  have m: "mem ?s' a = mem s a" if "page_base a \<in> R" for a
    using that m2 same1 same3 by (simp add: heap_same_def log_event_def)
  have ft: "fresh_thread proc entry (next_tid s) q t" "r_rsp (th_context t) = q + of_nat 4104"
    by (simp_all add: fresh_thread_def t_def new_thread_def initial_context_def)
  have "heap_ready k ?s' (insert (p - 24, n) (insert (q, 8192) L)) R"
    using heap_ready_eq [OF eq h3] by (simp add: insert_commute)
  moreover have "load64 (r_rsp (th_context t)) ?s' = Some (thread_exit_code s)"
    using heap_eq_load64 [OF eq] ld by (simp only: ft(2))
  moreover have "threads ?s' = (threads s)(p \<mapsto> t)" "kernel_heap_vaddr ?s' = q + 8192" "next_tid ?s' = next_tid s + 1"
    "processes ?s' = processes s" "next_pid ?s' = next_pid s" "sched_kept s ?s'"
    using f2 f3 by (simp_all add: log_event_def sched_kept_def)
  moreover have "page_base p \<notin> R" using heap_ready_off(2) [OF h1 _ k1(3), of n 1 0] k1(5) by (simp add: sizeof_thread_def)
  ultimately show ?thesis using run k1(2,3,4) qa(2) q kp m ft(1)
    by (intro exI [of _ p] exI [of _ n] exI [of _ t] exI [of _ ?s']) auto
qed

section \<open>Processes\<close>

lemma copy_name_buffer:
  assumes "buffer name 64" "i \<le> 63"
  shows "copy_name name i s = Some (takeWhile (\<lambda>c. c \<noteq> 0) (drop i (bytes_at s name 63)))"
  using assms(2)
proof (induction "63 - i" arbitrary: i)
  case 0
  then have "i = 63" by simp
  then show ?case using unat_buffer(2) [OF assms(1), of i] by (subst copy_name.simps) simp
next
  case (Suc n)
  then have "i < 63" by simp
  moreover from this have "[0..<63] ! i = i" by (subst nth_upt) simp_all
  then have "drop i (bytes_at s name 63) = byte s (name + of_nat i) # drop (Suc i) (bytes_at s name 63)"
    using \<open>i < 63\<close> by (simp add: bytes_at_def Cons_nth_drop_Suc [symmetric])
  ultimately show ?case using unat_buffer(2) [OF assms(1), of i] Suc.hyps(1) [of "Suc i"] Suc.hyps(2)
    by (subst copy_name.simps) auto
qed

lemma process_create_ready:
  fixes s :: "'a sched_scheme"
  assumes r: "heap_ready (Suc k) s L R" and nm: "off_heap R name 64"
  shows "\<exists>p n s'. process_create name s = Some (p, s') \<and> p \<noteq> NULL \<and> (p - 24, n) \<notin> L \<and> heap_ready k s' (insert (p - 24, n) L) R \<and>
     keeps s s' L \<and> (\<forall>a. page_base a \<in> R \<longrightarrow> mem s' a = mem s a) \<and> kernel_heap_vaddr s' = kernel_heap_vaddr s \<and>
     processes s' = (processes s)(p \<mapsto> \<lparr>pid = next_pid s, p_name = takeWhile (\<lambda>c. c \<noteq> 0) (bytes_at s name 63),
                                     p_state = PROCESS_RUNNING, p_next = NULL\<rparr>) \<and>
     next_pid s' = next_pid s + 1 \<and> threads s' = threads s \<and> next_tid s' = next_tid s \<and> sched_kept s s'"
proof -
  have "0 < sizeof_process" "sizeof_process \<le> 1000" by (simp_all add: sizeof_process_def)
  then obtain p s1 n where
    k1: "kmalloc sizeof_process s = Some (p, s1)" "p \<noteq> NULL" "(p - 24, n) \<notin> L"
    and h1: "heap_ready k s1 (insert (p - 24, n) L) R" and same: "heap_same s s1 L R"
    using kmalloc_ready [OF r] by blast
  note f = heap_same_threads [OF same]
  have b: "buffer name 64" using nm by (simp add: off_heap_def)
  have "off_heap R name 63" using nm by (simp add: off_heap_def buffer_def)
  then have cp: "copy_name name 0 s1 = Some (takeWhile (\<lambda>c. c \<noteq> 0) (bytes_at s name 63))"
    using copy_name_buffer [OF b, of 0 s1] off_heap_same [OF _ same] by simp
  let ?s' = "log_debug ''PROCESS'' (s1\<lparr>processes := (processes s1)
      (p \<mapsto> \<lparr>pid = next_pid s1, p_name = takeWhile (\<lambda>c. c \<noteq> 0) (bytes_at s name 63), p_state = PROCESS_RUNNING, p_next = NULL\<rparr>),
      next_pid := next_pid s1 + 1\<rparr>)"
  have "process_create name s = Some (p, ?s')" using k1 cp by (simp add: process_create_def)
  moreover have eq: "heap_eq s1 ?s'" by (simp add: heap_eq_def log_event_def)
  have "keeps s ?s' L" using same keeps_eq [OF eq] by (auto simp: heap_same_def intro: keeps_trans)
  moreover have "mem ?s' a = mem s a" if "page_base a \<in> R" for a
    using that same by (simp add: heap_same_def log_event_def)
  moreover note heap_ready_eq [OF eq h1]
  ultimately show ?thesis using k1(2,3) f
    by (intro exI [of _ p] exI [of _ n] exI [of _ ?s']) (simp add: log_event_def sched_kept_def)
qed

section \<open>Destruction\<close>

lemma thread_destroy_ready:
  fixes s :: "'a sched_scheme"
  assumes r: "heap_ready k s (insert (p - 24, n) (insert (q, m) L)) R" and new: "(p - 24, n) \<notin> insert (q, m) L" "(q, m) \<notin> L"
    and d: "direct (p - 24)" "\<not> direct q" and p: "p \<noteq> NULL" "threads s p = Some t" "th_stack t = q + 24"
  shows "\<exists>s'. thread_destroy p s = Some s' \<and> heap_ready k s' L R \<and> keeps s s' L \<and> threads s' = (threads s)(p := None) \<and>
     (\<forall>a. page_base a \<in> R \<longrightarrow> mem s' a = mem s a)"
proof -
  let ?M = "insert (p - 24, n) (insert (q, m) L)"
  have M: "?M - {(q, m)} = insert (p - 24, n) L" "insert (p - 24, n) L - {(p - 24, n)} = L" using new by auto
  from kfree_pages_ready [OF r _ d(2), of m, unfolded M] obtain s1 where
    k1: "kfree (q + 24) s = Some s1" and h1: "heap_ready k s1 (insert (p - 24, n) L) R"
    and same1: "heap_same s s1 (insert (p - 24, n) L) R" by auto
  from kfree_ready [OF h1 _ d(1), of n, unfolded M] obtain s2 where
    k2: "kfree p s1 = Some s2" and h2: "heap_ready k s2 L R" and same2: "heap_same s1 s2 L R" by auto
  let ?s' = "log_debug ''THREAD'' (s2\<lparr>threads := (threads s2)(p := None)\<rparr>)"
  have eq: "heap_eq s2 ?s'" by (simp add: heap_eq_def log_event_def)
  have "thread_destroy p s = Some ?s'" using p k1 k2 by (simp add: thread_destroy_def)
  moreover have "keeps s s1 L" "keeps s1 s2 L"
    using same1 same2 by (auto simp: heap_same_def intro: keeps_mono [of _ _ "insert (p - 24, n) L"])
  then have "keeps s ?s' L" using keeps_eq [OF eq] by (meson keeps_trans)
  moreover have "threads ?s' = (threads s)(p := None)"
    using heap_same_threads(1) [OF same1] heap_same_threads(1) [OF same2] by (simp add: log_event_def)
  moreover have "mem ?s' a = mem s a" if "page_base a \<in> R" for a
    using that same1 same2 by (simp add: heap_same_def log_event_def)
  ultimately show ?thesis using heap_ready_eq [OF eq h2] by blast
qed

section \<open>Starting a thread\<close>

text \<open>
  A process with its thread, which waits at \<open>p\<close> to run \<open>entry\<close> for the first time; structures and stack are blocks among \<open>L\<close>.
\<close>

definition task_waits ::
  "u8 list \<Rightarrow> u64 \<Rightarrow> u64 \<Rightarrow> u64 \<Rightarrow> 'a sched_scheme \<Rightarrow> (u64 \<times> nat) set \<Rightarrow> u64 \<Rightarrow> bool" where
  "task_waits name entry i tid s L p \<longleftrightarrow>
     (\<exists>proc pr q t n m. threads s p = Some t \<and> fresh_thread proc entry tid q (core t) \<and>
        load64 (r_rsp (th_context t)) s = Some (thread_exit_code s) \<and> processes s proc = Some pr \<and>
        p_name pr = name \<and> pid pr = i \<and> p_state pr = PROCESS_RUNNING \<and>
        (p - 24, n) \<in> L \<and> (proc - 24, m) \<in> L \<and> (q, 8192) \<in> L)"

definition tasks_kept :: "'a sched_scheme \<Rightarrow> 'a sched_scheme \<Rightarrow> (u64 \<times> nat) set \<Rightarrow> bool" where
  "tasks_kept s s' L \<longleftrightarrow>
     keeps s s' L \<and> thread_exit_code s' = thread_exit_code s \<and>
     (\<forall>x n. (x - 24, n) \<in> L \<longrightarrow> threads s' x = threads s x \<and> processes s' x = processes s x)"

lemma task_waits_kept:
  assumes "task_waits name entry i tid s L p" "tasks_kept s s' L" "L \<subseteq> L'"
  shows "task_waits name entry i tid s' L' p"
proof -
  from assms(1) obtain proc pr q t n m where
    t: "threads s p = Some t" "fresh_thread proc entry tid q (core t)" "load64 (r_rsp (th_context t)) s = Some (thread_exit_code s)"
    "processes s proc = Some pr" "p_name pr = name" "pid pr = i" "p_state pr = PROCESS_RUNNING"
    and b: "(p - 24, n) \<in> L" "(proc - 24, m) \<in> L" "(q, 8192) \<in> L"
    unfolding task_waits_def by blast
  have k: "keeps s s' L" "thread_exit_code s' = thread_exit_code s" "threads s' p = threads s p" "processes s' proc = processes s proc"
    using assms(2) b(1,2) unfolding tasks_kept_def by blast+
  have "r_rsp (th_context t) = q + of_nat 4104" using t(2) by (simp add: fresh_thread_def core_def)
  moreover have "load64 (q + of_nat 4104) s' = load64 (q + of_nat 4104) s" by (rule keeps_load [OF k(1) b(3)]) simp
  ultimately have "load64 (r_rsp (th_context t)) s' = Some (thread_exit_code s')" using t(3) k(2) by (simp only:)
  moreover have "threads s' p = Some t" "processes s' proc = Some pr" using t(1,4) k(3,4) by simp_all
  ultimately show ?thesis using t(2,5-7) b assms(3) unfolding task_waits_def by blast
qed

lemma fresh_block:
  assumes "heap_ready k s (insert (x, n) L) R" "(x, n) \<notin> L"
  shows "(x, m) \<notin> L"
proof
  assume "(x, m) \<in> L"
  then have "m = n" using block_unique [OF heap_ready_view [OF assms(1)], of x m n] by simp
  then show False using \<open>(x, m) \<in> L\<close> assms(2) by simp
qed

lemma sched_inv_new_thread:
  assumes inv: "sched_inv s q" and k: "sched_kept s s'" "threads s' = (threads s)(p \<mapsto> t)"
    and p: "p \<notin> set q" "p \<noteq> current s" "p \<noteq> idle_thread s"
  shows "sched_inv s' q"
proof -
  have "nexts s' = (nexts s)(p := Some (th_next t))" "table s' = (table s)(p := Some (core t))"
    by (auto simp: nexts_def table_def k(2))
  then show ?thesis using inv p k(1) by (auto simp: sched_inv_def abs_inv_def sched_kept_def)
qed

lemma sched_inv_kept: "sched_inv s q \<Longrightarrow> sched_kept s s' \<Longrightarrow> threads s' = threads s \<Longrightarrow> sched_inv s' q"
  using nexts_cong [of s' s] table_cong [of s' s] by (simp add: sched_inv_def sched_kept_def)

text \<open>The scheduler before the first tick, with the waiting threads \<open>q\<close> among the blocks \<open>L\<close>.\<close>

definition tasks_queued :: "'a sched_scheme \<Rightarrow> u64 list \<Rightarrow> (u64 \<times> nat) set \<Rightarrow> u64 set \<Rightarrow> bool" where
  "tasks_queued s q L R \<longleftrightarrow>
     sched_inv s q \<and> current s = idle_thread s \<and> page_base (idle_thread s) \<in> R \<and> (\<forall>x \<in> set q. \<exists>n. (x - 24, n) \<in> L)"

lemma add_new_thread:
  fixes s s' :: "'a kernel_scheme"
  assumes tq: "tasks_queued s q L R" and kp: "sched_kept s s'" and t: "threads s' = (threads s)(p \<mapsto> t)" "th_state t = THREAD_READY"
    and p: "p \<noteq> NULL" "page_base p \<notin> R" "\<And>x. (p - 24, x) \<notin> L" and L: "(p - 24, n) \<in> L'" "L \<subseteq> L'"
  defines "s'' \<equiv> s'\<lparr>threads := (threads s')(p \<mapsto> t\<lparr>th_next := run_queue s'\<rparr>), run_queue := p\<rparr>"
  shows "scheduler_add_thread p s' = Some s''" "tasks_queued s'' (p # q) L' R"
proof -
  have inv: "sched_inv s q" "current s = idle_thread s" "page_base (idle_thread s) \<in> R" "\<forall>x \<in> set q. \<exists>n. (x - 24, n) \<in> L"
    using tq by (auto simp: tasks_queued_def)
  have ne: "p \<notin> set q" "p \<noteq> current s" "p \<noteq> idle_thread s" using inv(2-4) p(2,3) by auto
  have i: "sched_inv s' q" by (rule sched_inv_new_thread [OF inv(1) kp t(1) ne])
  have rd: "ready s' p" using t by (simp add: ready_def)
  show ad: "scheduler_add_thread p s' = Some s''" using t(1) by (simp add: scheduler_add_thread_def set_thread_def s''_def)
  have "sched_inv s'' (p # q)"
    by (rule add_untouched(1) [OF i ad ne(1) p(1) _ _ rd]) (use ne kp in \<open>simp_all add: sched_kept_def\<close>)
  then show "tasks_queued s'' (p # q) L' R" using inv(2-4) kp L by (auto simp: tasks_queued_def sched_kept_def s''_def)
qed

lemma start_task_ready:
  fixes s :: "'a kernel_scheme"
  assumes r: "heap_ready (k + 10) s L R" and v: "unat (kernel_heap_vaddr s) + 8192 < 2 ^ 64" and tq: "tasks_queued s q L R"
    and nm: "off_heap R name 64"
  shows "\<exists>proc p s1 s2 s' L'. process_create name s = Some (proc, s1) \<and> thread_create proc entry s1 = Some (p, s2) \<and>
     scheduler_add_thread p s2 = Some s' \<and> heap_ready k s' L' R \<and> L \<subseteq> L' \<and> tasks_queued s' (p # q) L' R \<and> tasks_kept s s' L \<and>
     task_waits (takeWhile (\<lambda>c. c \<noteq> 0) (bytes_at s name 63)) entry (next_pid s) (next_tid s) s' L' p \<and>
     (\<forall>a. page_base a \<in> R \<longrightarrow> mem s' a = mem s a) \<and> kernel_heap_vaddr s' = kernel_heap_vaddr s + 8192 \<and>
     next_pid s' = next_pid s + 1 \<and> next_tid s' = next_tid s + 1 \<and> locked s' = locked s \<and> idle_thread s' = idle_thread s \<and>
     sched.more s' = sched.more s"
proof -
  let ?nm = "takeWhile (\<lambda>c. c \<noteq> 0) (bytes_at s name 63)"
  have "heap_ready (Suc (k + 9)) s L R" using r by (simp add: add.commute)
  from process_create_ready [OF this nm] obtain proc m s1 where
    c1: "process_create name s = Some (proc, s1)" "(proc - 24, m) \<notin> L" and h1: "heap_ready (k + 9) s1 (insert (proc - 24, m) L) R"
    and k1: "keeps s s1 L" "\<forall>a. page_base a \<in> R \<longrightarrow> mem s1 a = mem s a" "kernel_heap_vaddr s1 = kernel_heap_vaddr s"
    and f1: "processes s1 = (processes s)(proc \<mapsto> \<lparr>pid = next_pid s, p_name = ?nm, p_state = PROCESS_RUNNING, p_next = NULL\<rparr>)"
      "next_pid s1 = next_pid s + 1" "threads s1 = threads s" "next_tid s1 = next_tid s" "sched_kept s s1" by blast
  let ?M = "insert (proc - 24, m) L" and ?q = "kernel_heap_vaddr s1"
  have v1: "unat ?q + 8192 < 2 ^ 64" using v k1(3) by simp
  from thread_create_ready [OF h1 v1, of proc entry] obtain p n t s2 where
    c2: "thread_create proc entry s1 = Some (p, s2)" "p \<noteq> NULL" "(p - 24, n) \<notin> ?M" "\<not> direct ?q" "direct (p - 24)"
    and h2: "heap_ready k s2 (insert (p - 24, n) (insert (?q, 8192) ?M)) R" and k2: "keeps s1 s2 ?M"
      "\<forall>a. page_base a \<in> R \<longrightarrow> mem s2 a = mem s1 a" "kernel_heap_vaddr s2 = ?q + 8192"
    and f2: "threads s2 = (threads s1)(p \<mapsto> t)" "next_tid s2 = next_tid s1 + 1" "processes s2 = processes s1" "next_pid s2 = next_pid s1"
      "sched_kept s1 s2"
    and t: "fresh_thread proc entry (next_tid s1) ?q t" "load64 (r_rsp (th_context t)) s2 = Some (thread_exit_code s1)"
    and pR: "page_base p \<notin> R" 
    by blast
  let ?L = "insert (p - 24, n) (insert (?q, 8192) ?M)"
  have "(p - 24, x) \<notin> insert (?q, 8192) ?M" for x by (rule fresh_block [OF h2]) (use c2(3-5) in auto)
  then have new: "(p - 24, x) \<notin> L" "(proc - 24, x) \<notin> L" for x using fresh_block [OF h1 c1(2)] by auto
  have kp: "sched_kept s s2" using f1(5) f2(5) by (simp add: sched_kept_def)
  let ?t = "t\<lparr>th_next := run_queue s2\<rparr>" and ?s' = "s2\<lparr>threads := (threads s2)(p \<mapsto> t\<lparr>th_next := run_queue s2\<rparr>), run_queue := p\<rparr>"
  have "threads s2 = (threads s)(p \<mapsto> t)" "th_state t = THREAD_READY" using f1(3) f2(1) t(1) by (auto simp: fresh_thread_def)
  note ad = add_new_thread [OF tq kp this c2(2) pR new(1), of n ?L]
  have eq: "heap_eq s2 ?s'" by (simp add: heap_eq_def)
  have "keeps s ?s' L"
    using k1(1) keeps_mono [OF k2(1), of L] keeps_eq [OF eq, of L] by (auto intro: keeps_trans)
  moreover have "threads ?s' x = threads s x" "processes ?s' x = processes s x" if "(x - 24, y) \<in> L" for x y
    using that new f1(1,3) f2(1,3) by auto
  moreover have "thread_exit_code ?s' = thread_exit_code s" using kp by (simp add: sched_kept_def)
  ultimately have tk: "tasks_kept s ?s' L" unfolding tasks_kept_def by blast
  have "fresh_thread proc entry (next_tid s) ?q (core ?t)" using t(1) f1(4) by (simp add: core_def fresh_thread_def)
  moreover have "load64 (r_rsp (th_context ?t)) ?s' = Some (thread_exit_code ?s')"
    using t(2) heap_eq_load64 [OF eq] f2(5) by (simp add: sched_kept_def)
  moreover have "processes ?s' proc = Some \<lparr>pid = next_pid s, p_name = ?nm, p_state = PROCESS_RUNNING, p_next = NULL\<rparr>"
    using f1(1) f2(3) by simp
  ultimately have "task_waits ?nm entry (next_pid s) (next_tid s) ?s' ?L p"
    unfolding task_waits_def
    by (intro exI [of _ proc] exI [of _ "\<lparr>pid = next_pid s, p_name = ?nm, p_state = PROCESS_RUNNING, p_next = NULL\<rparr>"]
        exI [of _ ?q] exI [of _ ?t] exI [of _ n] exI [of _ m]) simp
  moreover have "mem ?s' a = mem s a" if "page_base a \<in> R" for a using that k1(2) k2(2) by simp
  moreover have "L \<subseteq> ?L" "kernel_heap_vaddr ?s' = kernel_heap_vaddr s + 8192" "next_pid ?s' = next_pid s + 1"
    "next_tid ?s' = next_tid s + 1" "locked ?s' = locked s" "idle_thread ?s' = idle_thread s" "sched.more ?s' = sched.more s"
    using k1(3) k2(3) f1(2,4) f2(2,4) kp by (auto simp: sched_kept_def)
  moreover have "scheduler_add_thread p s2 = Some ?s'" "tasks_queued ?s' (p # q) ?L R" using ad by auto
  ultimately show ?thesis using c1(1) c2(1) heap_ready_eq [OF eq h2] tk
    by (intro exI [of _ proc] exI [of _ p] exI [of _ s1] exI [of _ s2] exI [of _ ?s'] exI [of _ ?L] conjI allI impI)
qed

section \<open>Properties\<close>

text \<open>
  C14. The life of a thread on the kernel heap. With nine free pages and address space for two more,
  \<^verbatim>\<open>thread_create\<close> succeeds: the structure and the stack are two new blocks, all other blocks keep their contents,
  the thread is ready with the next identifier and a full quantum, and its first instruction is the entry function, on a stack
  pointer inside the stack, eight below a multiple of 16 as behind a call, where the return address is that of
  \<^verbatim>\<open>thread_exit\<close>. \<^verbatim>\<open>thread_destroy\<close> then succeeds and leaves exactly the blocks of before, with their contents.
\<close>

theorem thread_lifecycle:
  fixes s :: "'a sched_scheme"
  assumes "heap_ready (k + 9) s L R" and "unat (kernel_heap_vaddr s) + 8192 < 2 ^ 64"
  shows "\<exists>p n q t s1 s2. thread_create proc entry s = Some (p, s1) \<and> p \<noteq> NULL \<and>
     heap_ready k s1 (insert (p - 24, n) (insert (q, 8192) L)) R \<and> (p - 24, n) \<notin> L \<and> (q, 8192) \<notin> L \<and> keeps s s1 L \<and>
     threads s1 = (threads s)(p \<mapsto> t) \<and> fresh_thread proc entry (next_tid s) q t \<and>
     (let rsp = r_rsp (th_context t)
      in unat rsp mod 16 = 8 \<and> unat q + 24 \<le> unat rsp \<and> unat rsp + 8 \<le> unat q + 24 + unat THREAD_STACK_SIZE \<and>
         load64 rsp s1 = Some (thread_exit_code s)) \<and>
     thread_destroy p s1 = Some s2 \<and> heap_ready k s2 L R \<and> keeps s s2 L \<and> threads s2 = (threads s)(p := None)"
proof -
  let ?q = "kernel_heap_vaddr s"
  from thread_create_ready [OF assms, of proc entry] obtain p n t s1 where
    c: "thread_create proc entry s = Some (p, s1)" "p \<noteq> NULL" "direct (p - 24)" "\<not> direct ?q" "(p - 24, n) \<notin> L" "(?q, 8192) \<notin> L"
    "heap_ready k s1 (insert (p - 24, n) (insert (?q, 8192) L)) R" "keeps s s1 L" "threads s1 = (threads s)(p \<mapsto> t)"
    "fresh_thread proc entry (next_tid s) ?q t" "load64 (r_rsp (th_context t)) s1 = Some (thread_exit_code s)" by blast
  have ft: "threads s1 p = Some t" "th_stack t = ?q + 24" "r_rsp (th_context t) = ?q + of_nat 4104"
    using c(9,10) by (simp_all add: fresh_thread_def)
  have new: "(p - 24, n) \<notin> insert (?q, 8192) L" using c(3-5) by auto
  from thread_destroy_ready [OF c(7) new c(6,3,4,2) ft(1,2)] obtain s2 where
    d: "thread_destroy p s1 = Some s2" "heap_ready k s2 L R" "keeps s1 s2 L" "threads s2 = (threads s1)(p := None)" by blast
  have "page_aligned ?q" using heap_ready_vaddr [OF assms(1)] by simp
  from stack_pointer(2) [OF this assms(2)] have "unat (r_rsp (th_context t)) mod 16 = 8" unfolding ft(3) .
  moreover have "unat (r_rsp (th_context t)) = unat ?q + 4104" unfolding ft(3) using assms(2) by (simp add: unat_word_ariths)
  moreover have "keeps s s2 L" using c(8) d(3) by (rule keeps_trans)
  moreover have "threads s2 = (threads s)(p := None)" using c(9) d(4) by simp
  ultimately show ?thesis using c d(1,2)
    by (intro exI [of _ p] exI [of _ n] exI [of _ ?q] exI [of _ t] exI [of _ s1] exI [of _ s2])
      (simp add: Let_def THREAD_STACK_SIZE_def)
qed

theorem thread_lifecycle_witness:
  "\<exists>s :: sched. \<exists>p t s1 s2. thread_create 0x4000 0x7000 s = Some (p, s1) \<and> threads s1 p = Some t \<and>
     r_rip (th_context t) = 0x7000 \<and> load64 (r_rsp (th_context t)) s1 = Some (thread_exit_code s) \<and>
     thread_destroy p s1 = Some s2 \<and> heap_ready 47 s2 {} {}"
proof -
  obtain h :: heap where h: "heap_view h {}" "56 \<le> card (free_frames h)" "kernel_heap_vaddr h = KERNEL_HEAP_BASE"
    "\<forall>c \<in> set (caches h). first_slab c \<noteq> NULL" using sample_heap_ready by blast
  then have "heap_ready 56 h {} {}" by (auto simp: heap_ready_def heap_view_def)
  from heap_ready_eq [OF with_heap_eq [of h sample_sched] this] have r: "heap_ready (47 + 9) (with_heap h sample_sched) {} {}" by simp
  have v: "unat (kernel_heap_vaddr (with_heap h sample_sched)) + 8192 < 2 ^ 64"
    using h(3) by (simp add: with_heap_def KERNEL_HEAP_BASE_def)
  let ?s = "with_heap h sample_sched"
  from thread_lifecycle [OF r v, of "0x4000" "0x7000"] obtain p q t s1 s2 where
    c: "thread_create 0x4000 0x7000 ?s = Some (p, s1)" "threads s1 = (threads ?s)(p \<mapsto> t)" "thread_destroy p s1 = Some s2"
      "load64 (r_rsp (th_context t)) s1 = Some (thread_exit_code ?s)" "heap_ready 47 s2 {} {}"
    and f: "fresh_thread 0x4000 0x7000 (next_tid ?s) q t"
    unfolding Let_def by blast
  have "threads s1 p = Some t" "r_rip (th_context t) = 0x7000" using c(2) f by (simp_all add: fresh_thread_def)
  then show ?thesis using c by blast
qed

end
