(* ===== verification/Kmain.thy ===== *)
theory Kmain
  imports Initrd ThreadSpec
begin

text \<open>
  The start of the kernel, \<^verbatim>\<open>main.c\<close>: the boot sequence that calls every other component, and the two
  threads it starts. Interrupts that arrive during the sequence are not modelled here.
\<close>

section \<open>What the boot loader and the linker provide\<close>

record framebuffer =
  fb_address :: u64
  fb_width :: u64
  fb_height :: u64
  fb_pitch :: u64

text \<open>The responses to the requests of \<^verbatim>\<open>main.c\<close> and \<^verbatim>\<open>initrd.c\<close>; \<open>None\<close> is a null pointer.\<close>

record boot_info =
  base_revision_supported :: bool
  framebuffers :: "framebuffer list option"
  memmap :: "memmap_entry list"
  hhdm :: u64
  rsdp :: "u64 option"
  modules :: "limine_file list option"

text \<open>
  Addresses in the kernel's image and on its boot stack: the interrupt stubs, the functions and strings that
  \<^verbatim>\<open>kmain\<close> passes on, the stack pointer and the local buffer.
\<close>

record image =
  isr_stub_table :: "u64 list"
  irq_stub_table :: "u64 list"
  task_a_code :: u64
  task_b_code :: u64
  task_a_name :: u64
  task_b_name :: u64
  boot_rsp :: u64
  test_buf :: u64

text \<open>The whole machine: the kernel's state, its interrupt gates and the pixels on the screen.\<close>

record machine = tmpfs +
  idt_state :: gates
  pixels :: "u64 \<Rightarrow> u32"

section \<open>The background\<close>

definition background_pixel :: "u64 \<Rightarrow> u64 \<Rightarrow> u32" where
  "background_pixel i j =
     (let red = ucast ((j * 2) XOR (i * 2)) :: u8;
          blue = ucast (i XOR j) :: u8;
          green = ucast ((j * 4) XOR (i * 4)) :: u8
      in (push_bit 16 (ucast red) AND 0xFF0000) OR (push_bit 8 (ucast green) AND 0x00FF00) OR (ucast blue AND 0x0000FF))"

definition draw_background :: "framebuffer \<Rightarrow> 'a machine_scheme \<Rightarrow> 'a machine_scheme option" where
  "draw_background fb s =
     for_u64 0 (fb_height fb)
       (\<lambda>i. for_u64 0 (fb_width fb)
          (\<lambda>j s. Some (s\<lparr>pixels := (pixels s)
             (fb_address fb + 4 * (i * (fb_pitch fb div 4) + j) := background_pixel i j)\<rparr>))) s"

section \<open>The threads\<close>

text \<open>
  One round of the loop of \<^verbatim>\<open>task_a\<close> and \<^verbatim>\<open>task_b\<close>: the log message and the sleep, which gives up the processor, or
  \<open>None\<close> when the loop has ended and the function returns to \<^verbatim>\<open>thread_exit\<close>.
\<close>

definition task_a ::
  "devices \<Rightarrow> registers \<Rightarrow> nat \<Rightarrow> 'a kernel_scheme \<Rightarrow> (nat \<times> 'a kernel_scheme isr_result) option option" where
  "task_a d regs i s =
     (if i < 6 then do { r \<leftarrow> thread_sleep d 500 regs (log_info ''TASK_A'' s); Some (Some (Suc i, r)) }
      else Some None)"

definition task_b ::
  "devices \<Rightarrow> registers \<Rightarrow> nat \<Rightarrow> 'a kernel_scheme \<Rightarrow> (nat \<times> 'a kernel_scheme isr_result) option option" where
  "task_b d regs i s =
     (if i < 3 then do { r \<leftarrow> thread_sleep d 1000 regs (log_info ''TASK_B'' s); Some (Some (Suc i, r)) }
      else Some None)"

section \<open>The boot sequence\<close>

text \<open>Descriptor tables and interrupt gates.\<close>

definition boot_tables :: "devices \<Rightarrow> image \<Rightarrow> 'a machine_scheme \<Rightarrow> 'a machine_scheme option" where
  "boot_tables d img s = do {
     g \<leftarrow> gdt_init (segs s);
     let s = s\<lparr>segs := g\<rparr>;
     (tr, gt) \<leftarrow> idt_init d (isr_stub_table img) (irq_stub_table img) (io_trace s) (idt_state s);
     Some (s\<lparr>io_trace := tr, idt_state := gt\<rparr>) }"

text \<open>Physical and virtual memory.\<close>

definition boot_memory :: "boot_info \<Rightarrow> 'a machine_scheme \<Rightarrow> 'a machine_scheme option" where
  "boot_memory b s = do {
     s \<leftarrow> pmm_init (memmap b) (hhdm b) s;
     Some (vmm_init s) }"

text \<open>ACPI, interrupt controllers and timer.\<close>

definition boot_interrupts :: "devices \<Rightarrow> u64 \<Rightarrow> 'a machine_scheme \<Rightarrow> 'a machine_scheme option" where
  "boot_interrupts d r s = do {
     s \<leftarrow> acpi_init r s;
     madt \<leftarrow> acpi_find_table (chars ''APIC'') s;
     let s = (if madt \<noteq> NULL then log_debug ''ACPI'' s else log_error ''ACPI'' s);
     s \<leftarrow> madt_init s;
     s \<leftarrow> lapic_init d s;
     s \<leftarrow> ioapic_init d s;
     s \<leftarrow> lapic_timer_init d s;
     let s = s\<lparr>io_trace := pic_disable (io_trace s)\<rparr>;
     let s = ioapic_redirect 1 33 0 s;
     let s = ioapic_unmask d 1 s;
     let s = ioapic_redirect 0 32 0 s;
     let s = ioapic_unmask d 0 s;
     Some (log_info ''KERNEL'' s) }"

text \<open>The allocations that \<^verbatim>\<open>kmain\<close> makes as a test.\<close>

definition test_kmalloc :: "'a machine_scheme \<Rightarrow> 'a machine_scheme option" where
  "test_kmalloc s = do {
     (a, s) \<leftarrow> kmalloc 64 s;
     (b, s) \<leftarrow> kmalloc 128 s;
     let s = log_debug ''TEST'' s;
     s \<leftarrow> kfree a s;
     (c, s) \<leftarrow> kmalloc 64 s;
     let s = log_debug ''TEST'' s;
     s \<leftarrow> kfree b s;
     kfree c s }"

definition test_file :: "image \<Rightarrow> 'a machine_scheme \<Rightarrow> 'a machine_scheme option" where
  "test_file img s = do {
     (f, s) \<leftarrow> vfs_find_path call_finddir (Some (chars ''/etc/test.txt'')) s;
     if f \<noteq> NULL then do {
       let s = log_info ''VFS'' s;
       (_, s) \<leftarrow> vfs_read call_read f 0 13 (test_buf img) s;
       vfs_close f (log_debug ''VFS'' s) }
     else Some (log_error ''VFS'' s) }"

text \<open>The scheduler and the two threads.\<close>

definition boot_tasks :: "image \<Rightarrow> 'a machine_scheme \<Rightarrow> 'a machine_scheme option" where
  "boot_tasks img s = do {
     s \<leftarrow> scheduler_init (boot_rsp img) s;
     let s = scheduler_lock s;
     (proc_a, s) \<leftarrow> process_create (task_a_name img) s;
     (th_a, s) \<leftarrow> thread_create proc_a (task_a_code img) s;
     s \<leftarrow> scheduler_add_thread th_a s;
     (proc_b, s) \<leftarrow> process_create (task_b_name img) s;
     (th_b, s) \<leftarrow> thread_create proc_b (task_b_code img) s;
     s \<leftarrow> scheduler_add_thread th_b s;
     Some (scheduler_unlock s) }"

text \<open>
  \<^verbatim>\<open>kmain\<close> ends in \<^verbatim>\<open>hcf\<close>, which halts the processor for ever between interrupts: early, when the boot loader does not
  provide what the kernel needs, or when the threads are started.
\<close>

datatype 's boot_end = Hcf_early 's | Hcf_booted 's

definition kmain :: "devices \<Rightarrow> image \<Rightarrow> boot_info \<Rightarrow> 'a machine_scheme \<Rightarrow> 'a machine_scheme boot_end option" where
  "kmain d img b s =
     (if \<not> base_revision_supported b then Some (Hcf_early s)
      else case framebuffers b of
        None \<Rightarrow> Some (Hcf_early s)
      | Some [] \<Rightarrow> Some (Hcf_early s)
      | Some (fb # _) \<Rightarrow> do {
          s \<leftarrow> draw_background fb s;
          s \<leftarrow> boot_tables d img s;
          s \<leftarrow> boot_memory b s;
          case rsdp b of
            None \<Rightarrow> Some (Hcf_early (log_error ''ACPI'' s))
          | Some r \<Rightarrow> do {
              s \<leftarrow> heap_init s;
              s \<leftarrow> boot_interrupts d r s;
              let s = log_debug ''TEST'' (log_debug ''TEST'' (log_info ''KERNEL'' s));
              s \<leftarrow> test_kmalloc s;
              s \<leftarrow> tmpfs_init s;
              s \<leftarrow> initrd_init (modules b) s;
              s \<leftarrow> test_file img s;
              s \<leftarrow> boot_tasks img s;
              Some (Hcf_booted s) } })"

section \<open>The memory managers come up\<close>

text \<open>
  What the boot loader promises: a well-formed memory map that fits the address space, and page tables that form
  a tree outside the usable memory.
\<close>

definition boot_page_tables :: "boot_info \<Rightarrow> 'a vmm_scheme \<Rightarrow> bool" where
  "boot_page_tables b s \<longleftrightarrow>
     (let walk = tbl (hhdm b) (mem s) (page_base (cr3 s) + hhdm b)
      in (\<forall>p a. table_path p \<longrightarrow> walk p = Some a \<longrightarrow>
            a \<noteq> NULL \<and> unat (a - hhdm b) div 4096 \<notin> set (usable_pages (memmap b))) \<and>
         (\<forall>p q a. table_path p \<longrightarrow> table_path q \<longrightarrow> walk p = Some a \<longrightarrow> walk q = Some a \<longrightarrow> p = q))"

definition boot_memory_ok :: "boot_info \<Rightarrow> bool" where
  "boot_memory_ok b \<longleftrightarrow>
     wf_memmap (hhdm b) (memmap b) \<and> page_aligned (hhdm b) \<and>
     (\<exists>e \<in> set (memmap b). usable e \<and> bitmap_bytes (memmap b) \<le> mm_length e) \<and>
     unat (highest_loop (memmap b) 0) \<le> 2 ^ 52 \<and>
     unat (highest_loop (memmap b) 0) + unat (hhdm b) \<le> unat KERNEL_HEAP_BASE"

lemma whole_page_below: "n + 4096 \<le> h" if "n div 4096 < h div 4096" and "4096 dvd n" for n h :: nat
proof -
  have "Suc (n div 4096) * 4096 \<le> h div 4096 * 4096" using that(1) by (intro mult_le_mono1) simp
  also have "\<dots> \<le> h" by (rule div_times_less_eq_dividend)
  finally show ?thesis using that(2) by simp
qed

lemma boot_memory_pages:
  assumes b: "boot_memory_ok b" and t: "boot_page_tables b s" and fp: "free_pages s = 0"
  shows "\<exists>s' e. boot_memory b s = Some s' \<and> pages_ok s' \<and> total_pages s' \<le> 2 ^ 40 \<and> e \<in> set (memmap b) \<and>
           free_set s' = set (usable_pages (memmap b)) - bitmap_frames (memmap b) e \<and>
           caches s' = caches s \<and> kernel_heap_vaddr s' = kernel_heap_vaddr s \<and> mem s' = mem s \<and> hhdm_offset s' = hhdm b \<and>
           root s' = page_base (cr3 s) + hhdm b \<and> heap.more s' = heap.more s"
proof -
  let ?m = "memmap b" and ?h = "hhdm b"
  have wf: "wf_memmap ?h ?m" and al: "page_aligned ?h" and top: "unat (highest_loop ?m 0) \<le> 2 ^ 52"
    and low: "unat (highest_loop ?m 0) + unat ?h \<le> unat KERNEL_HEAP_BASE"
    and fit: "\<exists>e \<in> set ?m. usable e \<and> bitmap_bytes ?m \<le> mm_length e"
    using b by (auto simp: boot_memory_ok_def)
  from pmm_init_correct [OF wf fit, of s] fp obtain s1 e where
    i: "pmm_init ?m ?h s = Some s1" "e \<in> set ?m" "pmm_inv s1" "0 \<notin> free_set s1"
    "free_set s1 = set (usable_pages ?m) - bitmap_frames ?m e" by blast
  obtain e' bm where "e' \<in> set ?m" "usable e'" "bitmap_bytes ?m \<le> mm_length e'" "entry_ok ?h e'"
    and run: "pmm_init ?m ?h s = Some (log_info ''PMM''
       (s\<lparr>hhdm_offset := ?h, total_pages := highest_loop ?m 0 div PAGE_SIZE,
          bitmap_size := bitmap_bytes ?m, bitmap_ptr := mm_base e' + ?h, bitmap := bm,
          free_pages := of_nat (length (usable_pages ?m)) -
                        (bitmap_bytes ?m + PAGE_SIZE - 1) div PAGE_SIZE\<rparr>))"
    and "length bm = unat (bitmap_bytes ?m)"
    "\<And>j. j < 8 * length bm \<Longrightarrow> page_used bm j \<longleftrightarrow> j \<notin> set (usable_pages ?m) \<or> j \<in> bitmap_frames ?m e'"
    by (rule pmm_init_run [OF wf fit fp], rule that)
  have s1: "s1 = log_info ''PMM'' (s\<lparr>hhdm_offset := ?h, total_pages := highest_loop ?m 0 div PAGE_SIZE,
          bitmap_size := bitmap_bytes ?m, bitmap_ptr := mm_base e' + ?h, bitmap := bm,
          free_pages := of_nat (length (usable_pages ?m)) -
                        (bitmap_bytes ?m + PAGE_SIZE - 1) div PAGE_SIZE\<rparr>)" using i(1) run by simp
  have f: "hhdm_offset s1 = ?h" "total_pages s1 = highest_loop ?m 0 div PAGE_SIZE" "mem s1 = mem s" "cr3 s1 = cr3 s"
    "caches s1 = caches s" "kernel_heap_vaddr s1 = kernel_heap_vaddr s" "heap.more s1 = heap.more s"
    unfolding s1 by (simp_all add: log_event_def)
  let ?s = "vmm_init s1"
  have g: "hhdm_offset ?s = ?h" "total_pages ?s = highest_loop ?m 0 div PAGE_SIZE" "mem ?s = mem s" "caches ?s = caches s"
    "kernel_heap_vaddr ?s = kernel_heap_vaddr s" "free_set ?s = free_set s1" "pmm_inv ?s = pmm_inv s1"
    "root ?s = page_base (cr3 s) + ?h" "heap.more ?s = heap.more s"
    by (simp_all add: vmm_init_def vmm_switch_def log_event_def f vmm_get_current_def virt_to_phys_def phys_to_virt_def
        free_set_def pmm_inv_def page_base_aligned)
  have man: "unat p < unat (highest_loop ?m 0)" if "p \<in> managed_frames ?s" for p
  proof -
    have "unat p div 4096 < unat (highest_loop ?m 0) div 4096" using that g(2) by (simp add: managed_frames_def unat_div)
    then show ?thesis by (metis div_le_mono leI leD)
  qed
  have frames: "a \<notin> free_frames ?s" if "unat a div 4096 \<notin> set (usable_pages ?m)" for a
    using that i(5) g(6) by (auto simp: free_frames_def)
  have sum: "unat (p + ?h) = unat p + unat ?h" if "unat p < unat (highest_loop ?m 0)" for p
    using that low heap_base_bound by (simp add: unat_word_ariths)
  have "hhdm_ok ?s"
    unfolding hhdm_ok_def g(1)
  proof (intro conjI ballI)
    show "page_aligned ?h" by (rule al)
    show "p + ?h \<noteq> NULL" if "p \<in> managed_frames ?s" for p
    proof
      assume "p + ?h = NULL"
      then have "unat p + unat ?h = 0" using sum [OF man [OF that]] by simp
      then show False using that by (simp add: managed_frames_def unat_eq_zero)
    qed
  qed
  moreover have "hhdm_low ?s"
    unfolding hhdm_low_def g(1)
  proof (intro ballI allI impI)
    fix p k
    assume p: "p \<in> managed_frames ?s" and k: "k < (4096 :: nat)"
    have "unat p div 4096 < unat (highest_loop ?m 0) div 4096" "4096 dvd unat p"
      using p g(2) by (auto simp: managed_frames_def unat_div page_aligned_iff)
    then have "unat p + 4096 \<le> unat (highest_loop ?m 0)" by (rule whole_page_below)
    then have "unat (p + ?h + of_nat k) < unat KERNEL_HEAP_BASE"
      using sum [OF man [OF p]] low k heap_base_bound by (simp add: unat_word_ariths unat_of_nat)
    then show "direct (p + ?h + of_nat k)" by (simp add: direct_def word_less_nat_alt)
  qed
  moreover have "pt_tree ?s (root ?s)"
    using t al frames unfolding pt_tree_def g boot_page_tables_def Let_def by (auto intro!: page_aligned_add)
  ultimately have "pages_ok ?s" using i(3,4) g(6,7) by (simp add: pages_ok_def vmm_inv_def pmm_ok_def)
  moreover have "total_pages ?s \<le> 2 ^ 40"
    using top unfolding g(2) by (simp add: word_le_nat_alt unat_div div_le_mono [of _ "2 ^ 52" 4096, simplified])
  moreover have "boot_memory b s = Some ?s" using i(1) by (simp add: boot_memory_def)
  ultimately show ?thesis using i(2,5) g(1,3-6,8,9) by auto
qed

lemma card_free_frames: "card (free_frames s) = card (free_set s)" if "pmm_inv s"
proof -
  have "inj_on (\<lambda>i. of_nat i * PAGE_SIZE) (free_set s)"
  proof (rule inj_onI)
    fix i j
    assume ij: "i \<in> free_set s" "j \<in> free_set s" and e: "of_nat i * PAGE_SIZE = of_nat j * PAGE_SIZE"
    then have b: "i < 4503599627370496" "j < 4503599627370496" using that by (auto simp: free_set_def pmm_inv_def)
    have "4096 * i = 4096 * j" unfolding unat_frame [OF b(1), symmetric] unat_frame [OF b(2), symmetric] e by (rule refl)
    then show "i = j" by simp
  qed
  then show ?thesis using that by (simp add: free_frames_image card_image)
qed

text \<open>The pages that \<^verbatim>\<open>pmm_init\<close> keeps for the bitmap.\<close>

definition bitmap_pages :: "memmap_entry list \<Rightarrow> nat" where
  "bitmap_pages m = unat ((bitmap_bytes m + PAGE_SIZE - 1) div PAGE_SIZE)"

lemma boot_free_frames:
  assumes wf: "wf_memmap h m" and p: "pmm_inv s" and f: "free_set s = set (usable_pages m) - bitmap_frames m e"
  shows "length (usable_pages m) \<le> card (free_frames s) + bitmap_pages m"
proof -
  have "length (usable_pages m) = card (set (usable_pages m))" using wf by (simp add: wf_memmap_def distinct_card)
  also have "\<dots> \<le> card (free_set s \<union> bitmap_frames m e)" 
    by (rule card_mono) (auto simp: f bitmap_frames_def)
  also have "\<dots> \<le> card (free_set s) + card (bitmap_frames m e)" by (rule card_Un_le)
  also have "card (bitmap_frames m e) = bitmap_pages m" by (simp add: bitmap_frames_def bitmap_pages_def)
  finally show ?thesis using card_free_frames [OF p] by simp
qed

text \<open>
  C13. The boot of the memory managers, from the boot loader's memory map to the heap: on a well-formed memory map
  with six pages beside the bitmap, \<^verbatim>\<open>pmm_init\<close>, \<^verbatim>\<open>vmm_init\<close> and \<^verbatim>\<open>heap_init\<close> return. The free pages of
  the allocator are the usable ones without the bitmap, at most six of them go to the caches, each of which gets its
  first slab, the heap, on the boot loader's page tables, is well-formed and empty, and all pages in use keep their contents.
\<close>

theorem boot_memory_heap:
  assumes "boot_memory_ok b" and "boot_page_tables b s" and "free_pages s = 0"
    and "length (caches s) = 6" and "kernel_heap_vaddr s = KERNEL_HEAP_BASE"
    and "bitmap_pages (memmap b) + 6 \<le> length (usable_pages (memmap b))"
  shows "\<exists>s1 s2 e. boot_memory b s = Some s1 \<and> e \<in> set (memmap b) \<and>
           free_set s1 = set (usable_pages (memmap b)) - bitmap_frames (memmap b) e \<and>
           heap_init s1 = Some s2 \<and> heap_view s2 {} \<and> (\<forall>c \<in> set (caches s2). first_slab c \<noteq> NULL) \<and>
           used_kept s1 s2 \<and> card (free_frames s2) + 6 + bitmap_pages (memmap b) \<ge> length (usable_pages (memmap b))"
proof -
  from boot_memory_pages [OF assms(1-3)] obtain s1 e where
    m: "boot_memory b s = Some s1" and ok: "pages_ok s1" and tp: "total_pages s1 \<le> 2 ^ 40" and e: "e \<in> set (memmap b)"
    and fs: "free_set s1 = set (usable_pages (memmap b)) - bitmap_frames (memmap b) e"
    and c: "caches s1 = caches s" and kv: "kernel_heap_vaddr s1 = kernel_heap_vaddr s" by blast
  have "length (usable_pages (memmap b)) \<le> card (free_frames s1) + bitmap_pages (memmap b)"
    using boot_free_frames [OF _ _ fs] assms(1) ok by (auto simp: boot_memory_ok_def pages_ok_def vmm_inv_def pmm_ok_def)
  moreover from this have "\<exists>s2. heap_init s1 = Some s2 \<and> heap_view s2 {} \<and> (\<forall>c \<in> set (caches s2). first_slab c \<noteq> NULL) \<and>
      kernel_heap_vaddr s2 = KERNEL_HEAP_BASE \<and> card (free_frames s1) = card (free_frames s2) + 6 \<and> used_kept s1 s2"
    using assms(4-6) c kv by (intro heap_init_spec [OF ok tp]) simp_all
  ultimately show ?thesis using m e fs by auto
qed

text \<open>A machine with 256 KiB of memory, of which the first two pages are in use, the second one by an empty page table.\<close>

definition sample_boot :: boot_info where
  "sample_boot =
     \<lparr>base_revision_supported = True, framebuffers = Some [],
      memmap = [\<lparr>mm_base = 0, mm_length = 0x2000, mm_type = LIMINE_MEMMAP_OTHER\<rparr>,
                \<lparr>mm_base = 0x2000, mm_length = 0x3E000, mm_type = LIMINE_MEMMAP_USABLE\<rparr>],
      hhdm = 0x100000, rsdp = None, modules = None\<rparr>"

definition sample_machine :: machine where
  "sample_machine = tmpfs.extend (sample_tmpfs (sample_heap\<lparr>free_pages := 0\<rparr>)) (machine.fields sample_gates (\<lambda>_. 0))"

lemma sample_machine_fields:
  "free_pages sample_machine = 0" "length (caches sample_machine) = 6" "kernel_heap_vaddr sample_machine = KERNEL_HEAP_BASE"
  "cr3 sample_machine = 0x1000" "mem sample_machine = (\<lambda>_. 0)"
  by (simp_all add: sample_machine_def sample_tmpfs_def with_heap_def sample_heap_def kernel.defs vfs.defs tmpfs.defs machine.defs)

lemma sample_boot_usable:
  "set (usable_pages (memmap sample_boot)) = {2..<64}" "length (usable_pages (memmap sample_boot)) = 62"
  "distinct (usable_pages (memmap sample_boot))" "bitmap_pages (memmap sample_boot) = 1"
proof -
  have u: "usable_pages (memmap sample_boot) = [2..<64]"
    by (simp add: sample_boot_def usable_pages_def entry_pages_eq usable_def)
  show "set (usable_pages (memmap sample_boot)) = {2..<64}" "length (usable_pages (memmap sample_boot)) = 62"
    "distinct (usable_pages (memmap sample_boot))"
    unfolding u by (simp_all only: set_upt length_upt distinct_upt)
  show "bitmap_pages (memmap sample_boot) = 1" by (simp add: bitmap_pages_def bitmap_bytes_def sample_boot_def)
qed

theorem boot_memory_heap_witness:
  "\<exists>s1 s2 e. boot_memory sample_boot sample_machine = Some s1 \<and> e \<in> set (memmap sample_boot) \<and>
     free_set s1 = {2..<64} - bitmap_frames (memmap sample_boot) e \<and>
     heap_init s1 = Some s2 \<and> heap_view s2 {} \<and> card (free_frames s2) \<ge> 55"
proof -
  have T: "tbl h (\<lambda>_. 0) r p = Some a \<Longrightarrow> p = [] \<and> a = r" for h r p a by (cases p) auto
  have "boot_memory_ok sample_boot"
    unfolding boot_memory_ok_def wf_memmap_def using sample_boot_usable(3)
    by (simp add: sample_boot_def usable_def entry_ok_def page_aligned_def bitmap_bytes_def KERNEL_HEAP_BASE_def)
  moreover have "boot_page_tables sample_boot sample_machine"
    unfolding boot_page_tables_def sample_boot_usable sample_machine_fields Let_def
    by (auto simp: sample_boot_def page_base_def dest!: T)
  ultimately show ?thesis
    using boot_memory_heap [of sample_boot sample_machine] sample_machine_fields sample_boot_usable by auto
qed

section \<open>The threads start\<close>

text \<open>The string at \<open>a\<close>, as far as \<^verbatim>\<open>process_create\<close> reads it.\<close>

definition name_at :: "'a vmm_scheme \<Rightarrow> u64 \<Rightarrow> u8 list" where
  "name_at s a = takeWhile (\<lambda>c. c \<noteq> 0) (bytes_at s a 63)"

lemma name_at_spare: "name_at s' a = name_at s a" if "off_heap R a 64" "\<forall>a. page_base a \<in> R \<longrightarrow> mem s' a = mem s a"
proof -
  have "bytes_at s' a 63 = bytes_at s a 63"
    unfolding bytes_at_def by (rule map_cong) (use that in \<open>auto simp: off_heap_def byte_def page_base_cell_of\<close>)
  then show ?thesis by (simp add: name_at_def)
qed

text \<open>What the linker promises: the objects of the idle thread are there, outside the memory that the heap uses, as are the names.\<close>

definition boot_statics :: "image \<Rightarrow> u64 set \<Rightarrow> 'a sched_scheme \<Rightarrow> bool" where
  "boot_statics img R s \<longleftrightarrow>
     run_queue s = NULL \<and> idle_thread s \<noteq> NULL \<and> page_base (idle_thread s) \<in> R \<and> threads s (idle_thread s) \<noteq> None \<and>
     processes s (idle_process s) \<noteq> None \<and> off_heap R (task_a_name img) 64 \<and> off_heap R (task_b_name img) 64"

lemma scheduler_init_ready:
  fixes s :: "'a kernel_scheme"
  assumes "boot_statics img R s"
  shows "\<exists>s'. scheduler_init rsp s = Some s' \<and> heap_eq s s' \<and> tasks_queued s' [] L R \<and> next_pid s' = next_pid s \<and>
     next_tid s' = next_tid s \<and> idle_thread s' = idle_thread s \<and> sched.more s' = sched.more s"
proof -
  obtain t p where tp: "threads s (idle_thread s) = Some t" "processes s (idle_process s) = Some p"
    using assms by (auto simp: boot_statics_def)
  then show ?thesis using assms
    by (auto simp: scheduler_init_def set_thread_def boot_statics_def heap_eq_def log_event_def tasks_queued_def sched_inv_def
        abs_inv_def table_def)
qed

lemma locked_tasks:
  fixes s :: "'a kernel_scheme"
  shows "heap_eq s (s\<lparr>locked := b\<rparr>)" "tasks_kept s (s\<lparr>locked := b\<rparr>) L" "tasks_queued (s\<lparr>locked := b\<rparr>) q L R = tasks_queued s q L R"
proof -
  show e: "heap_eq s (s\<lparr>locked := b\<rparr>)" by (simp add: heap_eq_def)
  show "tasks_kept s (s\<lparr>locked := b\<rparr>) L" using keeps_eq [OF e] by (simp add: tasks_kept_def)
  show "tasks_queued (s\<lparr>locked := b\<rparr>) q L R = tasks_queued s q L R"
    using sched_same_inv [of s "s\<lparr>locked := b\<rparr>" q] by (simp add: tasks_queued_def)
qed

text \<open>
  The last part of the boot, from \<^verbatim>\<open>scheduler_init\<close> on, with twenty free pages and address space for two stacks: it
  succeeds and leaves the scheduler, unlocked, in a state that satisfies its invariant, with the idle thread running
  and the threads of both tasks in the queue, the second one first. Each is ready to run its function for the first time, with
  \<^verbatim>\<open>thread_exit\<close> as the return address, and belongs to a process that carries its name. All blocks of the heap keep their contents.
\<close>

lemma boot_tasks_ready:
  fixes s :: "'a machine_scheme"
  assumes "heap_ready (k + 20) s L R" and "unat (kernel_heap_vaddr s) + 16384 < 2 ^ 64" and "boot_statics img R s"
  shows "\<exists>ta tb s' L'. boot_tasks img s = Some s' \<and> sched_inv s' [tb, ta] \<and> current s' = idle_thread s \<and> locked s' = 0 \<and>
     task_waits (name_at s (task_a_name img)) (task_a_code img) (next_pid s) (next_tid s) s' L' ta \<and>
     task_waits (name_at s (task_b_name img)) (task_b_code img) (next_pid s + 1) (next_tid s + 1) s' L' tb \<and>
     heap_ready k s' L' R \<and> L \<subseteq> L' \<and> keeps s s' L \<and> sched.more s' = sched.more s \<and> (\<forall>a. page_base a \<in> R \<longrightarrow> mem s' a = mem s a)"
proof -
  from scheduler_init_ready [OF assms(3), of "boot_rsp img" L] obtain s0 where
    i: "scheduler_init (boot_rsp img) s = Some s0" and e0: "heap_eq s s0" and q0: "tasks_queued s0 [] L R"
    and f0: "next_pid s0 = next_pid s" "next_tid s0 = next_tid s" "idle_thread s0 = idle_thread s" "sched.more s0 = sched.more s" by blast
  let ?s0 = "scheduler_lock s0"
  have e: "heap_eq s ?s0" using e0 by (simp add: heap_eq_def scheduler_lock_def)
  have r: "heap_ready (k + 10 + 10) ?s0 L R" using heap_ready_eq [OF e] assms(1) by (simp add: add.assoc)
  have v: "kernel_heap_vaddr ?s0 = kernel_heap_vaddr s" and m0: "mem ?s0 = mem s" using e by (simp_all add: heap_eq_def)
  have vb: "unat (kernel_heap_vaddr ?s0) + 8192 < 2 ^ 64" using v assms(2) by simp
  have q: "tasks_queued ?s0 [] L R" using q0 by (simp add: scheduler_lock_def locked_tasks(3))
  have nm: "off_heap R (task_a_name img) 64" "off_heap R (task_b_name img) 64" using assms(3) by (auto simp: boot_statics_def)
  from start_task_ready [OF r vb q nm(1), of "task_a_code img", folded name_at_def] obtain proc ta sa1 sa2 sa La where
    a: "process_create (task_a_name img) ?s0 = Some (proc, sa1)" "thread_create proc (task_a_code img) sa1 = Some (ta, sa2)"
      "scheduler_add_thread ta sa2 = Some sa" "heap_ready (k + 10) sa La R" "L \<subseteq> La" "tasks_queued sa [ta] La R" "tasks_kept ?s0 sa L"
    and wa: "task_waits (name_at ?s0 (task_a_name img)) (task_a_code img) (next_pid ?s0) (next_tid ?s0) sa La ta"
    and ma: "\<forall>a. page_base a \<in> R \<longrightarrow> mem sa a = mem ?s0 a" and va: "kernel_heap_vaddr sa = kernel_heap_vaddr ?s0 + 8192"
    and fa: "next_pid sa = next_pid ?s0 + 1" "next_tid sa = next_tid ?s0 + 1" "locked sa = locked ?s0" "idle_thread sa = idle_thread ?s0" "sched.more sa = sched.more ?s0"
    by blast
  have vb: "unat (kernel_heap_vaddr sa) + 8192 < 2 ^ 64" using va v assms(2) by (simp add: unat_word_ariths)
  from start_task_ready [OF a(4) vb a(6) nm(2), of "task_b_code img", folded name_at_def] obtain proc' tb sb1 sb2 sb Lb where
    b: "process_create (task_b_name img) sa = Some (proc', sb1)" "thread_create proc' (task_b_code img) sb1 = Some (tb, sb2)"
      "scheduler_add_thread tb sb2 = Some sb" "heap_ready k sb Lb R" "La \<subseteq> Lb" "tasks_queued sb [tb, ta] Lb R" "tasks_kept sa sb La"
    and wb: "task_waits (name_at sa (task_b_name img)) (task_b_code img) (next_pid sa) (next_tid sa) sb Lb tb"
    and fb: "idle_thread sb = idle_thread sa" "sched.more sb = sched.more sa" and mb: "\<forall>a. page_base a \<in> R \<longrightarrow> mem sb a = mem sa a"
    by blast
  let ?s' = "scheduler_unlock sb"
  have run: "boot_tasks img s = Some ?s'" using i a(1-3) b(1-3) by (simp add: boot_tasks_def)
  have u: "tasks_kept sb ?s' Lb" "heap_ready k ?s' Lb R" "tasks_queued ?s' [tb, ta] Lb R"
    using locked_tasks [where s = sb and b = 0] b(4,6) heap_ready_eq [of sb ?s'] by (auto simp: scheduler_unlock_def)
  have "task_waits (name_at s (task_a_name img)) (task_a_code img) (next_pid s) (next_tid s) ?s' Lb ta"
    using task_waits_kept [OF task_waits_kept [OF wa b(7,5)] u(1)] name_at_spare [OF nm(1), of ?s0 s] m0 f0
    by (simp add: scheduler_lock_def)
  moreover have "task_waits (name_at s (task_b_name img)) (task_b_code img) (next_pid s + 1) (next_tid s + 1) ?s' Lb tb"
    using task_waits_kept [OF wb u(1)] name_at_spare [OF nm(2), of sa s] ma m0 fa f0 by (simp add: scheduler_lock_def)
  moreover have "keeps s ?s' L"
  proof -
    have "keeps ?s0 sa L" "keeps sa sb L" "keeps sb ?s' L"
      using a(5,7) b(5,7) u(1) by (auto simp: tasks_kept_def intro: keeps_mono)
    then show ?thesis using keeps_eq [OF e] by (meson keeps_trans)
  qed
  moreover have "L \<subseteq> Lb" using a(5) b(5) by blast
  moreover have "idle_thread ?s' = idle_thread s" using fb(1) fa(4) f0(3) by (simp add: scheduler_lock_def scheduler_unlock_def)
  then have "sched_inv ?s' [tb, ta]" "current ?s' = idle_thread s" "locked ?s' = 0"
    using u(3) by (simp_all add: tasks_queued_def) (simp add: scheduler_unlock_def)
  moreover have "sched.more ?s' = sched.more s" using fb(2) fa(5) f0(4) by (simp add: scheduler_lock_def scheduler_unlock_def)
  moreover have "\<forall>a. page_base a \<in> R \<longrightarrow> mem ?s' a = mem s a" using ma mb m0 by (simp add: scheduler_unlock_def)
  ultimately show ?thesis using run u(2) by blast
qed

end
