(* ===== verification/Madt.thy ===== *)
theory Madt
  imports Acpi
begin

text \<open>
  The MADT as the firmware writes it: records with the fields of \<^verbatim>\<open>acpi/madt.h\<close>, laid out one after the other. The
  parser of the theory \<open>Acpi\<close> recovers from the bytes what the records say.
\<close>

section \<open>Records and their bytes\<close>

text \<open>The kinds of entries, each with the fields of its structure behind the header; other types have an unknown body.\<close>

datatype madt_record =
  Lapic (processor_id: u8) (apic_id: u8) (lapic_flags: u32)
| Ioapic (ioapic_id: u8) (ioapic_reserved: u8) (ioapic_address: u32) (gsi_base: u32)
| Iso (iso_bus: u8) (iso_irq: u8) (iso_gsi: u32) (iso_flags: u16)
| Lapic_nmi (nmi_processor_id: u8) (nmi_flags: u16) (nmi_lint: u8)
| Unknown (unknown_type: u8) (unknown_body: "u8 list")

fun bytes_le :: "nat \<Rightarrow> u64 \<Rightarrow> u8 list" where
  "bytes_le 0 w = []"
| "bytes_le (Suc n) w = ucast w # bytes_le n (drop_bit 8 w)"

fun encode :: "madt_record \<Rightarrow> u8 list" where
  "encode (Lapic p i f) = [0, of_nat (struct_size madt_lapic_t), p, i] @ bytes_le 4 (ucast f)"
| "encode (Ioapic i r a g) = [1, of_nat (struct_size madt_ioapic_t), i, r] @ bytes_le 4 (ucast a) @ bytes_le 4 (ucast g)"
| "encode (Iso b i g f) = [2, of_nat (struct_size madt_iso_t), b, i] @ bytes_le 4 (ucast g) @ bytes_le 2 (ucast f)"
| "encode (Lapic_nmi p f l) = [4, of_nat (struct_size madt_lapic_nmi_t), p] @ bytes_le 2 (ucast f) @ [l]"
| "encode (Unknown t xs) = [t, of_nat (2 + length xs)] @ xs"

fun record_ok :: "madt_record \<Rightarrow> bool" where
  "record_ok (Unknown t xs) \<longleftrightarrow> t \<notin> {0, 1, 2, 4} \<and> length xs < 254"
| "record_ok _ \<longleftrightarrow> True"

definition image_of :: "madt_record list \<Rightarrow> u8 list" where
  "image_of es = concat (map encode es)"

text \<open>The address of each record of an image at \<open>p\<close>.\<close>

fun record_addrs :: "u64 \<Rightarrow> madt_record list \<Rightarrow> u64 list" where
  "record_addrs p [] = []"
| "record_addrs p (e # es) = p # record_addrs (p + of_nat (length (encode e))) es"

lemma length_bytes_le [simp]: "length (bytes_le n w) = n"
  by (induction n arbitrary: w) auto

lemma encode_size:
  assumes "record_ok e"
  shows "2 \<le> length (encode e)" "length (encode e) < 256" "encode e ! 1 = of_nat (length (encode e))"
proof -
  have "2 \<le> length (encode e) \<and> length (encode e) < 256 \<and> encode e ! 1 = of_nat (length (encode e))"
    using assms by (cases e) (simp_all add: madt_sizes)
  then show "2 \<le> length (encode e)" "length (encode e) < 256" "encode e ! 1 = of_nat (length (encode e))" by auto
qed

text \<open>Reading back a little-endian field.\<close>

lemma bytes_at_append:
  "bytes_at s p (m + n) = bytes_at s p m @ bytes_at s (p + of_nat m) n"
proof -
  have "[0..<m + n] = [0..<m] @ map (\<lambda>k. k + m) [0..<n]"
    unfolding map_add_upt using upt_add_eq_append [of 0 m n] by (simp add: add.commute)
  then show ?thesis by (simp add: bytes_at_def ac_simps)
qed

lemma bytes_at_split:
  assumes "bytes_at s p (m + n) = xs @ ys" "length xs = m"
  shows "bytes_at s p m = xs" "bytes_at s (p + of_nat m) n = ys"
  using assms unfolding bytes_at_append by simp_all

lemma le_bytes: "bytes_at s p n = bytes_le n w \<Longrightarrow> n \<le> 8 \<Longrightarrow> le s n p = take_bit (8 * n) w"
proof (induction n arbitrary: p w)
  case 0
  then show ?case by simp
next
  case (Suc n)
  then have b: "byte s p = ucast w" and "bytes_at s (p + 1) n = bytes_le n (drop_bit 8 w)" by (simp_all add: bytes_at_Suc)
  with Suc have "le s (Suc n) p = ucast (ucast w :: u8) OR push_bit 8 (take_bit (8 * n) (drop_bit 8 w))" by simp
  also have "\<dots> = take_bit (8 * Suc n) w" by (rule bit_word_eqI) (auto simp: bit_simps)
  finally show ?case .
qed

section \<open>What the records say\<close>

definition enabled_cpus :: "madt_record list \<Rightarrow> u8 list" where
  "enabled_cpus es = concat (map (\<lambda>e. case e of Lapic p i f \<Rightarrow> if f AND 1 \<noteq> 0 then [i] else [] | _ \<Rightarrow> []) es)"

definition ioapics_of :: "madt_record list \<Rightarrow> (u64 \<times> u32) list" where
  "ioapics_of es = concat (map (\<lambda>e. case e of Ioapic i r a g \<Rightarrow> [(ucast a, g)] | _ \<Rightarrow> []) es)"

definition iso_addrs :: "u64 \<Rightarrow> madt_record list \<Rightarrow> u64 list" where
  "iso_addrs p es = map fst (filter (\<lambda>(a, e). is_Iso e) (zip (record_addrs p es) es))"

section \<open>Reading back\<close>

lemma bytes_at_4: "bytes_at s p 4 = [byte s p, byte s (p + 1), byte s (p + 2), byte s (p + 3)]"
  by (simp add: bytes_at_def upt_rec)

lemma le32_bytes: "bytes_at s p 4 = bytes_le 4 (ucast w) \<Longrightarrow> le32 s p = (w :: u32)"
  using le_bytes [of s p 4 "ucast w"] by (simp add: bit_eq_iff bit_simps)

lemma record_read:
  assumes "bytes_at s p (length (encode e)) = encode e" "record_ok e"
  shows "madt_cpus s [p] = enabled_cpus [e]" "madt_ioapics s [p] = ioapics_of [e]"
    "madt_isos s [p] = (if is_Iso e then [p] else [])" "byte s (p + 1) = of_nat (length (encode e))"
proof -
  let ?n = "length (encode e)"
  have "2 \<le> ?n" by (rule encode_size(1) [OF assms(2)])
  then obtain n where n: "?n = Suc (Suc n)" by (metis add_2_eq_Suc le_Suc_ex)
  have hd: "encode e = byte s p # byte s (p + 1) # bytes_at s (p + 2) n"
    using assms(1) unfolding n bytes_at_Suc by (simp add: add.assoc)
  then show "byte s (p + 1) = of_nat (length (encode e))" using encode_size(3) [OF assms(2)] by simp
  show "madt_isos s [p] = (if is_Iso e then [p] else [])"
    using hd assms(2) by (cases e) (auto simp: madt_isos_def)
  show "madt_cpus s [p] = enabled_cpus [e]"
  proof (cases e)
    case (Lapic pr i f)
    have b: "bytes_at s p (4 + 4) = [0, 8, pr, i] @ bytes_le 4 (ucast f)" using assms(1) by (simp add: Lapic madt_sizes)
    have "bytes_at s p 4 = [0, 8, pr, i]" "bytes_at s (p + 4) 4 = bytes_le 4 (ucast f)"
      using bytes_at_split [OF b] by simp_all
    then show ?thesis using le32_bytes [of s "p + 4" f] by (simp add: bytes_at_4 madt_cpus_def enabled_cpus_def Lapic)
  qed (use hd assms(2) in \<open>auto simp: madt_cpus_def enabled_cpus_def\<close>)
  show "madt_ioapics s [p] = ioapics_of [e]"
  proof (cases e)
    case (Ioapic i r a g)
    have b: "bytes_at s p (4 + (4 + 4)) = [1, 12, i, r] @ bytes_le 4 (ucast a) @ bytes_le 4 (ucast g)"
      using assms(1) by (simp add: Ioapic madt_sizes)
    have "bytes_at s p 4 = [1, 12, i, r]" "bytes_at s (p + 4) 4 = bytes_le 4 (ucast a)" "bytes_at s (p + 4 + 4) 4 = bytes_le 4 (ucast g)"
      using bytes_at_split [OF b] bytes_at_split [OF bytes_at_split(2) [OF b]] by simp_all
    then show ?thesis using le32_bytes [of s "p + 4" a] le32_bytes [of s "p + 4 + 4" g]
      by (simp add: bytes_at_4 madt_ioapics_def ioapics_of_def Ioapic add.assoc)
  qed (use hd assms(2) in \<open>auto simp: madt_ioapics_def ioapics_of_def\<close>)
qed

lemma image_Cons: "image_of (e # es) = encode e @ image_of es"
  by (simp add: image_of_def)

lemma record_lists_Cons:
  "enabled_cpus (e # es) = enabled_cpus [e] @ enabled_cpus es" "ioapics_of (e # es) = ioapics_of [e] @ ioapics_of es"
  "iso_addrs p (e # es) = (if is_Iso e then [p] else []) @ iso_addrs (p + of_nat (length (encode e))) es"
  by (simp_all add: enabled_cpus_def ioapics_of_def iso_addrs_def)

lemma image_read:
  assumes "bytes_at s p (length (image_of es)) = image_of es" "\<forall>e \<in> set es. record_ok e" "unat p + length (image_of es) < 2 ^ 64"
  shows "madt_entries s p (p + of_nat (length (image_of es))) (record_addrs p es) \<and>
    madt_cpus s (record_addrs p es) = enabled_cpus es \<and> madt_ioapics s (record_addrs p es) = ioapics_of es \<and>
    madt_isos s (record_addrs p es) = iso_addrs p es"
  using assms
proof (induction es arbitrary: p)
  case Nil
  then show ?case
    by (simp add: image_of_def madt_cpus_def madt_ioapics_def madt_isos_def enabled_cpus_def ioapics_of_def iso_addrs_def)
next
  case (Cons e es)
  let ?n = "length (encode e)" and ?q = "p + of_nat (length (encode e))"
  have "bytes_at s p (?n + length (image_of es)) = encode e @ image_of es" using Cons.prems(1) by (simp add: image_Cons)
  note b = bytes_at_split [OF this refl]
  have ok: "record_ok e" "\<forall>e \<in> set es. record_ok e" using Cons.prems(2) by simp_all
  note r = record_read [OF b(1) ok(1)] and z = encode_size [OF ok(1)]
  have u: "unat ?q = unat p + ?n" using Cons.prems(3) z(2) by (simp add: image_Cons unat_word_ariths unat_of_nat)
  have nx: "ucast (byte s (p + 1)) = (of_nat ?n :: u64)"
    unfolding r(4) by (rule word_unat_eq_iff [THEN iffD2]) (use z(2) in \<open>simp add: unsigned_ucast_eq take_bit_nat_eq_self unat_of_nat\<close>)
  have stop: "p + of_nat (length (image_of (e # es))) = ?q + of_nat (length (image_of es))" by (simp add: image_Cons)
  have "unat (p + of_nat (length (image_of (e # es)))) = unat p + length (image_of (e # es))"
    using Cons.prems(3) by (simp add: unat_word_ariths unat_of_nat)
  then have lt: "p < p + of_nat (length (image_of (e # es)))" using z(1) by (auto simp: word_less_nat_alt image_Cons)
  have "unat ?q + length (image_of es) < 2 ^ 64" using Cons.prems(3) u by (simp add: image_Cons)
  note ih = Cons.IH [OF b(2) ok(2) this]
  show ?case
    using ih lt nx r(1-3) unfolding stop record_addrs.simps madt_lists_Cons [of s p "record_addrs ?q es"] record_lists_Cons(1,2) [of e es] record_lists_Cons(3) [of p e es]
    by simp
qed

section \<open>Properties\<close>

text \<open>The whole table: signature, length, the rest of the standard header, address and flags, records.\<close>

definition madt_image :: "u8 list \<Rightarrow> u32 \<Rightarrow> u32 \<Rightarrow> madt_record list \<Rightarrow> u8 list" where
  "madt_image rest la fl es =
     map of_char ''APIC'' @ bytes_le 4 (of_nat (44 + length (image_of es))) @ rest @
     bytes_le 4 (ucast la) @ bytes_le 4 (ucast fl) @ image_of es"

lemma madt_image_read:
  assumes "bytes_at s m (length (madt_image rest la fl es)) = madt_image rest la fl es" "length rest = 28"
    and "length (image_of es) < 2 ^ 31"
  shows "le32 s (m + 4) = of_nat (44 + length (image_of es))" "le32 s (m + 36) = la"
    "bytes_at s (m + 44) (length (image_of es)) = image_of es"
proof -
  let ?n = "length (image_of es)"
  have b: "bytes_at s m (4 + (4 + (28 + (4 + (4 + ?n))))) = madt_image rest la fl es"
    using assms(1,2) by (simp add: madt_image_def)
  have l: "length (map of_char ''APIC'' :: u8 list) = 4" "length (bytes_le 4 w) = 4" for w by simp_all
  note b1 = bytes_at_split(2) [OF b [unfolded madt_image_def] l(1)]
  note b2 = bytes_at_split [OF b1 l(2)]
  note b3 = bytes_at_split(2) [OF b2(2) assms(2)]
  note b4 = bytes_at_split [OF b3 l(2)]
  note b5 = bytes_at_split(2) [OF b4(2) l(2)]
  have "(of_nat k :: u64) = ucast (of_nat k :: u32)" if "k < 2 ^ 32" for k
    by (rule word_unat_eq_iff [THEN iffD2]) (use that in \<open>simp add: unsigned_ucast_eq take_bit_nat_eq_self unat_of_nat\<close>)
  then have "(of_nat (44 + ?n) :: u64) = ucast (of_nat (44 + ?n) :: u32)" using assms(3) by (simp del: of_nat_add)
  then show "le32 s (m + 4) = of_nat (44 + ?n)" using b2(1) le32_bytes [of s "m + 4" "of_nat (44 + ?n)"] by simp
  show "le32 s (m + 36) = la" using b4(1) le32_bytes [of s "m + 36" la] by (simp add: add.assoc)
  show "bytes_at s (m + 44) ?n = image_of es" using b5 by (simp add: add.assoc)
qed

lemma madt_init_image:
  assumes "acpi_find_table (map of_char ''APIC'') s = Some m" "m \<noteq> NULL"
    and "bytes_at s m (length (madt_image rest la fl es)) = madt_image rest la fl es" "length rest = 28"
    and "\<forall>e \<in> set es. record_ok e" "length (image_of es) < 2 ^ 31" "buffer m (60 + length (image_of es))"
    and "cpu_count s = 0" "length (lapic_ids s) = 16" "iso_count s = 0" "length (isos s) = 16"
  shows "\<exists>s'. madt_init s = Some s' \<and>
           unat (cpu_count s') = min 16 (length (enabled_cpus es)) \<and>
           take (unat (cpu_count s')) (lapic_ids s') = take 16 (enabled_cpus es) \<and>
           unat (iso_count s') = min 16 (length (iso_addrs (m + 44) es)) \<and>
           take (unat (iso_count s')) (isos s') = take 16 (iso_addrs (m + 44) es) \<and>
           (ioapic_addr s', ioapic_gsi_base s') = last ((ioapic_addr s, ioapic_gsi_base s) # ioapics_of es) \<and>
           lapic_addr s' = ucast la \<and> mem s' = mem s \<and> heap_eq s s' \<and> acpi.more s' = acpi.more s"
proof -
  let ?n = "length (image_of es)"
  note r = madt_image_read [OF assms(3,4,6)]
  have u: "unat (m + 44) = unat m + 44" and top: "unat m + 60 + ?n \<le> unat KERNEL_HEAP_BASE"
    using assms(7) heap_base_bound by (simp_all add: buffer_def unat_word_ariths)
  have "unat (m + 44) + ?n < 2 ^ 64" using u top heap_base_bound by simp
  note img = image_read [OF r(3) assms(5) this]
  have len: "m + ucast (le32 s (m + 4)) = m + 44 + of_nat ?n"
  proof -
    have "(ucast (of_nat k :: u32) :: u64) = of_nat k" if "k < 2 ^ 32" for k
      by (rule word_unat_eq_iff [THEN iffD2]) (use that in \<open>simp add: unsigned_ucast_eq take_bit_nat_eq_self unat_of_nat\<close>)
    from this [of "44 + ?n"] show ?thesis using assms(6) unfolding r(1) by simp
  qed
  have "unat (m + ucast (le32 s (m + 4))) + 16 \<le> unat KERNEL_HEAP_BASE"
    unfolding len using top u heap_base_bound by (simp add: unat_word_ariths unat_of_nat)
  moreover have "buffer m 44" using assms(7) by (simp add: buffer_def)
  moreover have "madt_entries s (m + 44) (m + ucast (le32 s (m + 4))) (record_addrs (m + 44) es)" using img unfolding len by simp
  ultimately show ?thesis
    using madt_init_parses [OF assms(1,2) _ _ _ assms(8-11), of "record_addrs (m + 44) es"] img r(2) by simp
qed

text \<open>
  C12. \<^verbatim>\<open>madt_init\<close> reads back what the firmware wrote: if the table found is the image of a list of records, of
  known types with their fields or of other types with a body, then it returns and has recorded the identifiers of the
  first sixteen enabled processors in order, the addresses of the first sixteen interrupt source overrides, address and
  interrupt base of the last I/O APIC and the address of the local APIC. Later processors and overrides are
  ignored without leaving the arrays, and no memory changes.
\<close>

theorem madt_init_reads:
  assumes "acpi_find_table (map of_char ''APIC'') s = Some m" "m \<noteq> NULL"
    and "bytes_at s m (length (madt_image rest la fl es)) = madt_image rest la fl es" "length rest = 28"
    and "\<forall>e \<in> set es. record_ok e" "length (image_of es) < 2 ^ 31" "buffer m (60 + length (image_of es))"
    and "cpu_count s = 0" "length (lapic_ids s) = 16" "iso_count s = 0" "length (isos s) = 16"
  shows "\<exists>s'. madt_init s = Some s' \<and>
           unat (cpu_count s') = min 16 (length (enabled_cpus es)) \<and>
           take (unat (cpu_count s')) (lapic_ids s') = take 16 (enabled_cpus es) \<and>
           unat (iso_count s') = min 16 (length (iso_addrs (m + 44) es)) \<and>
           take (unat (iso_count s')) (isos s') = take 16 (iso_addrs (m + 44) es) \<and>
           (ioapic_addr s', ioapic_gsi_base s') = last ((ioapic_addr s, ioapic_gsi_base s) # ioapics_of es) \<and>
           lapic_addr s' = ucast la \<and> mem s' = mem s"
  using madt_init_image [OF assms] by blast

definition sample_records :: "madt_record list" where
  "sample_records = [Lapic 0 0 1, Ioapic 0 0 0xFEC00000 0]"

lemma sample_madt: "bytes_at sample_acpi 0x2000 64 = madt_image (replicate 28 0) 0xFEE00000 0 sample_records"
  by code_simp

theorem madt_init_reads_witness:
  "\<exists>s'. madt_init sample_acpi = Some s' \<and> unat (cpu_count s') = 1 \<and> take 1 (lapic_ids s') = [0] \<and>
        ioapic_addr s' = 0xFEC00000 \<and> lapic_addr s' = 0xFEE00000"
proof -
  have l: "length (image_of sample_records) = 20" "enabled_cpus sample_records = [0]" "ioapics_of sample_records = [(0xFEC00000, 0)]"
    by code_simp+
  have b: "bytes_at sample_acpi 0x2000 (length (madt_image (replicate 28 0) 0xFEE00000 0 sample_records)) =
      madt_image (replicate 28 0) 0xFEE00000 0 sample_records"
    using sample_madt by (simp add: madt_image_def l)
  have "\<forall>e \<in> set sample_records. record_ok e" by (simp add: sample_records_def)
  from madt_init_reads [OF sample_found _ b _ this] show ?thesis
    unfolding l by (auto simp: sample_fields buffer_def KERNEL_HEAP_BASE_def)
qed

end
