(* ===== verification/Drivers.thy ===== *)
theory Drivers
  imports Apic Madt
begin

text \<open>
  The start of the interrupt hardware on a machine with a heap: which part of the state the drivers leave alone, and
  that each of them returns, given firmware tables in memory that the heap keeps off and devices that answer as documented.
\<close>

section \<open>What drivers leave alone\<close>

text \<open>A driver step changes neither memory nor allocators nor anything above the interrupt controllers.\<close>

definition dev_eq :: "'a apic_scheme \<Rightarrow> 'a apic_scheme \<Rightarrow> bool" where
  "dev_eq s s' \<longleftrightarrow> heap_eq s s' \<and> apic.more s' = apic.more s"

text \<open>Steps that also map a page for device registers keep the memory in the pages \<open>R\<close>.\<close>

definition apic_kept :: "u64 set \<Rightarrow> 'a apic_scheme \<Rightarrow> 'a apic_scheme \<Rightarrow> bool" where
  "apic_kept R s s' \<longleftrightarrow>
     (\<forall>a. page_base a \<in> R \<longrightarrow> mem s' a = mem s a) \<and> apic.more s' = apic.more s \<and>
     kernel_heap_vaddr s' = kernel_heap_vaddr s \<and> hhdm_offset s' = hhdm_offset s"

lemma dev_eq_refl [simp]: "dev_eq s s"
  by (simp add: dev_eq_def heap_eq_def)

lemma dev_eq_trans [trans]: "dev_eq s s1 \<Longrightarrow> dev_eq s1 s2 \<Longrightarrow> dev_eq s s2"
  by (simp add: dev_eq_def heap_eq_def)

lemma dev_eq_update [simp]:
  "dev_eq s (s'\<lparr>io_trace := tr\<rparr>) = dev_eq s s'" "dev_eq s (s'\<lparr>lapic_base := a\<rparr>) = dev_eq s s'"
  "dev_eq s (s'\<lparr>ioapic_base := a\<rparr>) = dev_eq s s'" "dev_eq s (s'\<lparr>lapic_freq := f\<rparr>) = dev_eq s s'"
  "dev_eq s (log_event l n s') = dev_eq s s'"
  by (simp_all add: dev_eq_def heap_eq_def log_event_def)

lemma dev_eq_io [simp]:
  "dev_eq s (lapic_write reg val s') = dev_eq s s'" "dev_eq s (snd (lapic_read d reg s')) = dev_eq s s'"
  "dev_eq s (snd (ioapic_read d r s')) = dev_eq s s'" "dev_eq s (ioapic_write r val s') = dev_eq s s'"
  by (simp_all add: lapic_write_def lapic_read_def ioapic_read_def ioapic_write_def io_in_def case_prod_beta)

lemma dev_eq_redir [simp]:
  "dev_eq s (ioapic_write_redir e val s') = dev_eq s s'" "dev_eq s (snd (ioapic_read_redir d e s')) = dev_eq s s'"
  "dev_eq s (ioapic_redirect e v fl s') = dev_eq s s'" "dev_eq s (ioapic_unmask d e s') = dev_eq s s'"
  by (simp_all add: ioapic_write_redir_def ioapic_read_redir_def ioapic_redirect_def ioapic_unmask_def case_prod_beta)

lemma dev_eq_kept: "dev_eq s s' \<Longrightarrow> apic_kept R s s'"
  by (simp add: dev_eq_def heap_eq_def apic_kept_def)

lemma apic_kept_trans: "apic_kept R s s1 \<Longrightarrow> apic_kept R s1 s2 \<Longrightarrow> apic_kept R s s2"
  by (simp add: apic_kept_def)

lemma heap_same_apic: "heap_same s s' L R \<Longrightarrow> apic_kept R s s'"
  by (auto simp: heap_same_def apic_kept_def elim!: vmm_frameE)

lemma dev_eq_ready: "dev_eq s s' \<Longrightarrow> heap_ready k s L R \<Longrightarrow> heap_ready k s' L R"
  using heap_ready_eq unfolding dev_eq_def by blast

section \<open>The drivers\<close>

lemma lapic_init_ready:
  assumes "heap_ready (k + 3) s {} R"
  shows "\<exists>s'. lapic_init d s = Some s' \<and> heap_ready k s' {} R \<and> apic_kept R s s'"
proof -
  let ?s = "s\<lparr>lapic_base := madt_get_lapic_addr s\<rparr>"
  have e: "dev_eq s ?s" by simp
  from vmm_map_ready [OF dev_eq_ready [OF e assms], of "lapic_base ?s" "lapic_base ?s - hhdm_offset ?s" VMM_KERNEL] obtain s1 where
    m: "vmm_map (vmm_get_current ?s) (lapic_base ?s) (lapic_base ?s - hhdm_offset ?s) VMM_KERNEL ?s = Some s1"
    and h: "heap_ready k s1 {} R" and same: "heap_same ?s s1 {} R" by auto
  obtain s' where run: "lapic_init d s = Some s'" and d: "dev_eq s1 s'"
    using m by (simp add: lapic_init_def Let_def case_prod_beta)
  have "apic_kept R s s'"
    using apic_kept_trans [OF dev_eq_kept [OF e] apic_kept_trans [OF heap_same_apic [OF same] dev_eq_kept [OF d]]] .
  then show ?thesis using run dev_eq_ready [OF d h] by blast
qed

lemma ioapic_mask_all_returns:
  assumes "m < 255" "unat i \<le> Suc (unat m)"
  shows "\<exists>s'. ioapic_mask_all i m s = Some s' \<and> dev_eq s s'"
  using assms(2)
proof (induction "Suc (unat m) - unat i" arbitrary: i s)
  case 0
  then have "\<not> i \<le> m" by (simp add: word_le_nat_alt)
  then show ?case by (simp add: ioapic_mask_all.simps [of i])
next
  case (Suc k)
  have im: "i \<le> m" using Suc.hyps(2) by (simp add: word_le_nat_alt)
  then have "i < 255" using assms(1) by simp
  then have ui: "unat (i + 1) = Suc (unat i)" by (rule unat_succ_u8)
  have "k = Suc (unat m) - unat (i + 1)" using Suc.hyps(2) ui by simp
  then obtain s' where "ioapic_mask_all (i + 1) m (ioapic_write_redir i IOAPIC_MASKED s) = Some s'"
    "dev_eq (ioapic_write_redir i IOAPIC_MASKED s) s'"
    using Suc.hyps(1) [of "i + 1" "ioapic_write_redir i IOAPIC_MASKED s"] ui im by (auto simp: word_le_nat_alt)
  then show ?case using im dev_eq_trans [of s "ioapic_write_redir i IOAPIC_MASKED s" s']
    by (simp add: ioapic_mask_all.simps [of i])
qed

text \<open>Bits 16 to 23 of the version register, once it is selected, are the number of the last entry, which is below 255.\<close>

definition ioapic_bounded :: "devices \<Rightarrow> bool" where
  "ioapic_bounded d \<longleftrightarrow> 
     (\<forall>tr a. (ucast (drop_bit 16 (mmio_read d (tr @ [MmioW (a + IOAPIC_REGSEL) (ucast IOAPIC_VER)]) (a + IOAPIC_IOWIN)) AND 0xFF) :: u8) < 255)"

lemma ioapic_init_ready:
  assumes "heap_ready (k + 3) s {} R" "ioapic_bounded d"
  shows "\<exists>s'. ioapic_init d s = Some s' \<and> heap_ready k s' {} R \<and> apic_kept R s s'"
proof -
  let ?s = "s\<lparr>ioapic_base := madt_get_ioapic_addr s\<rparr>"
  have e: "dev_eq s ?s" by simp
  from vmm_map_ready [OF dev_eq_ready [OF e assms(1)], of "ioapic_base ?s" "ioapic_base ?s - hhdm_offset ?s" VMM_KERNEL] obtain s1 where
    m: "vmm_map (vmm_get_current ?s) (ioapic_base ?s) (ioapic_base ?s - hhdm_offset ?s) VMM_KERNEL ?s = Some s1"
    and h: "heap_ready k s1 {} R" and same: "heap_same ?s s1 {} R" by auto
  obtain ver s2 where v: "ioapic_read d IOAPIC_VER s1 = (ver, s2)" by fastforce
  have e2: "dev_eq s1 s2" using dev_eq_io(3) [of s1 d IOAPIC_VER s1] v by simp
  let ?m = "ucast (drop_bit 16 ver AND 0xFF) :: u8"
  have "?m < 255" using assms(2) v by (auto simp: ioapic_bounded_def ioapic_read_def io_in_def io_defs Let_def)
  from ioapic_mask_all_returns [OF this, of 0 "log_info ''IOAPIC'' s2"] obtain s' where
    s': "ioapic_mask_all 0 ?m (log_info ''IOAPIC'' s2) = Some s'" "dev_eq (log_info ''IOAPIC'' s2) s'" by auto
  have d: "dev_eq s1 s'" using e2 dev_eq_trans [OF _ s'(2), of s1] by simp
  have "ioapic_init d s = Some s'" using m v s'(1) by (simp add: ioapic_init_def)
  moreover have "apic_kept R s s'"
    using apic_kept_trans [OF dev_eq_kept [OF e] apic_kept_trans [OF heap_same_apic [OF same] dev_eq_kept [OF d]]] .
  ultimately show ?thesis using dev_eq_ready [OF d h] by blast
qed

definition pit_wraps :: "devices \<Rightarrow> bool" where
  "pit_wraps d \<longleftrightarrow> (\<forall>tr. \<exists>k. pit_reading d tr k < pit_reading d tr (Suc k))"

lemma lapic_timer_init_returns:
  assumes "pit_wraps d"
  shows "\<exists>s'. lapic_timer_init d s = Some s' \<and> dev_eq s s'"
proof -
  have "\<exists>tr. calibrate_wait d 0xFFFF t = Some (t\<lparr>io_trace := tr\<rparr>)" for t :: "'a apic_scheme"
  proof -
    obtain k where "pit_reading d (io_trace t) k < pit_reading d (io_trace t) (Suc k)"
      using assms by (auto simp: pit_wraps_def)
    then show ?thesis using calibrate_wait_ends [of "0xFFFF" d t "Suc k"] by auto
  qed
  note w = this
  have b: "\<exists>s'. calibrate_wait d 0xFFFF t \<bind> (\<lambda>y. Some (g y)) = Some s' \<and> dev_eq s s'"
    if "dev_eq s t" "\<And>y. dev_eq s (g y) = dev_eq s y" for t and g :: "'a apic_scheme \<Rightarrow> 'a apic_scheme"
  proof -
    obtain tr where "calibrate_wait d 0xFFFF t = Some (t\<lparr>io_trace := tr\<rparr>)" using w [of t] by blast
    then show ?thesis using that by simp
  qed
  have "\<exists>s'. lapic_timer_calibrate d s = Some s' \<and> dev_eq s s'"
    unfolding lapic_timer_calibrate_def Let_def case_prod_beta by (rule b) simp_all
  then show ?thesis by (auto simp: lapic_timer_init_def Let_def)
qed

section \<open>Firmware tables\<close>

text \<open>
  An RSDP at \<open>r\<close> of ACPI 1.0 leads to an RSDT, whose physical address it holds and which is mapped at \<open>x\<close>; it lists the physical addresses of
  the tables, which are mapped at \<open>ts\<close>; the first one with the signature \<^verbatim>\<open>APIC\<close>, at \<open>m\<close>, is the image of the records \<open>es\<close>. All of it
  is in the pages \<open>R\<close>. (The tables of an XSDT are also listed by their physical addresses, but \<^verbatim>\<open>acpi_find_table\<close> uses them as they are.)
\<close>

definition APIC_signature :: "u8 list" where
  "APIC_signature = map of_char ''APIC''"

lemma length_APIC: "length APIC_signature = 4"
  by (simp add: APIC_signature_def)

definition firmware ::
  "u64 set \<Rightarrow> u64 \<Rightarrow> u64 \<Rightarrow> u64 \<Rightarrow> u64 list \<Rightarrow> u64 \<Rightarrow> madt_record list \<Rightarrow> 'a vmm_scheme \<Rightarrow> bool" where
  "firmware R h r x ts m es s \<longleftrightarrow>
     off_heap R r 20 \<and> byte s (r + 15) < 2 \<and> x = ucast (le32 s (r + 16)) + h \<and> x \<noteq> NULL \<and>
     36 \<le> unat (le32 s (x + 4)) \<and> off_heap R x (unat (le32 s (x + 4))) \<and>
     ts = map (\<lambda>i. ucast (le32 s (x + 36 + 4 * of_nat i)) + h) [0..<entry_count s x 4] \<and> (\<forall>t \<in> set ts. off_heap R t 4) \<and>
     m = first_or_null (signature_at s APIC_signature) ts \<and> m \<noteq> NULL \<and> off_heap R m (60 + length (image_of es)) \<and>
     length (image_of es) < 2 ^ 31 \<and> (\<forall>e \<in> set es. record_ok e) \<and>
     (\<exists>rest la fl. length rest = 28 \<and> bytes_at s m (44 + length (image_of es)) = madt_image rest la fl es)"

lemma off_heap_sub: "off_heap R a n \<Longrightarrow> i + m \<le> n \<Longrightarrow> off_heap R (a + of_nat i) m"
  using buffer_sub [of a n i m] by (auto simp: off_heap_def add.assoc simp flip: of_nat_add)

lemma spare_bytes:
  assumes "\<forall>a. page_base a \<in> R \<longrightarrow> mem s' a = mem s a" "off_heap R a n"
  shows "i < n \<Longrightarrow> byte s' (a + of_nat i) = byte s (a + of_nat i)" "le s' n a = le s n a" "bytes_at s' a n = bytes_at s a n"
    "length sig = n \<Longrightarrow> signature_at s' sig a = signature_at s sig a"
proof -
  have b: "byte s' (a + of_nat i) = byte s (a + of_nat i)" if "off_heap R a n" "i < n" for i a n
    using assms(1) that by (simp add: off_heap_def byte_def page_base_cell_of)
  show "i < n \<Longrightarrow> byte s' (a + of_nat i) = byte s (a + of_nat i)" by (rule b [OF assms(2)])
  show "le s' n a = le s n a"
    using assms(2)
  proof (induction n arbitrary: a)
    case (Suc n)
    then show ?case using b [OF Suc.prems, of 0] off_heap_sub [OF Suc.prems, of 1 n] by simp
  qed simp
  show "bytes_at s' a n = bytes_at s a n" unfolding bytes_at_def by (rule map_cong) (use b [OF assms(2)] in auto)
  show "length sig = n \<Longrightarrow> signature_at s' sig a = signature_at s sig a"
    using assms(2)
  proof (induction sig arbitrary: a n)
    case (Cons c sig)
    then show ?case using b [OF Cons.prems(2), of 0] off_heap_sub [OF Cons.prems(2), of 1 "length sig"] by auto
  qed simp
qed

lemma entry_in_table:
  assumes "i < entry_count s x 4" "36 \<le> unat (le32 s (x + 4))"
  shows "36 + 4 * i + 4 \<le> unat (le32 s (x + 4))"
proof -
  have "Suc i \<le> (unat (le32 s (x + 4)) - 36) div 4" using assms(1) by (simp add: entry_count_def)
  then have "4 * Suc i \<le> 4 * ((unat (le32 s (x + 4)) - 36) div 4)" by (rule mult_le_mono2)
  also have "\<dots> \<le> unat (le32 s (x + 4)) - 36" by simp
  finally show ?thesis using assms(2) by simp
qed

lemma firmware_cong:
  assumes fw: "firmware R h r x ts m es s" and same: "\<forall>a. page_base a \<in> R \<longrightarrow> mem s' a = mem s a"
  shows "firmware R h r x ts m es s'"
proof -
  note d = fw [unfolded firmware_def]
  have r: "off_heap R r 20" and x: "36 \<le> unat (le32 s (x + 4))" "off_heap R x (unat (le32 s (x + 4)))"
    and ts: "ts = map (\<lambda>i. ucast (le32 s (x + 36 + 4 * of_nat i)) + h) [0..<entry_count s x 4]" "\<forall>t \<in> set ts. off_heap R t 4"
    and m: "off_heap R m (60 + length (image_of es))" using d by blast+
  have 1: "byte s' (r + 15) = byte s (r + 15)" using spare_bytes(1) [OF same r, of 15] by simp
  have 2: "le s' 4 (r + 16) = le s 4 (r + 16)" using spare_bytes(2) [OF same off_heap_sub [OF r, of 16 4]] by simp
  have 3: "le s' 4 (x + 4) = le s 4 (x + 4)" using spare_bytes(2) [OF same off_heap_sub [OF x(2), of 4 4]] x(1) by simp
  have "le s' 4 (x + 36 + 4 * of_nat i) = le s 4 (x + 36 + 4 * of_nat i)" if "i < entry_count s x 4" for i
    using spare_bytes(2) [OF same off_heap_sub [OF x(2), of "36 + 4 * i" 4]] entry_in_table [OF that x(1)] by (simp add: add.assoc)
  then have 4: "map (\<lambda>i. ucast (le32 s' (x + 36 + 4 * of_nat i)) + h) [0..<entry_count s x 4] = ts" unfolding ts(1) by (intro map_cong) auto
  have 5: "entry_count s' x 4 = entry_count s x 4" by (simp add: entry_count_def 3)
  have "signature_at s' APIC_signature t = signature_at s APIC_signature t" if "t \<in> set ts" for t
    by (rule spare_bytes(4) [OF same]) (use ts(2) that in \<open>auto simp: length_APIC\<close>)
  then have 6: "first_or_null (signature_at s' APIC_signature) ts = first_or_null (signature_at s APIC_signature) ts"
    unfolding first_or_null_def by (subst find_cong [OF refl, of ts]) auto
  have 7: "bytes_at s' m (44 + length (image_of es)) = bytes_at s m (44 + length (image_of es))"
    using spare_bytes(3) [OF same off_heap_sub [OF m, of 0 "44 + length (image_of es)"]] by simp
  show ?thesis using d unfolding firmware_def 1 2 3 4 5 6 7 by auto
qed

lemma firmware_read:
  assumes fw: "firmware R (hhdm_offset s) r x ts m es s" and z: "cpu_count s = 0" "length (lapic_ids s) = 16" "iso_count s = 0"
    "length (isos s) = 16" "xsdt s = NULL"
  shows "\<exists>s1 s2. acpi_init r s = Some s1 \<and> acpi_find_table APIC_signature s1 = Some m \<and> m \<noteq> NULL \<and>
     madt_init (log_debug ''ACPI'' s1) = Some s2 \<and> heap_eq s s2 \<and> acpi.more s2 = acpi.more s"
proof -
  note d = fw [unfolded firmware_def]
  have r: "buffer r 20" "byte s (r + 15) < 2" "x = ucast (le32 s (r + 16)) + hhdm_offset s" "x \<noteq> NULL" using d by (auto simp: off_heap_def)
  let ?s1 = "log_warn ''ACPI'' (s\<lparr>rsdt := x\<rparr>)" and ?s2 = "log_debug ''ACPI'' (log_warn ''ACPI'' (s\<lparr>rsdt := x\<rparr>))"
  have "load8 (r + 15) s = Some (byte s (r + 15))" using unat_buffer(2) [OF r(1), of 15] by simp
  moreover have "field32 (r + 16) s = Some (le32 s (r + 16))" using fields_direct(2) [OF buffer_sub [OF r(1), of 16 4]] by simp
  moreover have "(2 \<le> byte s (r + 15)) = False" using r(2) by (simp add: not_le)
  ultimately have i: "acpi_init r s = Some ?s1" using r(3) by (simp add: acpi_init_def acpi_offsets)
  have same: "\<forall>a. page_base a \<in> R \<longrightarrow> mem t a = mem s a" if "mem t = mem s" for t :: "'a acpi_scheme" using that by simp
  have t: "acpi_find_table APIC_signature u = Some m" if u: "mem u = mem s" "xsdt u = NULL" "rsdt u = x" "hhdm_offset u = hhdm_offset s"
    for u :: "'a acpi_scheme"
  proof -
    note du = firmware_cong [OF fw same [OF u(1)], unfolded firmware_def]
    have ts: "rsdt_tables u = ts" unfolding rsdt_tables_def u(3,4) using du by blast
    have "root_table_ok u (rsdt u)" unfolding u(3) root_table_ok_def using du by (auto simp: off_heap_def)
    moreover have "\<forall>t \<in> set (rsdt_tables u). buffer t (length APIC_signature)"
      unfolding ts length_APIC using du off_heap_def by blast
    ultimately show ?thesis using acpi_find_table_spec [of u APIC_signature] du r(4) u(2,3) ts by simp
  qed
  have f1: "acpi_find_table APIC_signature ?s1 = Some m" by (rule t) (simp_all add: log_event_def z)
  have f2: "acpi_find_table (map of_char ''APIC'') ?s2 = Some m"
    unfolding APIC_signature_def [symmetric] by (rule t) (simp_all add: log_event_def z)
  have "mem ?s2 = mem s" by (simp add: log_event_def)
  note d2 = firmware_cong [OF fw same [OF this], unfolded firmware_def]
  obtain rest la fl where im: "length rest = 28" "bytes_at ?s2 m (44 + length (image_of es)) = madt_image rest la fl es"
    using d2 by blast
  have len: "length (madt_image rest la fl es) = 44 + length (image_of es)" using im(1) by (simp add: madt_image_def)
  have m: "m \<noteq> NULL" "\<forall>e \<in> set es. record_ok e" "length (image_of es) < 2 ^ 31" "buffer m (60 + length (image_of es))"
    using d by (auto simp: off_heap_def)
  have "\<exists>s2. madt_init ?s2 = Some s2 \<and> heap_eq ?s2 s2 \<and> acpi.more s2 = acpi.more ?s2"
    using madt_init_image [OF f2 m(1) im(2) [folded len] im(1) m(2-4)] z by (auto simp: log_event_def)
  then obtain s2 where "madt_init ?s2 = Some s2" "heap_eq s s2" "acpi.more s2 = acpi.more s"
    by (auto simp: log_event_def heap_eq_def)
  then show ?thesis using i f1 m(1) by blast
qed

end
