(* ===== verification/Boot.thy ===== *)
theory Boot
  imports Kmain Drivers
begin

text \<open>
  The whole of \<^verbatim>\<open>kmain\<close>: the stages of the boot sequence one after the other, from the state in which the boot loader
  leaves the machine to the halt with both tasks in the queue of the scheduler.
\<close>

section \<open>Interrupts\<close>

lemma acpi_more_apic: "acpi.more s' = acpi.more s \<Longrightarrow> apic.more s' = apic.more s" for s s' :: "'a apic_scheme"
  by (cases s; cases s') simp

text \<open>What the kernel finds before the ACPI tables are read.\<close>

definition acpi_zero :: "'a acpi_scheme \<Rightarrow> bool" where
  "acpi_zero s \<longleftrightarrow> cpu_count s = 0 \<and> length (lapic_ids s) = 16 \<and> iso_count s = 0 \<and> length (isos s) = 16 \<and> xsdt s = NULL"

lemma boot_interrupts_ready:
  fixes s :: "'a machine_scheme"
  assumes h: "heap_ready (k + 6) s {} R" and fw: "firmware R (hhdm_offset s) r x ts m es s" and z: "acpi_zero s"
    and d: "ioapic_bounded d" "pit_wraps d"
  shows "\<exists>s'. boot_interrupts d r s = Some s' \<and> heap_ready k s' {} R \<and> apic_kept R s s'"
proof -
  from firmware_read [OF fw] z obtain s1 s2 where
    a: "acpi_init r s = Some s1" "acpi_find_table (map of_char ''APIC'') s1 = Some m" "m \<noteq> NULL"
      "madt_init (log_debug ''ACPI'' s1) = Some s2" and e: "heap_eq s s2" "acpi.more s2 = acpi.more s"
    by (auto simp: acpi_zero_def APIC_signature_def)
  have e: "dev_eq s s2" using e acpi_more_apic unfolding dev_eq_def by blast
  have h2: "heap_ready (k + 3 + 3) s2 {} R" using dev_eq_ready [OF e h] by (simp add: add.assoc)
  from lapic_init_ready [OF h2, of d] obtain s3 where l: "lapic_init d s2 = Some s3" "heap_ready (k + 3) s3 {} R" "apic_kept R s2 s3" by blast
  from ioapic_init_ready [OF l(2) d(1)] obtain s4 where i: "ioapic_init d s3 = Some s4" "heap_ready k s4 {} R" "apic_kept R s3 s4" by blast
  from lapic_timer_init_returns [OF d(2), of s4] obtain s5 where t: "lapic_timer_init d s4 = Some s5" "dev_eq s4 s5" by blast
  obtain s' where run: "boot_interrupts d r s = Some s'" and e': "dev_eq s5 s'"
    using a l(1) i(1) t(1) by (simp add: boot_interrupts_def Let_def)
  have e'': "dev_eq s4 s'" using t(2) e' by (rule dev_eq_trans)
  have "apic_kept R s s'"
    using apic_kept_trans [OF dev_eq_kept [OF e] apic_kept_trans [OF l(3) apic_kept_trans [OF i(3) dev_eq_kept [OF e'']]]] .
  then show ?thesis using run dev_eq_ready [OF e'' i(2)] by blast
qed

section \<open>The test allocations\<close>

lemma heap_same_none: "heap_same s s1 L R \<Longrightarrow> heap_same s1 s2 M R \<Longrightarrow> heap_same s s2 {} R"
  by (auto simp: heap_same_def keeps_def intro: vmm_frame_trans)

lemma heap_same_logged: "heap_same s (log_event l n s) {} R"
  by (simp add: heap_same_def keeps_def log_event_def vmm_frame_def)

lemma heap_ready_logged: "heap_ready k s L R \<Longrightarrow> heap_ready k (log_event l n s) L R"
  by (rule heap_ready_eq) (simp_all add: heap_eq_def log_event_def)

lemma pair_minus: "x \<notin> {y} \<Longrightarrow> {x, y} - {y} = {x}"
  by auto

lemma test_kmalloc_ready:
  fixes s :: "'a machine_scheme"
  assumes h: "heap_ready (k + 3) s {} R"
  shows "\<exists>s'. test_kmalloc s = Some s' \<and> heap_ready k s' {} R \<and> heap_same s s' {} R"
proof -
  have h0: "heap_ready (Suc (Suc (Suc k))) s {} R" using h by (simp add: numeral_3_eq_3)
  from kmalloc_ready [OF h0, of 64] obtain a s1 n where
    a: "kmalloc 64 s = Some (a, s1)" "direct (a - 24)" "heap_ready (Suc (Suc k)) s1 {(a - 24, n)} R" "heap_same s s1 {} R" by auto
  from kmalloc_ready [OF a(3), of 128] obtain b s2 m where
    b: "kmalloc 128 s1 = Some (b, s2)" "direct (b - 24)" "(b - 24, m) \<notin> {(a - 24, n)}"
      "heap_ready (Suc k) s2 {(b - 24, m), (a - 24, n)} R" "heap_same s1 s2 {(a - 24, n)} R" by auto
  let ?s2 = "log_debug ''TEST'' s2"
  from kfree_ready [OF heap_ready_logged [OF b(4)], of a n] a(2) obtain s3 where
    fa: "kfree a ?s2 = Some s3" "heap_ready (Suc k) s3 ({(b - 24, m), (a - 24, n)} - {(a - 24, n)}) R"
      "heap_same ?s2 s3 ({(b - 24, m), (a - 24, n)} - {(a - 24, n)}) R" by blast
  have h3: "heap_ready (Suc k) s3 {(b - 24, m)} R" using fa(2) unfolding pair_minus [OF b(3)] .
  from kmalloc_ready [OF h3, of 64] obtain c s4 j where
    c: "kmalloc 64 s3 = Some (c, s4)" "direct (c - 24)" "(c - 24, j) \<notin> {(b - 24, m)}"
      "heap_ready k s4 {(c - 24, j), (b - 24, m)} R" "heap_same s3 s4 {(b - 24, m)} R" by auto
  let ?s4 = "log_debug ''TEST'' s4"
  from kfree_ready [OF heap_ready_logged [OF c(4)], of b m] b(2) obtain s5 where
    fb: "kfree b ?s4 = Some s5" "heap_ready k s5 ({(c - 24, j), (b - 24, m)} - {(b - 24, m)}) R"
      "heap_same ?s4 s5 ({(c - 24, j), (b - 24, m)} - {(b - 24, m)}) R" by blast
  have h5: "heap_ready k s5 {(c - 24, j)} R" using fb(2) unfolding pair_minus [OF c(3)] .
  from kfree_ready [OF h5, of c j] c(2) obtain s' where
    fc: "kfree c s5 = Some s'" "heap_ready k s' {} R" "heap_same s5 s' {} R" by auto
  have "heap_same s ?s2 {} R" by (rule heap_same_none [OF heap_same_none [OF a(4) b(5)] heap_same_logged])
  moreover have "heap_same ?s2 ?s4 {} R" by (rule heap_same_none [OF heap_same_none [OF fa(3) c(5)] heap_same_logged])
  moreover have "heap_same ?s4 s' {} R" by (rule heap_same_none [OF fb(3) fc(3)])
  ultimately have "heap_same s s' {} R" by (meson heap_same_trans)
  moreover have "test_kmalloc s = Some s'" using a(1) b(1) fa(1) c(1) fb(1) fc(1) by (simp add: test_kmalloc_def)
  ultimately show ?thesis using fc(2) by blast
qed

section \<open>The test file\<close>

lemma overwritten_outside:
  assumes "overwritten s s' buf l out" "off_heap R buf n" "l \<le> n"
  shows "page_base a \<notin> R \<Longrightarrow> mem s' a = mem s a" "page_base a \<notin> pages_of buf n \<Longrightarrow> mem s' a = mem s a"
proof -
  have "a \<noteq> cell_of b" if "in_buf buf l b" "page_base a \<notin> pages_of buf n" for b
    using that assms(3) by (auto simp: in_buf_def pages_of_def page_base_cell_of)
  then show *: "page_base a \<notin> pages_of buf n \<Longrightarrow> mem s' a = mem s a" using assms(1) unfolding overwritten_def by blast
  have "pages_of buf n \<subseteq> R" using assms(2) by (auto simp: off_heap_def pages_of_def)
  then show "page_base a \<notin> R \<Longrightarrow> mem s' a = mem s a" using * by blast
qed

lemma read_ready:
  fixes s :: "'a tmpfs_scheme"
  assumes r: "tmpfs_ready r L R k s" and v: "vnodes s v = Some n" "entry_node r n e" and buf: "off_heap R buf (unat sz)"
  shows "\<exists>c s'. vfs_read call_read v 0 sz buf s = Some (c, s') \<and> tmpfs_ready r L R k s' \<and> vnodes s' = vnodes s \<and>
     vfs_root s' = vfs_root s \<and> spare_kept (R - pages_of buf (unat sz)) s s' \<and>
     (\<forall>a nm cs. e = File a nm cs \<longrightarrow> bytes_at s' buf (min (length cs) (unat sz)) = take (unat sz) cs)"
proof (cases e)
  case (File a nm cs)
  have "unat (0 :: u64) + unat sz < 2 ^ 64" using unat_u64_less [of sz] by simp
  from tmpfs_read_slice [OF r v(1) v(2) [unfolded File] buf this] obtain s' where
    s': "vfs_read call_read v 0 sz buf s = Some (of_nat (length (take (unat sz) cs)), s')"
    "overwritten s s' buf (length (take (unat sz) cs)) (take (unat sz) cs)" by auto
  have le: "length (take (unat sz) cs) \<le> unat sz" by simp
  note o = overwritten_outside [OF s'(2) buf le]
  have eq: "s\<lparr>mem := mem s'\<rparr> = s'" and b: "bytes_at s' buf (length (take (unat sz) cs)) = take (unat sz) cs"
    using s'(2) by (simp_all add: overwritten_def)
  have f: "vnodes s' = vnodes s" "vfs_root s' = vfs_root s" "sched_vars s' = sched_vars s"
    by (subst eq [symmetric], simp add: sched_vars_def)+
  have "tmpfs_ready r L R k s'" using tmpfs_ready_outside [OF r o(1)] unfolding eq .
  moreover have "spare_kept (R - pages_of buf (unat sz)) s s'" using o(2) f(3) by (simp add: spare_kept_def)
  ultimately show ?thesis using s'(1) f(1,2) b File by (simp add: min.commute)
next
  case (Dir a nm es)
  have "Dir a nm es \<in> set (entries r)" using v(2) Dir by (simp add: entry_node_def)
  from tmpfs_ready_entry(1) [OF r this] obtain t where "tnodes s a = Some t" "t_size t = 0" by auto
  then have "vfs_read call_read v 0 sz buf s = Some (0, s)"
    using v Dir by (simp add: vfs_read_def entry_node_def tmpfs_read_def)
  then show ?thesis using r Dir spare_kept_refl by auto
qed

definition test_names :: "u8 list list" where
  "test_names = [chars ''etc'', chars ''test.txt'']"

lemma test_path: "path_names (chars ''/etc/test.txt'') = test_names"
  by (simp add: path_names_def test_names_def slash_def)

lemma test_file_ready:
  fixes s :: "'a machine_scheme"
  assumes r: "tmpfs_ready r L R (k + 2) s" and buf: "off_heap R (test_buf img) 13"
  shows "\<exists>s'. test_file img s = Some s' \<and> tmpfs_ready r L R k s' \<and> spare_kept (R - pages_of (test_buf img) 13) s s' \<and>
     (\<forall>a nm cs. resolve entry_child r test_names = Some (File a nm cs) \<longrightarrow>
        bytes_at s' (test_buf img) (min (length cs) 13) = take 13 cs)"
proof -
  let ?path = "chars ''/etc/test.txt''" and ?Q = "R - pages_of (test_buf img) 13"
  have "tmpfs_ready r L R (k + length (path_names ?path)) s" using r unfolding test_path by (simp add: test_names_def)
  moreover have "path_names ?path \<noteq> []" unfolding test_path by (simp add: test_names_def)
  moreover have "length ?path < 256" "0 \<notin> set ?path" "?path \<noteq> []" by simp_all
  ultimately obtain f s1 where
    fd: "vfs_find_path call_finddir (Some ?path) s = Some (f, s1)" and r1: "tmpfs_ready r L R k s1" and rt: "vfs_root s1 = vfs_root s"
    and k1: "spare_kept R s s1" and out: "walk_outcome entry_child entry_dir (entry_node r) (vnodes s) r test_names f (vnodes s1)"
    using find_path_ready [of r L R k ?path s] unfolding find_path_outcome_def test_path by auto
  have kq: "spare_kept ?Q s s1" by (rule spare_kept_mono [OF k1]) blast
  show ?thesis
  proof (cases "resolve entry_child r test_names")
    case None
    then have "test_file img s = Some (log_error ''VFS'' s1)" using fd out by (simp add: test_file_def walk_outcome_def)
    moreover have "tmpfs_ready r L R k (log_error ''VFS'' s1)" "spare_kept ?Q s (log_error ''VFS'' s1)"
      using tmpfs_ready_log [OF r1] kq by (simp_all add: log_event_def)
    ultimately show ?thesis using None by simp
  next
    case (Some e)
    then obtain n where n: "vnodes s1 = (vnodes s)(f \<mapsto> n)" "entry_node r n e" "f \<notin> dom (vnodes s)" "f \<noteq> NULL"
      using out by (auto simp: walk_outcome_def)
    let ?s1 = "log_info ''VFS'' s1"
    have r1': "tmpfs_ready r L R k ?s1" using tmpfs_ready_log [OF r1] by (simp add: log_event_def)
    have v1: "vnodes ?s1 f = Some n" using n(1) by (simp add: log_event_def)
    have "off_heap R (test_buf img) (unat (13 :: u64))" using buf by simp
    from read_ready [OF r1' v1 n(2) this] obtain c s2 where
      rd: "vfs_read call_read f 0 13 (test_buf img) ?s1 = Some (c, s2)" and r2: "tmpfs_ready r L R k s2"
      and f2: "vnodes s2 = vnodes ?s1" "vfs_root s2 = vfs_root ?s1" and k2: "spare_kept ?Q ?s1 s2"
      and b: "\<forall>a nm cs. e = File a nm cs \<longrightarrow> bytes_at s2 (test_buf img) (min (length cs) 13) = take 13 cs" by auto
    let ?s2 = "log_debug ''VFS'' s2"
    have r2': "tmpfs_ready r L R k ?s2" using tmpfs_ready_log [OF r2] by (simp add: log_event_def)
    have "f \<in> dom (vnodes ?s2)" using f2(1) n(1) by (simp add: log_event_def)
    moreover have "vfs_root s \<in> dom (vnodes s)" using r by (auto simp: tmpfs_ready_def)
    then have "f \<noteq> vfs_root ?s2" using n(3) f2(2) rt by (auto simp: log_event_def)
    ultimately obtain s' where c: "vfs_close f ?s2 = Some s'" "tmpfs_ready r L R k s'" "spare_kept R ?s2 s'"
      using tmpfs_close_ready [OF r2'] by blast
    have "spare_kept ?Q s ?s1" using kq by (simp add: log_event_def)
    note k = spare_kept_trans [OF this k2]
    have "spare_kept ?Q s ?s2" using k by (simp add: log_event_def)
    moreover have "spare_kept ?Q ?s2 s'" by (rule spare_kept_mono [OF c(3)]) blast
    ultimately have "spare_kept ?Q s s'" by (rule spare_kept_trans)
    moreover have "test_file img s = Some s'" using fd n(4) rd c(1) by (simp add: test_file_def)
    moreover have "bytes_at s' (test_buf img) j = bytes_at s2 (test_buf img) j" if "j \<le> 13" for j
    proof -
      have "off_heap R (test_buf img) j" using off_heap_sub [OF buf, of 0 j] that by simp
      from spare_bytes(3) [OF _ this, of s' ?s2] c(3) have "bytes_at s' (test_buf img) j = bytes_at ?s2 (test_buf img) j"
        by (simp add: spare_kept_def)
      then show ?thesis by (simp add: bytes_at_def byte_def log_event_def)
    qed
    ultimately show ?thesis using c(2) b Some by auto
  qed
qed

section \<open>The tasks\<close>

lemma sched_more_files:
  fixes s s' :: "'a tmpfs_scheme"
  assumes "sched.more s' = sched.more s"
  shows "vnodes s' = vnodes s" "vfs_root s' = vfs_root s" "tnodes s' = tnodes s" "root_internal s' = root_internal s"
  using assms by (cases s; cases s'; simp)+

lemma stored_mono: "stored L s r \<Longrightarrow> L \<subseteq> M \<Longrightarrow> stored M s r"
proof -
  assume *: "stored L s r" "L \<subseteq> M"
  have "node_of M s e" if "node_of L s e" for e
    using that *(2) by (cases e) (fastforce simp: contents_def)+
  then show ?thesis using * unfolding stored_def by blast
qed

text \<open>Whoever allocates more blocks and keeps the old ones leaves the file system intact.\<close>

lemma tmpfs_ready_more:
  fixes s :: "'a tmpfs_scheme"
  assumes r: "tmpfs_ready r L R k s" and h: "heap_ready k s (L \<union> open_blocks zs s) R"
    and ob: "\<forall>(q, m) \<in> open_blocks zs s. direct q \<and> (q, m) \<notin> L" and h': "heap_ready j s' M R"
    and M: "L \<union> open_blocks zs s \<subseteq> M" and kp: "keeps s s' (L \<union> open_blocks zs s)" and sm: "sched.more s' = sched.more s"
  shows "tmpfs_ready r (M - open_blocks zs s) R j s'"
proof -
  note f = sched_more_files [OF sm]
  have o: "open_blocks zs s' = open_blocks zs s" by (simp add: open_blocks_def f)
  have d: "stored L s r" "entry_dir r" "root_internal s = e_addr r" "\<exists>n. vnodes s (vfs_root s) = Some n \<and> entry_node r n r"
    using r by (auto simp: tmpfs_ready_def tmpfs_holds_def)
  have "stored L s' r" by (rule stored_keeps [OF h kp _ _ d(1) f(3)]) auto
  then have "stored (M - open_blocks zs s) s' r" by (rule stored_mono) (use M ob in auto)
  moreover have "M - open_blocks zs s \<union> open_blocks zs s' = M" using M unfolding o by blast
  ultimately have "tmpfs_holds r (M - open_blocks zs s) R j s'"
    using h' ob d(2,3) unfolding tmpfs_holds_def o f by (auto intro!: exI [of _ zs] simp: o)
  then show ?thesis using d(4) by (simp add: tmpfs_ready_def f)
qed

lemma boot_tasks_files:
  fixes s :: "'a machine_scheme"
  assumes r: "tmpfs_ready r L R (k + 20) s" and v: "unat (kernel_heap_vaddr s) + 16384 < 2 ^ 64" and st: "boot_statics img R s"
  shows "\<exists>ta tb s' L' M. boot_tasks img s = Some s' \<and> sched_inv s' [tb, ta] \<and> current s' = idle_thread s \<and> locked s' = 0 \<and>
     task_waits (name_at s (task_a_name img)) (task_a_code img) (next_pid s) (next_tid s) s' M ta \<and>
     task_waits (name_at s (task_b_name img)) (task_b_code img) (next_pid s + 1) (next_tid s + 1) s' M tb \<and>
     tmpfs_ready r L' R k s' \<and> (\<forall>a. page_base a \<in> R \<longrightarrow> mem s' a = mem s a)"
proof -
  obtain zs where h: "heap_ready (k + 20) s (L \<union> open_blocks zs s) R"
    and ob: "\<forall>(q, m) \<in> open_blocks zs s. direct q \<and> (q, m) \<notin> L" by (rule tmpfs_holdsE [OF tmpfs_readyD [OF r]])
  from boot_tasks_ready [OF h v st] obtain ta tb s' M where
    b: "boot_tasks img s = Some s'" "sched_inv s' [tb, ta]" "current s' = idle_thread s" "locked s' = 0"
     "task_waits (name_at s (task_a_name img)) (task_a_code img) (next_pid s) (next_tid s) s' M ta"
     "task_waits (name_at s (task_b_name img)) (task_b_code img) (next_pid s + 1) (next_tid s + 1) s' M tb"
    and h': "heap_ready k s' M R" "L \<union> open_blocks zs s \<subseteq> M" "keeps s s' (L \<union> open_blocks zs s)" "sched.more s' = sched.more s"
    and m: "\<forall>a. page_base a \<in> R \<longrightarrow> mem s' a = mem s a" by blast
  have "tmpfs_ready r (M - open_blocks zs s) R k s'" by (rule tmpfs_ready_more [OF r h ob h'])
  then show ?thesis using b m by blast
qed

section \<open>The background and the tables\<close>

lemma draw_background_returns: "\<exists>px. draw_background fb s = Some (s\<lparr>pixels := px\<rparr>)"
proof -
  have row: "\<exists>t'. for_u64 0 (fb_width fb) (\<lambda>j s. Some (s\<lparr>pixels := (pixels s)(f j := g j)\<rparr>)) t = Some t' \<and> (\<exists>px. t' = s\<lparr>pixels := px\<rparr>)"
    if "\<exists>px. t = s\<lparr>pixels := px\<rparr>" for f g t
    by (rule for_u64_rule [where I = "\<lambda>_ t. \<exists>px. t = s\<lparr>pixels := px\<rparr>"]) (use that in auto)
  have "\<exists>t. draw_background fb s = Some t \<and> (\<exists>px. t = s\<lparr>pixels := px\<rparr>)"
    unfolding draw_background_def
    by (rule for_u64_rule [where I = "\<lambda>_ t. \<exists>px. t = s\<lparr>pixels := px\<rparr>"]) (use row in \<open>auto intro: exI [of _ "pixels s"]\<close>)
  then show ?thesis by blast
qed

lemma boot_tables_returns:
  assumes "length (gdt (segs s)) = 7" "length (data_sels (segs s)) = 5" "length (idt (idt_state s)) = 256"
    "length (isr_stub_table img) = 32" "length (irq_stub_table img) = 16"
  shows "\<exists>g tr gt. boot_tables d img s = Some (s\<lparr>segs := g, io_trace := tr, idt_state := gt\<rparr>)"
proof -
  obtain g where g: "gdt_init (segs s) = Some g" using gdt_init_spec [OF assms(1,2)] by blast
  obtain gt where "idt_init d (isr_stub_table img) (irq_stub_table img) (io_trace s) (idt_state s) = Some (pic_init d (io_trace s), gt)"
    using idt_init_spec [OF assms(3-5)] by blast
  then have "boot_tables d img s = Some (s\<lparr>segs := g, io_trace := pic_init d (io_trace s), idt_state := gt\<rparr>)"
    using g by (simp add: boot_tables_def)
  then show ?thesis by blast
qed

section \<open>The memory\<close>

text \<open>Pages that the boot loader does not report as usable and that are not its page tables.\<close>

definition boot_reserved :: "boot_info \<Rightarrow> u64 set \<Rightarrow> 'a vmm_scheme \<Rightarrow> bool" where
  "boot_reserved b R s \<longleftrightarrow>
     (\<forall>p \<in> R. unat (p - hhdm b) div 4096 \<notin> set (usable_pages (memmap b)) \<and>
        (\<forall>q. table_path q \<longrightarrow> tbl (hhdm b) (mem s) (page_base (cr3 s) + hhdm b) q \<noteq> Some p))"

lemma boot_heap_ready:
  assumes "boot_memory_ok b" "boot_page_tables b s" "free_pages s = 0" and c: "length (caches s) = 6"
    "kernel_heap_vaddr s = KERNEL_HEAP_BASE" and n: "bitmap_pages (memmap b) + k + 6 \<le> length (usable_pages (memmap b))"
    and R: "boot_reserved b R s"
  shows "\<exists>s1 s2. boot_memory b s = Some s1 \<and> heap_init s1 = Some s2 \<and> heap_ready k s2 {} R \<and> hhdm_offset s2 = hhdm b \<and>
     kernel_heap_vaddr s2 = KERNEL_HEAP_BASE \<and> heap.more s2 = heap.more s \<and> (\<forall>a. page_base a \<in> R \<longrightarrow> mem s2 a = mem s a)"
proof -
  from boot_memory_pages [OF assms(1-3)] obtain s1 e where
    m: "boot_memory b s = Some s1" and ok: "pages_ok s1" "total_pages s1 \<le> 2 ^ 40"
    and fs: "free_set s1 = set (usable_pages (memmap b)) - bitmap_frames (memmap b) e"
    and f: "caches s1 = caches s" "kernel_heap_vaddr s1 = kernel_heap_vaddr s" "mem s1 = mem s" "hhdm_offset s1 = hhdm b"
      "root s1 = page_base (cr3 s) + hhdm b" "heap.more s1 = heap.more s" by blast
  have "length (usable_pages (memmap b)) \<le> card (free_frames s1) + bitmap_pages (memmap b)"
    using boot_free_frames [OF _ _ fs] assms(1) ok by (auto simp: boot_memory_ok_def pages_ok_def vmm_inv_def pmm_ok_def)
  then have k: "k + 6 \<le> card (free_frames s1)" using n by simp
  have R1: "\<forall>p \<in> R. p - hhdm_offset s1 \<notin> free_frames s1 \<and> p \<notin> tables s1 (root s1)"
    using R unfolding boot_reserved_def tables_def free_frames_def fs f by auto
  from heap_init_ready [OF ok _ _ k R1] c f(1,2) obtain s2 where
    h: "heap_init s1 = Some s2" "heap_ready k s2 {} R" "kernel_heap_vaddr s2 = KERNEL_HEAP_BASE" "used_kept s1 s2"
      "vmm_frame (s1\<lparr>caches := caches s2\<rparr>) s2" by auto
  obtain c l bm n m i where "s2 = s1\<lparr>caches := c, klog := l, bitmap := bm, free_pages := n, mem := m, invlpg := i\<rparr>"
    using h(5) unfolding vmm_frame_def by blast
  then have "heap.more s2 = heap.more s1" by simp
  moreover have "hhdm_offset s2 = hhdm b" "\<forall>a. page_base a \<in> R \<longrightarrow> mem s2 a = mem s a"
    using h(4) R1 f(3,4) by (simp_all add: used_kept_def)
  ultimately show ?thesis using m h(1-3) f(6) by auto
qed

section \<open>From the boot loader to the scheduler\<close>

text \<open>What the stages leave alone.\<close>

lemma heap_more_static:
  fixes s s' :: "'a machine_scheme"
  assumes "heap.more s' = heap.more s"
  shows "acpi_zero s' = acpi_zero s" "apic.more s' = apic.more s"
  using assms by (cases s; cases s'; simp add: acpi_zero_def)+

lemma apic_more_static:
  fixes s s' :: "'a machine_scheme"
  assumes "apic.more s' = apic.more s"
  shows "vnodes s' = vnodes s" "kernel_heap_vaddr s' = kernel_heap_vaddr s \<Longrightarrow> sched_vars s' = sched_vars s"
  using assms by (cases s; cases s'; simp add: sched_vars_def)+

lemma boot_statics_kept: "sched_vars s' = sched_vars s \<Longrightarrow> boot_statics img R s \<Longrightarrow> boot_statics img R s'"
  by (simp add: boot_statics_def sched_vars_def)

text \<open>Initial values of the static variables, as the linker lays them out.\<close>

definition static_init :: "image \<Rightarrow> 'a machine_scheme \<Rightarrow> bool" where
  "static_init img s \<longleftrightarrow>
     free_pages s = 0 \<and> length (caches s) = 6 \<and> kernel_heap_vaddr s = KERNEL_HEAP_BASE \<and> acpi_zero s \<and> vnodes s = Map.empty \<and>
     length (gdt (segs s)) = 7 \<and> length (data_sels (segs s)) = 5 \<and> length (idt (idt_state s)) = 256 \<and>
     length (isr_stub_table img) = 32 \<and> length (irq_stub_table img) = 16"

text \<open>The stages up to the test allocations.\<close>

definition boot_hardware :: "devices \<Rightarrow> image \<Rightarrow> boot_info \<Rightarrow> framebuffer \<Rightarrow> u64 \<Rightarrow> 'a machine_scheme \<Rightarrow> 'a machine_scheme option" where
  "boot_hardware d img b fb r s = do {
     s \<leftarrow> draw_background fb s;
     s \<leftarrow> boot_tables d img s;
     s \<leftarrow> boot_memory b s;
     s \<leftarrow> heap_init s;
     s \<leftarrow> boot_interrupts d r s;
     test_kmalloc (log_debug ''TEST'' (log_debug ''TEST'' (log_info ''KERNEL'' s))) }"

lemma kmain_stages:
  assumes "base_revision_supported b" "framebuffers b = Some (fb # fbs)" "rsdp b = Some r"
  shows "kmain d img b s = do {
     s \<leftarrow> boot_hardware d img b fb r s;
     s \<leftarrow> tmpfs_init s;
     s \<leftarrow> initrd_init (modules b) s;
     s \<leftarrow> test_file img s;
     s \<leftarrow> boot_tasks img s;
     Some (Hcf_booted s) }"
  using assms by (simp add: kmain_def boot_hardware_def Let_def)

lemma boot_hardware_ready:
  fixes s :: "'a machine_scheme"
  assumes mm: "boot_memory_ok b" "boot_page_tables b s" "boot_reserved b R s" and st: "static_init img s"
    and fw: "firmware R (hhdm b) r x ts m es s" and d: "ioapic_bounded d" "pit_wraps d"
    and n: "bitmap_pages (memmap b) + k + 15 \<le> length (usable_pages (memmap b))"
  shows "\<exists>s'. boot_hardware d img b fb r s = Some s' \<and> heap_ready k s' {} R \<and> vnodes s' = Map.empty \<and> spare_kept R s s'"
proof -
  obtain px where dr: "draw_background fb s = Some (s\<lparr>pixels := px\<rparr>)" using draw_background_returns by blast
  have "\<exists>g tr gt. boot_tables d img (s\<lparr>pixels := px\<rparr>) = Some (s\<lparr>pixels := px, segs := g, io_trace := tr, idt_state := gt\<rparr>)"
    using boot_tables_returns [of "s\<lparr>pixels := px\<rparr>" img d] st by (simp add: static_init_def)
  then obtain s1 where t: "boot_tables d img (s\<lparr>pixels := px\<rparr>) = Some s1"
    and f1: "mem s1 = mem s" "cr3 s1 = cr3 s" "free_pages s1 = free_pages s" "caches s1 = caches s"
      "kernel_heap_vaddr s1 = kernel_heap_vaddr s" "acpi_zero s1 = acpi_zero s" "vnodes s1 = vnodes s" "sched_vars s1 = sched_vars s"
    by (force simp: acpi_zero_def sched_vars_def)
  have m1: "boot_page_tables b s1" "boot_reserved b R s1" using mm(2,3) by (simp_all add: boot_page_tables_def boot_reserved_def f1)
  have n1: "bitmap_pages (memmap b) + (k + 3 + 6) + 6 \<le> length (usable_pages (memmap b))" using n by simp
  from boot_heap_ready [OF mm(1) m1(1) _ _ _ n1 m1(2)] st f1(3-5) obtain s2 s3 where
    h: "boot_memory b s1 = Some s2" "heap_init s2 = Some s3" "heap_ready (k + 3 + 6) s3 {} R" "hhdm_offset s3 = hhdm b"
      "kernel_heap_vaddr s3 = KERNEL_HEAP_BASE" "heap.more s3 = heap.more s1" and m3: "\<forall>a. page_base a \<in> R \<longrightarrow> mem s3 a = mem s1 a"
    by (auto simp: static_init_def)
  have k3: "spare_kept R s s3"
    using m3 f1 st apic_more_static(2) [OF heap_more_static(2) [OF h(6)]] h(5) by (simp add: spare_kept_def static_init_def)
  have "firmware R (hhdm_offset s3) r x ts m es s3" using firmware_cong [OF fw, of s3] m3 f1(1) h(4) by simp
  moreover have "acpi_zero s3" using heap_more_static(1) [OF h(6)] f1(6) st by (simp add: static_init_def)
  ultimately obtain s4 where i: "boot_interrupts d r s3 = Some s4" "heap_ready (k + 3) s4 {} R" "apic_kept R s3 s4"
    using boot_interrupts_ready [OF h(3) _ _ d] by blast
  have k4: "spare_kept R s3 s4" using i(3) apic_more_static(2) [of s4 s3] by (simp add: spare_kept_def apic_kept_def)
  let ?s4 = "log_debug ''TEST'' (log_debug ''TEST'' (log_info ''KERNEL'' s4))"
  have "heap_ready (k + 3) ?s4 {} R" by (intro heap_ready_logged i(2))
  from test_kmalloc_ready [OF this] obtain s' where
    tk: "test_kmalloc ?s4 = Some s'" "heap_ready k s' {} R" "heap_same ?s4 s' {} R" by blast
  have "spare_kept R s ?s4" using spare_kept_trans [OF k3 k4] by (simp add: log_event_def)
  then have "spare_kept R s s'" using heap_same_spare [OF tk(3)] by (rule spare_kept_trans)
  moreover have "vnodes s' = Map.empty"
  proof -
    have "apic.more s4 = apic.more s1" using i(3) heap_more_static(2) [OF h(6)] by (simp add: apic_kept_def)
    then have "vnodes s4 = vnodes s1" by (rule apic_more_static(1))
    then show ?thesis using heap_same_fields(2) [OF tk(3)] f1(7) st by (simp add: static_init_def log_event_def)
  qed
  moreover have "boot_hardware d img b fb r s = Some s'" using dr t h(1,2) i(1) tk(1) by (simp add: boot_hardware_def)
  ultimately show ?thesis using tk(2) by blast
qed

lemma resolve_tree_file:
  "resolve tree_child (tree_of e) ws = Some (TFile nm cs) \<Longrightarrow> \<exists>a. resolve entry_child e ws = Some (File a nm cs)"
  unfolding tree_of_resolve by (auto elim!: tree_of.elims)

text \<open>The pages in which the archive and the buffer are do not keep their contents.\<close>

abbreviation boot_kept :: "image \<Rightarrow> limine_file \<Rightarrow> u64 set \<Rightarrow> u64 set" where
  "boot_kept img f R \<equiv> R - pages_of (lf_address f) (unat (lf_size f)) - pages_of (test_buf img) 13"

text \<open>
  C3. \<^verbatim>\<open>kmain\<close> boots on a machine with ACPI 1.0. The boot loader gives a memory map with enough usable pages and page tables outside them, an RSDP whose
  RSDT leads to a table of interrupt controllers, and a well-formed tar archive with files of at most 1000 bytes; these, the static objects and the buffer on the boot stack are
  in memory that is not reported as usable; the I/O APIC reports fewer than 256 entries, and the interval timer wraps around. Then, as long as
  no interrupt is delivered, the kernel
  comes through all stages to its final halt. There the file system holds the tree that the entries of the archive
  describe; the buffer holds the first 13 bytes of \<^verbatim>\<open>/etc/test.txt\<close>, if the archive has that file; and the scheduler is unlocked and
  satisfies its invariant, with the idle thread running and the threads of both tasks, in processes with their names, in the queue.
\<close>

theorem kmain_boots:
  fixes s :: "'a machine_scheme"
  assumes "base_revision_supported b" "framebuffers b = Some (fb # fbs)" "rsdp b = Some r" "modules b = Some (f # fs)"
    and "boot_memory_ok b" "boot_page_tables b s" "boot_reserved b R s" and "static_init img s" and "boot_statics img R s"
    and "firmware R (hhdm b) r x ts m es s" and "ioapic_bounded d" "pit_wraps d"
    and "off_heap R (lf_address f) (unat (lf_size f))"
    and "archive_at (\<lambda>i. byte s (lf_address f + of_nat i)) (unat (lf_size f)) 0 ars" "\<forall>e \<in> set ars. te_dir e \<or> length (te_data e) \<le> 1000"
    and "off_heap R (test_buf img) 13" and "off_heap (boot_kept img f R) (task_a_name img) 64" "off_heap (boot_kept img f R) (task_b_name img) 64"
    and "bitmap_pages (memmap b) + sum_list (map tar_pages ars) + 39 \<le> length (usable_pages (memmap b))"
  shows "\<exists>ta tb s' e L M. kmain d img b s = Some (Hcf_booted s') \<and>
     tmpfs_ready e L R 0 s' \<and> tree_of e = fold unpack ars (TDir [slash] []) \<and>
     (\<forall>nm cs. resolve tree_child (tree_of e) test_names = Some (TFile nm cs) \<longrightarrow>
        bytes_at s' (test_buf img) (min (length cs) 13) = take 13 cs) \<and>
     sched_inv s' [tb, ta] \<and> current s' = idle_thread s \<and> locked s' = 0 \<and>
     task_waits (name_at s (task_a_name img)) (task_a_code img) (next_pid s) (next_tid s) s' M ta \<and>
     task_waits (name_at s (task_b_name img)) (task_b_code img) (next_pid s + 1) (next_tid s + 1) s' M tb"
proof -
  let ?n = "sum_list (map tar_pages ars)" and ?A = "R - pages_of (lf_address f) (unat (lf_size f))" and ?B = "R - pages_of (test_buf img) 13"
  let ?Q = "boot_kept img f R"
  have "bitmap_pages (memmap b) + Suc (Suc (0 + 20 + 2 + ?n)) + 15 \<le> length (usable_pages (memmap b))" using assms(19) by simp
  from boot_hardware_ready [OF assms(5-8,10-12) this, of fb] obtain s1 where
    1: "boot_hardware d img b fb r s = Some s1" "heap_ready (Suc (Suc (0 + 20 + 2 + ?n))) s1 {} R" "vnodes s1 = Map.empty" "spare_kept R s s1" by blast
  from tmpfs_init_ready [OF 1(2,3)] obtain a s2 L where
    2: "tmpfs_init s1 = Some s2" "tmpfs_ready (Dir a [slash] []) L R (0 + 20 + 2 + ?n) s2" "spare_kept R s1 s2" by blast
  have k2: "spare_kept R s s2" using 1(4) 2(3) by (rule spare_kept_trans)
  have "archive_at (\<lambda>i. byte s2 (lf_address f + of_nat i)) (unat (lf_size f)) 0 ars"
    using off_heap_bytes [OF assms(13) k2] by (intro archive_at_cong [OF assms(14)]) simp
  from initrd_init_ready [OF 2(2) assms(13) this assms(15), of fs] obtain s3 e L3 where
    3: "initrd_init (Some (f # fs)) s2 = Some s3" "tmpfs_ready e L3 R (0 + 20 + 2) s3" "tree_of e = fold unpack ars (TDir [slash] [])"
      "spare_kept ?A s2 s3" by auto
  from test_file_ready [OF 3(2) assms(16)] obtain s4 where
    4: "test_file img s3 = Some s4" "tmpfs_ready e L3 R (0 + 20) s4" "spare_kept ?B s3 s4"
    and buf: "\<forall>a nm cs. resolve entry_child e test_names = Some (File a nm cs) \<longrightarrow> bytes_at s4 (test_buf img) (min (length cs) 13) = take 13 cs" by blast
  have k4: "spare_kept ?Q s s4"
    using spare_kept_mono [OF k2, of ?Q] spare_kept_mono [OF 3(4), of ?Q] spare_kept_mono [OF 4(3), of ?Q] by (auto intro: spare_kept_trans)
  have sv: "sched_vars s4 = sched_vars s" using k4 by (simp add: spare_kept_def)
  have "unat (kernel_heap_vaddr s4) + 16384 < 2 ^ 64" using sv assms(8) by (simp add: sched_vars_def static_init_def KERNEL_HEAP_BASE_def)
  from boot_tasks_files [OF 4(2) this boot_statics_kept [OF sv assms(9)]] obtain ta tb s' L' M where
    5: "boot_tasks img s4 = Some s'" "sched_inv s' [tb, ta]" "current s' = idle_thread s4" "locked s' = 0"
      "task_waits (name_at s4 (task_a_name img)) (task_a_code img) (next_pid s4) (next_tid s4) s' M ta"
      "task_waits (name_at s4 (task_b_name img)) (task_b_code img) (next_pid s4 + 1) (next_tid s4 + 1) s' M tb"
      "tmpfs_ready e L' R 0 s'" and m5: "\<forall>a. page_base a \<in> R \<longrightarrow> mem s' a = mem s4 a" by blast
  have "name_at s4 (task_a_name img) = name_at s (task_a_name img)" "name_at s4 (task_b_name img) = name_at s (task_b_name img)"
    using name_at_spare [OF assms(17), of s4 s] name_at_spare [OF assms(18), of s4 s] k4 by (simp_all add: spare_kept_def)
  then have w: "task_waits (name_at s (task_a_name img)) (task_a_code img) (next_pid s) (next_tid s) s' M ta"
      "task_waits (name_at s (task_b_name img)) (task_b_code img) (next_pid s + 1) (next_tid s + 1) s' M tb"
      "current s' = idle_thread s"
    using 5(3,5,6) sv by (simp_all add: sched_vars_def)
  have "bytes_at s' (test_buf img) (min (length cs) 13) = take 13 cs"
    if "resolve tree_child (tree_of e) test_names = Some (TFile nm cs)" for nm cs
  proof -
    have "off_heap R (test_buf img) (min (length cs) 13)" using off_heap_sub [OF assms(16), of 0] by simp
    then show ?thesis using resolve_tree_file [OF that] buf spare_bytes(3) [OF m5] by auto
  qed
  moreover have "kmain d img b s = Some (Hcf_booted s')"
    unfolding kmain_stages [OF assms(1-3)] by (simp add: 1(1) 2(1) 3(1) 4(1) 5(1) assms(4))
  ultimately show ?thesis using 3(3) 5(2,4,7) w by blast
qed

end
