(* ===== verification/BootSample.thy ===== *)
theory BootSample
  imports Boot
begin

text \<open>
  A machine that boots. Physical page 0 holds the static objects, page 1 an empty page table, page 2 the archive,
  page 3 the buffer and page 4 the ACPI tables; the pages from 8 on are usable.
\<close>

section \<open>Memory as the boot loader leaves it\<close>

definition boot_archive :: "nat \<Rightarrow> u8" where
  "boot_archive i =
     (if i < 512 then sample_header (chars ''./etc/'') (replicate 11 48) 53 i
      else if i < 1024 then sample_header (chars ''etc/test.txt'') (replicate 9 48 @ [50, 50]) 48 (i - 512)
      else if i < 1042 then chars ''Hello, DedOS! More'' ! (i - 1024)
      else 0)"

definition boot_entries :: "tar_entry list" where
  "boot_entries =
     [\<lparr>te_name = chars ''./etc/'', te_dir = True, te_data = []\<rparr>,
      \<lparr>te_name = chars ''etc/test.txt'', te_dir = False, te_data = chars ''Hello, DedOS! More''\<rparr>]"

lemma boot_archive_at: "archive_at boot_archive 2048 0 boot_entries"
  by code_simp

lemma boot_unpacked:
  "fold unpack boot_entries (TDir [slash] []) =
     TDir [slash] [TDir (chars ''etc'') [TFile (chars ''test.txt'') (chars ''Hello, DedOS! More'')]]"
  "sum_list (map tar_pages boot_entries) = 5"
  by code_simp+

definition boot_records :: "madt_record list" where
  "boot_records = [Lapic 0 0 1, Ioapic 1 0 0xFEC00000 0]"

definition padded :: "u8 list \<Rightarrow> nat \<Rightarrow> u8" where
  "padded xs i = (if i < length xs then xs ! i else 0)"

definition boot_rsdp :: "u8 list" where
  "boot_rsdp = replicate 15 0 @ [0] @ bytes_le 4 0x4100"

definition boot_rsdt :: "u8 list" where
  "boot_rsdt = chars ''RSDT'' @ bytes_le 4 40 @ replicate 28 0 @ bytes_le 4 0x4200"

definition boot_madt :: "u8 list" where
  "boot_madt = madt_image (replicate 28 0) 0xFEE00000 1 boot_records"

definition boot_tables_image :: "nat \<Rightarrow> u8" where
  "boot_tables_image i =
     (if i < 0x100 then padded boot_rsdp i
      else if i < 0x200 then padded boot_rsdt (i - 0x100) else padded boot_madt (i - 0x200))"

text \<open>The bytes from page 2 on.\<close>

definition boot_bytes :: "nat \<Rightarrow> u8" where
  "boot_bytes i = (if i < 2048 then boot_archive i else if i < 0x2000 then 0 else boot_tables_image (i - 0x2000))"

definition boot_mem :: "(u64 \<Rightarrow> u64) \<Rightarrow> bool" where
  "boot_mem m \<longleftrightarrow>
     (\<forall>i < 0x3000. byte (sample_machine\<lparr>mem := m\<rparr>) (0x102000 + of_nat i) = boot_bytes i) \<and> (\<forall>i < 512. m (cell 0x101000 i) = 0)"

lemma page_of_byte: "page_base (p + of_nat i) = p + of_nat (4096 * (i div 4096))" if "page_aligned p" "i < 0x3000" 
proof -
  have e: "p + of_nat i = (p + of_nat (4096 * (i div 4096))) + of_nat (i mod 4096)"
    by (metis add.assoc mult_div_mod_eq of_nat_add)
  have "page_aligned (p + of_nat (4096 * (i div 4096)))" 
  proof (intro page_aligned_add that(1))
    have "i div 4096 \<in> {0, 1, 2}" using that(2) by auto
    then show "page_aligned (of_nat (4096 * (i div 4096)))" by (auto simp: page_aligned_def)
  qed
  then show ?thesis unfolding e by (rule page_base_at) simp
qed

lemma boot_mem_exists: "\<exists>m. boot_mem m"
proof -
  have "buffer 0x102000 0x3000" by (simp add: buffer_def KERNEL_HEAP_BASE_def)
  from bytes_exist [OF this, of sample_machine boot_bytes] obtain m where
    m: "\<forall>i < 0x3000. byte (sample_machine\<lparr>mem := m\<rparr>) (0x102000 + of_nat i) = boot_bytes i"
    "\<forall>c. (\<forall>i < 0x3000. c \<noteq> cell_of (0x102000 + of_nat i)) \<longrightarrow> m c = mem sample_machine c" by blast
  have "m (cell 0x101000 i) = 0" if "i < 512" for i
  proof -
    have "page_base (cell 0x101000 i) = 0x101000" using that by (intro page_base_cell) (simp_all add: page_aligned_def table_idx_def)
    moreover have "page_base (cell_of (0x102000 + of_nat j)) \<noteq> 0x101000" if "j < 0x3000" for j
    proof -
      have "j div 4096 = 0 \<or> j div 4096 = 1 \<or> j div 4096 = 2" using that by auto
      then show ?thesis unfolding page_base_cell_of using page_of_byte [of "0x102000" j] that by (auto simp: page_aligned_def)
    qed
    ultimately have "cell 0x101000 i \<noteq> cell_of (0x102000 + of_nat j)" if "j < 0x3000" for j using that by metis
    then show ?thesis using m(2) sample_machine_fields(5) by simp
  qed
  then show ?thesis using m(1) unfolding boot_mem_def by blast
qed

section \<open>The machine\<close>

definition boot_image :: image where
  "boot_image =
     \<lparr>isr_stub_table = replicate 32 0x5000, irq_stub_table = replicate 16 0x6000, task_a_code = 0x7000, task_b_code = 0x8000,
      task_a_name = 0x100400, task_b_name = 0x100440, boot_rsp = 0x9000, test_buf = 0x103000\<rparr>"

definition boot_module :: limine_file where
  "boot_module = \<lparr>lf_address = 0x102000, lf_size = 2048\<rparr>"

definition boot_loader :: boot_info where
  "boot_loader =
     \<lparr>base_revision_supported = True,
      framebuffers = Some [\<lparr>fb_address = 0xFD000000, fb_width = 640, fb_height = 480, fb_pitch = 2560\<rparr>],
      memmap = [\<lparr>mm_base = 0, mm_length = 0x8000, mm_type = LIMINE_MEMMAP_OTHER\<rparr>,
                \<lparr>mm_base = 0x8000, mm_length = 0x80000, mm_type = LIMINE_MEMMAP_USABLE\<rparr>],
      hhdm = 0x100000, rsdp = Some 0x104000, modules = Some [boot_module]\<rparr>"

definition boot_machine :: "(u64 \<Rightarrow> u64) \<Rightarrow> machine" where
  "boot_machine m = sample_machine\<lparr>mem := m, run_queue := NULL, idle_thread := 0x100000, idle_process := 0x100200,
     threads := [0x100000 \<mapsto> zero_thread],
     processes := [0x100200 \<mapsto> \<lparr>pid = 0, p_name = [], p_state = PROCESS_RUNNING, p_next = NULL\<rparr>],
     lapic_ids := replicate 16 0, isos := replicate 16 0\<rparr>"

text \<open>Devices with an I/O APIC of 24 entries.\<close>

definition boot_devices :: devices where
  "boot_devices = sample_devices\<lparr>mmio_read := \<lambda>tr a. 0x00170020\<rparr>"

abbreviation boot_pages :: "u64 set" where
  "boot_pages \<equiv> {0x100000, 0x102000, 0x103000, 0x104000}"

lemma boot_devices_ok: "ioapic_bounded boot_devices" "pit_wraps boot_devices"
proof -
  show "ioapic_bounded boot_devices" by (simp add: ioapic_bounded_def boot_devices_def)
  have l: "pit_latch boot_devices = pit_latch sample_devices"
    by (simp add: fun_eq_iff pit_latch_def boot_devices_def inb_def)
  have "pit_trace boot_devices tr k = pit_trace sample_devices tr k" for tr k by (induction k arbitrary: tr) (simp_all add: l)
  then have "pit_reading boot_devices = pit_reading sample_devices" by (simp add: fun_eq_iff pit_reading_def l)
  then show "pit_wraps boot_devices" unfolding pit_wraps_def using sample_pit by metis
qed

lemma off_heap_page:
  assumes "page_aligned p" "p \<in> R" "unat p + 4096 \<le> unat KERNEL_HEAP_BASE" "i + n \<le> 4096"
  shows "off_heap R (p + of_nat i) n"
proof -
  have "buffer p (i + n)" using assms(3,4) by (simp add: buffer_def)
  then have "buffer (p + of_nat i) n" by (rule buffer_sub) simp
  moreover have "page_base (p + of_nat i + of_nat j) = p" if "j < n" for j
    using page_base_at [OF assms(1), of "i + j"] that assms(4) by (simp add: add.assoc)
  ultimately show ?thesis using assms(2) by (simp add: off_heap_def)
qed

lemma pages_of_page: "page_aligned p \<Longrightarrow> n \<le> 4096 \<Longrightarrow> 0 < n \<Longrightarrow> pages_of p n = {p}"
  by (auto simp: pages_of_def)

lemma boot_usable:
  "usable_pages (memmap boot_loader) = [8..<136]" "set (usable_pages (memmap boot_loader)) = {8..<136}" "bitmap_pages (memmap boot_loader) = 1"
proof -
  show u: "usable_pages (memmap boot_loader) = [8..<136]"
    by (simp add: boot_loader_def usable_pages_def entry_pages_eq usable_def del: upt_rec_numeral)
  show "set (usable_pages (memmap boot_loader)) = {8..<136}" unfolding u by (rule set_upt)
  show "bitmap_pages (memmap boot_loader) = 1" by (simp add: boot_loader_def bitmap_pages_def bitmap_bytes_def)
qed

lemma boot_memory_fits: "boot_memory_ok boot_loader"
proof -
  have "distinct (usable_pages (memmap boot_loader))" unfolding boot_usable(1) by (rule distinct_upt)
  then show ?thesis
    unfolding boot_memory_ok_def wf_memmap_def
    by (simp add: boot_loader_def usable_def entry_ok_def page_aligned_def bitmap_bytes_def KERNEL_HEAP_BASE_def)
qed

lemma sample_machine_static:
  "acpi_zero (sample_machine\<lparr>lapic_ids := replicate 16 0, isos := replicate 16 0\<rparr>)" "vnodes sample_machine = Map.empty"
  "segs sample_machine = sample_segments" "idt_state sample_machine = sample_gates"
  by (simp_all add: sample_machine_def sample_tmpfs_def with_heap_def sample_kernel_def sample_sched_def sample_apic_def
      apic.defs sched.defs kernel.defs vfs.defs tmpfs.defs machine.defs acpi_zero_def)

lemma boot_machine_fields:
  "mem (boot_machine m) = m" "cr3 (boot_machine m) = 0x1000" "idle_thread (boot_machine m) = 0x100000"
  by (simp_all add: boot_machine_def sample_machine_fields)

lemma boot_machine_static: "static_init boot_image (boot_machine m)"
  using sample_machine_static
  by (simp add: static_init_def boot_machine_def sample_machine_fields acpi_zero_def sample_segments_def sample_gates_def boot_image_def)

lemma boot_names:
  "0x100000 \<in> R \<Longrightarrow> off_heap R (task_a_name boot_image) 64" "0x100000 \<in> R \<Longrightarrow> off_heap R (task_b_name boot_image) 64"
  using off_heap_page [of "0x100000" R 1024 64] off_heap_page [of "0x100000" R 1088 64]
  by (simp_all add: page_aligned_def KERNEL_HEAP_BASE_def boot_image_def)

lemma boot_machine_statics: "boot_statics boot_image boot_pages (boot_machine m)"
  using boot_names [of boot_pages] by (simp add: boot_statics_def boot_machine_def page_base_def)

lemma boot_page_table:
  assumes "boot_mem m" "table_path p" "tbl h m 0x101000 p = Some a"
  shows "p = [] \<and> a = 0x101000"
  using assms by (cases p) (auto simp: boot_mem_def table_path_def table_idx_def)

lemma boot_machine_tables:
  assumes "boot_mem m"
  shows "boot_page_tables boot_loader (boot_machine m)" "boot_reserved boot_loader boot_pages (boot_machine m)"
proof -
  have r: "page_base (cr3 (boot_machine m)) + 0x100000 = 0x101000" by (simp add: boot_machine_fields page_base_def)
  have h: "hhdm boot_loader = 0x100000" by (simp add: boot_loader_def)
  show "boot_page_tables boot_loader (boot_machine m)"
    unfolding boot_page_tables_def h r boot_machine_fields(1) boot_usable(2) Let_def by (auto dest!: boot_page_table [OF assms])
  show "boot_reserved boot_loader boot_pages (boot_machine m)"
    unfolding boot_reserved_def h r boot_machine_fields(1) boot_usable(2) by (auto dest!: boot_page_table [OF assms])
qed

section \<open>What the kernel reads\<close>

lemma boot_machine_bytes:
  assumes "boot_mem m" "i + n \<le> 0x3000"
  shows "bytes_at (boot_machine m) (0x102000 + of_nat i) n = slice boot_bytes i n"
proof -
  have b: "byte (boot_machine m) (0x102000 + of_nat j) = boot_bytes j" if "j < 0x3000" for j
    using assms(1) that by (simp add: boot_mem_def byte_def boot_machine_def)
  show ?thesis unfolding bytes_at_slice_eq by (intro slice_cong b) (use assms(2) in simp)
qed

lemma boot_region:
  assumes "boot_mem m" "\<And>i. i < length xs \<Longrightarrow> boot_bytes (k + i) = xs ! i" "k + length xs \<le> 0x3000" "j + n \<le> length xs"
  shows "bytes_at (boot_machine m) (0x102000 + of_nat k + of_nat j) n = take n (drop j xs)"
proof -
  have "bytes_at (boot_machine m) (0x102000 + of_nat (k + j)) n = slice boot_bytes (k + j) n"
    by (rule boot_machine_bytes [OF assms(1)]) (use assms(3,4) in simp)
  also have "\<dots> = take n (drop j xs)"
    by (rule nth_equalityI) (use assms(2) [of "j + _"] assms(4) in \<open>simp_all add: add.assoc\<close>)
  finally show ?thesis by (simp add: add.assoc)
qed

lemma boot_table_sizes: "length boot_rsdp = 20" "length boot_rsdt = 40" "length boot_madt = 64" "length (image_of boot_records) = 20"
  by code_simp+

lemma boot_table_bytes:
  assumes "boot_mem m"
  shows "j + n \<le> 20 \<Longrightarrow> bytes_at (boot_machine m) (0x104000 + of_nat j) n = take n (drop j boot_rsdp)"
    "j + n \<le> 40 \<Longrightarrow> bytes_at (boot_machine m) (0x104100 + of_nat j) n = take n (drop j boot_rsdt)"
    "j + n \<le> 64 \<Longrightarrow> bytes_at (boot_machine m) (0x104200 + of_nat j) n = take n (drop j boot_madt)"
proof -
  note b = boot_bytes_def boot_tables_image_def padded_def
  have "boot_bytes (0x2000 + i) = boot_rsdp ! i" if "i < length boot_rsdp" for i
    using that boot_table_sizes by (simp add: b)
  from boot_region [OF assms this, where j = j and n = n] boot_table_sizes
  show "j + n \<le> 20 \<Longrightarrow> bytes_at (boot_machine m) (0x104000 + of_nat j) n = take n (drop j boot_rsdp)" by simp
  have "boot_bytes (0x2100 + i) = boot_rsdt ! i" if "i < length boot_rsdt" for i
    using that boot_table_sizes by (simp add: b)
  from boot_region [OF assms this, where j = j and n = n] boot_table_sizes
  show "j + n \<le> 40 \<Longrightarrow> bytes_at (boot_machine m) (0x104100 + of_nat j) n = take n (drop j boot_rsdt)" by simp
  have "boot_bytes (0x2200 + i) = boot_madt ! i" if "i < length boot_madt" for i
    using that boot_table_sizes by (simp add: b)
  from boot_region [OF assms this, where j = j and n = n] boot_table_sizes
  show "j + n \<le> 64 \<Longrightarrow> bytes_at (boot_machine m) (0x104200 + of_nat j) n = take n (drop j boot_madt)" by simp
qed

lemma signature_at_bytes: "buffer t (length sig) \<Longrightarrow> signature_at s sig t \<longleftrightarrow> bytes_at s t (length sig) = sig"
  using signature_is_at [of t sig s] signature_is_bytes [of t sig s] by simp

lemma boot_firmware:
  assumes "boot_mem m"
  shows "firmware boot_pages (hhdm boot_loader) 0x104000 0x104100 [0x104200] 0x104200 boot_records (boot_machine m)"
proof -
  let ?s = "boot_machine m"
  note b = boot_table_bytes [OF assms]
  have oh: "i + n \<le> 4096 \<Longrightarrow> off_heap boot_pages (0x104000 + of_nat i) n" for i n
    by (rule off_heap_page) (simp_all add: page_aligned_def KERNEL_HEAP_BASE_def)
  have o: "off_heap boot_pages 0x104000 20" "off_heap boot_pages 0x104100 40" "off_heap boot_pages 0x104200 80"
    "off_heap boot_pages 0x104200 4" using oh [of 0 20] oh [of 256 40] oh [of 512 80] oh [of 512 4] by simp_all
  have "bytes_at ?s (0x104000 + of_nat 15) 1 = [0]" using b(1) [of 15 1] by (simp add: boot_rsdp_def)
  then have rev: "byte ?s 0x10400F = 0" by (simp add: bytes_at_def)
  have t: "take 4 (drop 16 boot_rsdp) = bytes_le 4 0x4100" "take 4 (drop 4 boot_rsdt) = bytes_le 4 40"
    "take 4 (drop 36 boot_rsdt) = bytes_le 4 0x4200" "take 4 (drop 0 boot_madt) = APIC_signature" by code_simp+
  have "bytes_at ?s (0x104000 + of_nat 16) 4 = bytes_le 4 0x4100" unfolding t(1) [symmetric] by (rule b(1)) simp
  from le_bytes [OF this] have x: "le ?s 4 0x104010 = 0x4100" by simp
  have "bytes_at ?s (0x104100 + of_nat 4) 4 = bytes_le 4 40" unfolding t(2) [symmetric] by (rule b(2)) simp
  from le_bytes [OF this] have l: "le ?s 4 0x104104 = 40" by simp
  have "bytes_at ?s (0x104100 + of_nat 36) 4 = bytes_le 4 0x4200" unfolding t(3) [symmetric] by (rule b(2)) simp
  from le_bytes [OF this] have e: "le ?s 4 0x104124 = 0x4200" by simp
  have "bytes_at ?s (0x104200 + of_nat 0) 4 = APIC_signature" unfolding t(4) [symmetric] by (rule b(3)) simp
  then have "signature_at ?s APIC_signature 0x104200" using o(4) signature_at_bytes [of "0x104200" APIC_signature ?s]
    by (simp add: off_heap_def length_APIC)
  then have f: "first_or_null (signature_at ?s APIC_signature) [0x104200] = 0x104200" by (simp add: first_or_null_def)
  have "bytes_at ?s (0x104200 + of_nat 0) 64 = boot_madt" using b(3) [of 0 64] boot_table_sizes(3) by simp
  then have im: "\<exists>rest la fl. length rest = 28 \<and> bytes_at ?s 0x104200 64 = madt_image rest la fl boot_records"
    unfolding boot_madt_def by (intro exI [of _ "replicate 28 0"] exI [of _ "0xFEE00000"] exI [of _ 1]) simp
  have n: "entry_count ?s 0x104100 4 = 1" by (simp add: entry_count_def l)
  have h: "hhdm boot_loader = 0x100000" by (simp add: boot_loader_def)
  have ok: "\<forall>e \<in> set boot_records. record_ok e" by (simp add: boot_records_def)
  show ?thesis
    unfolding firmware_def n h boot_table_sizes(4)
    using o rev x l e f im ok by simp
qed

lemma boot_archive_memory:
  assumes "boot_mem m"
  shows "archive_at (\<lambda>i. byte (boot_machine m) (lf_address boot_module + of_nat i)) (unat (lf_size boot_module)) 0 boot_entries"
proof (rule archive_at_cong)
  show "archive_at boot_archive (unat (lf_size boot_module)) 0 boot_entries" using boot_archive_at by (simp add: boot_module_def)
  show "byte (boot_machine m) (lf_address boot_module + of_nat i) = boot_archive i" if "i < unat (lf_size boot_module)" for i
    using assms that by (simp add: boot_mem_def byte_def boot_machine_def boot_module_def boot_bytes_def)
qed

section \<open>The boot\<close>

theorem kmain_boots_witness:
  "\<exists>m. \<exists>s' e L ta tb. kmain boot_devices boot_image boot_loader (boot_machine m) = Some (Hcf_booted s') \<and>
     tmpfs_ready e L boot_pages 0 s' \<and>
     tree_of e = TDir [slash] [TDir (chars ''etc'') [TFile (chars ''test.txt'') (chars ''Hello, DedOS! More'')]] \<and>
     bytes_at s' 0x103000 13 = chars ''Hello, DedOS!'' \<and> sched_inv s' [tb, ta] \<and> current s' = 0x100000"
proof -
  obtain m where m: "boot_mem m" using boot_mem_exists by blast
  let ?s = "boot_machine m" and ?Q = "boot_kept boot_image boot_module boot_pages"
  have b: "base_revision_supported boot_loader" "rsdp boot_loader = Some 0x104000" "modules boot_loader = Some [boot_module]"
    "framebuffers boot_loader = Some [\<lparr>fb_address = 0xFD000000, fb_width = 640, fb_height = 480, fb_pitch = 2560\<rparr>]"
    by (simp_all add: boot_loader_def)
  have oh: "off_heap boot_pages (lf_address boot_module) (unat (lf_size boot_module))" "off_heap boot_pages (test_buf boot_image) 13"
    using off_heap_page [of "0x102000" boot_pages 0 2048] off_heap_page [of "0x103000" boot_pages 0 13]
    by (simp_all add: page_aligned_def KERNEL_HEAP_BASE_def boot_module_def boot_image_def)
  have "0x100000 \<in> ?Q" using pages_of_page [of "0x102000" 2048] pages_of_page [of "0x103000" 13]
    by (simp add: boot_module_def boot_image_def page_aligned_def)
  note nm = boot_names [OF this]
  have small: "\<forall>e \<in> set boot_entries. te_dir e \<or> length (te_data e) \<le> 1000" by (simp add: boot_entries_def)
  have room: "bitmap_pages (memmap boot_loader) + sum_list (map tar_pages boot_entries) + 39 \<le> length (usable_pages (memmap boot_loader))"
    unfolding boot_usable(1,3) boot_unpacked(2) by (simp del: upt_rec_numeral)
  from kmain_boots [OF b(1,4,2,3) boot_memory_fits boot_machine_tables [OF m] boot_machine_static boot_machine_statics
      boot_firmware [OF m] boot_devices_ok oh(1) boot_archive_memory [OF m] small oh(2) nm room]
  obtain ta tb s' e L where k: "kmain boot_devices boot_image boot_loader ?s = Some (Hcf_booted s')" "tmpfs_ready e L boot_pages 0 s'"
    "tree_of e = fold unpack boot_entries (TDir [slash] [])" "sched_inv s' [tb, ta]" "current s' = idle_thread ?s"
    and t: "\<And>nm cs. resolve tree_child (tree_of e) test_names = Some (TFile nm cs) \<Longrightarrow>
        bytes_at s' (test_buf boot_image) (min (length cs) 13) = take 13 cs" by metis
  have "resolve tree_child (tree_of e) test_names = Some (TFile (chars ''test.txt'') (chars ''Hello, DedOS! More''))"
    unfolding k(3) boot_unpacked(1) by (simp add: test_names_def)
  moreover have "min (length (chars ''Hello, DedOS! More'')) 13 = 13" "test_buf boot_image = 0x103000" by (simp_all add: boot_image_def)
  ultimately have "bytes_at s' 0x103000 13 = take 13 (chars ''Hello, DedOS! More'')" using t by metis
  then have "bytes_at s' 0x103000 13 = chars ''Hello, DedOS!''" by simp
  then show ?thesis using k unfolding boot_unpacked(1) boot_machine_fields(3) by blast
qed

end
