(* ===== verification/Stubs.thy ===== *)
theory Stubs
  imports Interrupts
begin

text \<open>
  The interrupt stubs, \<^verbatim>\<open>arch/x86_64/isr.asm\<close>: how the registers of the interrupted code become the frame that
  \<^verbatim>\<open>isr_handler\<close> works on, and the frame the registers of the code that runs next. The processor's part, the words that
  it pushes and \<^verbatim>\<open>iretq\<close>, follows its manual.
\<close>

section \<open>The stack\<close>

text \<open>The stack pointer and the words from there on upwards.\<close>

record stack =
  sp :: u64
  stack_words :: "u64 list"

definition push :: "u64 \<Rightarrow> stack \<Rightarrow> stack" where
  "push w st = \<lparr>sp = sp st - 8, stack_words = w # stack_words st\<rparr>"

definition pop :: "stack \<Rightarrow> (u64 \<times> stack) option" where
  "pop st = (case stack_words st of [] \<Rightarrow> None | w # ws \<Rightarrow> Some (w, \<lparr>sp = sp st + 8, stack_words = ws\<rparr>))"

section \<open>The processor\<close>

text \<open>The state of the processor is given by the registers; the fields \<open>r_vector\<close> and \<open>r_error_code\<close> play no role in it.\<close>

abbreviation cpu_of :: "registers \<Rightarrow> registers" where
  "cpu_of r \<equiv> r\<lparr>r_vector := 0, r_error_code := 0\<rparr>"

text \<open>
  On an interrupt of kernel code, which does not change the stack, the processor aligns the stack pointer, pushes stack segment and pointer, flags, code segment and
  instruction pointer, and for some exceptions an error code.
\<close>

definition interrupt_push :: "u64 option \<Rightarrow> registers \<Rightarrow> stack" where
  "interrupt_push err c =
     (let st = push (r_rip c) (push (r_cs c) (push (r_rflags c) (push (r_rsp c) (push (r_ss c)
                 \<lparr>sp = r_rsp c AND NOT 0xF, stack_words = []\<rparr>))))
      in case err of None \<Rightarrow> st | Some e \<Rightarrow> push e st)"

definition iretq :: "registers \<Rightarrow> stack \<Rightarrow> registers option" where
  "iretq c st = do {
     (ip, st) \<leftarrow> pop st; (cs, st) \<leftarrow> pop st; (fl, st) \<leftarrow> pop st; (p, st) \<leftarrow> pop st; (ss, st) \<leftarrow> pop st;
     Some (c\<lparr>r_rip := ip, r_cs := cs, r_rflags := fl, r_rsp := p, r_ss := ss\<rparr>) }"

section \<open>The stubs\<close>

text \<open>The vectors whose stub is an \<^verbatim>\<open>isr_err_stub\<close>, which leaves the error code that the processor pushed.\<close>

definition isr_err_stubs :: "u64 set" where
  "isr_err_stubs = {8, 10, 11, 12, 13, 14, 17, 30}"

definition isr_stub :: "u64 \<Rightarrow> stack \<Rightarrow> stack" where
  "isr_stub v st = (if v \<in> isr_err_stubs then push v st else push v (push 0 st))"

definition isr_common_push :: "registers \<Rightarrow> stack \<Rightarrow> stack" where
  "isr_common_push c st =
     (let st = push (r_rax c) st; st = push (r_rbx c) st; st = push (r_rcx c) st; st = push (r_rdx c) st;
          st = push (r_rsi c) st; st = push (r_rdi c) st; st = push (r_rbp c) st; st = push (r_r8 c) st;
          st = push (r_r9 c) st; st = push (r_r10 c) st; st = push (r_r11 c) st; st = push (r_r12 c) st;
          st = push (r_r13 c) st; st = push (r_r14 c) st
      in push (r_r15 c) st)"

definition isr_common_pop :: "registers \<Rightarrow> stack \<Rightarrow> (registers \<times> stack) option" where
  "isr_common_pop c st = do {
     (w, st) \<leftarrow> pop st; let c = c\<lparr>r_r15 := w\<rparr>;
     (w, st) \<leftarrow> pop st; let c = c\<lparr>r_r14 := w\<rparr>;
     (w, st) \<leftarrow> pop st; let c = c\<lparr>r_r13 := w\<rparr>;
     (w, st) \<leftarrow> pop st; let c = c\<lparr>r_r12 := w\<rparr>;
     (w, st) \<leftarrow> pop st; let c = c\<lparr>r_r11 := w\<rparr>;
     (w, st) \<leftarrow> pop st; let c = c\<lparr>r_r10 := w\<rparr>;
     (w, st) \<leftarrow> pop st; let c = c\<lparr>r_r9 := w\<rparr>;
     (w, st) \<leftarrow> pop st; let c = c\<lparr>r_r8 := w\<rparr>;
     (w, st) \<leftarrow> pop st; let c = c\<lparr>r_rbp := w\<rparr>;
     (w, st) \<leftarrow> pop st; let c = c\<lparr>r_rdi := w\<rparr>;
     (w, st) \<leftarrow> pop st; let c = c\<lparr>r_rsi := w\<rparr>;
     (w, st) \<leftarrow> pop st; let c = c\<lparr>r_rdx := w\<rparr>;
     (w, st) \<leftarrow> pop st; let c = c\<lparr>r_rcx := w\<rparr>;
     (w, st) \<leftarrow> pop st; let c = c\<lparr>r_rbx := w\<rparr>;
     (w, st) \<leftarrow> pop st; let c = c\<lparr>r_rax := w\<rparr>;
     (_, st) \<leftarrow> pop st;
     (_, st) \<leftarrow> pop st;
     Some (c, st) }"

text \<open>The structure \<^verbatim>\<open>registers_t\<close> at the stack pointer: the fields in the order of \<^verbatim>\<open>regs.h\<close>, a word each.\<close>

definition frame_words :: "registers \<Rightarrow> u64 list" where
  "frame_words r =
     [r_r15 r, r_r14 r, r_r13 r, r_r12 r, r_r11 r, r_r10 r, r_r9 r, r_r8 r, r_rbp r, r_rdi r, r_rsi r, r_rdx r, r_rcx r,
      r_rbx r, r_rax r, r_vector r, r_error_code r, r_rip r, r_cs r, r_rflags r, r_rsp r, r_ss r]"

fun frame_at :: "u64 list \<Rightarrow> (registers \<times> u64 list) option" where
  "frame_at (r15 # r14 # r13 # r12 # r11 # r10 # r9 # r8 # rbp # rdi # rsi # rdx # rcx # rbx # rax # v # e # ip # cs # fl # p # ss # ws) =
     Some (\<lparr>r_r15 = r15, r_r14 = r14, r_r13 = r13, r_r12 = r12, r_r11 = r11, r_r10 = r10, r_r9 = r9, r_r8 = r8, r_rbp = rbp,
            r_rdi = rdi, r_rsi = rsi, r_rdx = rdx, r_rcx = rcx, r_rbx = rbx, r_rax = rax, r_vector = v, r_error_code = e,
            r_rip = ip, r_cs = cs, r_rflags = fl, r_rsp = p, r_ss = ss\<rparr>, ws)"
| "frame_at _ = None"

text \<open>
  An interrupt from the moment the processor accepts it to the end of \<^verbatim>\<open>iretq\<close>. The registers that \<^verbatim>\<open>isr_handler\<close>, as a C
  function, may change are restored from the frame like all others.
\<close>

definition stub_frame :: "u64 \<Rightarrow> u64 option \<Rightarrow> registers \<Rightarrow> stack" where
  "stub_frame v err c = isr_common_push c (isr_stub v (interrupt_push err c))"

definition interrupt_entry ::
  "devices \<Rightarrow> u64 \<Rightarrow> u64 option \<Rightarrow> registers \<Rightarrow> 'a kernel_scheme \<Rightarrow> 'a kernel_scheme isr_result option" where
  "interrupt_entry d v err c s = do {
     let st = stub_frame v err c;
     (frame, ws) \<leftarrow> frame_at (stack_words st);
     r \<leftarrow> isr_handler d frame s;
     case r of
       Halted s \<Rightarrow> Some (Halted s)
     | Return frame s \<Rightarrow> do {
         (c, st) \<leftarrow> isr_common_pop c (st\<lparr>stack_words := frame_words frame @ ws\<rparr>);
         c \<leftarrow> iretq c st;
         Some (Return (cpu_of c) s) } }"

section \<open>The frame\<close>

lemma frame_roundtrip: "frame_at (frame_words r @ ws) = Some (r, ws)"
  by (simp add: frame_words_def)

definition entry_frame :: "u64 \<Rightarrow> u64 option \<Rightarrow> registers \<Rightarrow> registers" where
  "entry_frame v err c = c\<lparr>r_vector := v, r_error_code := case err of None \<Rightarrow> 0 | Some e \<Rightarrow> e\<rparr>"

lemma stub_frame_words:
  assumes "v \<in> isr_err_stubs \<longleftrightarrow> err \<noteq> None"
  shows "stack_words (stub_frame v err c) = frame_words (entry_frame v err c)"
  using assms by (cases err) (simp_all add: entry_frame_def stub_frame_def isr_common_push_def isr_stub_def interrupt_push_def push_def frame_words_def)

lemma stub_frame_aligned:
  assumes "v \<in> isr_err_stubs \<longleftrightarrow> err \<noteq> None"
  shows "sp (stub_frame v err c) = (r_rsp c AND NOT 0xF) - 176"
  using assms by (cases err) (simp_all add: stub_frame_def isr_common_push_def isr_stub_def interrupt_push_def push_def)

lemma frame_restore:
  "\<exists>c' st'. isr_common_pop c (st\<lparr>stack_words := frame_words f @ ws\<rparr>) = Some (c', st') \<and>
     iretq c' st' = Some (f\<lparr>r_vector := r_vector c, r_error_code := r_error_code c\<rparr>)"
  by (cases f; cases c) (simp add: isr_common_pop_def iretq_def pop_def frame_words_def)

lemma stub_entry:
  assumes "v \<in> isr_err_stubs \<longleftrightarrow> err \<noteq> None"
  shows "interrupt_entry d v err c s =
     map_option (\<lambda>r. case r of Halted s' \<Rightarrow> Halted s' | Return f s' \<Rightarrow> Return (cpu_of f) s') (isr_handler d (entry_frame v err c) s)"
proof -
  have fr: "frame_at (stack_words (stub_frame v err c)) = Some (entry_frame v err c, [])"
    using frame_roundtrip [of "entry_frame v err c" "[]"] stub_frame_words [OF assms, of c] by simp
  show ?thesis
  proof (cases "isr_handler d (entry_frame v err c) s")
    case (Some r)
    show ?thesis
    proof (cases r)
      case (Return f s')
      with Some fr frame_restore [where c = c and st = "stub_frame v err c" and f = f and ws = "[]"] show ?thesis by (auto simp: interrupt_entry_def)
    qed (use Some fr in \<open>simp add: interrupt_entry_def\<close>)
  qed (use fr in \<open>simp add: interrupt_entry_def\<close>)
qed

text \<open>
  The processor pushes an error code for the exceptions 21 and 29 as well, whose stubs push a second word in its place: the
  frame is shifted by one field, and the handler takes the error code for the instruction pointer.
\<close>

lemma shifted_frame:
  assumes "v \<in> {21, 29}"
  shows "\<exists>ws f. frame_at (stack_words (stub_frame v (Some e) c)) = Some (f, ws) \<and> r_vector f = v \<and> r_error_code f = 0 \<and>
           r_rip f = e \<and> r_cs f = r_rip c \<and> ws = [r_ss c]"
  using assms
  by (auto simp: stub_frame_def isr_common_push_def isr_stub_def interrupt_push_def push_def isr_err_stubs_def)

section \<open>Properties\<close>

text \<open>
  The documented exceptions for which the processor pushes an error code: double fault, invalid task state segment, segment not
  present, stack fault, general protection, page fault, alignment check, control protection, communication and security exception.
\<close>

definition error_code_vectors :: "u64 set" where
  "error_code_vectors = {8, 10, 11, 12, 13, 14, 17, 21, 29, 30}"

lemma documented_stubs: "v \<notin> {21, 29} \<Longrightarrow> v \<in> error_code_vectors \<longleftrightarrow> v \<in> isr_err_stubs"
  by (auto simp: error_code_vectors_def isr_err_stubs_def)

lemma aligned_frame: "((x :: u64) AND NOT 0xF) - 176 AND 0xF = 0"
proof -
  have "x AND NOT (mask 4) = push_bit 4 (drop_bit 4 x)" by (rule bit_word_eqI) (auto simp: bit_simps)
  moreover have "push_bit 4 y - 176 = push_bit 4 (y - 11)" for y :: u64 by (simp add: push_bit_eq_mult algebra_simps)
  moreover have "push_bit 4 y AND mask 4 = 0" for y :: u64 by (rule bit_word_eqI) (auto simp: bit_simps)
  ultimately have "(x AND NOT (mask 4)) - 176 AND mask 4 = 0" by simp
  then show ?thesis by (simp add: mask_eq_exp_minus_1)
qed

text \<open>
  C15. The interrupt stubs and the structure \<^verbatim>\<open>registers_t\<close> agree, for the interrupts and exceptions 0 to 47 of kernel code and with
  the processor pushing an error code exactly where its manual says. Except for the exceptions 21 and 29, at the call of \<^verbatim>\<open>isr_handler\<close> the words from the
  stack pointer on, which is a multiple of 16, are the fields of a \<^verbatim>\<open>registers_t\<close> that holds every register of the interrupted
  code, the vector and the error code, or 0; and when the handler returns, the processor goes on with exactly the registers that the
  handler left in the frame. For 21 and 29, whose stubs push a second word over the error code, the frame is shifted by one field: the
  handler finds the error code 0, the error code in place of the instruction pointer and the instruction pointer in place of
  the code segment.
\<close>

theorem interrupt_entry_frame:
  assumes "v < 48" "err \<noteq> None \<longleftrightarrow> v \<in> error_code_vectors"
  shows "if v \<in> {21, 29}
     then \<exists>f. frame_at (stack_words (stub_frame v err c)) = Some (f, [r_ss c]) \<and> r_vector f = v \<and> r_error_code f = 0 \<and>
            err = Some (r_rip f) \<and> r_cs f = r_rip c
     else stack_words (stub_frame v err c) = frame_words (entry_frame v err c) \<and> sp (stub_frame v err c) AND 0xF = 0 \<and>
       interrupt_entry d v err c s =
         map_option (\<lambda>r. case r of Halted s' \<Rightarrow> Halted s' | Return f s' \<Rightarrow> Return (cpu_of f) s') (isr_handler d (entry_frame v err c) s)"
proof (cases "v \<in> {21, 29}")
  case True
  then obtain e where "err = Some e" using assms(2) by (cases err) (auto simp: error_code_vectors_def)
  then show ?thesis using True shifted_frame [OF True, of e c] by auto
next
  case False
  then have a: "v \<in> isr_err_stubs \<longleftrightarrow> err \<noteq> None" using assms(2) documented_stubs by simp
  show ?thesis
    using False stub_frame_words [OF a, of c] stub_frame_aligned [OF a, of c] stub_entry [OF a, of d c s] aligned_frame [of "r_rsp c"] by simp
qed

theorem interrupt_entry_frame_witness:
  "interrupt_entry sample_devices 34 None zero_registers sample_kernel = Some (Return zero_registers (lapic_eoi sample_kernel)) \<and>
   sp (stub_frame 14 (Some 7) zero_registers) AND 0xF = 0 \<and>
   (\<exists>f ws. frame_at (stack_words (stub_frame 21 (Some 7) zero_registers)) = Some (f, ws) \<and> r_rip f = 7)"
proof -
  have a: "(34 :: u64) < 48" "((None :: u64 option) \<noteq> None) = (34 \<in> error_code_vectors)"
    "(14 :: u64) < 48" "(Some (7 :: u64) \<noteq> None) = (14 \<in> error_code_vectors)"
    "(21 :: u64) < 48" "(Some (7 :: u64) \<noteq> None) = (21 \<in> error_code_vectors)"
    by (simp_all add: error_code_vectors_def)
  have "isr_handler sample_devices (entry_frame 34 None zero_registers) sample_kernel =
      Some (Return (entry_frame 34 None zero_registers) (lapic_eoi sample_kernel))"
    by (simp add: isr_handler_def entry_frame_def zero_registers_def)
  then have "interrupt_entry sample_devices 34 None zero_registers sample_kernel = Some (Return zero_registers (lapic_eoi sample_kernel))"
    using interrupt_entry_frame [OF a(1,2), of zero_registers sample_devices sample_kernel]
    by (simp add: entry_frame_def zero_registers_def)
  moreover have "sp (stub_frame 14 (Some 7) zero_registers) AND 0xF = 0"
    using interrupt_entry_frame [OF a(3,4), of zero_registers sample_devices sample_kernel] by simp
  moreover have "\<exists>f ws. frame_at (stack_words (stub_frame 21 (Some 7) zero_registers)) = Some (f, ws) \<and> r_rip f = 7"
    using interrupt_entry_frame [OF a(5,6), of zero_registers sample_devices sample_kernel] by fastforce
  ultimately show ?thesis by blast
qed

end
