(* ===== verification/Dispatch.thy ===== *)
theory Dispatch
  imports Stubs
begin

text \<open>
  Preemption from end to end: the timer interrupt through the stubs of \<^verbatim>\<open>isr.asm\<close>, the handler of \<^verbatim>\<open>isr.c\<close> and the
  scheduler, seen from the registers of the threads.
\<close>

section \<open>The timer interrupt\<close>

text \<open>A sequence of timer interrupts, each with the registers of the code that it interrupts. The result are the registers with which the processor goes on after the last one.\<close>

primrec timer_interrupts :: "devices \<Rightarrow> registers list \<Rightarrow> registers \<Rightarrow> 'a kernel_scheme \<Rightarrow> (registers \<times> 'a kernel_scheme) option" where
  "timer_interrupts d [] r s = Some (r, s)"
| "timer_interrupts d (c # cs) r s = do {
     x \<leftarrow> interrupt_entry d 32 None c s;
     case x of Halted _ \<Rightarrow> None | Return r s \<Rightarrow> timer_interrupts d cs r s }"

lemma timer_entry:
  fixes s :: "'a kernel_scheme"
  assumes inv: "sched_inv s q" "locked s = 0"
    and ts: "tick_spec (timer_ticks s + 1) (idle_thread s) (entry_frame 32 None c) (q, current s, table s) = (f, q', p, T)"
  shows "\<exists>s'. interrupt_entry d 32 None c s = Some (Return (cpu_of f) s') \<and> sched_inv s' q' \<and> current s' = p \<and> table s' = T \<and>
     idle_thread s' = idle_thread s \<and> locked s' = 0"
proof -
  let ?s = "s\<lparr>timer_ticks := timer_ticks s + 1\<rparr>"
  have "table ?s = table s" by (rule table_cong) simp
  then have "tick_spec (timer_ticks ?s) (idle_thread ?s) (entry_frame 32 None c) (q, current ?s, table ?s) = (f, q', p, T)" using ts by simp
  from scheduler_tick_spec [OF _ _ this] inv obtain s' where
    t: "scheduler_tick_irq (entry_frame 32 None c) ?s = Some (f, s')" "sched_inv s' q'" "current s' = p" "table s' = T"
      "idle_thread s' = idle_thread s" "locked s' = 0" by auto
  have c: "current s \<noteq> NULL" using inv(1) by (simp add: sched_inv_def)
  have "isr_handler d (entry_frame 32 None c) s = Some (Return f (lapic_eoi s'))"
    using t(1) c by (simp add: isr_handler_def entry_frame_def scheduler_current_def)
  then have "interrupt_entry d 32 None c s = Some (Return (cpu_of f) (lapic_eoi s'))"
    using stub_entry [of 32 None d c s] by (simp add: isr_err_stubs_def)
  moreover have "table (lapic_eoi s') = table s'" by (rule table_cong) (simp add: lapic_eoi_def lapic_write_def)
  ultimately show ?thesis using t(2-6) sched_same_inv [OF sched_same_simps(1), of s' q'] by (simp add: lapic_eoi_def lapic_write_def)
qed

section \<open>Two threads\<close>

text \<open>
  The thread \<open>x\<close> runs, with \<open>k\<close> ticks left; the thread \<open>y\<close> is the first in the queue, ready to go on with the registers \<open>r\<close>.
\<close>

definition contending :: "u64 \<Rightarrow> nat \<Rightarrow> u64 \<Rightarrow> registers \<Rightarrow> u64 list \<Rightarrow> 'a sched_scheme \<Rightarrow> bool" where
  "contending x k y r q s \<longleftrightarrow>
     sched_inv s (y # q) \<and> locked s = 0 \<and> current s = x \<and> x \<noteq> idle_thread s \<and>
     (\<exists>t. table s x = Some t \<and> th_state t = THREAD_RUNNING \<and> unat (quantum t) = k) \<and>
     (\<exists>t. table s y = Some t \<and> th_state t = THREAD_READY \<and> cpu_of (th_context t) = r)"

lemma contending_charged:
  assumes "contending x k y r q s"
  obtains t u where "charged n (y # q) x (table s) x = Some t" "th_state t = THREAD_RUNNING" "unat (quantum t) = k - 1"
    "charged n (y # q) x (table s) y = Some u" "th_state u = THREAD_READY" "cpu_of (th_context u) = r"
    "x \<noteq> y" "x \<notin> set q" "y \<notin> set q" "y \<noteq> idle_thread s"
proof -
  from assms obtain t u where t: "table s x = Some t" "th_state t = THREAD_RUNNING" "unat (quantum t) = k"
    and u: "table s y = Some u" "th_state u = THREAD_READY" "cpu_of (th_context u) = r" unfolding contending_def by blast
  have ne: "x \<noteq> y" "x \<notin> set q" "y \<notin> set q" "y \<noteq> idle_thread s"
    using assms by (auto simp: contending_def sched_inv_def abs_inv_def)
  let ?t = "if 0 < quantum t then t\<lparr>quantum := quantum t - 1\<rparr> else t"
  have "charged n (y # q) x (table s) x = Some ?t" "charged n (y # q) x (table s) y = Some u"
    using t u ne by (auto simp: charged_def waked_def wake_def Let_def)
  moreover have "unat (quantum ?t) = k - 1" "th_state ?t = THREAD_RUNNING"
    using t(2,3) by (auto simp: unat_minus_one word_gt_0 unat_eq_zero)
  ultimately show ?thesis using that u(2,3) ne by blast
qed

text \<open>With ticks left the interrupted code goes on, with its registers.\<close>

lemma contending_goes_on:
  fixes s :: "'a kernel_scheme"
  assumes c: "contending x (Suc (Suc k)) y r q s"
  shows "\<exists>s'. interrupt_entry d 32 None regs s = Some (Return (cpu_of regs) s') \<and> contending x (Suc k) y r q s'"
proof -
  let ?n = "timer_ticks s + 1"
  obtain t u where t: "charged ?n (y # q) x (table s) x = Some t" "th_state t = THREAD_RUNNING" "unat (quantum t) = Suc k"
    and u: "charged ?n (y # q) x (table s) y = Some u" "th_state u = THREAD_READY" "cpu_of (th_context u) = r"
    by (rule contending_charged [OF c, of ?n]) simp
  have i: "sched_inv s (y # q)" "locked s = 0" "current s = x" "x \<noteq> idle_thread s" using c by (auto simp: contending_def)
  have "0 < quantum t" using t(3) by (simp add: word_less_nat_alt)
  then have "tick_spec ?n (idle_thread s) (entry_frame 32 None regs) (y # q, current s, table s) =
      (entry_frame 32 None regs, y # q, x, charged ?n (y # q) x (table s))"
    using t(1) i(3) by (simp add: tick_spec_def)
  from timer_entry [OF i(1,2) this, of d] show ?thesis using t u i(4) by (auto simp: contending_def entry_frame_def)
qed

text \<open>On the last tick the threads change places: the first goes on later with the registers that it has now.\<close>

lemma contending_switches:
  fixes s :: "'a kernel_scheme"
  assumes c: "contending x k y r q s" and k: "k \<le> 1"
  shows "\<exists>s'. interrupt_entry d 32 None regs s = Some (Return r s') \<and> contending y (unat SCHEDULER_QUANTUM) x (cpu_of regs) q s'"
proof -
  let ?n = "timer_ticks s + 1" and ?f = "entry_frame 32 None regs" and ?T = "charged (timer_ticks s + 1) (y # q) x (table s)"
  obtain t u where t: "?T x = Some t" "th_state t = THREAD_RUNNING" "unat (quantum t) = k - 1"
    and u: "?T y = Some u" "th_state u = THREAD_READY" "cpu_of (th_context u) = r"
    and ne: "x \<noteq> y" "x \<notin> set q" "y \<notin> set q" "y \<noteq> idle_thread s"
    by (rule contending_charged [OF c, of ?n])
  have i: "sched_inv s (y # q)" "locked s = 0" "current s = x" "x \<noteq> idle_thread s" using c by (auto simp: contending_def)
  have z: "quantum t = 0" using t(3) k by (simp add: unat_eq_zero)
  have pk: "pick_spec (idle_thread s) (y # q) ?T = (y, q)" using u by (simp add: pick_spec_def is_ready_def)
  let ?t = "t\<lparr>th_state := THREAD_READY, quantum := SCHEDULER_QUANTUM, th_context := save_context ?f (th_context t)\<rparr>"
  have ts: "tick_spec ?n (idle_thread s) ?f (y # q, current s, table s) =
      (load_context (th_context u) ?f, x # q, y, ?T(x \<mapsto> ?t, y \<mapsto> dispatched u))"
    using t u z ne i(3,4) by (simp add: tick_spec_def pk put_spec_def Let_def)
  have "cpu_of (load_context (th_context u) ?f) = r" unfolding u(3) [symmetric] by (simp add: load_context_def)
  moreover have "cpu_of (th_context ?t) = cpu_of regs" by (simp add: save_context_def entry_frame_def)
  ultimately show ?thesis using timer_entry [OF i(1,2) ts, of d] ne u(2) i(4)
    by (auto simp: contending_def dispatched_def)
qed

lemma contending_quantum:
  fixes s :: "'a kernel_scheme"
  assumes "contending x (Suc k) y r q s" "length cs = Suc k"
  shows "\<exists>s'. timer_interrupts d cs r0 s = Some (r, s') \<and> contending y (unat SCHEDULER_QUANTUM) x (cpu_of (last cs)) q s'"
  using assms
proof (induction k arbitrary: cs r0 s)
  case 0
  then obtain c where "cs = [c]" by (cases cs) auto
  then show ?case using contending_switches [OF 0(1), of d c] by auto
next
  case (Suc k)
  then obtain c cs' where cs: "cs = c # cs'" "length cs' = Suc k" by (cases cs) auto
  from contending_goes_on [OF Suc.prems(1), of d c] obtain s1 where
    s1: "interrupt_entry d 32 None c s = Some (Return (cpu_of c) s1)" "contending x (Suc k) y r q s1" by blast
  have "last cs = last cs'" using cs by (cases cs') auto
  then show ?case using Suc.IH [OF s1(2) cs(2), of "cpu_of c"] s1(1) cs(1) by simp
qed

section \<open>Properties\<close>

text \<open>
  C4. Preemption loses nothing. When the last tick of the running thread is used up, the timer interrupt, from the pushes of the processor through
  stub, handler and scheduler to \<^verbatim>\<open>iretq\<close>, continues the first ready thread of the queue with exactly the registers with which that was
  preempted. The other one keeps the processor for the ten timer interrupts of a quantum, whatever it does with the registers; at the last of them
  the preempted thread goes on with exactly the registers that it had, and its place in the queue is taken by the other.
\<close>

theorem preempted_thread_resumes:
  fixes s :: "'a kernel_scheme"
  assumes "contending x k y r q s" and "k \<le> 1" and "length cs = 10"
  shows "\<exists>s1 s2. interrupt_entry d 32 None c s = Some (Return r s1) \<and> current s1 = y \<and>
     timer_interrupts d cs r s1 = Some (cpu_of c, s2) \<and> contending x 10 y (cpu_of (last cs)) q s2"
proof -
  have q: "unat SCHEDULER_QUANTUM = Suc 9" by (simp add: SCHEDULER_QUANTUM_def)
  from contending_switches [OF assms(1,2), of d c, unfolded q] obtain s1 where
    s1: "interrupt_entry d 32 None c s = Some (Return r s1)" "contending y (Suc 9) x (cpu_of c) q s1" by blast
  have "current s1 = y" using s1(2) by (simp add: contending_def)
  then show ?thesis using contending_quantum [OF s1(2), of cs d r] assms(3) s1(1) by (auto simp: q)
qed

theorem preempted_thread_resumes_witness:
  "\<exists>s1 s2. interrupt_entry sample_devices 32 None (zero_registers\<lparr>r_rax := 7\<rparr>) sample_kernel =
       Some (Return (initial_context 0x222 0x8000 zero_registers) s1) \<and> current s1 = 0x6000 \<and>
     timer_interrupts sample_devices (replicate 10 zero_registers) (initial_context 0x222 0x8000 zero_registers) s1 =
       Some (zero_registers\<lparr>r_rax := 7\<rparr>, s2) \<and> current s2 = 0x5000"
proof -
  let ?r = "initial_context 0x222 0x8000 zero_registers"
  have "contending 0x5000 1 0x6000 ?r [] sample_kernel"
    by (simp add: contending_def sched_inv_def abs_inv_def nexts_def table_def sample_kernel_sched sample_sched_fields
        sample_thread_def zero_thread_def initial_context_def zero_registers_def)
  from preempted_thread_resumes [OF this, of "replicate 10 zero_registers" sample_devices "zero_registers\<lparr>r_rax := 7\<rparr>"]
  show ?thesis by (auto simp: contending_def zero_registers_def)
qed

end
