(* ===== verification/Spec2Isabelle.thy ===== *)
theory Spec2Isabelle
  imports BootSample Dispatch
begin

text \<open>
  A model of the DedOS kernel (\<^verbatim>\<open>src/kernel/src\<close>) and the properties that make its parts correct.

  \<^bold>\<open>The program.\<close> DedOS is a small kernel for x86-64 in C, started by the Limine boot loader. At the bottom a
  bitmap allocator hands out physical pages (\<^verbatim>\<open>mm/pmm.c\<close>). On it rest the page tables (\<^verbatim>\<open>mm/vmm.c\<close>) and, on both, the kernel
  heap (\<^verbatim>\<open>mm/heap.c\<close>) with slabs for small blocks and mapped pages for large ones. The kernel reads the ACPI
  tables (\<^verbatim>\<open>acpi/\<close>), programs descriptor tables and interrupt controllers (\<^verbatim>\<open>arch/x86_64/\<close>), takes keys
  from the keyboard (\<^verbatim>\<open>drivers/keyboard.c\<close>), switches threads on the timer interrupt (\<^verbatim>\<open>scheduler/\<close>), logs
  over the serial port (\<^verbatim>\<open>utils/\<close>) and keeps a file system in memory (\<^verbatim>\<open>fs/\<close>).

  \<^bold>\<open>Conventions.\<close> Integers are words of their C width, a null pointer is \<open>0\<close>, an operation that may fault or
  not return has an \<open>option\<close> result in which \<open>None\<close> is undefined behaviour or a loop without end. The state is
  one record that each component extends: the log, the page allocator, the memory with its page tables, the heap,
  the ACPI data, the interrupt controllers, the scheduler, the keyboard and the file systems. Memory is a
  function from addresses to 64-bit cells; below the heap's address range it is mapped directly, and no access faults there; above it
  the model walks the page tables. Device registers are functions of the trace of port and memory accesses,
  so that the hardware is a parameter, with its documented behaviour as a hypothesis where a property needs it.
  Structures of threads, processes and file-system nodes are kept in typed stores at the addresses that the
  modelled \<^verbatim>\<open>kmalloc\<close> returned; heap headers, slabs, page tables, strings and file contents are cells of memory.
  Loops are recursive functions with a measure, or \<open>partial_function (option)\<close> where they may run forever;
  there is no fuel, and properties state that the operation returns.

  \<^bold>\<open>The theories.\<close>
  \<^item> \<open>Prelude\<close>: words, pages, linked lists over a partial store, the counting loop, the log.
  \<^item> \<open>Pmm\<close>: \<^verbatim>\<open>pmm.c\<close>. Invariant of bitmap and counter, lowest free page, round trip; interface \<open>frame_allocator\<close>.
  \<^item> \<open>Vmm\<close>: \<^verbatim>\<open>vmm.c\<close>. Mapping, unmapping and lookup refine operations on an address space; interface \<open>address_space\<close>.
  \<^item> \<open>Memory\<close>, \<open>CString\<close>: loads and stores through the page tables; \<^verbatim>\<open>lib/string.c\<close> against list functions.
  \<^item> \<open>Heap\<close>, \<open>HeapSpec\<close>, \<open>HeapPages\<close>, \<open>KernelHeap\<close>: \<^verbatim>\<open>heap.c\<close>. Slabs, page blocks, their invariant, and the
    contract of \<^verbatim>\<open>kmalloc\<close> and \<^verbatim>\<open>kfree\<close> as the interface \<open>kernel_heap\<close>; \<open>HeapClient\<close> adds the count of free pages.
  \<^item> \<open>Keyboard\<close>: \<^verbatim>\<open>keyboard.c\<close>. The ring buffer implements the interface \<open>bounded_queue\<close>; keys are delivered in order; the
    blocking read goes instruction by instruction, with interrupts in between.
  \<^item> \<open>Io\<close>, \<open>Pic\<close>, \<open>Descriptors\<close>, \<open>Apic\<close>: port access, \<^verbatim>\<open>pic.c\<close>, \<^verbatim>\<open>gdt.c\<close>, \<^verbatim>\<open>gdt.asm\<close> and \<^verbatim>\<open>idt.c\<close>, \<^verbatim>\<open>apic/\<close>. The effect of the
    register writes on devices that answer as documented, and the layout of descriptors and gates.
  \<^item> \<open>Kprintf\<close>: \<^verbatim>\<open>kprintf.c\<close> and \<^verbatim>\<open>log.c\<close>. Numerals and log lines.
  \<^item> \<open>Acpi\<close>: \<^verbatim>\<open>acpi.c\<close> and \<^verbatim>\<open>madt.c\<close>. Table search and the parser of the interrupt controller table,
    over packed structures laid out as the headers declare them. \<open>Madt\<close>: the parser undoes an encoder of the table. \<open>Drivers\<close>: the start
    of the interrupt hardware on a machine with a heap and firmware tables.
  \<^item> \<open>Threads\<close>, \<open>Scheduler\<close>, \<open>Interrupts\<close>: \<^verbatim>\<open>scheduler/\<close> and \<^verbatim>\<open>isr.c\<close>. The tick refines a scheduler on lists; a step
    relation of the kernel for what never happens. \<open>ThreadSpec\<close>: threads and processes on the heap, from creation to destruction.
  \<^item> \<open>Stubs\<close>: \<^verbatim>\<open>isr.asm\<close>. The words on the stack are the structure that the handler expects, except for the exceptions 21 and 29, and the registers come back from it.
    \<open>Dispatch\<close>: preemption from end to end, through stubs, handler and scheduler, loses no register.
  \<^item> \<open>Vfs\<close>, \<open>Tmpfs\<close>, \<open>TmpfsSpec\<close>: \<^verbatim>\<open>fs/vfs.c\<close> and \<^verbatim>\<open>fs/tmpfs.c\<close>. The walk along a path over the interface
    \<open>file_service\<close>, the tree that the nodes represent, lookup, creation and reading in it. \<open>TmpfsTree\<close>: the insertion
    by path as an operation on trees without addresses.
  \<^item> \<open>Initrd\<close>: \<^verbatim>\<open>fs/initrd.c\<close>. The archive that the boot loader leaves in memory is unpacked into the file system;
    the result is the tree that a fold over the entries of the archive computes.
  \<^item> \<open>Kmain\<close>: \<^verbatim>\<open>main.c\<close>. The boot sequence over all components: the memory managers come up, and at the end the tasks
    are queued under the invariant of the scheduler.
  \<^item> \<open>Boot\<close>: the stages composed. From the promises of the boot loader, the linker and the devices, with ACPI 1.0 tables, \<^verbatim>\<open>kmain\<close> reaches its final halt with
    the archive unpacked, the test file read and both tasks queued. \<open>BootSample\<close>: a concrete machine for which all of this holds.

  \<^bold>\<open>Not modelled.\<close> The boot loader, whose responses are a parameter of the boot sequence, and the request objects by which it
  finds the kernel; the terminal library, which the sources only call; the linker script and build files; prototypes and macros
  that no code uses. Every function of the sources and every assembly routine has a definition.
  The model is sequential: an interrupt is a step between two operations (only in \<^verbatim>\<open>keyboard_getchar\<close> it may come between two instructions), none
  comes during the boot sequence, and disabling interrupts has no effect.
\<close>

end
